(* ===== verification/Bun_Prelude.thy ===== *)
theory Bun_Prelude
  imports Main "HOL-Library.Word" "HOL-Library.Char_ord" "HOL-Library.List_Lexorder"
    "HOL-Library.Product_Lexorder"
begin

text \<open>
  Shared vocabulary of the development: machine types, Rust's three-way comparison, bytes and
  byte strings, index-based scanning loops, little-endian encodings, and the generic list and
  word lemmas the component theories rest on.

  A Rust \<open>u8\<close> is an Isabelle \<^typ>\<open>char\<close> (both have 256 values, ordered by their code), so a
  \<open>&[u8]\<close> is a \<^typ>\<open>string\<close> and byte literals can be written as text. \<open>u32\<close> and \<open>u64\<close> are
  words. A \<open>usize\<close> that only indexes a buffer is a \<^typ>\<open>nat\<close>.
\<close>

section \<open>Machine types\<close>

type_synonym byte = char
type_synonym bytes = string
type_synonym u32 = "32 word"
type_synonym u64 = "64 word"

named_theorems rust_defs \<open>definitions of the small Rust library helpers\<close>
named_theorems byte_class \<open>facts about the classification of bytes\<close>

text \<open>Rust's \<open>saturating_add\<close> on an unsigned integer.\<close>

definition saturating_add :: "'a::len word \<Rightarrow> 'a word \<Rightarrow> 'a word" where
  "saturating_add a b = (if unat a + unat b < 2 ^ LENGTH('a) then a + b else - 1)"

lemma saturating_add_ge: "a \<le> saturating_add a b"
  by (auto simp: saturating_add_def word_le_nat_alt unat_word_ariths
      intro: max_word_max [unfolded word_le_nat_alt])

lemma saturating_add_one_gt: "a < saturating_add a 1" if "a \<noteq> - 1"
proof -
  from that have "a < - 1"
    by (simp add: order_less_le)
  moreover have "unat (- 1 :: 'a word) < 2 ^ LENGTH('a)"
    by (rule unsigned_less)
  ultimately have "unat a + 1 < 2 ^ LENGTH('a)"
    unfolding word_less_nat_alt by linarith
  then show ?thesis
    by (simp add: saturating_add_def word_less_nat_alt unat_word_ariths)
qed

lemma less_saturating_add_one: "x < saturating_add a 1 \<longleftrightarrow> x \<le> a" if "a < - 1"
proof -
  have "unat (- 1 :: 'a word) < 2 ^ LENGTH('a)"
    by (rule unsigned_less)
  with that have "unat a + 1 < 2 ^ LENGTH('a)"
    unfolding word_less_nat_alt by linarith
  then show ?thesis
    by (auto simp: saturating_add_def word_less_nat_alt word_le_nat_alt unat_word_ariths)
qed

section \<open>Three-way comparison\<close>

text \<open>\<open>core::cmp::Ordering\<close> and \<open>Ord::cmp\<close>.\<close>

datatype ordering = Less | Equal | Greater

definition cmp :: "'a::linorder \<Rightarrow> 'a \<Rightarrow> ordering" where
  "cmp a b = (if a < b then Less else if b < a then Greater else Equal)"

fun reverse_ordering :: "ordering \<Rightarrow> ordering" where
  "reverse_ordering Less = Greater"
| "reverse_ordering Equal = Equal"
| "reverse_ordering Greater = Less"

lemma cmp_simps [simp]:
  "cmp a b = Less \<longleftrightarrow> a < b"
  "cmp a b = Equal \<longleftrightarrow> a = b"
  "cmp a b = Greater \<longleftrightarrow> b < a"
  by (auto simp: cmp_def)

lemma cmp_refl [simp]: "cmp a a = Equal"
  by simp

lemma cmp_reverse: "reverse_ordering (cmp a b) = cmp b a"
  by (auto simp: cmp_def)

lemma cmp_prod:
  "cmp (a, b) (c, d) = (case cmp a c of Equal \<Rightarrow> cmp b d | r \<Rightarrow> r)"
  by (auto simp: cmp_def)

lemma cmp_prod_extend:
  assumes "cmp (a, b, c, d) (a', b', c', d') \<noteq> Equal"
  shows "cmp (a, b, c, d, e) (a', b', c', d', e') = cmp (a, b, c, d) (a', b', c', d')"
  using assms
  by (cases "cmp a a'"; cases "cmp b b'"; cases "cmp c c'"; cases "cmp d d'")
    (simp_all add: cmp_prod del: cmp_simps)

lemma cmp_Cons:
  "cmp (x # xs) (y # ys) = (case cmp x y of Equal \<Rightarrow> cmp xs ys | r \<Rightarrow> r)"
  by (auto simp: cmp_def)

lemma cmp_Nil:
  "cmp [] [] = Equal" "cmp [] (y # ys) = Less" "cmp (y # ys) [] = Greater"
  by (simp_all add: cmp_def)

section \<open>Bytes\<close>

text \<open>The ASCII classes of \<open>u8\<close>; \<open>is_ascii_whitespace\<close> does not contain the vertical tab.\<close>

definition is_ascii_digit :: "byte \<Rightarrow> bool" where
  "is_ascii_digit c \<longleftrightarrow> CHR ''0'' \<le> c \<and> c \<le> CHR ''9''"

definition is_ascii_alphabetic :: "byte \<Rightarrow> bool" where
  "is_ascii_alphabetic c \<longleftrightarrow> c \<in> {CHR ''A''..CHR ''Z''} \<union> {CHR ''a''..CHR ''z''}"

definition is_ascii_alphanumeric :: "byte \<Rightarrow> bool" where
  "is_ascii_alphanumeric c \<longleftrightarrow> is_ascii_alphabetic c \<or> is_ascii_digit c"

definition is_ascii_whitespace :: "byte \<Rightarrow> bool" where
  "is_ascii_whitespace c \<longleftrightarrow> c \<in> {CHR '' '', CHR 0x09, CHR 0x0A, CHR 0x0C, CHR 0x0D}"

lemmas byte_class_defs =
  is_ascii_digit_def is_ascii_alphabetic_def is_ascii_alphanumeric_def is_ascii_whitespace_def

lemma char_le_code: "(c :: char) \<le> d \<longleftrightarrow> (of_char c :: nat) \<le> of_char d"
  by (simp add: less_eq_char_def)

lemma char_code_lt: "(of_char c :: nat) < 256"
  by (metis of_char_mod_256 mod_less_divisor zero_less_numeral)

lemma char_eq_code: "c = d \<longleftrightarrow> (of_char c :: nat) = of_char d"
  by (metis char_of_char)

section \<open>Scanning loops\<close>

text \<open>
  \<open>while i < xs.len() && p(xs[i]) { i += 1; }\<close>: the first index at or after \<open>i\<close> whose element
  does not satisfy \<open>p\<close>, or the length.
\<close>

definition skip_while :: "('a \<Rightarrow> bool) \<Rightarrow> 'a list \<Rightarrow> nat \<Rightarrow> nat" where
  "skip_while p xs i = i + length (takeWhile p (drop i xs))"

lemma skip_while_step:
  "skip_while p xs i = (if i < length xs \<and> p (xs ! i) then skip_while p xs (Suc i) else i)"
  by (cases "i < length xs") (simp_all add: skip_while_def Cons_nth_drop_Suc [symmetric])

lemma skip_while_ge [simp]: "i \<le> skip_while p xs i"
  by (simp add: skip_while_def)

lemma skip_while_Suc_gt [simp]: "i < skip_while p xs (Suc i)" "i < Suc (skip_while p xs (Suc i))"
  by (simp_all add: skip_while_def)

lemma skip_while_le: "i \<le> length xs \<Longrightarrow> skip_while p xs i \<le> length xs"
  using length_takeWhile_le [of p "drop i xs"] by (simp add: skip_while_def)

lemma skip_while_gt: "i < length xs \<Longrightarrow> p (xs ! i) \<Longrightarrow> i < skip_while p xs i"
  using skip_while_ge [of "Suc i" p xs] skip_while_step [of p xs i] by (simp del: skip_while_ge)

lemma skip_while_stop: "skip_while p xs i < length xs \<Longrightarrow> \<not> p (xs ! skip_while p xs i)"
  using nth_length_takeWhile [of p "drop i xs"] by (simp add: skip_while_def)

lemma skip_while_append:
  assumes "\<forall>x\<in>set ys. p x" and "zs = [] \<or> \<not> p (hd zs)" and "i = length xs"
  shows "skip_while p (xs @ ys @ zs) i = i + length ys"
proof -
  have "takeWhile p (ys @ zs) = ys"
    using assms(1,2) by (induction ys) (auto simp: takeWhile_eq_Nil_iff)
  then show ?thesis
    by (simp add: skip_while_def assms(3))
qed

text \<open>The slice \<open>&xs[a..b]\<close>.\<close>

definition subslice :: "'a list \<Rightarrow> nat \<Rightarrow> nat \<Rightarrow> 'a list" where
  "subslice xs a b = take (b - a) (drop a xs)"

lemma subslice_append [simp]:
  "a = length xs \<Longrightarrow> b = a + length ys \<Longrightarrow> subslice (xs @ ys @ zs) a b = ys"
  by (simp add: subslice_def)

lemma subslice_subslice: "b \<le> n \<Longrightarrow> subslice (subslice xs k (k + n)) a b = subslice xs (k + a) (k + b)"
  by (simp add: subslice_def drop_take take_drop [symmetric] add.commute)

lemma length_subslice: "b \<le> length xs \<Longrightarrow> length (subslice xs a b) = b - a"
  by (simp add: subslice_def)

text \<open>\<open>dst[start..start + src.len()].copy_from_slice(src)\<close>, for a range inside \<open>dst\<close>.\<close>

definition copy_at :: "'a list \<Rightarrow> nat \<Rightarrow> 'a list \<Rightarrow> 'a list" where
  "copy_at dst start src = take start dst @ src @ drop (start + length src) dst"

lemma length_copy_at: "start + length src \<le> length dst \<Longrightarrow> length (copy_at dst start src) = length dst"
  by (simp add: copy_at_def)

lemma nth_copy_at:
  assumes "start + length src \<le> length dst" and "i < length dst"
  shows "copy_at dst start src ! i =
    (if start \<le> i \<and> i < start + length src then src ! (i - start) else dst ! i)"
proof -
  have "start \<le> length dst" using assms(1) by simp
  then show ?thesis
    using assms by (auto simp: copy_at_def nth_append)
qed

lemma take_copy_at:
  "start + length src \<le> length dst \<Longrightarrow>
    take (start + length src) (copy_at dst start src) = take start dst @ src"
  by (simp add: copy_at_def)

lemma subslice_copy_at:
  "start + length src \<le> length dst \<Longrightarrow>
    subslice (copy_at dst start src) start (start + length src) = src"
  by (simp add: copy_at_def subslice_def)

section \<open>Little-endian encodings\<close>

text \<open>
  \<open>to_ne_bytes\<close> and \<open>from_ne_bytes\<close>; every platform the program ships on is little-endian.
\<close>

fun nat_of_le :: "bytes \<Rightarrow> nat" where
  "nat_of_le [] = 0"
| "nat_of_le (b # bs) = of_char b + 256 * nat_of_le bs"

fun le_of_nat :: "nat \<Rightarrow> nat \<Rightarrow> bytes" where
  "le_of_nat 0 v = []"
| "le_of_nat (Suc n) v = char_of (v mod 256) # le_of_nat n (v div 256)"

lemma length_le_of_nat [simp]: "length (le_of_nat n v) = n"
  by (induction n arbitrary: v) auto

lemma nat_of_le_of_nat: "nat_of_le (le_of_nat n v) = v mod 256 ^ n"
proof (induction n arbitrary: v)
  case (Suc n)
  have "v mod (256 * 256 ^ n) = v mod 256 + 256 * (v div 256 mod 256 ^ n)"
    by (simp add: mod_mult2_eq)
  then show ?case by (simp add: Suc.IH of_char_of)
qed simp

lemma nat_of_le_lt: "nat_of_le bs < 256 ^ length bs"
proof (induction bs)
  case (Cons b bs)
  have "(of_char b :: nat) < 256" by (rule char_code_lt)
  then have "of_char b + 256 * nat_of_le bs < 256 * Suc (nat_of_le bs)" by simp
  also have "\<dots> \<le> 256 * 256 ^ length bs" using Cons by (intro mult_left_mono) auto
  finally show ?case by simp
qed simp

lemma le_of_nat_of_le: "le_of_nat (length bs) (nat_of_le bs) = bs"
proof (induction bs)
  case (Cons b bs)
  have "(of_char b :: nat) < 256" by (rule char_code_lt)
  then have "(of_char b + 256 * nat_of_le bs) mod 256 = of_char b"
    and "(of_char b + 256 * nat_of_le bs) div 256 = nat_of_le bs" by auto
  then show ?case using Cons by (simp add: char_of_char)
qed simp

lemma nat_of_le_append: "nat_of_le (xs @ ys) = nat_of_le xs + 256 ^ length xs * nat_of_le ys"
  by (induction xs) (auto simp: algebra_simps)

lemma of_char_eq_0: "(of_char b :: nat) = 0 \<longleftrightarrow> b = CHR 0x00"
  using char_eq_code [of b "CHR 0x00"] by simp

lemma nat_of_le_eq_0: "nat_of_le bs = 0 \<longleftrightarrow> (\<forall>b\<in>set bs. b = CHR 0x00)"
  by (induction bs) (auto simp: of_char_eq_0)

lemma le_of_nat_add: "le_of_nat (m + n) v = le_of_nat m v @ le_of_nat n (v div 256 ^ m)"
  by (induction m arbitrary: v) (simp_all add: div_mult2_eq)

lemma le_of_nat_nth: "i < n \<Longrightarrow> le_of_nat n v ! i = char_of (v div 256 ^ i mod 256)"
proof (induction n arbitrary: v i)
  case (Suc n)
  then show ?case by (cases i) (simp_all add: div_mult2_eq)
qed simp

section \<open>Words\<close>

lemma unat_u32_less: "unat (w :: u32) < 2 ^ 32"
  using unsigned_less [of w] by simp

lemma unat_u64_less: "unat (w :: u64) < 2 ^ 64"
  using unsigned_less [of w] by simp

lemma unat_of_nat_u32: "n < 2 ^ 32 \<Longrightarrow> unat (of_nat n :: u32) = n"
  by (simp add: unat_of_nat)

lemma unat_of_nat_u32_le: "i \<le> n \<Longrightarrow> unat (of_nat i :: u32) \<le> n"
  by (simp add: unat_of_nat order_trans [OF mod_less_eq_dividend])

lemma unat_of_nat_u64: "n < 2 ^ 64 \<Longrightarrow> unat (of_nat n :: u64) = n"
  by (simp add: unat_of_nat)

section \<open>Counting\<close>

text \<open>The number of elements of a list, such as the threads of a program, that satisfy a predicate.\<close>

definition number :: "('a \<Rightarrow> bool) \<Rightarrow> 'a list \<Rightarrow> nat" where
  "number P ts = length (filter P ts)"

lemma number_update:
  assumes "i < length ts"
  shows "number P (ts[i := x]) + of_bool (P (ts ! i)) = number P ts + of_bool (P x)"
proof -
  have "number P ts = number P (take i ts) + of_bool (P (ts ! i)) + number P (drop (Suc i) ts)"
    using arg_cong [OF id_take_nth_drop [OF assms], of "number P"] by (simp add: number_def)
  moreover have "number P (ts[i := x]) = number P (take i ts) + of_bool (P x) + number P (drop (Suc i) ts)"
    using assms by (simp add: upd_conv_take_nth_drop number_def)
  ultimately show ?thesis by simp
qed

lemma number_zero: "(\<And>t. t \<in> set ts \<Longrightarrow> \<not> P t) \<Longrightarrow> number P ts = 0"
  by (simp add: number_def)

lemma number_pos: "j < length ts \<Longrightarrow> P (ts ! j) \<Longrightarrow> 0 < number P ts"
  unfolding number_def by (metis filter_empty_conv length_greater_0_conv nth_mem)

lemma number_exists: "0 < number P ts \<longleftrightarrow> (\<exists>t\<in>set ts. P t)"
  by (simp add: number_def filter_empty_conv)

lemma number_le_one: "number P ts \<le> 1 \<Longrightarrow> i < length ts \<Longrightarrow> j < length ts \<Longrightarrow> P (ts ! i) \<Longrightarrow> P (ts ! j) \<Longrightarrow> i = j"
  using card_le_Suc0_iff_eq [of "{k. k < length ts \<and> P (ts ! k)}"]
  by (simp add: number_def length_filter_conv_card)

section \<open>Step relations\<close>

text \<open>
  The contract between a concurrent component and its properties: an invariant that holds at the start
  and that every step of any thread keeps. Every state of every run then has it.
\<close>

locale safe_steps =
  fixes start :: "'s \<Rightarrow> bool" and step :: "'s \<Rightarrow> 's \<Rightarrow> bool" and inv :: "'s \<Rightarrow> bool"
  assumes start_inv: "start s \<Longrightarrow> inv s"
    and step_inv: "step s t \<Longrightarrow> inv s \<Longrightarrow> inv t"
begin

lemma run_inv: "step\<^sup>*\<^sup>* s t \<Longrightarrow> inv s \<Longrightarrow> inv t"
  by (induction rule: rtranclp_induct) (auto intro: step_inv)

lemma reachable_inv: "step\<^sup>*\<^sup>* s t \<Longrightarrow> start s \<Longrightarrow> inv t"
  using run_inv start_inv by blast

end

end
