(* ===== verification/Bun_Strings.thy ===== *)
theory Bun_Strings
  imports Bun_Prelude
begin

text \<open>
  The byte-string helpers of \<open>bun_core\<close> and \<open>bun_alloc\<close> that the components call: the integer
  parsers of \<open>fmt.rs\<close>, and trimming, splitting, leading whitespace and lexicographic order of
  \<open>string/immutable.rs\<close>. The lemmas give each loop its closed form and show that printing a
  number in decimal and parsing it back is the identity.
\<close>

section \<open>Integer parsing (\<open>bun_core/fmt.rs\<close>)\<close>

datatype parse_int_error = InvalidCharacter | Overflow

text \<open>The value of a digit in any radix up to 36.\<close>

definition digit_value :: "byte \<Rightarrow> nat option" where
  "digit_value c =
     (if CHR ''0'' \<le> c \<and> c \<le> CHR ''9'' then Some (of_char c - of_char (CHR ''0''))
      else if CHR ''a'' \<le> c \<and> c \<le> CHR ''z'' then Some (of_char c - of_char (CHR ''a'') + 10)
      else if CHR ''A'' \<le> c \<and> c \<le> CHR ''Z'' then Some (of_char c - of_char (CHR ''A'') + 10)
      else None)"

text \<open>The digit loop: \<open>_\<close> is skipped, the accumulator is a \<open>u128\<close> with checked arithmetic.\<close>

fun parse_digits :: "nat \<Rightarrow> bytes \<Rightarrow> nat \<Rightarrow> parse_int_error + nat" where
  "parse_digits radix [] acc = Inr acc"
| "parse_digits radix (c # cs) acc =
     (if c = CHR ''_'' then parse_digits radix cs acc
      else case digit_value c of
        None \<Rightarrow> Inl InvalidCharacter
      | Some d \<Rightarrow>
          (if radix \<le> d then Inl InvalidCharacter
           else if 2 ^ 128 \<le> acc * radix then Inl Overflow
           else if 2 ^ 128 \<le> acc * radix + d then Inl Overflow
           else parse_digits radix cs (acc * radix + d)))"

definition parse_with_sign :: "bytes \<Rightarrow> nat \<Rightarrow> parse_int_error + nat" where
  "parse_with_sign digits radix =
     (if digits = [] \<or> hd digits = CHR ''_'' \<or> last digits = CHR ''_'' then Inl InvalidCharacter
      else parse_digits radix digits 0)"

definition auto_radix :: "bytes \<Rightarrow> nat \<Rightarrow> bytes \<times> nat" where
  "auto_radix digits radix =
     (if radix \<noteq> 0 then (digits, radix)
      else if 2 \<le> length digits \<and> digits ! 0 = CHR ''0'' then
        (if digits ! 1 \<in> {CHR ''x'', CHR ''X''} then (drop 2 digits, 16)
         else if digits ! 1 \<in> {CHR ''o'', CHR ''O''} then (drop 2 digits, 8)
         else if digits ! 1 \<in> {CHR ''b'', CHR ''B''} then (drop 2 digits, 2)
         else (digits, 10))
      else (digits, 10))"

text \<open>
  \<open>parse_int::<T>\<close>: the target type is given by its least and greatest value. The magnitude is
  below \<open>2 ^ 128\<close>, so the intermediate \<open>i128\<close> is exact up to \<open>2 ^ 127\<close>.
\<close>

definition parse_int :: "int \<Rightarrow> int \<Rightarrow> bytes \<Rightarrow> nat \<Rightarrow> parse_int_error + int" where
  "parse_int lo hi buf radix =
     (if buf = [] then Inl InvalidCharacter
      else
        let (neg, rest) =
              (if hd buf = CHR ''+'' then (False, tl buf)
               else if hd buf = CHR ''-'' then (True, tl buf) else (False, buf));
            (digits, r) = auto_radix rest radix
        in case parse_with_sign digits r of
             Inl e \<Rightarrow> Inl e
           | Inr acc \<Rightarrow>
               (if neg then
                  (if 2 ^ 127 < acc then Inl Overflow
                   else if lo \<le> - int acc \<and> - int acc \<le> hi then Inr (- int acc) else Inl Overflow)
                else if lo \<le> int acc \<and> int acc \<le> hi then Inr (int acc) else Inl Overflow))"

definition parse_unsigned :: "nat \<Rightarrow> bytes \<Rightarrow> nat \<Rightarrow> parse_int_error + nat" where
  "parse_unsigned hi buf radix =
     (let (digits, r) = auto_radix buf radix in
      case parse_with_sign digits r of
        Inl e \<Rightarrow> Inl e
      | Inr acc \<Rightarrow> (if acc \<le> hi then Inr acc else Inl Overflow))"

section \<open>Trimming, whitespace and splitting (\<open>bun_core/string/immutable.rs\<close>)\<close>

definition WHITESPACE_CHARS :: "byte list" where
  "WHITESPACE_CHARS = [CHR '' '', CHR 0x09, CHR 0x0A, CHR 0x0D, CHR 0x0B, CHR 0x0C]"

definition trim_left :: "bytes \<Rightarrow> byte list \<Rightarrow> bytes" where
  "trim_left s chars = drop (skip_while (\<lambda>c. c \<in> set chars) s 0) s"

text \<open>\<open>trim_right\<close> moves the end of the slice left while its last byte is one of \<open>chars\<close>.\<close>

function trim_right_end :: "bytes \<Rightarrow> byte list \<Rightarrow> nat \<Rightarrow> nat" where
  "trim_right_end s chars e =
     (if 0 < e \<and> s ! (e - 1) \<in> set chars then trim_right_end s chars (e - 1) else e)"
  by pat_completeness auto
termination
  by (relation "measure (\<lambda>(s, chars, e). e)") auto

declare trim_right_end.simps [simp del]

definition trim_right :: "bytes \<Rightarrow> byte list \<Rightarrow> bytes" where
  "trim_right s chars = take (trim_right_end s chars (length s)) s"

definition trim :: "bytes \<Rightarrow> byte list \<Rightarrow> bytes" where
  "trim s chars = trim_right (trim_left s chars) chars"

definition length_of_leading_whitespace_ascii :: "bytes \<Rightarrow> nat" where
  "length_of_leading_whitespace_ascii s = skip_while (\<lambda>c. c \<in> set WHITESPACE_CHARS) s 0"

text \<open>\<open>order\<close> is \<open>Ord::cmp\<close> on byte slices.\<close>

definition order_bytes :: "bytes \<Rightarrow> bytes \<Rightarrow> ordering" where
  "order_bytes a b = cmp a b"

text \<open>\<open>index_of\<close> with a one-byte needle.\<close>

definition index_of_char :: "bytes \<Rightarrow> byte \<Rightarrow> nat option" where
  "index_of_char s c =
     (let i = skip_while (\<lambda>x. x \<noteq> c) s 0 in if i < length s then Some i else None)"

text \<open>The iterator returned by \<open>strings::split\<close>; the delimiter is the single byte \<open>delim\<close>.\<close>

record split_iterator =
  si_buffer :: bytes
  si_index :: "nat option"
  si_delim :: byte

definition strings_split :: "bytes \<Rightarrow> byte \<Rightarrow> split_iterator" where
  "strings_split s d = \<lparr>si_buffer = s, si_index = Some 0, si_delim = d\<rparr>"

definition split_next :: "split_iterator \<Rightarrow> bytes option \<times> split_iterator" where
  "split_next it =
     (case si_index it of
        None \<Rightarrow> (None, it)
      | Some start \<Rightarrow>
          (case index_of_char (drop start (si_buffer it)) (si_delim it) of
             Some k \<Rightarrow>
               (Some (subslice (si_buffer it) start (k + start)),
                it\<lparr>si_index := Some (k + start + 1)\<rparr>)
           | None \<Rightarrow>
               (Some (subslice (si_buffer it) start (length (si_buffer it))),
                it\<lparr>si_index := None\<rparr>)))"

section \<open>Decimal printing\<close>

text \<open>\<open>Display\<close> of an unsigned integer.\<close>

fun decimal :: "nat \<Rightarrow> bytes" where
  "decimal n =
     (if n < 10 then [char_of (48 + n)] else decimal (n div 10) @ [char_of (48 + n mod 10)])"

declare decimal.simps [simp del]

section \<open>Closed forms\<close>

lemma digit_code: "n < 10 \<Longrightarrow> (of_char (char_of (48 + n) :: char) :: nat) = 48 + n"
  by (simp add: of_char_of)

lemma digit_chars:
  "char_of (48 :: nat) = CHR ''0''" "char_of (49 :: nat) = CHR ''1''" "char_of (50 :: nat) = CHR ''2''"
  "char_of (51 :: nat) = CHR ''3''" "char_of (52 :: nat) = CHR ''4''" "char_of (53 :: nat) = CHR ''5''"
  "char_of (54 :: nat) = CHR ''6''" "char_of (55 :: nat) = CHR ''7''" "char_of (56 :: nat) = CHR ''8''"
  "char_of (57 :: nat) = CHR ''9''"
  by (simp_all add: char_of_eq_iff)

lemmas decimal_eval = decimal.simps digit_chars

lemma is_ascii_digit_code [byte_class]:
  "is_ascii_digit c \<longleftrightarrow> 48 \<le> (of_char c :: nat) \<and> (of_char c :: nat) \<le> 57"
  by (simp add: is_ascii_digit_def char_le_code)

lemma digit_char: "n < 10 \<Longrightarrow> is_ascii_digit (char_of (48 + n :: nat))"
  by (simp add: is_ascii_digit_code digit_code)

lemma digit_value_char: "n < 10 \<Longrightarrow> digit_value (char_of (48 + n)) = Some n"
  by (simp add: digit_value_def char_le_code digit_code)

lemma digit_value_digit: "is_ascii_digit c \<Longrightarrow> digit_value c = Some (of_char c - 48)"
  by (simp add: digit_value_def is_ascii_digit_def)

lemma digit_not_underscore: "is_ascii_digit c \<Longrightarrow> c \<noteq> CHR ''_''"
  by (auto simp: is_ascii_digit_code)

lemma decimal_digits: "c \<in> set (decimal n) \<Longrightarrow> is_ascii_digit c"
proof (induction n rule: decimal.induct)
  case (1 n)
  then show ?case
    by (subst (asm) (2) decimal.simps) (auto simp: digit_char split: if_splits)
qed

lemma decimal_nonempty [simp]: "decimal n \<noteq> []"
  by (subst decimal.simps) simp

lemma length_decimal: "n < 10 ^ Suc k \<Longrightarrow> length (decimal n) \<le> Suc k"
proof (induction k arbitrary: n)
  case 0
  then show ?case by (subst decimal.simps) simp
next
  case (Suc k)
  then have "n div 10 < 10 ^ Suc k" by (simp add: div_less_iff_less_mult mult.commute)
  then show ?case using Suc.IH by (subst decimal.simps) simp
qed

text \<open>The value of a string of decimal digits.\<close>

definition decimal_value :: "bytes \<Rightarrow> nat \<Rightarrow> nat" where
  "decimal_value cs acc = foldl (\<lambda>a c. a * 10 + (of_char c - 48)) acc cs"

lemma decimal_value_mono: "acc \<le> decimal_value cs acc"
proof (induction cs arbitrary: acc)
  case (Cons c cs)
  have "acc \<le> acc * 10 + (of_char c - 48)" by simp
  also have "\<dots> \<le> decimal_value cs (acc * 10 + (of_char c - 48))" by (rule Cons.IH)
  finally show ?case by (simp add: decimal_value_def)
qed (simp add: decimal_value_def)

lemma decimal_value_decimal: "decimal_value (decimal n) 0 = n"
proof (induction n rule: decimal.induct)
  case (1 n)
  show ?case
  proof (cases "n < 10")
    case True
    then show ?thesis by (subst decimal.simps) (simp add: decimal_value_def digit_code)
  next
    case False
    with "1" have "decimal_value (decimal (n div 10)) 0 = n div 10" by simp
    with False show ?thesis
      by (subst decimal.simps) (simp add: decimal_value_def digit_code)
  qed
qed

lemma parse_digits_decimal:
  assumes "\<forall>c\<in>set cs. is_ascii_digit c" and "decimal_value cs acc < 2 ^ 128"
  shows "parse_digits 10 cs acc = Inr (decimal_value cs acc)"
  using assms
proof (induction cs arbitrary: acc)
  case (Cons c cs)
  let ?a = "acc * 10 + (of_char c - 48)"
  have v: "decimal_value (c # cs) acc = decimal_value cs ?a"
    by (simp add: decimal_value_def)
  have "?a < 2 ^ 128"
    using decimal_value_mono [of ?a cs] Cons.prems(2) by (simp only: v)
  moreover have "(of_char c :: nat) - 48 < 10"
    using Cons.prems(1) by (auto simp: is_ascii_digit_code)
  ultimately show ?case
    using Cons.prems Cons.IH [of ?a]
    by (simp add: v digit_not_underscore digit_value_digit)
qed (simp add: decimal_value_def)

lemma parse_with_sign_decimal: "n < 2 ^ 128 \<Longrightarrow> parse_with_sign (decimal n) 10 = Inr n"
proof -
  assume "n < 2 ^ 128"
  moreover have "hd (decimal n) \<in> set (decimal n)" "last (decimal n) \<in> set (decimal n)"
    by simp_all
  then have "hd (decimal n) \<noteq> CHR ''_''" "last (decimal n) \<noteq> CHR ''_''"
    by (blast dest: decimal_digits digit_not_underscore)+
  moreover have "\<forall>c\<in>set (decimal n). is_ascii_digit c"
    by (simp add: decimal_digits)
  ultimately show ?thesis
    by (simp add: parse_with_sign_def parse_digits_decimal decimal_value_decimal)
qed

lemma parse_unsigned_decimal:
  "n \<le> hi \<Longrightarrow> hi < 2 ^ 128 \<Longrightarrow> parse_unsigned hi (decimal n) 10 = Inr n"
  by (simp add: parse_unsigned_def auto_radix_def parse_with_sign_decimal)

lemma parse_int_decimal:
  assumes "int n \<le> hi" and "lo \<le> 0" and "n < 2 ^ 127"
  shows "parse_int lo hi (decimal n) 10 = Inr (int n)"
    and "- int n \<ge> lo \<Longrightarrow> parse_int lo hi (CHR ''-'' # decimal n) 10 = Inr (- int n)"
proof -
  have "hd (decimal n) \<in> set (decimal n)" by simp
  then have d: "is_ascii_digit (hd (decimal n))" by (rule decimal_digits)
  then have "hd (decimal n) \<noteq> CHR ''+''" "hd (decimal n) \<noteq> CHR ''-''"
    by (auto simp: is_ascii_digit_code)
  moreover have "parse_with_sign (decimal n) 10 = Inr n"
    using assms(3) by (intro parse_with_sign_decimal) simp
  ultimately show "parse_int lo hi (decimal n) 10 = Inr (int n)"
    and "- int n \<ge> lo \<Longrightarrow> parse_int lo hi (CHR ''-'' # decimal n) 10 = Inr (- int n)"
    using assms by (auto simp: parse_int_def auto_radix_def)
qed

text \<open>
  The fields an iterator has still to produce, as a list; \<open>split_next\<close> is its \<open>hd\<close> and \<open>tl\<close>.
\<close>

fun split_fields :: "byte \<Rightarrow> bytes \<Rightarrow> bytes list" where
  "split_fields d [] = [[]]"
| "split_fields d (c # cs) =
     (if c = d then [] # split_fields d cs
      else case split_fields d cs of [] \<Rightarrow> [[c]] | f # fs \<Rightarrow> (c # f) # fs)"

definition si_rest :: "split_iterator \<Rightarrow> bytes list" where
  "si_rest it =
     (case si_index it of None \<Rightarrow> [] | Some i \<Rightarrow> split_fields (si_delim it) (drop i (si_buffer it)))"

lemma split_fields_nonempty [simp]: "split_fields d s \<noteq> []"
  by (induction s) (auto split: list.splits)

lemma skip_while_Cons:
  "skip_while p (x # xs) 0 = (if p x then Suc (skip_while p xs 0) else 0)"
  by (simp add: skip_while_def)

lemma split_fields_index_of_char:
  "split_fields d s = (case index_of_char s d of
     None \<Rightarrow> [s] | Some k \<Rightarrow> take k s # split_fields d (drop (Suc k) s))"
proof (induction s)
  case Nil
  show ?case by (simp add: index_of_char_def skip_while_def)
next
  case (Cons c cs)
  then show ?case
    by (auto simp: index_of_char_def skip_while_Cons Let_def split: list.splits if_splits)
qed

lemma split_next_None_iff: "fst (split_next it) = None \<longleftrightarrow> si_rest it = []"
  by (auto simp: split_next_def si_rest_def split: option.splits)

lemma split_next_Some:
  assumes "split_next it = (Some f, it')"
  shows "si_rest it = f # si_rest it'"
proof (cases "si_index it")
  case None
  with assms show ?thesis by (simp add: split_next_def)
next
  case (Some i)
  show ?thesis
  proof (cases "index_of_char (drop i (si_buffer it)) (si_delim it)")
    case None
    with Some assms show ?thesis
      by (auto simp: split_next_def si_rest_def subslice_def
          split_fields_index_of_char [of "si_delim it" "drop i (si_buffer it)"])
  next
    case (Some k)
    with \<open>si_index it = Some i\<close> assms show ?thesis
      by (auto simp: split_next_def si_rest_def subslice_def add.commute
          split_fields_index_of_char [of "si_delim it" "drop i (si_buffer it)"])
  qed
qed

lemma split_next_cases:
  obtains "split_next it = (None, it)" "si_rest it = []"
  | f it' where "split_next it = (Some f, it')" "si_rest it = f # si_rest it'"
proof (cases "si_index it")
  case None
  then have "split_next it = (None, it)" "si_rest it = []"
    by (simp_all add: split_next_def si_rest_def)
  then show ?thesis by (rule that(1))
next
  case (Some i)
  obtain f it' where "split_next it = (Some f, it')"
    by (cases "index_of_char (drop i (si_buffer it)) (si_delim it)")
      (auto simp: split_next_def Some)
  then show ?thesis using split_next_Some that(2) by blast
qed

lemma si_rest_split [simp]: "si_rest (strings_split s d) = split_fields d s"
  by (simp add: si_rest_def strings_split_def)

lemma trim_right_end_le: "trim_right_end s chars e \<le> e"
  by (induction s chars e rule: trim_right_end.induct) (subst trim_right_end.simps, auto)

end
