(* ===== verification/Wyhash11.thy ===== *)
theory Wyhash11
  imports Bun_Prelude
begin

unbundle bit_operations_syntax

text \<open>
  \<open>src/src/wyhash/lib.rs\<close>: the 64-bit string hash \<open>Wyhash11\<close>, in its stateless form (used for
  short keys) and its streaming form, which buffers an incomplete 32-byte block between calls.
  The main result is that streaming any division of an input into chunks gives the one-shot hash
  of the whole input.
\<close>

section \<open>Primitives\<close>

definition PRIMES :: "nat \<Rightarrow> u64" where
  "PRIMES i = [0xa0761d6478bd642f, 0xe7037ed1a0b428db, 0x8ebc6af09c88c6e3,
               0x589965cc75374cc3, 0x1d8e4e27c47d124f] ! i"

definition read_bytes :: "nat \<Rightarrow> bytes \<Rightarrow> u64" where
  "read_bytes n data = of_nat (nat_of_le (take n data))"

definition read_8bytes_swapped :: "bytes \<Rightarrow> u64" where
  "read_8bytes_swapped data = push_bit 32 (read_bytes 4 data) OR read_bytes 4 (drop 4 data)"

definition mum :: "u64 \<Rightarrow> u64 \<Rightarrow> u64" where
  "mum a b = (let r = (ucast a * ucast b :: 128 word) in ucast (drop_bit 64 r XOR r))"

definition mix0 :: "u64 \<Rightarrow> u64 \<Rightarrow> u64 \<Rightarrow> u64" where
  "mix0 a b seed = mum (a XOR seed XOR PRIMES 0) (b XOR seed XOR PRIMES 1)"

definition mix1 :: "u64 \<Rightarrow> u64 \<Rightarrow> u64 \<Rightarrow> u64" where
  "mix1 a b seed = mum (a XOR seed XOR PRIMES 2) (b XOR seed XOR PRIMES 3)"

text \<open>The cold tail of \<open>final_\<close>: a remainder of 17 to 31 bytes; other lengths are unreachable.\<close>

definition final_long :: "u64 \<Rightarrow> bytes \<Rightarrow> u64" where
  "final_long seed key =
     (let head = mix0 (read_8bytes_swapped key) (read_8bytes_swapped (drop 8 key)) seed;
          n = length key;
          r1 = (\<lambda>k. read_bytes 1 (drop k key));
          r2 = (\<lambda>k. read_bytes 2 (drop k key));
          r4 = (\<lambda>k. read_bytes 4 (drop k key));
          s16 = read_8bytes_swapped (drop 16 key);
          tail =
            (if n = 17 then mix1 (r1 16) (PRIMES 4) seed
             else if n = 18 then mix1 (r2 16) (PRIMES 4) seed
             else if n = 19 then mix1 (push_bit 8 (r2 16) OR r1 18) (PRIMES 4) seed
             else if n = 20 then mix1 (r4 16) (PRIMES 4) seed
             else if n = 21 then mix1 (push_bit 8 (r4 16) OR r1 20) (PRIMES 4) seed
             else if n = 22 then mix1 (push_bit 16 (r4 16) OR r2 20) (PRIMES 4) seed
             else if n = 23 then
               mix1 (push_bit 24 (r4 16) OR push_bit 8 (r2 20) OR r1 22) (PRIMES 4) seed
             else if n = 24 then mix1 s16 (PRIMES 4) seed
             else if n = 25 then mix1 s16 (r1 24) seed
             else if n = 26 then mix1 s16 (r2 24) seed
             else if n = 27 then mix1 s16 (push_bit 8 (r2 24) OR r1 26) seed
             else if n = 28 then mix1 s16 (r4 24) seed
             else if n = 29 then mix1 s16 (push_bit 8 (r4 24) OR r1 28) seed
             else if n = 30 then mix1 s16 (push_bit 16 (r4 24) OR r2 28) seed
             else mix1 s16 (push_bit 24 (r4 24) OR push_bit 8 (r2 28) OR r1 30) seed)
      in head XOR tail)"

section \<open>The stateless hash\<close>

text \<open>\<open>n - (n % 32)\<close>, the length of the complete blocks of an input of length \<open>n\<close>.\<close>

definition block_floor :: "nat \<Rightarrow> nat" where
  "block_floor n = n - n mod 32"

record wyhash_stateless =
  ws_seed :: u64
  ws_msg_len :: nat

definition stateless_init :: "u64 \<Rightarrow> wyhash_stateless" where
  "stateless_init seed = \<lparr>ws_seed = seed, ws_msg_len = 0\<rparr>"

definition stateless_round :: "wyhash_stateless \<Rightarrow> bytes \<Rightarrow> wyhash_stateless" where
  "stateless_round st b =
     st\<lparr>ws_seed := mix0 (read_bytes 8 b) (read_bytes 8 (drop 8 b)) (ws_seed st)
               XOR mix1 (read_bytes 8 (drop 16 b)) (read_bytes 8 (drop 24 b)) (ws_seed st)\<rparr>"

function stateless_update_loop :: "wyhash_stateless \<Rightarrow> bytes \<Rightarrow> nat \<Rightarrow> wyhash_stateless" where
  "stateless_update_loop st b off =
     (if off < length b
      then stateless_update_loop (stateless_round st (subslice b off (off + 32))) b (off + 32)
      else st)"
  by pat_completeness auto
termination
  by (relation "measure (\<lambda>(st, b, off). length b - off)") auto

declare stateless_update_loop.simps [simp del]

definition stateless_update :: "wyhash_stateless \<Rightarrow> bytes \<Rightarrow> wyhash_stateless" where
  "stateless_update st b =
     (let st' = stateless_update_loop st b 0 in st'\<lparr>ws_msg_len := ws_msg_len st' + length b\<rparr>)"

definition final_seed :: "u64 \<Rightarrow> bytes \<Rightarrow> u64" where
  "final_seed seed key =
     (let n = length key;
          r1 = (\<lambda>k. read_bytes 1 (drop k key));
          r2 = (\<lambda>k. read_bytes 2 (drop k key));
          r4 = (\<lambda>k. read_bytes 4 (drop k key));
          s0 = read_8bytes_swapped key
      in if n = 0 then seed
         else if n = 1 then mix0 (r1 0) (PRIMES 4) seed
         else if n = 2 then mix0 (r2 0) (PRIMES 4) seed
         else if n = 3 then mix0 (push_bit 8 (r2 0) OR r1 2) (PRIMES 4) seed
         else if n = 4 then mix0 (r4 0) (PRIMES 4) seed
         else if n = 5 then mix0 (push_bit 8 (r4 0) OR r1 4) (PRIMES 4) seed
         else if n = 6 then mix0 (push_bit 16 (r4 0) OR r2 4) (PRIMES 4) seed
         else if n = 7 then
           mix0 (push_bit 24 (r4 0) OR push_bit 8 (r2 4) OR r1 6) (PRIMES 4) seed
         else if n = 8 then mix0 s0 (PRIMES 4) seed
         else if n = 9 then mix0 s0 (r1 8) seed
         else if n = 10 then mix0 s0 (r2 8) seed
         else if n = 11 then mix0 s0 (push_bit 8 (r2 8) OR r1 10) seed
         else if n = 12 then mix0 s0 (r4 8) seed
         else if n = 13 then mix0 s0 (push_bit 8 (r4 8) OR r1 12) seed
         else if n = 14 then mix0 s0 (push_bit 16 (r4 8) OR r2 12) seed
         else if n = 15 then
           mix0 s0 (push_bit 24 (r4 8) OR push_bit 8 (r2 12) OR r1 14) seed
         else if n = 16 then mix0 s0 (read_8bytes_swapped (drop 8 key)) seed
         else final_long seed key)"

definition stateless_final :: "wyhash_stateless \<Rightarrow> bytes \<Rightarrow> u64 \<times> wyhash_stateless" where
  "stateless_final st b =
     (let seed' = final_seed (ws_seed st) b;
          msg_len' = ws_msg_len st + length b
      in (mum (seed' XOR of_nat msg_len') (PRIMES 4),
          st\<lparr>ws_seed := seed', ws_msg_len := msg_len'\<rparr>))"

definition stateless_hash :: "u64 \<Rightarrow> bytes \<Rightarrow> u64" where
  "stateless_hash seed inp =
     (let aligned_len = block_floor (length inp);
          c = stateless_update (stateless_init seed) (subslice inp 0 aligned_len)
      in fst (stateless_final c (drop aligned_len inp)))"

section \<open>The streaming hash\<close>

record wyhash11 =
  w_state :: wyhash_stateless
  w_buf :: bytes
  w_buf_len :: nat

definition wyhash11_init :: "u64 \<Rightarrow> wyhash11" where
  "wyhash11_init seed =
     \<lparr>w_state = stateless_init seed, w_buf = replicate 32 (CHR 0x00), w_buf_len = 0\<rparr>"

definition wyhash11_update :: "wyhash11 \<Rightarrow> bytes \<Rightarrow> wyhash11" where
  "wyhash11_update h b =
     (let (off, h1) =
            (if w_buf_len h \<noteq> 0 \<and> 32 \<le> w_buf_len h + length b then
               (let off = 32 - w_buf_len h;
                    buf = copy_at (w_buf h) (w_buf_len h) (subslice b 0 off)
                in (off, \<lparr>w_state = stateless_update (w_state h) buf, w_buf = buf,
                          w_buf_len = 0\<rparr>))
             else (0, h));
          remain_len = length b - off;
          aligned_len = block_floor remain_len;
          st = stateless_update (w_state h1) (subslice b off (off + aligned_len));
          tail = drop (off + aligned_len) b
      in \<lparr>w_state = st, w_buf = copy_at (w_buf h1) (w_buf_len h1) tail,
          w_buf_len = w_buf_len h1 + length tail\<rparr>)"

definition wyhash11_final :: "wyhash11 \<Rightarrow> u64 \<times> wyhash11" where
  "wyhash11_final h =
     (let (r, st) = stateless_final (w_state h) (subslice (w_buf h) 0 (w_buf_len h))
      in (r, h\<lparr>w_state := st\<rparr>))"

definition wyhash11_hash :: "u64 \<Rightarrow> bytes \<Rightarrow> u64" where
  "wyhash11_hash seed inp = stateless_hash seed inp"

definition wyhash11_finish :: "wyhash11 \<Rightarrow> u64" where
  "wyhash11_finish h = fst (stateless_final (w_state h) (subslice (w_buf h) 0 (w_buf_len h)))"

section \<open>Streaming equals one-shot hashing\<close>

lemma update_loop_shift:
  "stateless_update_loop st (zs @ b) (length zs + off) = stateless_update_loop st b off"
proof (induction st b off rule: stateless_update_loop.induct)
  case (1 st b off)
  have "subslice (zs @ b) (length zs + off) (length zs + off + 32) = subslice b off (off + 32)"
    by (simp add: subslice_def)
  with "1.IH" show ?case
    by (simp add: stateless_update_loop.simps [of st b off]
        stateless_update_loop.simps [of st "zs @ b"] add.assoc)
qed

lemma update_loop_append:
  assumes "32 dvd length xs - off" and "off \<le> length xs"
  shows "stateless_update_loop st (xs @ ys) off
       = stateless_update_loop (stateless_update_loop st xs off) ys 0"
  using assms
proof (induction st xs off rule: stateless_update_loop.induct)
  case (1 st xs off)
  show ?case
  proof (cases "off < length xs")
    case True
    with "1.prems" have le: "off + 32 \<le> length xs"
      by (auto dest: dvd_imp_le)
    have dvd: "32 dvd length xs - (off + 32)"
      using dvd_diff_nat [OF "1.prems"(1) dvd_refl] by simp
    have "subslice (xs @ ys) off (off + 32) = subslice xs off (off + 32)"
      using le by (simp add: subslice_def)
    with "1.IH" [OF True dvd le] True le show ?thesis
      by (simp add: stateless_update_loop.simps [of st xs off]
          stateless_update_loop.simps [of st "xs @ ys" off])
  next
    case False
    with "1.prems" have "off = length xs" by simp
    then show ?thesis
      using update_loop_shift [of st xs ys 0]
      by (simp add: stateless_update_loop.simps [of st xs "length xs"])
  qed
qed

lemma update_loop_msg_len: "ws_msg_len (stateless_update_loop st b off) = ws_msg_len st"
  by (induction st b off rule: stateless_update_loop.induct)
    (subst stateless_update_loop.simps, simp add: stateless_round_def)

lemma update_loop_set_msg_len:
  "stateless_update_loop (st\<lparr>ws_msg_len := n\<rparr>) b off
   = (stateless_update_loop st b off)\<lparr>ws_msg_len := n\<rparr>"
proof (induction st b off rule: stateless_update_loop.induct)
  case (1 st b off)
  have "stateless_round (st\<lparr>ws_msg_len := n\<rparr>) c = (stateless_round st c)\<lparr>ws_msg_len := n\<rparr>" for c
    by (simp add: stateless_round_def)
  with "1.IH" show ?case
    by (simp add: stateless_update_loop.simps [of st b off]
        stateless_update_loop.simps [of "st\<lparr>ws_msg_len := n\<rparr>" b off])
qed

text \<open>Feeding two pieces one after the other is feeding their concatenation.\<close>

lemma stateless_update_append:
  assumes "32 dvd length xs"
  shows "stateless_update (stateless_update st xs) ys = stateless_update st (xs @ ys)"
  using assms
  by (simp add: stateless_update_def Let_def update_loop_append update_loop_set_msg_len
      update_loop_msg_len add.assoc)

lemma stateless_update_Nil: "stateless_update st [] = st"
  by (simp add: stateless_update_def stateless_update_loop.simps)

text \<open>
  The state of a streaming hash after the input \<open>xs\<close>: the complete blocks \<open>A\<close> of \<open>xs\<close> have been
  folded into the stateless hash and the incomplete block \<open>T\<close> is at the front of the buffer.
\<close>

definition streamed :: "u64 \<Rightarrow> bytes \<Rightarrow> wyhash11 \<Rightarrow> bool" where
  "streamed seed xs h \<longleftrightarrow>
     (\<exists>A T. xs = A @ T \<and> 32 dvd length A \<and> length T < 32 \<and>
        w_state h = stateless_update (stateless_init seed) A \<and>
        w_buf_len h = length T \<and> length (w_buf h) = 32 \<and> take (length T) (w_buf h) = T)"

lemma streamed_init: "streamed seed [] (wyhash11_init seed)"
  by (simp add: streamed_def wyhash11_init_def stateless_update_Nil)

lemma block_floor: "32 dvd block_floor n" "block_floor n \<le> n" "n - block_floor n < 32"
proof -
  show "32 dvd block_floor n" by (simp add: block_floor_def minus_mod_eq_mult_div)
  show "block_floor n \<le> n" by (simp add: block_floor_def)
  have "n - block_floor n = n mod 32" unfolding block_floor_def by (rule diff_diff_cancel) simp
  then show "n - block_floor n < 32" by simp
qed

lemma streamed_update:
  assumes "streamed seed xs h"
  shows "streamed seed (xs @ b) (wyhash11_update h b)"
proof -
  from assms obtain A T where xs: "xs = A @ T" and A: "32 dvd length A" and T: "length T < 32"
    and st: "w_state h = stateless_update (stateless_init seed) A"
    and buf: "w_buf_len h = length T" "length (w_buf h) = 32" "take (length T) (w_buf h) = T"
    by (auto simp: streamed_def)
  show ?thesis
  proof (cases "T \<noteq> [] \<and> 32 \<le> length T + length b")
    case True
    define off where "off = 32 - length T"
    define al where "al = block_floor (length b - off)"
    have off: "off \<le> length b" "length T + off = 32" using True T by (auto simp: off_def)
    have al: "32 dvd al" "off + al \<le> length b" "length b - (off + al) < 32"
      using off block_floor [of "length b - off"] by (auto simp: al_def)
    let ?buf = "copy_at (w_buf h) (length T) (take off b)"
    have b1: "?buf = T @ take off b"
      using buf off by (simp add: copy_at_def)
    let ?A = "A @ (T @ take off b) @ subslice b off (off + al)"
    let ?T = "drop (off + al) b"
    have upd: "wyhash11_update h b =
        \<lparr>w_state = stateless_update (stateless_update (w_state h) (T @ take off b))
           (subslice b off (off + al)), w_buf = copy_at (T @ take off b) 0 ?T,
         w_buf_len = length ?T\<rparr>"
      using True by (simp add: wyhash11_update_def Let_def buf b1 subslice_def
          flip: off_def al_def)
    have "xs @ b = ?A @ ?T"
      using xs al by (simp add: subslice_def) (metis add_diff_cancel_left' append_assoc append_take_drop_id drop_drop add.commute)
    moreover have "length ?A = length A + 32 + al"
      using off al by (simp add: subslice_def)
    then have "32 dvd length ?A"
      using A al(1) by simp
    moreover have "w_state (wyhash11_update h b) = stateless_update (stateless_init seed) ?A"
      using A off by (simp add: upd st stateless_update_append)
    moreover have "length (w_buf (wyhash11_update h b)) = 32"
      and "take (length ?T) (w_buf (wyhash11_update h b)) = ?T"
      using off al by (simp_all add: upd copy_at_def)
    ultimately show ?thesis
      unfolding streamed_def using al(3) by (intro exI [of _ ?A] exI [of _ ?T]) (auto simp: upd)
  next
    case False
    define al where "al = block_floor (length b)"
    have al: "32 dvd al" "al \<le> length b" "length b - al < 32"
      using block_floor [of "length b"] by (auto simp: al_def)
    have "al = 0" if "T \<noteq> []"
      using False that by (simp add: al_def block_floor_def)
    then have T': "length T + (length b - al) < 32" "T = [] \<or> al = 0"
      using False T al by auto
    let ?A = "A @ take al b"
    let ?T = "T @ drop al b"
    have upd: "wyhash11_update h b =
        \<lparr>w_state = stateless_update (w_state h) (take al b),
         w_buf = copy_at (w_buf h) (length T) (drop al b), w_buf_len = length ?T\<rparr>"
      using False al by (auto simp: wyhash11_update_def Let_def buf subslice_def
          simp flip: al_def)
    have "xs @ b = ?A @ ?T"
      using xs T'(2) by auto
    moreover have "w_state (wyhash11_update h b) = stateless_update (stateless_init seed) ?A"
      using A by (simp add: upd st stateless_update_append)
    moreover have "length (w_buf (wyhash11_update h b)) = 32"
      and "take (length ?T) (w_buf (wyhash11_update h b)) = ?T"
      using T' al buf by (simp_all add: upd copy_at_def)
    ultimately show ?thesis
      unfolding streamed_def using A al T'
      by (intro exI [of _ ?A] exI [of _ ?T]) (auto simp: upd)
  qed
qed

lemma streamed_finish:
  assumes "streamed seed xs h"
  shows "wyhash11_finish h = wyhash11_hash seed xs"
proof -
  from assms obtain A T where xs: "xs = A @ T" and A: "32 dvd length A" and T: "length T < 32"
    and h: "w_state h = stateless_update (stateless_init seed) A" "w_buf_len h = length T"
      "take (length T) (w_buf h) = T"
    by (auto simp: streamed_def)
  have "block_floor (length xs) = length A"
    using xs A T by (simp add: block_floor_def mod_add_eq [symmetric])
  then show ?thesis
    by (simp add: wyhash11_finish_def wyhash11_hash_def stateless_hash_def Let_def h xs subslice_def)
qed

section \<open>Chunking\<close>

text \<open>
  The contract of a streaming hash: \<open>holds xs h\<close> relates the input fed so far to the state. It
  makes the result independent of how the input is cut into chunks.
\<close>

locale streaming_hash =
  fixes start :: 'h
    and feed :: "'h \<Rightarrow> bytes \<Rightarrow> 'h"
    and result :: "'h \<Rightarrow> 'r"
    and one_shot :: "bytes \<Rightarrow> 'r"
    and holds :: "bytes \<Rightarrow> 'h \<Rightarrow> bool"
  assumes holds_start: "holds [] start"
    and holds_feed: "holds xs h \<Longrightarrow> holds (xs @ b) (feed h b)"
    and holds_result: "holds xs h \<Longrightarrow> result h = one_shot xs"
begin

lemma holds_chunks: "holds xs h \<Longrightarrow> holds (xs @ concat chunks) (foldl feed h chunks)"
proof (induction chunks arbitrary: xs h)
  case (Cons c cs)
  from Cons.IH [OF holds_feed [OF Cons.prems, of c]] show ?case by simp
qed simp

lemma chunking_irrelevant: "result (foldl feed start chunks) = one_shot (concat chunks)"
  using holds_result [OF holds_chunks [OF holds_start]] by simp

end

interpretation wyhash11_stream:
  streaming_hash "wyhash11_init seed" wyhash11_update wyhash11_finish "wyhash11_hash seed"
    "streamed seed" for seed
  by unfold_locales (rule streamed_init streamed_update streamed_finish; assumption?)+

section \<open>Properties\<close>

text \<open>
  C40. Feeding an input to the streaming \<open>Wyhash11\<close> in any number of chunks of any sizes and
  finishing gives the one-shot hash of the concatenation.
\<close>

theorem wyhash11_streaming:
  "wyhash11_finish (foldl wyhash11_update (wyhash11_init seed) chunks)
   = wyhash11_hash seed (concat chunks)"
  by (rule wyhash11_stream.chunking_irrelevant)

end
