(* ===== verification/Semver_String.thy ===== *)
theory Semver_String
  imports Wyhash11 Bun_Strings
begin

unbundle bit_operations_syntax

text \<open>
  \<open>src/src/semver/lib.rs\<close>: the eight-byte string handle \<open>semver::String\<close>, which holds a short
  string inline or an offset and a length into an external buffer, the hashed
  \<open>ExternalString\<close>, the deduplicating \<open>Buf\<close> and the two-pass \<open>Builder\<close>.

  A Rust slice is an address and its bytes (\<open>slice\<close>), because \<open>Pointer::init\<close> computes the offset
  as a difference of addresses. Arithmetic is that of a release build: debug assertions are not
  modelled, subtraction of addresses wraps. A panic of the source (\<open>expect\<close>, an out-of-range copy)
  is \<open>None\<close>.
\<close>

section \<open>Slices and sliced strings\<close>

record slice =
  s_addr :: u64
  s_data :: bytes

text \<open>The sub-slice \<open>&s[a..b]\<close>.\<close>

definition slice_sub :: "slice \<Rightarrow> nat \<Rightarrow> nat \<Rightarrow> slice" where
  "slice_sub s a b = \<lparr>s_addr = s_addr s + of_nat a, s_data = subslice (s_data s) a b\<rparr>"

record sliced_string =
  sl_buf :: slice
  sl_slice :: slice

definition SlicedString_sub :: "sliced_string \<Rightarrow> slice \<Rightarrow> sliced_string" where
  "SlicedString_sub s inp = \<lparr>sl_buf = sl_buf s, sl_slice = inp\<rparr>"

section \<open>Pointers\<close>

record pointer =
  ptr_off :: u32
  ptr_len :: u32

definition Pointer_init :: "slice \<Rightarrow> slice \<Rightarrow> pointer" where
  "Pointer_init buf inp =
     \<lparr>ptr_off = ucast (s_addr inp - s_addr buf), ptr_len = of_nat (length (s_data inp))\<rparr>"

definition Pointer_to_bits :: "pointer \<Rightarrow> u64" where
  "Pointer_to_bits p =
     of_nat (nat_of_le (le_of_nat 4 (unat (ptr_off p)) @ le_of_nat 4 (unat (ptr_len p))))"

definition Pointer_from_bits :: "u64 \<Rightarrow> pointer" where
  "Pointer_from_bits bits =
     (let b = le_of_nat 8 (unat bits) in
      \<lparr>ptr_off = of_nat (nat_of_le (subslice b 0 4)), ptr_len = of_nat (nat_of_le (subslice b 4 8))\<rparr>)"

section \<open>\<open>semver::String\<close>\<close>

record semver_string =
  ss_bytes :: bytes

definition MAX_INLINE_LEN :: nat where
  "MAX_INLINE_LEN = 8"

definition MAX_ADDRESSABLE_SPACE_MASK :: u64 where
  "MAX_ADDRESSABLE_SPACE_MASK = push_bit 63 1 - 1"

definition String_EMPTY :: semver_string where
  "String_EMPTY = \<lparr>ss_bytes = replicate 8 (CHR 0x00)\<rparr>"

text \<open>\<open>c & 0x80 != 0\<close>\<close>

definition high_bit :: "byte \<Rightarrow> bool" where
  "high_bit c \<longleftrightarrow> 128 \<le> (of_char c :: nat)"

text \<open>The inline arms: the bytes of the string, padded with zeros to eight.\<close>

definition inline_string :: "bytes \<Rightarrow> semver_string" where
  "inline_string inp = \<lparr>ss_bytes = inp @ replicate (8 - length inp) (CHR 0x00)\<rparr>"

text \<open>The pointer arm: bit 63 marks the handle as external.\<close>

definition packed_string :: "pointer \<Rightarrow> semver_string" where
  "packed_string p =
     (let packed = (Pointer_to_bits p AND MAX_ADDRESSABLE_SPACE_MASK) OR push_bit 63 1
      in \<lparr>ss_bytes = le_of_nat 8 (unat packed)\<rparr>)"

definition String_can_inline :: "bytes \<Rightarrow> bool" where
  "String_can_inline buf =
     (if length buf \<le> 7 then True
      else if length buf = 8 then \<not> high_bit (buf ! 7)
      else False)"

definition String_is_inline :: "semver_string \<Rightarrow> bool" where
  "String_is_inline s \<longleftrightarrow> \<not> high_bit (ss_bytes s ! 7)"

definition String_init :: "slice \<Rightarrow> slice \<Rightarrow> semver_string" where
  "String_init buf inp =
     (let n = length (s_data inp) in
      if n < 8 then inline_string (s_data inp)
      else if n = 8 then
        (if 128 \<le> (of_char (s_data inp ! 7) :: nat) then packed_string (Pointer_init buf inp)
         else inline_string (s_data inp))
      else packed_string (Pointer_init buf inp))"

text \<open>Callers of \<open>init_inline\<close> check \<open>can_inline\<close>; a longer string is \<open>unreachable!()\<close>.\<close>

definition String_init_inline :: "bytes \<Rightarrow> semver_string option" where
  "String_init_inline inp = (if length inp \<le> 8 then Some (inline_string inp) else None)"

definition String_init_append :: "bytes \<Rightarrow> bytes \<Rightarrow> semver_string \<times> bytes" where
  "String_init_append buf inp =
     (let items = buf @ inp;
          off = length items - length inp
      in (packed_string \<lparr>ptr_off = of_nat off, ptr_len = of_nat (length inp)\<rparr>, items))"

definition String_init_append_if_needed :: "bytes \<Rightarrow> bytes \<Rightarrow> semver_string \<times> bytes" where
  "String_init_append_if_needed buf inp =
     (if length inp < 8 then (inline_string inp, buf)
      else if length inp = 8 then
        (if 128 \<le> (of_char (inp ! 7) :: nat) then String_init_append buf inp
         else (inline_string inp, buf))
      else String_init_append buf inp)"

definition String_ptr :: "semver_string \<Rightarrow> pointer" where
  "String_ptr s =
     Pointer_from_bits (of_nat (nat_of_le (ss_bytes s)) AND MAX_ADDRESSABLE_SPACE_MASK)"

text \<open>\<open>buf.get(off..off + len)\<close>\<close>

definition get_range :: "bytes \<Rightarrow> pointer \<Rightarrow> bytes option" where
  "get_range buf p =
     (let off = unat (ptr_off p); len = unat (ptr_len p) in
      if off + len \<le> length buf then Some (subslice buf off (off + len)) else None)"

definition String_slice :: "semver_string \<Rightarrow> bytes \<Rightarrow> bytes" where
  "String_slice s buf =
     (if \<not> high_bit (ss_bytes s ! 7) then
        (if ss_bytes s ! 0 = CHR 0x00 then []
         else subslice (ss_bytes s) 0 (skip_while (\<lambda>b. b \<noteq> CHR 0x00) (ss_bytes s) 0))
      else case get_range buf (String_ptr s) of Some r \<Rightarrow> r | None \<Rightarrow> [])"

definition String_len :: "semver_string \<Rightarrow> nat" where
  "String_len s =
     (if \<not> high_bit (ss_bytes s ! 7) then
        (if ss_bytes s ! 0 = CHR 0x00 then 0 else skip_while (\<lambda>b. b \<noteq> CHR 0x00) (ss_bytes s) 0)
      else unat (ptr_len (String_ptr s)))"

definition String_is_empty :: "semver_string \<Rightarrow> bool" where
  "String_is_empty s \<longleftrightarrow> (of_nat (nat_of_le (ss_bytes s)) :: u64) = 0"

definition String_eql :: "semver_string \<Rightarrow> semver_string \<Rightarrow> bytes \<Rightarrow> bytes \<Rightarrow> bool" where
  "String_eql s t this_buf that_buf =
     (if String_is_inline s \<and> String_is_inline t then
        (of_nat (nat_of_le (ss_bytes s)) :: u64) = of_nat (nat_of_le (ss_bytes t))
      else if String_is_inline s \<noteq> String_is_inline t then False
      else case (get_range this_buf (String_ptr s), get_range that_buf (String_ptr t)) of
             (Some a, Some b) \<Rightarrow> a = b
           | _ \<Rightarrow> False)"

definition String_order :: "semver_string \<Rightarrow> semver_string \<Rightarrow> bytes \<Rightarrow> bytes \<Rightarrow> ordering" where
  "String_order s t lhs_buf rhs_buf = order_bytes (String_slice s lhs_buf) (String_slice t rhs_buf)"

text \<open>\<open>StorePathFormatter\<close>: path separators, colons and hashes become \<open>+\<close>.\<close>

definition store_path_char :: "byte \<Rightarrow> byte" where
  "store_path_char c =
     (if c \<in> {CHR ''/'', CHR 0x5C, CHR '':'', CHR ''#''} then CHR ''+'' else c)"

definition String_fmt_store_path :: "semver_string \<Rightarrow> bytes \<Rightarrow> bytes" where
  "String_fmt_store_path s buf = map store_path_char (String_slice s buf)"

section \<open>\<open>ExternalString\<close>\<close>

record external_string =
  es_value :: semver_string
  es_hash :: u64

definition ExternalString_default :: external_string where
  "ExternalString_default = \<lparr>es_value = String_EMPTY, es_hash = 0\<rparr>"

definition ExternalString_init :: "slice \<Rightarrow> slice \<Rightarrow> u64 \<Rightarrow> external_string" where
  "ExternalString_init buf inp h = \<lparr>es_value = String_init buf inp, es_hash = h\<rparr>"

definition ExternalString_order ::
  "external_string \<Rightarrow> external_string \<Rightarrow> bytes \<Rightarrow> bytes \<Rightarrow> ordering" where
  "ExternalString_order s t lhs_buf rhs_buf =
     (if es_hash s = es_hash t \<and> 0 < es_hash s then Equal
      else String_order (es_value s) (es_value t) lhs_buf rhs_buf)"

definition ExternalString_is_inline :: "external_string \<Rightarrow> bool" where
  "ExternalString_is_inline s = String_is_inline (es_value s)"

definition ExternalString_is_empty :: "external_string \<Rightarrow> bool" where
  "ExternalString_is_empty s = String_is_empty (es_value s)"

definition ExternalString_len :: "external_string \<Rightarrow> nat" where
  "ExternalString_len s = String_len (es_value s)"

definition ExternalString_slice :: "external_string \<Rightarrow> bytes \<Rightarrow> bytes" where
  "ExternalString_slice s buf = String_slice (es_value s) buf"

definition SlicedString_external :: "sliced_string \<Rightarrow> external_string" where
  "SlicedString_external s =
     ExternalString_init (sl_buf s) (sl_slice s) (wyhash11_hash 0 (s_data (sl_slice s)))"

definition SlicedString_value :: "sliced_string \<Rightarrow> semver_string" where
  "SlicedString_value s = String_init (sl_buf s) (sl_slice s)"

section \<open>\<open>Buf\<close>: appending to a growing, deduplicated buffer\<close>

record strbuf =
  sb_bytes :: bytes
  sb_pool :: "u64 \<rightharpoonup> semver_string"

definition string_hash :: "bytes \<Rightarrow> u64" where
  "string_hash buf = wyhash11_hash 0 buf"

definition Buf_append_with_hash :: "strbuf \<Rightarrow> bytes \<Rightarrow> u64 \<Rightarrow> (semver_string \<times> strbuf) option" where
  "Buf_append_with_hash b str h =
     (if String_can_inline str then
        (case String_init_inline str of None \<Rightarrow> None | Some s \<Rightarrow> Some (s, b))
      else case sb_pool b h of
             Some v \<Rightarrow> Some (v, b)
           | None \<Rightarrow>
               (let (new, items) = String_init_append (sb_bytes b) str
                in Some (new, \<lparr>sb_bytes = items, sb_pool = (sb_pool b)(h \<mapsto> new)\<rparr>)))"

definition Buf_append :: "strbuf \<Rightarrow> bytes \<Rightarrow> (semver_string \<times> strbuf) option" where
  "Buf_append b str =
     (if String_can_inline str then
        (case String_init_inline str of None \<Rightarrow> None | Some s \<Rightarrow> Some (s, b))
      else case sb_pool b (string_hash str) of
             Some v \<Rightarrow> Some (v, b)
           | None \<Rightarrow>
               (let (new, items) = String_init_append (sb_bytes b) str
                in Some (new, \<lparr>sb_bytes = items,
                               sb_pool = (sb_pool b)(string_hash str \<mapsto> new)\<rparr>)))"

definition Buf_append_external_with_hash ::
  "strbuf \<Rightarrow> bytes \<Rightarrow> u64 \<Rightarrow> (external_string \<times> strbuf) option" where
  "Buf_append_external_with_hash b str h =
     (case Buf_append_with_hash b str h of
        None \<Rightarrow> None
      | Some (v, b') \<Rightarrow> Some (\<lparr>es_value = v, es_hash = h\<rparr>, b'))"

definition Buf_append_external :: "strbuf \<Rightarrow> bytes \<Rightarrow> (external_string \<times> strbuf) option" where
  "Buf_append_external b str =
     (let h = string_hash str in
      case Buf_append_with_hash b str h of
        None \<Rightarrow> None
      | Some (v, b') \<Rightarrow> Some (\<lparr>es_value = v, es_hash = h\<rparr>, b'))"

section \<open>\<open>Builder\<close>: count, allocate, append\<close>

text \<open>
  \<open>bd_addr\<close> is the address of the allocation \<open>ptr\<close>. The generic \<open>append\<close> methods produce a
  \<open>String\<close> or an \<open>ExternalString\<close>; the model produces the latter, whose \<open>es_value\<close> is the former.
\<close>

record builder =
  bd_len :: nat
  bd_cap :: nat
  bd_ptr :: "bytes option"
  bd_addr :: u64
  bd_pool :: "u64 \<rightharpoonup> semver_string"

definition Builder_default :: builder where
  "Builder_default =
     \<lparr>bd_len = 0, bd_cap = 0, bd_ptr = None, bd_addr = 0, bd_pool = Map.empty\<rparr>"

definition Builder_count_with_hash :: "builder \<Rightarrow> bytes \<Rightarrow> u64 \<Rightarrow> builder" where
  "Builder_count_with_hash b s h =
     (if length s \<le> MAX_INLINE_LEN then b
      else if bd_pool b h = None then b\<lparr>bd_cap := bd_cap b + length s\<rparr> else b)"

definition Builder_count :: "builder \<Rightarrow> bytes \<Rightarrow> builder" where
  "Builder_count b s =
     Builder_count_with_hash b s (if MAX_INLINE_LEN \<le> length s then string_hash s else - 1)"

definition Builder_allocate :: "builder \<Rightarrow> u64 \<Rightarrow> builder" where
  "Builder_allocate b addr =
     b\<lparr>bd_ptr := Some (replicate (bd_cap b) (CHR 0x00)), bd_addr := addr\<rparr>"

text \<open>
  Without a capacity the code answers \<open>&[]\<close>, whose address has nothing to do with the allocation: it is
  the dangling pointer of alignment 1.
\<close>

definition Builder_allocated_slice :: "builder \<Rightarrow> slice option" where
  "Builder_allocated_slice b =
     (if 0 < bd_cap b then
        (case bd_ptr b of
           None \<Rightarrow> None
         | Some p \<Rightarrow> Some \<lparr>s_addr = bd_addr b, s_data = subslice p 0 (bd_cap b)\<rparr>)
      else Some \<lparr>s_addr = 1, s_data = []\<rparr>)"

text \<open>
  Copying \<open>s\<close> to the end of the used part of the allocation. The copy panics when the allocation
  is missing or the remaining capacity is too small.
\<close>

definition Builder_push :: "builder \<Rightarrow> bytes \<Rightarrow> (slice \<times> slice \<times> builder) option" where
  "Builder_push b s =
     (case bd_ptr b of
        None \<Rightarrow> None
      | Some p \<Rightarrow>
          (if bd_len b \<le> bd_cap b \<and> bd_cap b \<le> length p \<and> length s \<le> bd_cap b - bd_len b then
             (let p' = copy_at p (bd_len b) s;
                  allocated = \<lparr>s_addr = bd_addr b, s_data = subslice p' 0 (bd_cap b)\<rparr>;
                  final = slice_sub allocated (bd_len b) (bd_len b + length s)
              in Some (allocated, final, b\<lparr>bd_ptr := Some p', bd_len := bd_len b + length s\<rparr>))
           else None))"

definition Builder_append_without_pool ::
  "builder \<Rightarrow> slice \<Rightarrow> u64 \<Rightarrow> (external_string \<times> builder) option" where
  "Builder_append_without_pool b s h =
     (if length (s_data s) \<le> MAX_INLINE_LEN then
        (case Builder_allocated_slice b of
           None \<Rightarrow> None | Some a \<Rightarrow> Some (ExternalString_init a s h, b))
      else case Builder_push b (s_data s) of
             None \<Rightarrow> None
           | Some (a, fin, b') \<Rightarrow> Some (ExternalString_init a fin h, b'))"

definition Builder_append_utf8_without_pool ::
  "builder \<Rightarrow> slice \<Rightarrow> u64 \<Rightarrow> (external_string \<times> builder) option" where
  "Builder_append_utf8_without_pool b s h =
     (if length (s_data s) \<le> MAX_INLINE_LEN \<and> (\<forall>c\<in>set (s_data s). \<not> high_bit c) then
        (case Builder_allocated_slice b of
           None \<Rightarrow> None | Some a \<Rightarrow> Some (ExternalString_init a s h, b))
      else case Builder_push b (s_data s) of
             None \<Rightarrow> None
           | Some (a, fin, b') \<Rightarrow> Some (ExternalString_init a fin h, b'))"

definition Builder_append_with_hash ::
  "builder \<Rightarrow> slice \<Rightarrow> u64 \<Rightarrow> (external_string \<times> builder) option" where
  "Builder_append_with_hash b s h =
     (if length (s_data s) \<le> MAX_INLINE_LEN then
        (case Builder_allocated_slice b of
           None \<Rightarrow> None | Some a \<Rightarrow> Some (ExternalString_init a s h, b))
      else case bd_pool b h of
             Some v \<Rightarrow>
               (case bd_ptr b of
                  None \<Rightarrow> None
                | Some p \<Rightarrow>
                    (if length p < bd_cap b then None
                     else if String_slice v (subslice p 0 (bd_cap b)) \<noteq> s_data s
                     then Builder_append_without_pool b s h
                     else Some (\<lparr>es_value = v, es_hash = h\<rparr>, b)))
           | None \<Rightarrow>
               (case Builder_push b (s_data s) of
                  None \<Rightarrow> None
                | Some (a, fin, b') \<Rightarrow>
                    (let v = String_init a fin
                     in Some (\<lparr>es_value = v, es_hash = h\<rparr>,
                              b'\<lparr>bd_pool := (bd_pool b')(h \<mapsto> v)\<rparr>))))"

definition Builder_append :: "builder \<Rightarrow> slice \<Rightarrow> (external_string \<times> builder) option" where
  "Builder_append b s = Builder_append_with_hash b s (string_hash (s_data s))"

section \<open>The bit layout of a handle\<close>

lemma unat_Pointer_to_bits:
  "unat (Pointer_to_bits p) = unat (ptr_off p) + 2 ^ 32 * unat (ptr_len p)"
proof -
  have o: "unat (ptr_off p) < 2 ^ 32" and l: "unat (ptr_len p) < 2 ^ 32"
    by (rule unat_u32_less)+
  have "nat_of_le (le_of_nat 4 (unat (ptr_off p)) @ le_of_nat 4 (unat (ptr_len p)))
      = unat (ptr_off p) + 2 ^ 32 * unat (ptr_len p)"
    using o l by (simp add: nat_of_le_append nat_of_le_of_nat)
  moreover have "unat (ptr_off p) + 2 ^ 32 * unat (ptr_len p) < 2 ^ 64"
    using o l by simp
  ultimately show ?thesis
    unfolding Pointer_to_bits_def by (metis unat_of_nat_u64)
qed

lemma unat_and_address_mask: "unat (x AND MAX_ADDRESSABLE_SPACE_MASK) = unat x mod 2 ^ 63"
proof -
  have "x AND MAX_ADDRESSABLE_SPACE_MASK = take_bit 63 x"
    by (simp only: MAX_ADDRESSABLE_SPACE_MASK_def take_bit_eq_mask mask_eq_exp_minus_1
        push_bit_of_1)
  moreover have "unat (take_bit 63 x) = take_bit 63 (unat x)"
    by (rule unsigned_take_bit_eq)
  ultimately show ?thesis
    by (metis take_bit_eq_mod)
qed

lemma unat_packed:
  "unat ((x AND MAX_ADDRESSABLE_SPACE_MASK) OR push_bit 63 1) = unat x mod 2 ^ 63 + 2 ^ 63"
proof -
  let ?r = "x AND MAX_ADDRESSABLE_SPACE_MASK"
  have "?r AND push_bit 63 1 = 0"
    by (simp add: MAX_ADDRESSABLE_SPACE_MASK_def and.assoc)
  then have "?r OR push_bit 63 1 = ?r + push_bit 63 1"
    using word_plus_and_or [of ?r "push_bit 63 1"] by simp
  moreover have "unat ?r + unat (push_bit 63 1 :: u64) = unat x mod 2 ^ 63 + 2 ^ 63"
    by (simp only: unat_and_address_mask) simp
  moreover have "unat x mod 2 ^ 63 + 2 ^ 63 < (2 ^ 64 :: nat)"
    using mod_less_divisor [of "2 ^ 63" "unat x"] by simp
  ultimately show ?thesis
    by (simp add: unat_word_ariths)
qed

text \<open>A packed handle is external, and gives back the pointer it was made from.\<close>

lemma packed_string_bytes:
  "ss_bytes (packed_string p) =
    le_of_nat 8 ((unat (ptr_off p) + 2 ^ 32 * unat (ptr_len p)) mod 2 ^ 63 + 2 ^ 63)"
  by (simp add: packed_string_def Let_def unat_packed unat_Pointer_to_bits del: push_bit_of_1)

lemma packed_string_high_bit: "high_bit (ss_bytes (packed_string p) ! 7)"
proof -
  define r where "r = (unat (ptr_off p) + 2 ^ 32 * unat (ptr_len p)) mod 2 ^ 63"
  have "r < 2 ^ 63" by (simp add: r_def)
  then have "(r + 2 ^ 63) div 256 ^ 7 = r div 256 ^ 7 + 128" and "r div 256 ^ 7 < 128"
    by (simp_all add: div_add_self2)
  then show ?thesis
    by (simp add: packed_string_bytes le_of_nat_nth high_bit_def of_char_of flip: r_def)
qed

lemma Pointer_from_bits_eq:
  "Pointer_from_bits bits =
    \<lparr>ptr_off = of_nat (unat bits mod 2 ^ 32), ptr_len = of_nat (unat bits div 2 ^ 32)\<rparr>"
proof -
  have b: "le_of_nat 8 (unat bits) = le_of_nat 4 (unat bits) @ le_of_nat 4 (unat bits div 2 ^ 32)"
    using le_of_nat_add [of 4 4 "unat bits"] by simp
  have "unat bits div 2 ^ 32 < 2 ^ 32"
    using unat_u64_less [of bits] by (simp add: less_mult_imp_div_less)
  then show ?thesis
    unfolding Pointer_from_bits_def Let_def b by (simp add: subslice_def nat_of_le_of_nat)
qed

lemma nat_of_le_packed:
  "nat_of_le (ss_bytes (packed_string p)) =
    (unat (ptr_off p) + 2 ^ 32 * unat (ptr_len p)) mod 2 ^ 63 + 2 ^ 63"
proof -
  let ?r = "(unat (ptr_off p) + 2 ^ 32 * unat (ptr_len p)) mod 2 ^ 63 :: nat"
  have "?r < 2 ^ 63" by simp
  then have "(?r + 2 ^ 63) mod 256 ^ 8 = ?r + 2 ^ 63" by simp
  then show ?thesis
    by (simp only: packed_string_bytes nat_of_le_of_nat)
qed

lemma String_ptr_packed:
  assumes "unat (ptr_len p) < 2 ^ 31"
  shows "String_ptr (packed_string p) = p"
proof -
  let ?v = "unat (ptr_off p) + 2 ^ 32 * unat (ptr_len p)"
  have o: "unat (ptr_off p) < 2 ^ 32" by (rule unat_u32_less)
  then have v: "?v < 2 ^ 63" using assms by simp
  have "unat (of_nat (nat_of_le (ss_bytes (packed_string p))) :: u64) = ?v + 2 ^ 63"
    using v by (simp only: nat_of_le_packed) (rule trans [OF unat_of_nat_u64], simp_all)
  then have "unat ((of_nat (nat_of_le (ss_bytes (packed_string p))) :: u64)
      AND MAX_ADDRESSABLE_SPACE_MASK) = ?v"
    using v by (simp only: unat_and_address_mask) simp
  then show ?thesis
    using o unfolding String_ptr_def Pointer_from_bits_eq by simp
qed

lemma String_slice_packed:
  assumes "unat (ptr_len p) < 2 ^ 31" and "unat (ptr_off p) + unat (ptr_len p) \<le> length buf"
  shows "String_slice (packed_string p) buf
       = subslice buf (unat (ptr_off p)) (unat (ptr_off p) + unat (ptr_len p))"
  using assms
  by (simp add: String_slice_def packed_string_high_bit String_ptr_packed get_range_def Let_def)

lemma String_is_empty_packed: "\<not> String_is_empty (packed_string p)"
proof
  let ?n = "nat_of_le (ss_bytes (packed_string p))"
  assume "String_is_empty (packed_string p)"
  then have "unat (of_nat ?n :: u64) = 0" by (simp add: String_is_empty_def)
  moreover have "?n < 2 ^ 64"
    using nat_of_le_lt [of "ss_bytes (packed_string p)"] by (simp add: packed_string_bytes)
  ultimately have "?n = 0" by (simp only: unat_of_nat_u64)
  then show False by (simp add: nat_of_le_packed)
qed

section \<open>Inline handles\<close>

definition nul_free :: "bytes \<Rightarrow> bool" where
  "nul_free s \<longleftrightarrow> CHR 0x00 \<notin> set s"

lemma high_bit_nul [simp]: "\<not> high_bit (CHR 0x00)"
  by (simp add: high_bit_def)

lemma inline_string_high_bit:
  assumes "String_can_inline s"
  shows "\<not> high_bit (ss_bytes (inline_string s) ! 7)"
  using assms by (auto simp: String_can_inline_def inline_string_def nth_append split: if_splits)

lemma skip_while_nul_inline:
  assumes "nul_free s"
  shows "skip_while (\<lambda>b. b \<noteq> CHR 0x00) (ss_bytes (inline_string s)) 0 = length s"
  using assms skip_while_append [of s "\<lambda>b. b \<noteq> CHR 0x00" "replicate (8 - length s) (CHR 0x00)" 0 "[]"]
  by (cases "8 - length s") (auto simp: inline_string_def nul_free_def)

lemma inline_string_first:
  "nul_free s \<Longrightarrow> ss_bytes (inline_string s) ! 0 = CHR 0x00 \<longleftrightarrow> s = []"
  by (cases s) (auto simp: inline_string_def nul_free_def)

lemma String_slice_inline:
  assumes "String_can_inline s" and "nul_free s"
  shows "String_slice (inline_string s) buf = s"
  using assms
  by (simp add: String_slice_def inline_string_high_bit inline_string_first skip_while_nul_inline)
    (simp add: inline_string_def subslice_def)

lemma String_len_inline:
  assumes "String_can_inline s" and "nul_free s"
  shows "String_len (inline_string s) = length s"
  using assms
  by (simp add: String_len_def inline_string_high_bit inline_string_first skip_while_nul_inline)

lemma nat_of_le_u64_eq_0:
  "length bs = 8 \<Longrightarrow> (of_nat (nat_of_le bs) :: u64) = 0 \<longleftrightarrow> (\<forall>b\<in>set bs. b = CHR 0x00)"
proof -
  assume "length bs = 8"
  then have "nat_of_le bs < 2 ^ 64" using nat_of_le_lt [of bs] by simp
  then have u: "unat (of_nat (nat_of_le bs) :: u64) = nat_of_le bs" by (rule unat_of_nat_u64)
  show ?thesis
    unfolding unat_0_iff [symmetric] u by (rule nat_of_le_eq_0)
qed

lemma String_is_empty_inline:
  assumes "String_can_inline s" and "nul_free s"
  shows "String_is_empty (inline_string s) \<longleftrightarrow> s = []"
proof -
  have "length (ss_bytes (inline_string s)) = 8"
    using assms(1) by (auto simp: inline_string_def String_can_inline_def split: if_splits)
  then have "String_is_empty (inline_string s) \<longleftrightarrow>
      (\<forall>b\<in>set (ss_bytes (inline_string s)). b = CHR 0x00)"
    unfolding String_is_empty_def by (rule nat_of_le_u64_eq_0)
  also have "\<dots> \<longleftrightarrow> s = []"
    using assms(2) by (cases s) (auto simp: inline_string_def nul_free_def)
  finally show ?thesis .
qed

lemma String_EMPTY_slice [simp]: "String_slice String_EMPTY buf = []"
  by (simp add: String_slice_def String_EMPTY_def)

lemma String_is_empty_slice:
  assumes "length (ss_bytes s) = 8" and "String_is_empty s"
  shows "String_slice s buf = []"
proof -
  have z: "\<forall>b\<in>set (ss_bytes s). b = CHR 0x00"
    using assms by (simp add: String_is_empty_def nat_of_le_u64_eq_0)
  have "ss_bytes s ! 0 \<in> set (ss_bytes s)" and "ss_bytes s ! 7 \<in> set (ss_bytes s)"
    using assms(1) by simp_all
  with z have "ss_bytes s ! 0 = CHR 0x00" and "ss_bytes s ! 7 = CHR 0x00" by blast+
  then show ?thesis by (simp add: String_slice_def)
qed

text \<open>An inline string with zero bytes is cut at the first of them.\<close>

lemma takeWhile_nul_padding:
  "takeWhile (\<lambda>b. b \<noteq> CHR 0x00) (ss_bytes (inline_string s)) = takeWhile (\<lambda>b. b \<noteq> CHR 0x00) s"
proof -
  have "takeWhile (\<lambda>b. b \<noteq> CHR 0x00) (replicate n (CHR 0x00)) = []" for n
    by (cases n) simp_all
  then have "takeWhile (\<lambda>b. b \<noteq> CHR 0x00) (s @ replicate n (CHR 0x00)) = takeWhile (\<lambda>b. b \<noteq> CHR 0x00) s" for n
    by (induction s) simp_all
  then show ?thesis
    by (simp only: inline_string_def semver_string.simps)
qed

lemma takeWhile_nul_free: "takeWhile (\<lambda>c. c \<noteq> CHR 0x00) s = s \<longleftrightarrow> nul_free s"
  by (auto simp: nul_free_def takeWhile_eq_all_conv)

lemma inline_cut:
  assumes "length (ss_bytes s) = 8"
  shows "(if ss_bytes s ! 0 = CHR 0x00 then 0 else skip_while (\<lambda>b. b \<noteq> CHR 0x00) (ss_bytes s) 0) =
    length (takeWhile (\<lambda>b. b \<noteq> CHR 0x00) (ss_bytes s))"
  using assms by (cases "ss_bytes s") (auto simp: skip_while_def)

lemma length_inline_string: "String_can_inline s \<Longrightarrow> length (ss_bytes (inline_string s)) = 8"
  by (auto simp: inline_string_def String_can_inline_def split: if_splits)

lemma String_len_inline_cut:
  "String_can_inline s \<Longrightarrow> String_len (inline_string s) = length (takeWhile (\<lambda>c. c \<noteq> CHR 0x00) s)"
  using inline_cut [OF length_inline_string] takeWhile_nul_padding [of s]
  by (simp add: String_len_def inline_string_high_bit)

lemma String_slice_inline_cut:
  assumes "String_can_inline s"
  shows "String_slice (inline_string s) buf = takeWhile (\<lambda>c. c \<noteq> CHR 0x00) s"
proof -
  have "String_slice (inline_string s) buf =
      take (length (takeWhile (\<lambda>b. b \<noteq> CHR 0x00) (ss_bytes (inline_string s)))) (ss_bytes (inline_string s))"
    using inline_string_high_bit [OF assms]
    unfolding String_slice_def inline_cut [OF length_inline_string [OF assms], symmetric] by (simp add: subslice_def)
  also have "\<dots> = takeWhile (\<lambda>b. b \<noteq> CHR 0x00) (ss_bytes (inline_string s))"
    by (rule takeWhile_eq_take [symmetric])
  finally show ?thesis
    by (simp only: takeWhile_nul_padding)
qed

lemma String_is_empty_inline_zeros:
  assumes "String_can_inline s"
  shows "String_is_empty (inline_string s) \<longleftrightarrow> (\<forall>c\<in>set s. c = CHR 0x00)"
proof -
  have "String_is_empty (inline_string s) \<longleftrightarrow> (\<forall>b\<in>set (ss_bytes (inline_string s)). b = CHR 0x00)"
    unfolding String_is_empty_def by (rule nat_of_le_u64_eq_0 [OF length_inline_string [OF assms]])
  also have "\<dots> \<longleftrightarrow> (\<forall>c\<in>set s. c = CHR 0x00)"
    by (simp add: inline_string_def ball_Un)
  finally show ?thesis .
qed

section \<open>Handles made from a slice of the buffer\<close>

text \<open>\<open>inp\<close> is the part of \<open>buf\<close> that starts at offset \<open>a\<close>.\<close>

definition slice_at :: "slice \<Rightarrow> slice \<Rightarrow> nat \<Rightarrow> bool" where
  "slice_at buf inp a \<longleftrightarrow>
     inp = slice_sub buf a (a + length (s_data inp)) \<and>
     a + length (s_data inp) \<le> length (s_data buf) \<and> length (s_data buf) < 2 ^ 31"

lemma Pointer_init_at:
  assumes "slice_at buf inp a"
  shows "unat (ptr_off (Pointer_init buf inp)) = a"
    and "unat (ptr_len (Pointer_init buf inp)) = length (s_data inp)"
proof -
  have "s_addr inp = s_addr buf + of_nat a"
    using assms unfolding slice_at_def by (metis slice.select_convs(1) slice_sub_def)
  then have "ptr_off (Pointer_init buf inp) = ucast (of_nat a :: u64)"
    by (simp add: Pointer_init_def)
  also have "\<dots> = (of_nat a :: u32)"
    by (simp add: word_unat_eq_iff unsigned_ucast_eq unat_of_nat take_bit_eq_mod mod_mod_cancel)
  finally show "unat (ptr_off (Pointer_init buf inp)) = a"
    using assms by (simp add: slice_at_def unat_of_nat_u32)
  show "unat (ptr_len (Pointer_init buf inp)) = length (s_data inp)"
    using assms by (simp add: Pointer_init_def slice_at_def unat_of_nat_u32)
qed

lemma slice_at_data: "slice_at buf inp a \<Longrightarrow> s_data inp = subslice (s_data buf) a (a + length (s_data inp))"
  unfolding slice_at_def by (metis slice.select_convs(2) slice_sub_def)

lemma String_init_cases:
  "String_init buf inp =
    (if String_can_inline (s_data inp) then inline_string (s_data inp)
     else packed_string (Pointer_init buf inp))"
  by (auto simp: String_init_def String_can_inline_def high_bit_def Let_def)

lemma String_init_slice:
  assumes "slice_at buf inp a" and "String_can_inline (s_data inp) \<Longrightarrow> nul_free (s_data inp)"
  shows "String_slice (String_init buf inp) (s_data buf) = s_data inp"
proof (cases "String_can_inline (s_data inp)")
  case True
  with assms show ?thesis by (simp add: String_init_cases String_slice_inline)
next
  case False
  note len = Pointer_init_at [OF assms(1)]
  have "String_slice (packed_string (Pointer_init buf inp)) (s_data buf)
      = subslice (s_data buf) a (a + length (s_data inp))"
    using assms(1) len by (simp add: String_slice_packed slice_at_def)
  with False show ?thesis
    using slice_at_data [OF assms(1)] by (simp add: String_init_cases)
qed

lemma String_init_len:
  assumes "slice_at buf inp a" and "String_can_inline (s_data inp) \<Longrightarrow> nul_free (s_data inp)"
  shows "String_len (String_init buf inp) = length (s_data inp)"
proof (cases "String_can_inline (s_data inp)")
  case True
  with assms show ?thesis by (simp add: String_init_cases String_len_inline)
next
  case False
  note len = Pointer_init_at [OF assms(1)]
  have "unat (ptr_len (Pointer_init buf inp)) < 2 ^ 31"
    using assms(1) len(2) by (simp add: slice_at_def)
  with False show ?thesis
    by (simp add: String_init_cases String_len_def packed_string_high_bit String_ptr_packed len)
qed

lemma String_init_is_empty:
  assumes "String_can_inline (s_data inp) \<Longrightarrow> nul_free (s_data inp)"
  shows "String_is_empty (String_init buf inp) \<longleftrightarrow> s_data inp = []"
  using assms
  by (auto simp: String_init_cases String_is_empty_inline String_is_empty_packed
      String_can_inline_def split: if_splits)

lemma String_init_is_inline:
  "String_is_inline (String_init buf inp) \<longleftrightarrow> String_can_inline (s_data inp)"
  by (simp add: String_init_cases String_is_inline_def inline_string_high_bit packed_string_high_bit)

lemma length_String_init: "length (ss_bytes (String_init buf inp)) = 8"
  by (auto simp: String_init_cases inline_string_def packed_string_bytes String_can_inline_def
      split: if_splits)

section \<open>String stores\<close>

text \<open>
  What \<open>Buf\<close> and \<open>Builder\<close> promise their callers: appending returns a handle that reads back the
  string, and later appends do not disturb the handles handed out before. The operations are
  described by \<open>append\<close> and \<open>read\<close>; \<open>fits b xs\<close> says that the inputs \<open>xs\<close> can still be appended.
\<close>

fun append_all :: "('b \<Rightarrow> 'a \<Rightarrow> ('h \<times> 'b) option) \<Rightarrow> 'b \<Rightarrow> 'a list \<Rightarrow> ('h list \<times> 'b) option" where
  "append_all app b [] = Some ([], b)"
| "append_all app b (x # xs) =
     (case app b x of
        None \<Rightarrow> None
      | Some (h, b') \<Rightarrow>
          (case append_all app b' xs of None \<Rightarrow> None | Some (hs, b'') \<Rightarrow> Some (h # hs, b'')))"

locale string_store =
  fixes append :: "'b \<Rightarrow> 'a \<Rightarrow> ('h \<times> 'b) option"
    and read :: "'b \<Rightarrow> 'h \<Rightarrow> bytes"
    and contents :: "'a \<Rightarrow> bytes"
    and invar :: "'b \<Rightarrow> bool"
    and valid :: "'b \<Rightarrow> 'h \<Rightarrow> bool"
    and fits :: "'b \<Rightarrow> 'a list \<Rightarrow> bool"
  assumes append_step: "invar b \<Longrightarrow> fits b (x # xs) \<Longrightarrow>
    \<exists>h b'. append b x = Some (h, b') \<and> invar b' \<and> fits b' xs \<and> valid b' h \<and> read b' h = contents x"
    and append_stable: "invar b \<Longrightarrow> fits b (x # xs) \<Longrightarrow> append b x = Some (h, b') \<Longrightarrow> valid b g \<Longrightarrow>
      valid b' g \<and> read b' g = read b g"
begin

lemma append_all_reads:
  assumes "invar b" and "fits b xs"
  shows "\<exists>hs b'. append_all append b xs = Some (hs, b') \<and> invar b' \<and>
    map (read b') hs = map contents xs \<and> (\<forall>g. valid b g \<longrightarrow> valid b' g \<and> read b' g = read b g)"
  using assms
proof (induction xs arbitrary: b)
  case Nil
  then show ?case by auto
next
  case (Cons x xs)
  from append_step [OF Cons.prems] obtain h b1 where
    1: "append b x = Some (h, b1)" "invar b1" "fits b1 xs" "valid b1 h" "read b1 h = contents x"
    by blast
  from Cons.IH [OF 1(2,3)] obtain hs b2 where
    2: "append_all append b1 xs = Some (hs, b2)" "invar b2" "map (read b2) hs = map contents xs"
      "\<forall>g. valid b1 g \<longrightarrow> valid b2 g \<and> read b2 g = read b1 g"
    by blast
  have "\<forall>g. valid b g \<longrightarrow> valid b2 g \<and> read b2 g = read b g"
    using append_stable [OF Cons.prems 1(1)] 2(4) by metis
  with 1 2 show ?case by auto
qed

end

text \<open>A handle that refers to the first \<open>n\<close> bytes of its buffer only.\<close>

definition handle_within :: "nat \<Rightarrow> semver_string \<Rightarrow> bool" where
  "handle_within n s \<longleftrightarrow> String_is_inline s \<or>
     unat (ptr_off (String_ptr s)) + unat (ptr_len (String_ptr s)) \<le> n"

lemma handle_within_mono: "handle_within n s \<Longrightarrow> n \<le> m \<Longrightarrow> handle_within m s"
  by (auto simp: handle_within_def)

lemma handle_within_packed:
  "unat (ptr_len p) < 2 ^ 31 \<Longrightarrow>
    handle_within n (packed_string p) \<longleftrightarrow> unat (ptr_off p) + unat (ptr_len p) \<le> n"
  by (simp add: handle_within_def String_is_inline_def packed_string_high_bit String_ptr_packed)

lemma handle_within_inline: "String_can_inline s \<Longrightarrow> handle_within n (inline_string s)"
  by (simp add: handle_within_def String_is_inline_def inline_string_high_bit)

lemma String_slice_take:
  assumes "handle_within n s" and "n \<le> length buf"
  shows "String_slice s buf = String_slice s (take n buf)"
  using assms
  by (auto simp: handle_within_def String_is_inline_def String_slice_def get_range_def Let_def
      subslice_def drop_take min_def)

lemma String_slice_cong:
  assumes "handle_within n s" and "n \<le> length buf" and "n \<le> length buf'"
    and "take n buf = take n buf'"
  shows "String_slice s buf = String_slice s buf'"
  using String_slice_take [OF assms(1,2)] String_slice_take [OF assms(1,3)] assms(4) by simp

lemma init_append_reads:
  assumes "length buf + length inp < 2 ^ 31" and "String_init_append buf inp = (v, items)"
  shows "items = buf @ inp" and "handle_within (length items) v" and "String_slice v items = inp"
proof -
  let ?p = "\<lparr>ptr_off = of_nat (length buf), ptr_len = of_nat (length inp)\<rparr>"
  have p: "unat (ptr_off ?p) = length buf" "unat (ptr_len ?p) = length inp"
    using assms(1) by (simp_all add: unat_of_nat_u32)
  have v: "v = packed_string ?p" "items = buf @ inp"
    using assms(2) by (simp_all add: String_init_append_def Let_def)
  then show "items = buf @ inp" by simp
  show "handle_within (length items) v"
    using assms(1) p v by (simp add: handle_within_packed)
  have "String_slice v items = subslice items (length buf) (length buf + length inp)"
    unfolding v(1) using assms(1) p v(2) by (subst String_slice_packed) simp_all
  then show "String_slice v items = inp"
    by (simp add: v(2) subslice_def)
qed

subsection \<open>\<open>Buf\<close> is a string store, as long as the hash has no collision\<close>

definition admissible :: "bytes \<Rightarrow> bool" where
  "admissible s \<longleftrightarrow> (String_can_inline s \<longrightarrow> nul_free s)"

definition buf_read :: "strbuf \<Rightarrow> semver_string \<Rightarrow> bytes" where
  "buf_read b v = String_slice v (sb_bytes b)"

definition buf_valid :: "strbuf \<Rightarrow> semver_string \<Rightarrow> bool" where
  "buf_valid b v = handle_within (length (sb_bytes b)) v"

definition buf_invar :: "strbuf \<Rightarrow> bool" where
  "buf_invar b \<longleftrightarrow>
     (\<forall>h v. sb_pool b h = Some v \<longrightarrow> buf_valid b v \<and> string_hash (buf_read b v) = h)"

definition buf_fits :: "strbuf \<Rightarrow> bytes list \<Rightarrow> bool" where
  "buf_fits b xs \<longleftrightarrow>
     (\<forall>x\<in>set xs. admissible x) \<and> length (sb_bytes b) + sum_list (map length xs) < 2 ^ 31 \<and>
     inj_on string_hash (set xs \<union> buf_read b ` ran (sb_pool b))"

lemma Buf_append_eq: "Buf_append b str = Buf_append_with_hash b str (string_hash str)"
  by (simp add: Buf_append_def Buf_append_with_hash_def)

lemma Buf_append_cases:
  assumes "Buf_append b x = Some (h, b')"
  obtains (inline) "String_can_inline x" "h = inline_string x" "b' = b"
  | (pooled) "\<not> String_can_inline x" "sb_pool b (string_hash x) = Some h" "b' = b"
  | (new) items where "\<not> String_can_inline x" "sb_pool b (string_hash x) = None"
      "String_init_append (sb_bytes b) x = (h, items)"
      "b' = \<lparr>sb_bytes = items, sb_pool = (sb_pool b)(string_hash x \<mapsto> h)\<rparr>"
  using assms
  by (auto simp: Buf_append_def String_init_inline_def String_can_inline_def
      split: if_splits option.splits prod.splits)

lemma Buf_append_total: "\<exists>h b'. Buf_append b x = Some (h, b')"
  by (auto simp: Buf_append_def String_init_inline_def String_can_inline_def
      split: option.splits prod.splits)

lemma buf_stable:
  assumes fits: "buf_fits b (x # xs)" and app: "Buf_append b x = Some (h, b')" and "buf_valid b g"
  shows "buf_valid b' g \<and> buf_read b' g = buf_read b g"
  using app
proof (cases rule: Buf_append_cases)
  case (new items)
  have "items = sb_bytes b @ x"
    using new(3) by (simp add: String_init_append_def Let_def)
  then show ?thesis
    using new(4) assms(3) String_slice_cong [of "length (sb_bytes b)" g "sb_bytes b" items]
    by (auto simp: buf_valid_def buf_read_def elim: handle_within_mono)
qed (use assms(3) in auto)

lemma buf_step:
  assumes inv: "buf_invar b" and fits: "buf_fits b (x # xs)"
  shows "\<exists>h b'. Buf_append b x = Some (h, b') \<and> buf_invar b' \<and> buf_fits b' xs \<and>
    buf_valid b' h \<and> buf_read b' h = x"
proof -
  obtain h b' where app: "Buf_append b x = Some (h, b')" using Buf_append_total by blast
  have inj: "inj_on string_hash (insert x (set xs) \<union> buf_read b ` ran (sb_pool b))"
    and len: "length (sb_bytes b) + length x < 2 ^ 31"
      "length (sb_bytes b) + length x + sum_list (map length xs) < 2 ^ 31"
    using fits by (auto simp: buf_fits_def)
  from app have "buf_invar b' \<and> buf_fits b' xs \<and> buf_valid b' h \<and> buf_read b' h = x"
  proof (cases rule: Buf_append_cases)
    case inline
    then show ?thesis
      using inv fits inj_on_subset [OF inj]
      by (auto simp: buf_fits_def buf_valid_def buf_read_def admissible_def handle_within_inline
          String_slice_inline)
  next
    case pooled
    then have v: "buf_valid b h" and h: "string_hash (buf_read b h) = string_hash x"
      using inv by (auto simp: buf_invar_def)
    moreover have "h \<in> ran (sb_pool b)"
      using pooled(2) by (rule ranI)
    ultimately have "buf_read b h = x"
      by (intro inj_onD [OF inj h]) simp_all
    with v show ?thesis
      using pooled inv fits inj_on_subset [OF inj] by (auto simp: buf_fits_def)
  next
    case (new items)
    note r = init_append_reads [OF len(1) new(3)]
    have x: "buf_valid b' h" "buf_read b' h = x"
      using r new(4) by (simp_all add: buf_valid_def buf_read_def)
    have old: "buf_valid b' v \<and> buf_read b' v = buf_read b v" if "sb_pool b k = Some v" for k v
      using buf_stable [OF fits app] inv that by (auto simp: buf_invar_def)
    have "buf_invar b'"
      using inv old x new(4) by (auto simp: buf_invar_def split: if_splits)
    moreover have "buf_read b' ` ran (sb_pool b') \<subseteq> insert x (buf_read b ` ran (sb_pool b))"
    proof
      fix t assume "t \<in> buf_read b' ` ran (sb_pool b')"
      then obtain k v where "sb_pool b' k = Some v" "t = buf_read b' v" by (auto simp: ran_def)
      then show "t \<in> insert x (buf_read b ` ran (sb_pool b))"
        using new(4) x old by (auto simp: ran_def split: if_splits)
    qed
    then have "inj_on string_hash (set xs \<union> buf_read b' ` ran (sb_pool b'))"
      by (intro inj_on_subset [OF inj]) auto
    ultimately show ?thesis
      using x fits len(2) r(1) new(4) by (auto simp: buf_fits_def)
  qed
  with app show ?thesis by blast
qed

interpretation buf_store: string_store Buf_append buf_read "\<lambda>s. s" buf_invar buf_valid buf_fits
  by unfold_locales (rule buf_step buf_stable; assumption)+

subsection \<open>\<open>Builder\<close> is a string store\<close>

definition builder_read :: "builder \<Rightarrow> external_string \<Rightarrow> bytes" where
  "builder_read b h =
     (case bd_ptr b of None \<Rightarrow> [] | Some p \<Rightarrow> ExternalString_slice h (subslice p 0 (bd_cap b)))"

definition builder_valid :: "builder \<Rightarrow> external_string \<Rightarrow> bool" where
  "builder_valid b h = handle_within (bd_len b) (es_value h)"

definition builder_invar :: "builder \<Rightarrow> bool" where
  "builder_invar b \<longleftrightarrow>
     (\<exists>p. bd_ptr b = Some p \<and> length p = bd_cap b) \<and> bd_len b \<le> bd_cap b \<and> bd_cap b < 2 ^ 31 \<and>
     (\<forall>h v. bd_pool b h = Some v \<longrightarrow> handle_within (bd_len b) v)"

text \<open>The bytes \<open>append\<close> copies: strings of at most eight bytes are never copied.\<close>

definition copied_length :: "bytes \<Rightarrow> nat" where
  "copied_length s = (if length s \<le> 8 then 0 else length s)"

definition builder_admissible :: "bytes \<Rightarrow> bool" where
  "builder_admissible s \<longleftrightarrow> (length s \<le> 8 \<longrightarrow> String_can_inline s \<and> nul_free s)"

definition builder_fits :: "builder \<Rightarrow> slice list \<Rightarrow> bool" where
  "builder_fits b xs \<longleftrightarrow>
     (\<forall>x\<in>set xs. builder_admissible (s_data x)) \<and>
     bd_len b + sum_list (map (copied_length \<circ> s_data) xs) \<le> bd_cap b"

lemma Builder_push_invar:
  assumes "builder_invar b" and "length s \<le> bd_cap b - bd_len b"
  obtains a fin b' where "Builder_push b s = Some (a, fin, b')" "slice_at a fin (bd_len b)"
    "s_data fin = s" "bd_ptr b' = Some (s_data a)" "length (s_data a) = bd_cap b"
    "bd_len b' = bd_len b + length s" "bd_cap b' = bd_cap b" "bd_pool b' = bd_pool b"
    "\<And>p. bd_ptr b = Some p \<Longrightarrow> take (bd_len b) (s_data a) = take (bd_len b) p"
proof -
  obtain p where p: "bd_ptr b = Some p" "length p = bd_cap b" and le: "bd_len b \<le> bd_cap b"
    and cap: "bd_cap b < 2 ^ 31"
    using assms(1) by (auto simp: builder_invar_def)
  let ?p = "copy_at p (bd_len b) s"
  let ?a = "\<lparr>s_addr = bd_addr b, s_data = ?p\<rparr>"
  let ?f = "slice_sub ?a (bd_len b) (bd_len b + length s)"
  let ?b = "b\<lparr>bd_ptr := Some ?p, bd_len := bd_len b + length s\<rparr>"
  have len: "length ?p = bd_cap b"
    using p le assms(2) by (simp add: length_copy_at)
  have fin: "s_data ?f = s"
    using p le assms(2) by (simp add: slice_sub_def subslice_copy_at)
  have "Builder_push b s = Some (?a, ?f, ?b)"
    using p le assms(2) len by (simp add: Builder_push_def Let_def subslice_def)
  moreover have "slice_at ?a ?f (bd_len b)"
    using fin len le assms(2) cap by (simp add: slice_at_def)
  ultimately show ?thesis
    using fin len p le by (intro that [of ?a ?f ?b]) (auto simp: copy_at_def)
qed

lemma builder_read_cong:
  assumes "builder_valid b g" "bd_ptr b = Some p" "bd_ptr b' = Some p'" "length p = bd_cap b"
    "length p' = bd_cap b" "bd_cap b' = bd_cap b" "bd_len b \<le> bd_cap b"
    "take (bd_len b) p' = take (bd_len b) p"
  shows "builder_read b' g = builder_read b g"
  using assms String_slice_cong [of "bd_len b" "es_value g" p' p]
  by (simp add: builder_read_def builder_valid_def ExternalString_slice_def subslice_def)

lemma builder_push_step:
  assumes inv: "builder_invar b" and fit: "length s \<le> bd_cap b - bd_len b" and big: "8 < length s"
    and push: "Builder_push b s = Some (a, fin, b')"
  shows "builder_invar b'" and "handle_within (bd_len b') (String_init a fin)"
    and "\<And>h. builder_read b' \<lparr>es_value = String_init a fin, es_hash = h\<rparr> = s"
    and "builder_valid b g \<Longrightarrow> builder_valid b' g \<and> builder_read b' g = builder_read b g"
proof -
  obtain p where p: "bd_ptr b = Some p" "length p = bd_cap b" "bd_len b \<le> bd_cap b" "bd_cap b < 2 ^ 31"
    and pool: "\<And>h v. bd_pool b h = Some v \<Longrightarrow> handle_within (bd_len b) v"
    using inv by (auto simp: builder_invar_def)
  from Builder_push_invar [OF inv fit] push p(1) have at: "slice_at a fin (bd_len b)"
    and d: "s_data fin = s" "bd_ptr b' = Some (s_data a)" "length (s_data a) = bd_cap b"
      "bd_len b' = bd_len b + length s" "bd_cap b' = bd_cap b" "bd_pool b' = bd_pool b"
      "take (bd_len b) (s_data a) = take (bd_len b) p"
    by (metis Pair_inject option.inject)+
  have ni: "\<not> String_can_inline (s_data fin)"
    using big d(1) by (simp add: String_can_inline_def)
  show inv': "builder_invar b'"
    using d p fit by (auto simp: builder_invar_def dest!: pool elim: handle_within_mono)
  show "handle_within (bd_len b') (String_init a fin)"
    using ni Pointer_init_at [OF at] d p fit
    by (simp add: String_init_cases) (subst handle_within_packed, auto)
  show "builder_read b' \<lparr>es_value = String_init a fin, es_hash = h\<rparr> = s" for h
    using String_init_slice [OF at] ni d
    by (simp add: builder_read_def ExternalString_slice_def subslice_def)
  show "builder_valid b g \<Longrightarrow> builder_valid b' g \<and> builder_read b' g = builder_read b g"
    using builder_read_cong [of b g p b' "s_data a"] d p
    by (auto simp: builder_valid_def elim: handle_within_mono)
qed

lemma builder_step_inline:
  assumes "builder_invar b" and "length (s_data x) \<le> 8" and "builder_admissible (s_data x)"
  obtains e where "Builder_append b x = Some (e, b)" "builder_valid b e" "builder_read b e = s_data x"
proof -
  obtain p where p: "bd_ptr b = Some p" "length p = bd_cap b"
    using assms(1) by (auto simp: builder_invar_def)
  have i: "String_can_inline (s_data x)" "nul_free (s_data x)"
    using assms(2,3) by (simp_all add: builder_admissible_def)
  obtain a where a: "Builder_allocated_slice b = Some a"
    using p by (cases "0 < bd_cap b") (auto simp: Builder_allocated_slice_def)
  let ?e = "ExternalString_init a x (string_hash (s_data x))"
  have "Builder_append b x = Some (?e, b)"
    using assms(2) a by (simp add: Builder_append_def Builder_append_with_hash_def MAX_INLINE_LEN_def)
  moreover have "builder_valid b ?e" "builder_read b ?e = s_data x"
    using i p by (simp_all add: builder_valid_def builder_read_def ExternalString_init_def
        ExternalString_slice_def String_init_cases handle_within_inline String_slice_inline)
  ultimately show ?thesis by (rule that)
qed

lemma builder_step_big:
  assumes inv: "builder_invar b" and big: "8 < length (s_data x)"
    and fit: "length (s_data x) \<le> bd_cap b - bd_len b"
  obtains e b' where "Builder_append b x = Some (e, b')" "builder_invar b'" "builder_valid b' e"
    "builder_read b' e = s_data x" "bd_cap b' = bd_cap b" "bd_len b' \<le> bd_len b + length (s_data x)"
    "\<And>g. builder_valid b g \<Longrightarrow> builder_valid b' g \<and> builder_read b' g = builder_read b g"
proof -
  let ?h = "string_hash (s_data x)"
  from Builder_push_invar [OF inv fit] obtain a fin b1 where
    push: "Builder_push b (s_data x) = Some (a, fin, b1)" and b1: "bd_cap b1 = bd_cap b"
      "bd_len b1 = bd_len b + length (s_data x)" "bd_pool b1 = bd_pool b"
    by metis
  note st = builder_push_step [OF inv fit big push]
  let ?e = "\<lparr>es_value = String_init a fin, es_hash = ?h\<rparr>"
  obtain p where p: "bd_ptr b = Some p" "length p = bd_cap b"
    and pool: "\<And>h v. bd_pool b h = Some v \<Longrightarrow> handle_within (bd_len b) v"
    using inv by (auto simp: builder_invar_def)
  note defs = Builder_append_def Builder_append_with_hash_def MAX_INLINE_LEN_def
  consider (hit) v where "bd_pool b ?h = Some v" "String_slice v p = s_data x"
    | (clash) v where "bd_pool b ?h = Some v" "String_slice v p \<noteq> s_data x"
    | (fresh) "bd_pool b ?h = None"
    by blast
  then show ?thesis
  proof cases
    case hit
    have "Builder_append b x = Some (\<lparr>es_value = v, es_hash = ?h\<rparr>, b)"
      using hit p big by (simp add: defs subslice_def)
    then show ?thesis
      using hit p inv pool [OF hit(1)]
      by (intro that) (auto simp: builder_valid_def builder_read_def ExternalString_slice_def
          subslice_def)
  next
    case clash
    have "Builder_append b x = Some (?e, b1)"
      using clash p big push
      by (simp add: defs subslice_def Builder_append_without_pool_def ExternalString_init_def)
    then show ?thesis
      using st b1 by (intro that [of ?e b1]) (auto simp: builder_valid_def)
  next
    case fresh
    let ?b = "b1\<lparr>bd_pool := (bd_pool b1)(?h \<mapsto> String_init a fin)\<rparr>"
    have r: "builder_read (b1\<lparr>bd_pool := m\<rparr>) g = builder_read b1 g"
      "builder_valid (b1\<lparr>bd_pool := m\<rparr>) g = builder_valid b1 g" for m g
      by (simp_all add: builder_read_def builder_valid_def split: option.split)
    have v: "builder_valid b1 ?e"
      using st b1 by (simp add: builder_valid_def)
    have "builder_invar ?b"
      using st(1,2) by (auto simp: builder_invar_def)
    moreover have "Builder_append b x = Some (?e, ?b)"
      using fresh big push b1(3) by (simp add: defs Let_def)
    ultimately show ?thesis
      using st b1 v by (intro that [of ?e ?b]) (simp_all add: r)
  qed
qed

lemma builder_stable:
  assumes inv: "builder_invar b" and fits: "builder_fits b (x # xs)"
    and app: "Builder_append b x = Some (e, b')" and g: "builder_valid b g"
  shows "builder_valid b' g \<and> builder_read b' g = builder_read b g"
proof (cases "length (s_data x) \<le> 8")
  case True
  then show ?thesis
    using builder_step_inline [OF inv True] fits app g by (auto simp: builder_fits_def)
next
  case False
  then have "length (s_data x) \<le> bd_cap b - bd_len b"
    using fits by (auto simp: builder_fits_def copied_length_def)
  from builder_step_big [OF inv _ this] False app g show ?thesis
    by (metis Pair_inject option.inject not_le)
qed

lemma builder_step:
  assumes inv: "builder_invar b" and fits: "builder_fits b (x # xs)"
  shows "\<exists>e b'. Builder_append b x = Some (e, b') \<and> builder_invar b' \<and> builder_fits b' xs \<and>
    builder_valid b' e \<and> builder_read b' e = s_data x"
proof (cases "length (s_data x) \<le> 8")
  case True
  moreover from fits have "builder_admissible (s_data x)" "builder_fits b xs"
    by (auto simp: builder_fits_def)
  ultimately show ?thesis
    using builder_step_inline [OF inv True] inv by metis
next
  case False
  then have "length (s_data x) \<le> bd_cap b - bd_len b"
    using fits by (auto simp: builder_fits_def copied_length_def)
  from builder_step_big [OF inv _ this] False obtain e b' where
    "Builder_append b x = Some (e, b')" "builder_invar b'" "builder_valid b' e"
    "builder_read b' e = s_data x" "bd_cap b' = bd_cap b" "bd_len b' \<le> bd_len b + length (s_data x)"
    by (metis not_le)
  moreover from this False fits have "builder_fits b' xs"
    by (simp add: builder_fits_def copied_length_def)
  ultimately show ?thesis by blast
qed

interpretation builder_store:
  string_store Builder_append builder_read s_data builder_invar builder_valid builder_fits
  by unfold_locales (rule builder_step builder_stable; assumption)+

lemma Builder_count_cap:
  "bd_pool b = Map.empty \<Longrightarrow> Builder_count b s = b\<lparr>bd_cap := bd_cap b + copied_length s\<rparr>"
  by (simp add: Builder_count_def Builder_count_with_hash_def copied_length_def MAX_INLINE_LEN_def)

lemma Builder_count_all:
  "bd_pool b = Map.empty \<Longrightarrow>
    foldl Builder_count b ss = b\<lparr>bd_cap := bd_cap b + sum_list (map copied_length ss)\<rparr>"
  by (induction ss arbitrary: b) (simp_all add: Builder_count_cap add.assoc)

lemma builder_allocate_fits:
  assumes "\<forall>x\<in>set xs. builder_admissible (s_data x)"
    and "sum_list (map (copied_length \<circ> s_data) xs) < 2 ^ 31"
  shows "builder_invar (Builder_allocate (foldl Builder_count Builder_default (map s_data xs)) addr)"
    and "builder_fits (Builder_allocate (foldl Builder_count Builder_default (map s_data xs)) addr) xs"
proof -
  have "foldl Builder_count Builder_default (map s_data xs)
      = Builder_default\<lparr>bd_cap := sum_list (map (copied_length \<circ> s_data) xs)\<rparr>"
    using Builder_count_all [of Builder_default "map s_data xs"] by (simp add: Builder_default_def)
  then show "builder_invar (Builder_allocate (foldl Builder_count Builder_default (map s_data xs)) addr)"
    and "builder_fits (Builder_allocate (foldl Builder_count Builder_default (map s_data xs)) addr) xs"
    using assms by (simp_all add: builder_invar_def builder_fits_def Builder_allocate_def
        Builder_default_def)
qed

section \<open>Properties\<close>

text \<open>
  C1. A handle made by \<open>String::init\<close> from a slice of its buffer (shorter than 2 GiB) is inline exactly
  when \<open>can_inline\<close> says so. A string that is not inline reads back exactly; an inline one reads back up to
  its first zero byte, because zero bytes are the padding, so exactly the strings without a zero byte
  among them round trip. The length is that of what is read back, and the handle is empty exactly when the
  string is inline and has only zero bytes.
\<close>

theorem String_init_roundtrip:
  assumes "slice_at buf inp a"
    and "stored = (if String_can_inline (s_data inp) then takeWhile (\<lambda>c. c \<noteq> CHR 0x00) (s_data inp) else s_data inp)"
  shows "String_slice (String_init buf inp) (s_data buf) = stored
    \<and> String_len (String_init buf inp) = length stored
    \<and> (stored = s_data inp \<longleftrightarrow> (String_can_inline (s_data inp) \<longrightarrow> nul_free (s_data inp)))
    \<and> (String_is_empty (String_init buf inp) \<longleftrightarrow>
         String_can_inline (s_data inp) \<and> (\<forall>c\<in>set (s_data inp). c = CHR 0x00))
    \<and> (String_is_inline (String_init buf inp) \<longleftrightarrow> String_can_inline (s_data inp))"
proof (cases "String_can_inline (s_data inp)")
  case True
  then show ?thesis
    using assms(2) String_init_is_inline [of buf inp]
    by (auto simp: String_init_cases String_slice_inline_cut String_len_inline_cut String_is_empty_inline_zeros
        takeWhile_nul_free takeWhile_eq_all_conv nul_free_def)
next
  case False
  then show ?thesis
    using assms String_init_slice [OF assms(1)] String_init_len [OF assms(1)] String_init_is_inline [of buf inp]
    by (simp add: String_init_cases String_is_empty_packed)
qed

theorem String_init_roundtrip_witness:
  "String_slice (String_init \<lparr>s_addr = 4096, s_data = ''lodash@^4.17.21''\<rparr>
      \<lparr>s_addr = 4103, s_data = ''^4.17.21''\<rparr>) ''lodash@^4.17.21'' = ''^4.17.21''
   \<and> String_slice (String_init \<lparr>s_addr = 4096, s_data = ''lodash@^4.17.21''\<rparr>
      \<lparr>s_addr = 4096, s_data = ''lodash@^4.17''\<rparr>) ''lodash@^4.17.21'' = ''lodash@^4.17''"
  using String_init_roundtrip [of "\<lparr>s_addr = 4096, s_data = ''lodash@^4.17.21''\<rparr>"
      "\<lparr>s_addr = 4103, s_data = ''^4.17.21''\<rparr>" 7 "''^4.17.21''"]
    String_init_roundtrip [of "\<lparr>s_addr = 4096, s_data = ''lodash@^4.17.21''\<rparr>"
      "\<lparr>s_addr = 4096, s_data = ''lodash@^4.17''\<rparr>" 0 "''lodash@^4.17''"]
  by (simp add: slice_at_def slice_sub_def subslice_def nul_free_def String_can_inline_def)

text \<open>
  C2. Counting every string, allocating once, and then appending the strings in order never
  panics, and every returned handle, read in the final state of the builder, gives its string,
  whatever the hash function does. The strings of at most eight bytes must be inlinable, which leaves
  out eight bytes of which the last is not ASCII, and have no zero byte; the bytes copied stay below 2 GiB.
\<close>

theorem Builder_reads_back:
  assumes "\<forall>x\<in>set xs. builder_admissible (s_data x)"
    and "sum_list (map (copied_length \<circ> s_data) xs) < 2 ^ 31"
  shows "\<exists>es b. append_all Builder_append
      (Builder_allocate (foldl Builder_count Builder_default (map s_data xs)) addr) xs = Some (es, b)
    \<and> map (builder_read b) es = map s_data xs"
  using builder_store.append_all_reads [OF builder_allocate_fits [OF assms]] by blast

theorem Builder_reads_back_witness:
  "\<exists>es b. append_all Builder_append
      (Builder_allocate (foldl Builder_count Builder_default [''react-dom'', ''next'', ''react-dom'']) 64)
      [\<lparr>s_addr = 7, s_data = ''react-dom''\<rparr>, \<lparr>s_addr = 90, s_data = ''next''\<rparr>,
       \<lparr>s_addr = 7, s_data = ''react-dom''\<rparr>] = Some (es, b)
    \<and> map (builder_read b) es = [''react-dom'', ''next'', ''react-dom'']"
  using Builder_reads_back [of "[\<lparr>s_addr = 7, s_data = ''react-dom''\<rparr>,
      \<lparr>s_addr = 90, s_data = ''next''\<rparr>, \<lparr>s_addr = 7, s_data = ''react-dom''\<rparr>]" 64]
  by (simp add: builder_admissible_def copied_length_def String_can_inline_def nul_free_def)

text \<open>
  C3. The exception is real: an eight-byte string whose last byte is not ASCII is neither counted nor
  copied by the builder, although its handle is external. The handle's offset is the distance from the
  allocation to the caller's memory, cut to 32 bits: it reads back the eight bytes that the allocation
  happens to have there, or nothing where the allocation does not reach.
\<close>

theorem Builder_loses_eight_byte_string:
  assumes "builder_invar b" and "length (s_data x) = 8" and "high_bit (s_data x ! 7)"
    and "off = unat (ucast (s_addr x - bd_addr b) :: u32)"
  shows "Builder_count b (s_data x) = b
    \<and> (\<exists>e p. Builder_append b x = Some (e, b) \<and> bd_ptr b = Some p
        \<and> builder_read b e = (if off + 8 \<le> bd_cap b then subslice p off (off + 8) else []))"
proof -
  obtain p where p: "bd_ptr b = Some p" "length p = bd_cap b"
    using assms(1) by (auto simp: builder_invar_def)
  obtain a where a: "Builder_allocated_slice b = Some a" "0 < bd_cap b \<Longrightarrow> s_addr a = bd_addr b"
    using p by (cases "0 < bd_cap b") (auto simp: Builder_allocated_slice_def)
  let ?q = "Pointer_init a x"
  let ?e = "ExternalString_init a x (string_hash (s_data x))"
  have q: "unat (ptr_len ?q) = 8" "0 < bd_cap b \<Longrightarrow> unat (ptr_off ?q) = off"
    using assms(2,4) a by (simp_all add: Pointer_init_def)
  have e: "es_value ?e = packed_string ?q"
    using assms(2,3) by (simp add: ExternalString_init_def String_init_cases String_can_inline_def)
  have "String_slice (es_value ?e) p = (if off + 8 \<le> bd_cap b then subslice p off (off + 8) else [])"
    using p q unfolding e
    by (cases "0 < bd_cap b")
      (simp_all add: String_slice_def packed_string_high_bit String_ptr_packed get_range_def Let_def)
  moreover have "Builder_append b x = Some (?e, b)"
    using assms(2) a by (simp add: Builder_append_def Builder_append_with_hash_def MAX_INLINE_LEN_def)
  moreover have "Builder_count b (s_data x) = b"
    using assms(2) by (simp add: Builder_count_def Builder_count_with_hash_def MAX_INLINE_LEN_def)
  ultimately show ?thesis
    using p by (auto simp: builder_read_def ExternalString_slice_def subslice_def)
qed

text \<open>A builder that has counted and allocated nothing reads it back as the empty string.\<close>

theorem Builder_loses_eight_byte_string_witness:
  "Builder_count (Builder_allocate Builder_default 4096) (''aaaaaa'' @ [CHR 0xC3, CHR 0xA9])
      = Builder_allocate Builder_default 4096
    \<and> (\<exists>e. Builder_append (Builder_allocate Builder_default 4096)
      \<lparr>s_addr = 8192, s_data = ''aaaaaa'' @ [CHR 0xC3, CHR 0xA9]\<rparr>
      = Some (e, Builder_allocate Builder_default 4096)
    \<and> builder_read (Builder_allocate Builder_default 4096) e = [])"
  using Builder_loses_eight_byte_string [of "Builder_allocate Builder_default 4096"
      "\<lparr>s_addr = 8192, s_data = ''aaaaaa'' @ [CHR 0xC3, CHR 0xA9]\<rparr>", OF _ _ _ refl]
  by (simp add: builder_invar_def Builder_allocate_def Builder_default_def high_bit_def)

text \<open>
  C4. Appending a sequence of strings to a \<open>Buf\<close> returns handles that all read back their
  strings from the final buffer, provided the buffer stays below 2 GiB, inlined strings have no
  zero byte, and the 64-bit hash is injective on the strings involved: unlike the builder,
  \<open>Buf::append\<close> does not compare a pooled string with its argument.
\<close>

theorem Buf_reads_back:
  assumes "buf_invar b" and "\<forall>x\<in>set xs. admissible x"
    and "length (sb_bytes b) + sum_list (map length xs) < 2 ^ 31"
    and "inj_on string_hash (set xs \<union> buf_read b ` ran (sb_pool b))"
  shows "\<exists>hs b'. append_all Buf_append b xs = Some (hs, b') \<and> map (buf_read b') hs = xs"
  using buf_store.append_all_reads [OF assms(1), of xs] assms(2-4)
  by (auto simp: buf_fits_def)

theorem Buf_reads_back_witness:
  "\<exists>hs b'. append_all Buf_append \<lparr>sb_bytes = [], sb_pool = Map.empty\<rparr>
      [''typescript'', ''typescript''] = Some (hs, b')
    \<and> map (buf_read b') hs = [''typescript'', ''typescript'']"
  using Buf_reads_back [of "\<lparr>sb_bytes = [], sb_pool = Map.empty\<rparr>" "[''typescript'', ''typescript'']"]
  by (simp add: buf_invar_def admissible_def String_can_inline_def)

end
