(* ===== verification/Semver_Version.thy ===== *)
theory Semver_Version
  imports Semver_String
begin

text \<open>
  \<open>src/src/semver/Version.rs\<close>: versions, their tags (pre-release and build metadata), the
  comparison of versions, the parser, the printer, and the two scanners that classify a version
  literal without parsing it.

  \<open>VersionType<T>\<close> is instantiated at \<open>u64\<close> and \<open>u32\<close>; the model is generic in the word length.
  The specification of the comparison is the total order of semver 2.0: release numbers first, a
  pre-release below its release, then the dot-separated identifiers, numeric ones below
  alphanumeric ones.
\<close>

section \<open>Data\<close>

record tag =
  t_pre :: external_string
  t_build :: external_string

definition Tag_default :: tag where
  "Tag_default = \<lparr>t_pre = ExternalString_default, t_build = ExternalString_default\<rparr>"

record 'a version_type =
  v_major :: 'a
  v_minor :: 'a
  v_patch :: 'a
  v_tag :: tag

type_synonym version = "u64 version_type"

definition Version_default :: "'a::len word version_type" where
  "Version_default = \<lparr>v_major = 0, v_minor = 0, v_patch = 0, v_tag = Tag_default\<rparr>"

datatype wildcard = WNone | WMajor | WMinor | WPatch

datatype changed_version = ChMajor | ChMinor | ChPatch | ChPre | ChBuild | ChNone

datatype pinned_version = PinMajor | PinMinor | PinPatch

record 'a partial_version =
  p_major :: "'a option"
  p_minor :: "'a option"
  p_patch :: "'a option"
  p_tag :: tag

definition Partial_default :: "'a partial_version" where
  "Partial_default = \<lparr>p_major = None, p_minor = None, p_patch = None, p_tag = Tag_default\<rparr>"

definition Partial_min :: "'a::len word partial_version \<Rightarrow> 'a word version_type" where
  "Partial_min p =
     \<lparr>v_major = (case p_major p of Some x \<Rightarrow> x | None \<Rightarrow> 0),
      v_minor = (case p_minor p of Some x \<Rightarrow> x | None \<Rightarrow> 0),
      v_patch = (case p_patch p of Some x \<Rightarrow> x | None \<Rightarrow> 0), v_tag = p_tag p\<rparr>"

definition Partial_max :: "'a::len word partial_version \<Rightarrow> 'a word version_type" where
  "Partial_max p =
     \<lparr>v_major = (case p_major p of Some x \<Rightarrow> x | None \<Rightarrow> - 1),
      v_minor = (case p_minor p of Some x \<Rightarrow> x | None \<Rightarrow> - 1),
      v_patch = (case p_patch p of Some x \<Rightarrow> x | None \<Rightarrow> - 1), v_tag = p_tag p\<rparr>"

record tag_result =
  tr_tag :: tag
  tr_len :: u32

definition TagResult_default :: tag_result where
  "TagResult_default = \<lparr>tr_tag = Tag_default, tr_len = 0\<rparr>"

record 'a parse_result =
  pr_wildcard :: wildcard
  pr_valid :: bool
  pr_version :: "'a partial_version"
  pr_len :: u32

definition ParseResult_default :: "'a parse_result" where
  "ParseResult_default =
     \<lparr>pr_wildcard = WNone, pr_valid = True, pr_version = Partial_default, pr_len = 0\<rparr>"

text \<open>\<open>T::parse_ascii\<close>: \<open>None\<close> for an empty string, a non-digit or an overflow.\<close>

definition parse_ascii :: "bytes \<Rightarrow> 'a::len word option" where
  "parse_ascii s =
     (case parse_unsigned (2 ^ LENGTH('a) - 1) s 10 of Inr n \<Rightarrow> Some (of_nat n) | Inl _ \<Rightarrow> None)"

section \<open>Comparison\<close>

definition has_pre :: "tag \<Rightarrow> bool" where
  "has_pre t \<longleftrightarrow> \<not> ExternalString_is_empty (t_pre t)"

definition has_build :: "tag \<Rightarrow> bool" where
  "has_build t \<longleftrightarrow> \<not> ExternalString_is_empty (t_build t)"

definition Tag_eql :: "tag \<Rightarrow> tag \<Rightarrow> bool" where
  "Tag_eql a b \<longleftrightarrow> es_hash (t_pre a) = es_hash (t_pre b)"

text \<open>The loop of \<open>order_pre\<close> over the two split iterators.\<close>

lemma split_next_shrinks:
  "split_next it = (Some f, it') \<Longrightarrow> length (si_rest it') < length (si_rest it)"
  using split_next_Some [of it f it'] by simp

function order_pre_loop :: "split_iterator \<Rightarrow> split_iterator \<Rightarrow> ordering" where
  "order_pre_loop lhs_itr rhs_itr =
     (case split_next lhs_itr of (lhs_part, lhs_itr') \<Rightarrow>
      case split_next rhs_itr of (rhs_part, rhs_itr') \<Rightarrow>
      (case (lhs_part, rhs_part) of
         (None, None) \<Rightarrow> Equal
       | (_, None) \<Rightarrow> Greater
       | (None, _) \<Rightarrow> Less
       | (Some l, Some r) \<Rightarrow>
           (case (parse_ascii l :: u64 option, parse_ascii r :: u64 option) of
              (Some _, None) \<Rightarrow> Less
            | (None, Some _) \<Rightarrow> Greater
            | (None, None) \<Rightarrow>
                (if order_bytes l r = Equal then order_pre_loop lhs_itr' rhs_itr'
                 else order_bytes l r)
            | (Some a, Some b) \<Rightarrow>
                (if cmp a b = Equal then order_pre_loop lhs_itr' rhs_itr' else cmp a b))))"
  by pat_completeness auto
termination
  by (relation "measure (\<lambda>(l, r). length (si_rest l))")
    (auto simp: split_next_shrinks [OF sym])

declare order_pre_loop.simps [simp del]

definition Tag_order_pre :: "tag \<Rightarrow> tag \<Rightarrow> bytes \<Rightarrow> bytes \<Rightarrow> ordering" where
  "Tag_order_pre lhs rhs lhs_buf rhs_buf =
     order_pre_loop (strings_split (ExternalString_slice (t_pre lhs) lhs_buf) (CHR ''.''))
       (strings_split (ExternalString_slice (t_pre rhs) rhs_buf) (CHR ''.''))"

definition Tag_order :: "tag \<Rightarrow> tag \<Rightarrow> bytes \<Rightarrow> bytes \<Rightarrow> ordering" where
  "Tag_order lhs rhs lhs_buf rhs_buf =
     (if \<not> ExternalString_is_empty (t_pre lhs) \<and> \<not> ExternalString_is_empty (t_pre rhs) then
        Tag_order_pre lhs rhs lhs_buf rhs_buf
      else
        let pre_order = ExternalString_order (t_pre lhs) (t_pre rhs) lhs_buf rhs_buf in
        if pre_order \<noteq> Equal then pre_order
        else ExternalString_order (t_build lhs) (t_build rhs) lhs_buf rhs_buf)"

definition Tag_order_without_build :: "tag \<Rightarrow> tag \<Rightarrow> bytes \<Rightarrow> bytes \<Rightarrow> ordering" where
  "Tag_order_without_build lhs rhs lhs_buf rhs_buf =
     (if \<not> ExternalString_is_empty (t_pre lhs) \<and> \<not> ExternalString_is_empty (t_pre rhs) then
        Tag_order_pre lhs rhs lhs_buf rhs_buf
      else ExternalString_order (t_pre lhs) (t_pre rhs) lhs_buf rhs_buf)"

definition is_zero :: "'a::len word version_type \<Rightarrow> bool" where
  "is_zero v \<longleftrightarrow> v_patch v = 0 \<and> v_minor v = 0 \<and> v_major v = 0"

definition migrate :: "u32 version_type \<Rightarrow> version" where
  "migrate v =
     \<lparr>v_major = ucast (v_major v), v_minor = ucast (v_minor v), v_patch = ucast (v_patch v),
      v_tag = \<lparr>t_pre = t_pre (v_tag v), t_build = t_build (v_tag v)\<rparr>\<rparr>"

definition Version_len :: "'a version_type \<Rightarrow> u32" where
  "Version_len v = of_nat (ExternalString_len (t_build (v_tag v)) + ExternalString_len (t_pre (v_tag v)))"

definition order_without_tag :: "'a::len word version_type \<Rightarrow> 'a word version_type \<Rightarrow> ordering" where
  "order_without_tag lhs rhs =
     (if v_major lhs < v_major rhs then Less
      else if v_major lhs > v_major rhs then Greater
      else if v_minor lhs < v_minor rhs then Less
      else if v_minor lhs > v_minor rhs then Greater
      else if v_patch lhs < v_patch rhs then Less
      else if v_patch lhs > v_patch rhs then Greater
      else if has_pre (v_tag lhs) then
        (if \<not> has_pre (v_tag rhs) then Less else Equal)
      else (if has_pre (v_tag rhs) then Greater else Equal))"

definition Version_order ::
  "'a::len word version_type \<Rightarrow> 'a word version_type \<Rightarrow> bytes \<Rightarrow> bytes \<Rightarrow> ordering" where
  "Version_order lhs rhs lhs_buf rhs_buf =
     (let o1 = order_without_tag lhs rhs in
      if o1 \<noteq> Equal then o1 else Tag_order (v_tag lhs) (v_tag rhs) lhs_buf rhs_buf)"

definition order_fn :: "bytes \<Rightarrow> 'a::len word version_type \<Rightarrow> 'a word version_type \<Rightarrow> ordering" where
  "order_fn ctx lhs rhs = Version_order lhs rhs ctx ctx"

definition sort_gt :: "bytes \<Rightarrow> 'a::len word version_type \<Rightarrow> 'a word version_type \<Rightarrow> bool" where
  "sort_gt ctx lhs rhs \<longleftrightarrow> order_fn ctx lhs rhs = Greater"

definition order_without_build ::
  "'a::len word version_type \<Rightarrow> 'a word version_type \<Rightarrow> bytes \<Rightarrow> bytes \<Rightarrow> ordering" where
  "order_without_build lhs rhs lhs_buf rhs_buf =
     (let o1 = order_without_tag lhs rhs in
      if o1 \<noteq> Equal then o1 else Tag_order_without_build (v_tag lhs) (v_tag rhs) lhs_buf rhs_buf)"

definition Version_eql :: "'a::len word version_type \<Rightarrow> 'a word version_type \<Rightarrow> bool" where
  "Version_eql lhs rhs \<longleftrightarrow>
     v_major lhs = v_major rhs \<and> v_minor lhs = v_minor rhs \<and> v_patch lhs = v_patch rhs \<and>
     Tag_eql (v_tag rhs) (v_tag lhs)"

definition which_version_is_different ::
  "'a::len word version_type \<Rightarrow> 'a word version_type \<Rightarrow> bytes \<Rightarrow> bytes \<Rightarrow> changed_version option" where
  "which_version_is_different left right left_buf right_buf =
     (if v_major left \<noteq> v_major right then Some ChMajor
      else if v_minor left \<noteq> v_minor right then Some ChMinor
      else if v_patch left \<noteq> v_patch right then Some ChPatch
      else if has_pre (v_tag left) \<noteq> has_pre (v_tag right) then Some ChPre
      else if \<not> has_pre (v_tag left) \<and> \<not> has_pre (v_tag right) then None
      else if Tag_order_pre (v_tag left) (v_tag right) left_buf right_buf \<noteq> Equal then Some ChPre
      else if has_build (v_tag left) \<noteq> has_build (v_tag right) then Some ChBuild
      else if \<not> has_build (v_tag left) \<and> \<not> has_build (v_tag right) then None
      else if ExternalString_order (t_build (v_tag left)) (t_build (v_tag right)) left_buf right_buf
                \<noteq> Equal then Some ChBuild
      else None)"

section \<open>Copying versions between string buffers\<close>

text \<open>The slice of the buffer that \<open>ExternalString::slice\<close> borrows, with its address.\<close>

definition ExternalString_borrow :: "external_string \<Rightarrow> slice \<Rightarrow> slice" where
  "ExternalString_borrow e buf =
     (case get_range (s_data buf) (String_ptr (es_value e)) of
        Some r \<Rightarrow> \<lparr>s_addr = s_addr buf + ucast (ptr_off (String_ptr (es_value e))), s_data = r\<rparr>
      | None \<Rightarrow> \<lparr>s_addr = s_addr buf, s_data = []\<rparr>)"

definition Version_count :: "'a version_type \<Rightarrow> slice \<Rightarrow> builder \<Rightarrow> builder" where
  "Version_count v buf b =
     (let t = v_tag v;
          b1 = (if has_pre t \<and> \<not> ExternalString_is_inline (t_pre t)
                then Builder_count b (ExternalString_slice (t_pre t) (s_data buf)) else b)
      in if has_build t \<and> \<not> ExternalString_is_inline (t_build t)
         then Builder_count b1 (ExternalString_slice (t_build t) (s_data buf)) else b1)"

definition Version_append ::
  "'a version_type \<Rightarrow> slice \<Rightarrow> builder \<Rightarrow> ('a version_type \<times> builder) option" where
  "Version_append v buf b =
     (let t = v_tag v in
      case (if has_pre t \<and> \<not> ExternalString_is_inline (t_pre t)
            then Builder_append b (ExternalString_borrow (t_pre t) buf) else Some (t_pre t, b)) of
        None \<Rightarrow> None
      | Some (pre, b1) \<Rightarrow>
          (case (if has_build t \<and> \<not> ExternalString_is_inline (t_build t)
                 then Builder_append b1 (ExternalString_borrow (t_build t) buf)
                 else Some (t_build t, b1)) of
             None \<Rightarrow> None
           | Some (build, b2) \<Rightarrow> Some (v\<lparr>v_tag := \<lparr>t_pre = pre, t_build = build\<rparr>\<rparr>, b2)))"

text \<open>
  One half of \<open>Tag::clone_into\<close>: an external string is copied to the front of \<open>*buf\<close>, its handle is
  made relative to that front, and \<open>*buf\<close> is advanced past it. The result is the handle, the bytes
  written, and the rest of the buffer. A copy that does not fit panics.
\<close>

definition clone_string :: "external_string \<Rightarrow> bytes \<Rightarrow> slice \<Rightarrow> (semver_string \<times> bytes \<times> slice) option" where
  "clone_string e src buf =
     (if ExternalString_is_inline e then Some (es_value e, [], buf)
      else
        let s = ExternalString_slice e src in
        if length s \<le> length (s_data buf) then
          (let buf' = buf\<lparr>s_data := copy_at (s_data buf) 0 s\<rparr>
           in Some (String_init buf' (slice_sub buf' 0 (length s)), s,
                    slice_sub buf' (length s) (length (s_data buf'))))
        else None)"

definition Tag_clone_into :: "tag \<Rightarrow> bytes \<Rightarrow> slice \<Rightarrow> (tag \<times> bytes \<times> slice) option" where
  "Tag_clone_into t src buf =
     (case clone_string (t_pre t) src buf of
        None \<Rightarrow> None
      | Some (pre, w1, buf1) \<Rightarrow>
          (case clone_string (t_build t) src buf1 of
             None \<Rightarrow> None
           | Some (build, w2, buf2) \<Rightarrow>
               Some (\<lparr>t_pre = \<lparr>es_value = pre, es_hash = es_hash (t_pre t)\<rparr>,
                      t_build = \<lparr>es_value = build, es_hash = es_hash (t_build t)\<rparr>\<rparr>, w1 @ w2, buf2)))"

definition Version_clone_into ::
  "'a version_type \<Rightarrow> bytes \<Rightarrow> slice \<Rightarrow> ('a version_type \<times> bytes \<times> slice) option" where
  "Version_clone_into v src buf =
     (case Tag_clone_into (v_tag v) src buf of
        None \<Rightarrow> None
      | Some (t, w, buf') \<Rightarrow>
          Some (\<lparr>v_major = v_major v, v_minor = v_minor v, v_patch = v_patch v, v_tag = t\<rparr>, w, buf'))"

section \<open>Printing\<close>

definition Version_fmt :: "'a::len word version_type \<Rightarrow> bytes \<Rightarrow> bytes" where
  "Version_fmt v input =
     decimal (unat (v_major v)) @ ''.'' @ decimal (unat (v_minor v)) @ ''.'' @
     decimal (unat (v_patch v)) @
     (if has_pre (v_tag v) then ''-'' @ ExternalString_slice (t_pre (v_tag v)) input else []) @
     (if has_build (v_tag v) then ''+'' @ ExternalString_slice (t_build (v_tag v)) input else [])"

section \<open>Parsing tags\<close>

definition valid_pre_or_build_tag_character :: "byte \<Rightarrow> bool" where
  "valid_pre_or_build_tag_character c \<longleftrightarrow>
     c \<in> {CHR ''-'', CHR ''+'', CHR ''.''} \<or> is_ascii_alphabetic c \<or> is_ascii_digit c"

datatype tag_state = StNone | StPre | StBuild

text \<open>The first pass counts the \<open>+\<close> and \<open>-\<close> before the first space.\<close>

definition tag_counts :: "bytes \<Rightarrow> nat \<times> nat" where
  "tag_counts input =
     (let front = takeWhile (\<lambda>c. c \<noteq> CHR '' '') input
      in (count_list front (CHR ''+''), count_list front (CHR ''-'')))"

definition sub_external :: "sliced_string \<Rightarrow> nat \<Rightarrow> nat \<Rightarrow> external_string" where
  "sub_external ss a b = SlicedString_external (SlicedString_sub ss (slice_sub (sl_slice ss) a b))"

text \<open>The second pass; the result is the final \<open>(i, state, start, tag)\<close>.\<close>

function tag_loop ::
  "sliced_string \<Rightarrow> nat \<Rightarrow> nat \<Rightarrow> tag_state \<Rightarrow> nat \<Rightarrow> tag \<Rightarrow> nat \<times> tag_state \<times> nat \<times> tag" where
  "tag_loop ss initial_pre_count i state start t =
     (let input = s_data (sl_slice ss) in
      if length input \<le> i then (i, state, start, t)
      else
        let c = input ! i in
        if c = CHR ''+'' then
          (let t' = (if state = StPre \<or> state = StNone \<and> 0 < initial_pre_count
                     then t\<lparr>t_pre := sub_external ss start i\<rparr> else t)
           in if state \<noteq> StBuild then tag_loop ss initial_pre_count (i + 1) StBuild (i + 1) t'
              else tag_loop ss initial_pre_count (i + 1) state start t')
        else if c = CHR ''-'' then
          (if state \<noteq> StPre then tag_loop ss initial_pre_count (i + 1) StPre (i + 1) t
           else tag_loop ss initial_pre_count (i + 1) state start t)
        else if is_ascii_alphabetic c \<or> is_ascii_digit c \<or> c = CHR ''.'' then
          tag_loop ss initial_pre_count (i + 1) state start t
        else
          (case state of
             StNone \<Rightarrow> (i, state, start, t)
           | StPre \<Rightarrow> (i, StNone, start, t\<lparr>t_pre := sub_external ss start i\<rparr>)
           | StBuild \<Rightarrow> (i, StNone, start, t\<lparr>t_build := sub_external ss start i\<rparr>)))"
  by pat_completeness auto
termination
  by (relation "measure (\<lambda>(ss, n, i, st, start, t). length (s_data (sl_slice ss)) - i)") auto

declare tag_loop.simps [simp del]

definition parse_with_pre_count :: "sliced_string \<Rightarrow> nat \<Rightarrow> tag_result" where
  "parse_with_pre_count ss initial_pre_count =
     (case tag_counts (s_data (sl_slice ss)) of (build_count, pre_count) \<Rightarrow>
      if build_count = 0 \<and> initial_pre_count + pre_count = 0 then TagResult_default
      else
        (case tag_loop ss initial_pre_count 0 StNone 0 Tag_default of (i, state, start, t) \<Rightarrow>
         let (state', start') =
               (if state = StNone \<and> 0 < initial_pre_count then (StPre, 0) else (state, start));
             t' = (case state' of
                     StNone \<Rightarrow> t
                   | StPre \<Rightarrow> t\<lparr>t_pre := sub_external ss start' i\<rparr>
                   | StBuild \<Rightarrow> t\<lparr>t_build := sub_external ss start' i\<rparr>)
         in \<lparr>tr_tag = t', tr_len = of_nat i\<rparr>))"

definition Tag_parse :: "sliced_string \<Rightarrow> tag_result" where
  "Tag_parse ss = parse_with_pre_count ss 0"

section \<open>Parsing versions\<close>

text \<open>
  The digits of a release number go to a buffer of 20 bytes; the 21st digit makes the number
  \<open>None\<close>, and a number that does not fit the type becomes 0.
\<close>

fun version_digits :: "bytes \<Rightarrow> bytes \<Rightarrow> bytes option" where
  "version_digits [] acc = Some acc"
| "version_digits (c # cs) acc =
     (if c \<in> {CHR ''X'', CHR ''x'', CHR ''*''} then None
      else if is_ascii_digit c then
        (if 20 < length acc + 1 then None else version_digits cs (acc @ [c]))
      else if c \<in> {CHR '' '', CHR ''.''} then Some acc
      else version_digits cs acc)"

definition parse_version_number :: "bytes \<Rightarrow> 'a::len word option" where
  "parse_version_number input =
     (case version_digits input [] of
        None \<Rightarrow> None
      | Some bs \<Rightarrow>
          (if bs = [] then None
           else Some (case parse_ascii bs of Some v \<Rightarrow> v | None \<Rightarrow> 0)))"

definition wildcard_of_part :: "wildcard \<Rightarrow> nat \<Rightarrow> wildcard" where
  "wildcard_of_part w part_i =
     (if w = WNone then
        (if part_i = 0 then WMajor else if part_i = 1 then WMinor
         else if part_i = 2 then WPatch else w)
      else w)"

definition set_part ::
  "'a partial_version \<Rightarrow> nat \<Rightarrow> 'a option \<Rightarrow> 'a partial_version \<times> nat" where
  "set_part p part_i n =
     (if part_i = 0 then (p\<lparr>p_major := n\<rparr>, 1)
      else if part_i = 1 then (p\<lparr>p_minor := n\<rparr>, 2)
      else if part_i = 2 then (p\<lparr>p_patch := n\<rparr>, 3)
      else (p, part_i))"

definition is_wild :: "byte \<Rightarrow> bool" where
  "is_wild c \<longleftrightarrow> c \<in> {CHR ''x'', CHR ''*'', CHR ''X''}"

text \<open>The main loop; the result is the final \<open>i\<close>, \<open>part_i\<close> and result.\<close>

function parse_loop ::
  "sliced_string \<Rightarrow> nat \<Rightarrow> nat \<Rightarrow> 'a::len word parse_result \<Rightarrow> nat \<times> nat \<times> 'a word parse_result" where
  "parse_loop ss i part_i r =
     (let input = s_data (sl_slice ss) in
      if length input \<le> i then (i, part_i, r)
      else
        let c = input ! i in
        if c = CHR '' '' then (i, part_i, r)
        else if c \<in> {CHR ''|'', CHR ''^'', CHR ''#'', CHR ''&'', CHR ''%'', CHR ''!''} then
          (i - 1, part_i, r)
        else if is_ascii_digit c then
          (let last_char_i = skip_while is_ascii_digit input (i + 1);
               (p, part_i') = set_part (pr_version r) part_i
                                (parse_version_number (subslice input i last_char_i));
               i' = (if last_char_i < length input \<and> input ! last_char_i = CHR ''.'' \<and> part_i' \<noteq> 3
                     then last_char_i + 1 else last_char_i)
           in parse_loop ss i' part_i' (r\<lparr>pr_version := p\<rparr>))
        else if c = CHR ''.'' then (i, part_i, r\<lparr>pr_valid := False\<rparr>)
        else if c \<in> {CHR ''-'', CHR ''+''} then
          (if part_i < 2 \<and> pr_wildcard r = WNone then (i, part_i, r\<lparr>pr_valid := False\<rparr>)
           else
             let j = skip_while (\<lambda>b. b = CHR '' '') input i;
                 tag_result = Tag_parse (SlicedString_sub ss (slice_sub (sl_slice ss) i (length input)))
             in (j + unat (tr_len tag_result), part_i,
                 r\<lparr>pr_version := (pr_version r)\<lparr>p_tag := tr_tag tag_result\<rparr>\<rparr>))
        else if is_wild c then
          (let last_char_i = skip_while is_wild input (i + 1);
               i' = (if last_char_i < length input \<and> input ! last_char_i = CHR ''.''
                     then last_char_i + 1 else last_char_i)
           in if pr_wildcard r = WNone then
                parse_loop ss i' (if part_i < 3 then part_i + 1 else part_i)
                  (r\<lparr>pr_wildcard := wildcard_of_part WNone part_i\<rparr>)
              else parse_loop ss i' part_i r)
        else if pr_wildcard r = WNone \<and> 2 \<le> part_i \<and> is_ascii_alphabetic c then
          (let tag_result = parse_with_pre_count
                 (SlicedString_sub ss (slice_sub (sl_slice ss) i (length input))) 1
           in (i + unat (tr_len tag_result), part_i,
               r\<lparr>pr_version := (pr_version r)\<lparr>p_tag := tr_tag tag_result\<rparr>\<rparr>))
        else (i, part_i, r\<lparr>pr_valid := False\<rparr>))"
  by pat_completeness auto
termination
proof (relation "measure (\<lambda>(ss, i, part_i, r). length (s_data (sl_slice ss)) - i)", goal_cases)
  case 1
  then show ?case by simp
next
  case (2 ss i part_i r input c last_char_i x p part_i' i')
  then have "i < i'" "i < length input"
    by (auto split: if_splits)
  then show ?case using 2(1) by simp
next
  case (3 ss i part_i r input c last_char_i i')
  then have "i < i'" "i < length input"
    by (auto split: if_splits)
  then show ?case using 3(1) by simp
next
  case (4 ss i part_i r input c last_char_i i')
  then have "i < i'" "i < length input"
    by (auto split: if_splits)
  then show ?case using 4(1) by simp
qed

declare parse_loop.simps [simp del]

definition is_separator :: "byte \<Rightarrow> bool" where
  "is_separator c \<longleftrightarrow> c \<in> set WHITESPACE_CHARS \<or> c = CHR ''v'' \<or> c = CHR ''=''"

text \<open>
  \<open>None\<close> is the panic of \<open>u32::try_from(i).expect(..)\<close>. The leading loop leaves \<open>i\<close> at 0 when every
  byte is a separator.
\<close>

definition Version_parse :: "sliced_string \<Rightarrow> 'a::len word parse_result option" where
  "Version_parse ss =
     (let input = s_data (sl_slice ss) in
      if input = [] then Some (ParseResult_default\<lparr>pr_valid := False\<rparr>)
      else
        let c = skip_while is_separator input 0;
            i = (if c < length input then c else 0)
        in case parse_loop ss i 0 ParseResult_default of (j, part_i, r) \<Rightarrow>
             if j < 2 ^ 32 then
               Some (r\<lparr>pr_wildcard := wildcard_of_part (pr_wildcard r) part_i, pr_len := of_nat j\<rparr>)
             else None)"

definition parse_utf8 :: "slice \<Rightarrow> 'a::len word parse_result option" where
  "parse_utf8 s = Version_parse \<lparr>sl_buf = s, sl_slice = s\<rparr>"

section \<open>Classifying a version literal without parsing it\<close>

text \<open>
  The labelled block \<open>'pinned\<close> of \<open>which_version_is_pinned\<close>: the kind of pinning and the position
  after the operator, or \<open>None\<close> for the early \<open>return PinnedVersion::Major\<close>.
\<close>

definition pinned_prefix :: "bytes \<Rightarrow> (pinned_version \<times> nat) option" where
  "pinned_prefix version =
     (let j = skip_while is_separator version 0 in
      if length version \<le> j then None
      else
        let c = version ! j in
        if c = CHR ''~'' \<or> c = CHR ''^'' then
          (let k = skip_while (\<lambda>b. b \<in> set WHITESPACE_CHARS) version (j + 1)
           in if length version \<le> k then None
              else Some (if c = CHR ''~'' then PinMinor else PinMajor, k))
        else if is_ascii_digit c then Some (PinPatch, j)
        else None)"

text \<open>
  One core number: \<open>Inl\<close> is an early return, \<open>Inr\<close> the position after its digits. \<open>at_end\<close> is the
  answer when the literal ends there.
\<close>

definition pinned_number :: "bytes \<Rightarrow> nat \<Rightarrow> pinned_version \<Rightarrow> pinned_version + nat" where
  "pinned_number version i at_end =
     (if length version \<le> i \<or> \<not> is_ascii_digit (version ! i) then Inl PinMajor
      else
        let j = skip_while is_ascii_digit version i in
        if length version \<le> j then Inl at_end else Inr j)"

definition which_version_is_pinned :: "bytes \<Rightarrow> pinned_version" where
  "which_version_is_pinned input =
     (let version = trim input WHITESPACE_CHARS;
          tag_char = (\<lambda>d. valid_pre_or_build_tag_character d \<and> \<not> is_ascii_whitespace d)
      in case pinned_prefix version of
           None \<Rightarrow> PinMajor
         | Some (pinned, i) \<Rightarrow>
      (case pinned_number version i (if pinned = PinPatch then PinMajor else pinned) of
           Inl r \<Rightarrow> r
         | Inr i1 \<Rightarrow>
      (if version ! i1 \<noteq> CHR ''.'' then PinMajor else
       case pinned_number version (i1 + 1) (if pinned = PinPatch then PinMinor else pinned) of
           Inl r \<Rightarrow> r
         | Inr i2 \<Rightarrow>
      (if version ! i2 \<noteq> CHR ''.'' then PinMajor else
       case pinned_number version (i2 + 1) pinned of
           Inl r \<Rightarrow> r
         | Inr i3 \<Rightarrow>
      (if \<not> valid_pre_or_build_tag_character (version ! i3) \<or> is_ascii_whitespace (version ! i3)
       then PinMajor
       else if length version \<le> skip_while tag_char version (i3 + 1) then pinned else PinMajor)))))"

definition is_tagged_version_only :: "bytes \<Rightarrow> bool" where
  "is_tagged_version_only input =
     (let version = trim input WHITESPACE_CHARS in
      if version = [] \<or> \<not> is_ascii_alphabetic (version ! 0) then False
      else \<forall>c\<in>set (drop 1 version). is_ascii_alphanumeric c)"

section \<open>The specification of the order\<close>

text \<open>A dot-separated pre-release identifier: numeric ones are below alphanumeric ones.\<close>

datatype ident = Num u64 | Alpha bytes

instantiation ident :: linorder
begin

fun less_eq_ident :: "ident \<Rightarrow> ident \<Rightarrow> bool" where
  "less_eq_ident (Num a) (Num b) \<longleftrightarrow> a \<le> b"
| "less_eq_ident (Num a) (Alpha b) \<longleftrightarrow> True"
| "less_eq_ident (Alpha a) (Num b) \<longleftrightarrow> False"
| "less_eq_ident (Alpha a) (Alpha b) \<longleftrightarrow> a \<le> b"

definition less_ident :: "ident \<Rightarrow> ident \<Rightarrow> bool" where
  "less_ident x y \<longleftrightarrow> x \<le> y \<and> \<not> y \<le> x"

instance
proof
  fix x y z :: ident
  show "x < y \<longleftrightarrow> x \<le> y \<and> \<not> y \<le> x" by (rule less_ident_def)
  show "x \<le> x" by (cases x) auto
  show "x \<le> z" if "x \<le> y" "y \<le> z" using that by (cases x; cases y; cases z) auto
  show "x = y" if "x \<le> y" "y \<le> x" using that by (cases x; cases y) auto
  show "x \<le> y \<or> y \<le> x" by (cases x; cases y) auto
qed

end

lemma cmp_ident:
  "cmp (Num a) (Num b) = cmp a b" "cmp (Num a) (Alpha s) = Less"
  "cmp (Alpha s) (Num b) = Greater" "cmp (Alpha s) (Alpha t) = cmp s t"
  by (auto simp: cmp_def less_ident_def)

definition ident_of :: "bytes \<Rightarrow> ident" where
  "ident_of s = (case parse_ascii s of Some n \<Rightarrow> Num n | None \<Rightarrow> Alpha s)"

definition idents :: "bytes \<Rightarrow> ident list" where
  "idents s = map ident_of (split_fields (CHR ''.'') s)"

text \<open>
  The key of a version, compared lexicographically: a release comes after all its pre-releases, so
  the flag \<open>\<not> has_pre\<close> is compared before the identifiers.
\<close>

definition version_key ::
  "'a::len word version_type \<Rightarrow> bytes \<Rightarrow> 'a word \<times> 'a word \<times> 'a word \<times> bool \<times> ident list" where
  "version_key v buf =
     (v_major v, v_minor v, v_patch v, \<not> has_pre (v_tag v),
      if has_pre (v_tag v) then idents (ExternalString_slice (t_pre (v_tag v)) buf) else [])"

lemma order_pre_loop_cmp:
  "order_pre_loop l r = cmp (map ident_of (si_rest l)) (map ident_of (si_rest r))"
proof (induction l r rule: order_pre_loop.induct)
  case (1 l r)
  show ?case
  proof (cases l rule: split_next_cases; cases r rule: split_next_cases)
    fix f l' g r'
    assume l: "split_next l = (Some f, l')" "si_rest l = f # si_rest l'"
      and r: "split_next r = (Some g, r')" "si_rest r = g # si_rest r'"
    note ih = "1.IH" [OF l(1) [symmetric] r(1) [symmetric]]
    show ?thesis
      by (subst order_pre_loop.simps)
        (auto simp: l r ident_of_def [of f] ident_of_def [of g] cmp_Cons cmp_ident order_bytes_def ih
          split: option.splits ordering.splits)
  qed (subst order_pre_loop.simps; auto simp: cmp_Nil)+
qed

text \<open>Handles are arrays of eight bytes.\<close>

definition tag_wf :: "tag \<Rightarrow> bool" where
  "tag_wf t \<longleftrightarrow> length (ss_bytes (es_value (t_pre t))) = 8 \<and> length (ss_bytes (es_value (t_build t))) = 8"

lemma Tag_order_pre_cmp:
  "Tag_order_pre l r lb rb =
    cmp (idents (ExternalString_slice (t_pre l) lb)) (idents (ExternalString_slice (t_pre r) rb))"
  by (simp add: Tag_order_pre_def order_pre_loop_cmp idents_def)

lemma ExternalString_order_empty:
  assumes "tag_wf l" "tag_wf r" "\<not> has_pre l" "\<not> has_pre r"
  shows "ExternalString_order (t_pre l) (t_pre r) lb rb = Equal"
  using assms
  by (simp add: ExternalString_order_def String_order_def order_bytes_def tag_wf_def has_pre_def
      ExternalString_is_empty_def String_is_empty_slice)

lemma order_without_tag_cmp:
  "order_without_tag l r =
    cmp (v_major l, v_minor l, v_patch l, \<not> has_pre (v_tag l))
        (v_major r, v_minor r, v_patch r, \<not> has_pre (v_tag r))"
  by (auto simp: order_without_tag_def cmp_prod cmp_def)

lemma Tag_order_without_build_cmp:
  assumes "tag_wf l" "tag_wf r" "has_pre l = has_pre r"
  shows "Tag_order_without_build l r lb rb =
    (if has_pre l then cmp (idents (ExternalString_slice (t_pre l) lb))
       (idents (ExternalString_slice (t_pre r) rb)) else Equal)"
  using assms ExternalString_order_empty [of l r]
  by (simp add: Tag_order_without_build_def Tag_order_pre_cmp has_pre_def)

lemma order_without_build_cmp:
  assumes "tag_wf (v_tag l)" "tag_wf (v_tag r)"
  shows "order_without_build l r lb rb = cmp (version_key l lb) (version_key r rb)"
proof (cases "order_without_tag l r = Equal")
  case True
  then have "v_major l = v_major r" "v_minor l = v_minor r" "v_patch l = v_patch r"
    "has_pre (v_tag l) = has_pre (v_tag r)"
    by (auto simp: order_without_tag_cmp)
  with True assms show ?thesis
    by (simp add: order_without_build_def Tag_order_without_build_cmp version_key_def cmp_prod)
next
  case False
  then have "order_without_build l r lb rb = order_without_tag l r"
    by (simp add: order_without_build_def)
  also have "\<dots> = cmp (version_key l lb) (version_key r rb)"
    using False unfolding order_without_tag_cmp version_key_def by (rule cmp_prod_extend [symmetric])
  finally show ?thesis .
qed

section \<open>Parsing what was printed\<close>

lemma version_digits_append:
  "\<forall>c\<in>set cs. is_ascii_digit c \<Longrightarrow> length acc + length cs \<le> 20 \<Longrightarrow>
    version_digits cs acc = Some (acc @ cs)"
  by (induction cs arbitrary: acc) (auto simp: is_ascii_digit_code)

lemma parse_version_number_decimal: "parse_version_number (decimal (unat w)) = Some (w :: u64)"
proof -
  have w: "unat w < 2 ^ 64" by (rule unat_u64_less)
  then have "unat w < 10 ^ Suc 19" by simp
  then have "length (decimal (unat w)) \<le> 20" using length_decimal [of "unat w" 19] by simp
  then have "version_digits (decimal (unat w)) [] = Some (decimal (unat w))"
    using version_digits_append [of "decimal (unat w)" "[]"] by (simp add: decimal_digits)
  moreover have "parse_ascii (decimal (unat w)) = Some w"
    using w by (simp add: parse_ascii_def parse_unsigned_decimal)
  ultimately show ?thesis by (simp add: parse_version_number_def)
qed

lemma skip_digits:
  assumes "input = xs @ decimal n @ zs" and "zs = [] \<or> \<not> is_ascii_digit (hd zs)"
  shows "skip_while is_ascii_digit input (Suc (length xs)) = length xs + length (decimal n)"
    and "is_ascii_digit (input ! length xs)"
proof -
  have "hd (decimal n) \<in> set (decimal n)" by simp
  then show d: "is_ascii_digit (input ! length xs)"
    using decimal_digits [of "hd (decimal n)" n]
    by (simp add: assms(1) nth_append hd_conv_nth [symmetric])
  have "skip_while is_ascii_digit input (length xs) = length xs + length (decimal n)"
    using assms by (auto intro: skip_while_append decimal_digits)
  then show "skip_while is_ascii_digit input (Suc (length xs)) = length xs + length (decimal n)"
    using d skip_while_step [of is_ascii_digit input "length xs"] by (simp add: assms(1))
qed

lemma digit_not_special:
  "is_ascii_digit c \<Longrightarrow>
    c \<notin> {CHR '' '', CHR ''|'', CHR ''^'', CHR ''#'', CHR ''&'', CHR ''%'', CHR ''!'', CHR ''.''}"
  by (auto simp: is_ascii_digit_code)

lemma parse_loop_digit:
  assumes "input = s_data (sl_slice ss)" and "i < length input" and "is_ascii_digit (input ! i)"
    and "skip_while is_ascii_digit input (Suc i) = e"
    and "set_part (pr_version r) part_i (parse_version_number (subslice input i e)) = (p, part_i')"
  shows "parse_loop ss i part_i r =
    parse_loop ss (if e < length input \<and> input ! e = CHR ''.'' \<and> part_i' \<noteq> 3 then e + 1 else e)
      part_i' (r\<lparr>pr_version := p\<rparr>)"
  using assms digit_not_special [OF assms(3)] by (subst parse_loop.simps) (simp add: Let_def)

lemma parse_loop_number:
  assumes "s_data (sl_slice ss) = xs @ decimal (unat w) @ zs"
    and "zs = [] \<or> \<not> is_ascii_digit (hd zs)" and "part_i < 3"
  shows "parse_loop ss (length xs) part_i (r :: 64 word parse_result) =
    parse_loop ss (length xs + length (decimal (unat w)) +
        (if zs \<noteq> [] \<and> hd zs = CHR ''.'' \<and> part_i < 2 then 1 else 0))
      (Suc part_i) (r\<lparr>pr_version := fst (set_part (pr_version r) part_i (Some w))\<rparr>)"
proof -
  let ?e = "length xs + length (decimal (unat w))"
  let ?input = "s_data (sl_slice ss)"
  note skip = skip_digits [OF assms(1,2)]
  have num: "parse_version_number (subslice ?input (length xs) ?e) = Some w"
    by (simp add: assms(1) parse_version_number_decimal)
  have dot: "?e < length ?input \<and> ?input ! ?e = CHR ''.'' \<longleftrightarrow> zs \<noteq> [] \<and> hd zs = CHR ''.''"
    by (cases zs) (auto simp: assms(1) nth_append)
  have "snd (set_part (pr_version r) part_i (Some w)) = Suc part_i"
    using assms(3) by (auto simp: set_part_def)
  then obtain p where part: "set_part (pr_version r) part_i (Some w) = (p, Suc part_i)"
    by (cases "set_part (pr_version r) part_i (Some w)") simp
  have lt: "length xs < length ?input"
    by (simp add: assms(1))
  have "parse_loop ss (length xs) part_i r =
      parse_loop ss (if ?e < length ?input \<and> ?input ! ?e = CHR ''.'' \<and> Suc part_i \<noteq> 3
        then ?e + 1 else ?e) (Suc part_i) (r\<lparr>pr_version := p\<rparr>)"
    by (rule parse_loop_digit [OF refl lt skip(2) skip(1)]) (simp only: num part)
  also have "(if ?e < length ?input \<and> ?input ! ?e = CHR ''.'' \<and> Suc part_i \<noteq> 3 then ?e + 1 else ?e)
      = ?e + (if zs \<noteq> [] \<and> hd zs = CHR ''.'' \<and> part_i < 2 then 1 else 0)"
    using dot assms(3) by auto
  finally show ?thesis by (simp only: part fst_conv)
qed

subsection \<open>Tags\<close>

definition tag_char :: "tag_state \<Rightarrow> byte \<Rightarrow> bool" where
  "tag_char st c \<longleftrightarrow>
     is_ascii_alphabetic c \<or> is_ascii_digit c \<or> c = CHR ''.'' \<or> st = StPre \<and> c = CHR ''-''"

lemma tag_char_not:
  "tag_char st c \<Longrightarrow> c \<noteq> CHR ''+'' \<and> c \<noteq> CHR '' '' \<and> c \<noteq> CHR 0x00 \<and> (st \<noteq> StPre \<longrightarrow> c \<noteq> CHR ''-'')"
  by (auto simp: tag_char_def is_ascii_alphabetic_def is_ascii_digit_def less_eq_char_def)

lemma tag_loop_end:
  "length (s_data (sl_slice ss)) \<le> i \<Longrightarrow> tag_loop ss n i st start t = (i, st, start, t)"
  by (subst tag_loop.simps) simp

lemma tag_loop_step:
  assumes "i < length (s_data (sl_slice ss))" and "tag_char st (s_data (sl_slice ss) ! i)"
  shows "tag_loop ss n i st start t = tag_loop ss n (i + 1) st start t"
  using assms tag_char_not [OF assms(2)]
  by (subst tag_loop.simps) (auto simp: Let_def tag_char_def)

lemma tag_loop_skip:
  assumes "s_data (sl_slice ss) = xs @ ys @ zs" and "\<forall>c\<in>set ys. tag_char st c"
  shows "tag_loop ss n (length xs) st start t = tag_loop ss n (length xs + length ys) st start t"
  using assms
proof (induction ys arbitrary: xs)
  case (Cons y ys)
  have "tag_loop ss n (length xs) st start t = tag_loop ss n (length xs + 1) st start t"
    using Cons.prems by (intro tag_loop_step) (auto simp: nth_append)
  also have "\<dots> = tag_loop ss n (length xs + length (y # ys)) st start t"
    using Cons.IH [of "xs @ [y]"] Cons.prems by simp
  finally show ?case .
qed simp

lemma tag_loop_minus:
  assumes "s_data (sl_slice ss) = xs @ CHR ''-'' # zs" and "st \<noteq> StPre"
  shows "tag_loop ss n (length xs) st start t
    = tag_loop ss n (Suc (length xs)) StPre (Suc (length xs)) t"
  using assms by (subst tag_loop.simps) (simp add: Let_def nth_append)

lemma tag_loop_plus:
  assumes "s_data (sl_slice ss) = xs @ CHR ''+'' # zs" and "st \<noteq> StBuild"
  shows "tag_loop ss n (length xs) st start t
    = tag_loop ss n (Suc (length xs)) StBuild (Suc (length xs))
        (if st = StPre \<or> st = StNone \<and> 0 < n then t\<lparr>t_pre := sub_external ss start (length xs)\<rparr> else t)"
  using assms by (subst tag_loop.simps) (simp add: Let_def nth_append)

lemma slice_at_sub:
  assumes "slice_at buf inp k" and "a \<le> b" and "b \<le> length (s_data inp)"
  shows "slice_at buf (slice_sub inp a b) (k + a)"
proof -
  have i: "s_addr inp = s_addr buf + of_nat k"
    using assms(1) unfolding slice_at_def by (metis slice.select_convs(1) slice_sub_def)
  have "subslice (s_data inp) a b = subslice (s_data buf) (k + a) (k + b)"
    using slice_at_data [OF assms(1)] subslice_subslice [OF assms(3), of "s_data buf" k a] by simp
  with assms i show ?thesis
    by (simp add: slice_at_def slice_sub_def length_subslice)
qed

text \<open>The tag of a version whose strings were taken from \<open>buf\<close> is \<open>pre\<close> and \<open>build\<close>.\<close>

definition tag_reads :: "tag \<Rightarrow> bytes \<Rightarrow> bytes \<Rightarrow> bytes \<Rightarrow> bool" where
  "tag_reads t buf pre build \<longleftrightarrow>
     tag_wf t \<and> ExternalString_slice (t_pre t) buf = pre \<and> ExternalString_slice (t_build t) buf = build \<and>
     (has_pre t \<longleftrightarrow> pre \<noteq> []) \<and> (has_build t \<longleftrightarrow> build \<noteq> [])"

lemma tag_reads_default: "tag_reads Tag_default buf [] []"
  by (simp add: tag_reads_def Tag_default_def tag_wf_def ExternalString_default_def
      ExternalString_slice_def has_pre_def has_build_def ExternalString_is_empty_def)
    (simp add: String_is_empty_def String_EMPTY_def numeral_eq_Suc)

lemma sub_external_reads:
  assumes "slice_at (sl_buf ss) (sl_slice ss) k" and "a \<le> b" and "b \<le> length (s_data (sl_slice ss))"
    and "\<forall>c\<in>set (subslice (s_data (sl_slice ss)) a b). tag_char st c"
  shows "ExternalString_slice (sub_external ss a b) (s_data (sl_buf ss))
      = subslice (s_data (sl_slice ss)) a b"
    and "ExternalString_is_empty (sub_external ss a b) \<longleftrightarrow> a = b"
    and "length (ss_bytes (es_value (sub_external ss a b))) = 8"
proof -
  have n: "nul_free (subslice (s_data (sl_slice ss)) a b)"
    using assms(4) tag_char_not by (auto simp: nul_free_def)
  have "subslice (s_data (sl_slice ss)) a b = [] \<longleftrightarrow> a = b"
    using assms(2,3) length_subslice [of b "s_data (sl_slice ss)" a] by auto
  then show "ExternalString_slice (sub_external ss a b) (s_data (sl_buf ss))
      = subslice (s_data (sl_slice ss)) a b"
    and "ExternalString_is_empty (sub_external ss a b) \<longleftrightarrow> a = b"
    and "length (ss_bytes (es_value (sub_external ss a b))) = 8"
    using n String_init_slice [OF slice_at_sub [OF assms(1-3)]]
      String_init_is_empty [of "slice_sub (sl_slice ss) a b" "sl_buf ss"]
    by (simp_all add: sub_external_def SlicedString_external_def SlicedString_sub_def
        ExternalString_slice_def ExternalString_init_def ExternalString_is_empty_def
        length_String_init slice_sub_def)
qed

definition tag_text :: "bytes \<Rightarrow> bytes \<Rightarrow> bytes" where
  "tag_text pre build =
     (if pre = [] then [] else CHR ''-'' # pre) @ (if build = [] then [] else CHR ''+'' # build)"

lemma tag_counts_text:
  "pre \<noteq> [] \<or> build \<noteq> [] \<Longrightarrow> tag_counts (tag_text pre build) \<noteq> (0, 0)"
  "tag_counts (tag_text [] []) = (0, 0)"
  by (cases "pre = []"; simp add: tag_counts_def tag_text_def Let_def)
    (simp add: tag_counts_def tag_text_def)

lemma tag_loop_build:
  assumes "s_data (sl_slice ss) = xs @ CHR ''+'' # build" and "\<forall>c\<in>set build. tag_char StBuild c"
    and "st \<noteq> StBuild"
  shows "tag_loop ss n (length xs) st start t
    = (Suc (length xs + length build), StBuild, Suc (length xs),
        (if st = StPre \<or> st = StNone \<and> 0 < n then t\<lparr>t_pre := sub_external ss start (length xs)\<rparr> else t))"
  using tag_loop_plus [OF assms(1,3)] assms(1,2)
    tag_loop_skip [of ss "xs @ [CHR ''+'']" build "[]" StBuild]
  by (simp add: tag_loop_end)

lemma tag_loop_pre:
  assumes "s_data (sl_slice ss) = CHR ''-'' # pre @ zs" and "\<forall>c\<in>set pre. tag_char StPre c"
  shows "tag_loop ss n 0 StNone 0 t = tag_loop ss n (Suc (length pre)) StPre 1 t"
  using tag_loop_minus [of ss "[]" "pre @ zs" StNone n 0 t] assms
    tag_loop_skip [of ss "[CHR ''-'']" pre zs StPre n 1 t]
  by simp

lemma parse_with_pre_count_eq:
  assumes "tag_counts (s_data (sl_slice ss)) \<noteq> (0, 0)"
    and "tag_loop ss 0 0 StNone 0 Tag_default = (i, st, start, t)"
  shows "Tag_parse ss = \<lparr>tr_tag = (case st of StNone \<Rightarrow> t
      | StPre \<Rightarrow> t\<lparr>t_pre := sub_external ss start i\<rparr>
      | StBuild \<Rightarrow> t\<lparr>t_build := sub_external ss start i\<rparr>), tr_len = of_nat i\<rparr>"
  using assms by (auto simp: Tag_parse_def parse_with_pre_count_def split: prod.splits)

lemma tag_reads_update:
  assumes "tag_reads t buf p b"
    and "ExternalString_slice e buf = x" "ExternalString_is_empty e \<longleftrightarrow> x = []"
      "length (ss_bytes (es_value e)) = 8"
  shows "tag_reads (t\<lparr>t_pre := e\<rparr>) buf x b" and "tag_reads (t\<lparr>t_build := e\<rparr>) buf p x"
  using assms by (auto simp: tag_reads_def tag_wf_def has_pre_def has_build_def)

lemma sub_external_update:
  assumes "tag_reads t (s_data (sl_buf ss)) p b" and "slice_at (sl_buf ss) (sl_slice ss) k"
    and "s_data (sl_slice ss) = xs @ ys @ zs" and "\<forall>c\<in>set ys. tag_char st c"
    and "i = length xs" and "j = length xs + length ys"
  shows "tag_reads (t\<lparr>t_pre := sub_external ss i j\<rparr>) (s_data (sl_buf ss)) ys b"
    and "tag_reads (t\<lparr>t_build := sub_external ss i j\<rparr>) (s_data (sl_buf ss)) p ys"
  using tag_reads_update [OF assms(1), of "sub_external ss i j" ys]
    sub_external_reads [OF assms(2), of i j st] assms(3-6)
  by simp_all

lemma Tag_parse_text:
  assumes at: "slice_at (sl_buf ss) (sl_slice ss) k"
    and src: "s_data (sl_slice ss) = tag_text pre build"
    and pre: "\<forall>c\<in>set pre. tag_char StPre c" and build: "\<forall>c\<in>set build. tag_char StBuild c"
  shows "tag_reads (tr_tag (Tag_parse ss)) (s_data (sl_buf ss)) pre build"
    and "unat (tr_len (Tag_parse ss)) = length (tag_text pre build)"
proof -
  note upd = sub_external_update [OF _ at]
  have len: "length (tag_text pre build) < 2 ^ 32"
    using at src by (simp add: slice_at_def)
  have "tag_reads (tr_tag (Tag_parse ss)) (s_data (sl_buf ss)) pre build
      \<and> tr_len (Tag_parse ss) = of_nat (length (tag_text pre build))"
  proof (cases "pre = []")
    case True
    show ?thesis
    proof (cases "build = []")
      case True
      with \<open>pre = []\<close> src show ?thesis
        by (simp add: Tag_parse_def parse_with_pre_count_def TagResult_default_def tag_counts_text
            tag_reads_default) (simp add: tag_text_def)
    next
      case False
      with \<open>pre = []\<close> src have d: "s_data (sl_slice ss) = [] @ CHR ''+'' # build"
        by (simp add: tag_text_def)
      have "tag_loop ss 0 0 StNone 0 Tag_default = (Suc (length build), StBuild, 1, Tag_default)"
        using tag_loop_build [OF d build, of StNone] by simp
      moreover have "tag_reads (Tag_default\<lparr>t_build := sub_external ss 1 (Suc (length build))\<rparr>)
          (s_data (sl_buf ss)) [] build"
        using upd(2) [OF tag_reads_default, of "[CHR ''+'']" build "[]" StBuild] d build by simp
      ultimately show ?thesis
        using tag_counts_text(1) [of pre build] False True src
        by (simp add: parse_with_pre_count_eq) (simp add: tag_text_def)
    qed
  next
    case False
    note ne = this
    have p: "tag_loop ss 0 0 StNone 0 Tag_default = tag_loop ss 0 (Suc (length pre)) StPre 1 Tag_default"
      using tag_loop_pre [OF _ pre] src ne by (simp add: tag_text_def)
    have rp: "tag_reads (Tag_default\<lparr>t_pre := sub_external ss 1 (Suc (length pre))\<rparr>)
        (s_data (sl_buf ss)) pre []"
      using upd(1) [OF tag_reads_default, of "[CHR ''-'']" pre _ StPre] src ne pre
      by (auto simp: tag_text_def)
    show ?thesis
    proof (cases "build = []")
      case True
      with p src ne have "tag_loop ss 0 0 StNone 0 Tag_default
          = (Suc (length pre), StPre, 1, Tag_default)"
        by (simp add: tag_loop_end tag_text_def)
      with rp True ne src tag_counts_text(1) [of pre build] show ?thesis
        by (simp add: parse_with_pre_count_eq) (simp add: tag_text_def)
    next
      case False
      have d: "s_data (sl_slice ss) = (CHR ''-'' # pre) @ CHR ''+'' # build"
        using src ne False by (simp add: tag_text_def)
      let ?j = "Suc (Suc (length pre + length build))"
      have "tag_loop ss 0 0 StNone 0 Tag_default = (?j, StBuild, Suc (Suc (length pre)),
          Tag_default\<lparr>t_pre := sub_external ss 1 (Suc (length pre))\<rparr>)"
        using tag_loop_build [OF d build, of StPre] p by simp
      moreover have "tag_reads (Tag_default\<lparr>t_pre := sub_external ss 1 (Suc (length pre)),
          t_build := sub_external ss (Suc (Suc (length pre))) ?j\<rparr>) (s_data (sl_buf ss)) pre build"
        using upd(2) [OF rp, of "CHR ''-'' # pre @ [CHR ''+'']" build "[]" StBuild] d build by simp
      ultimately show ?thesis
        using tag_counts_text(1) [of pre build] False ne src
        by (simp add: parse_with_pre_count_eq) (simp add: tag_text_def)
    qed
  qed
  then show "tag_reads (tr_tag (Tag_parse ss)) (s_data (sl_buf ss)) pre build"
    and "unat (tr_len (Tag_parse ss)) = length (tag_text pre build)"
    using len by (simp_all add: unat_of_nat_u32)
qed

text \<open>\<open>Tag::parse\<close> consumes the whole of \<open>T\<close> and finds \<open>pre\<close> and \<open>build\<close> in it.\<close>

definition tag_parses :: "bytes \<Rightarrow> bytes \<Rightarrow> bytes \<Rightarrow> bool" where
  "tag_parses T pre build \<longleftrightarrow>
     (\<forall>ss k. slice_at (sl_buf ss) (sl_slice ss) k \<longrightarrow> s_data (sl_slice ss) = T \<longrightarrow>
        tag_reads (tr_tag (Tag_parse ss)) (s_data (sl_buf ss)) pre build \<and>
        unat (tr_len (Tag_parse ss)) = length T)"

lemma tag_parses_text:
  assumes "\<forall>c\<in>set pre. tag_char StPre c" and "\<forall>c\<in>set build. tag_char StBuild c"
  shows "tag_parses (tag_text pre build) pre build"
  using Tag_parse_text [OF _ _ assms] by (simp add: tag_parses_def)

lemma tag_parses_Nil:
  assumes "tag_parses [] pre build"
  shows "pre = []" and "build = []"
proof -
  let ?s = "\<lparr>s_addr = 0, s_data = []\<rparr>"
  have "Tag_parse \<lparr>sl_buf = ?s, sl_slice = ?s\<rparr> = TagResult_default"
    by (simp add: Tag_parse_def parse_with_pre_count_def tag_counts_def)
  then have "tag_reads Tag_default [] pre build"
    using assms [unfolded tag_parses_def, rule_format, of "\<lparr>sl_buf = ?s, sl_slice = ?s\<rparr>" 0]
    by (simp add: slice_at_def slice_sub_def subslice_def TagResult_default_def)
  with tag_reads_default [of "[]"] show "pre = []" and "build = []"
    by (simp_all add: tag_reads_def)
qed

text \<open>A hyphen after a \<open>+\<close> ends the build metadata and starts a pre-release.\<close>

lemma tag_parses_hyphen_build:
  assumes "\<forall>c\<in>set b1. tag_char StBuild c" and "\<forall>c\<in>set b2. tag_char StPre c"
  shows "tag_parses (CHR ''+'' # b1 @ CHR ''-'' # b2) b2 []"
  unfolding tag_parses_def
proof (intro allI impI)
  fix ss :: sliced_string and k
  assume at: "slice_at (sl_buf ss) (sl_slice ss) k"
    and d: "s_data (sl_slice ss) = CHR ''+'' # b1 @ CHR ''-'' # b2"
  let ?s = "Suc (Suc (length b1))"
  have "tag_loop ss 0 0 StNone 0 Tag_default = tag_loop ss 0 (Suc (length b1)) StBuild 1 Tag_default"
    using tag_loop_plus [of ss "[]" "b1 @ CHR ''-'' # b2" StNone 0 0 Tag_default] d assms(1)
      tag_loop_skip [of ss "''+''" b1 "CHR ''-'' # b2" StBuild 0 1 Tag_default]
    by simp
  also have "\<dots> = tag_loop ss 0 ?s StPre ?s Tag_default"
    using tag_loop_minus [of ss "CHR ''+'' # b1" b2 StBuild 0 1 Tag_default] d by simp
  also have "\<dots> = (?s + length b2, StPre, ?s, Tag_default)"
    using tag_loop_skip [of ss "CHR ''+'' # b1 @ ''-''" b2 "[]" StPre 0 ?s Tag_default] d assms(2)
    by (simp add: tag_loop_end)
  finally have loop: "tag_loop ss 0 0 StNone 0 Tag_default = (?s + length b2, StPre, ?s, Tag_default)" .
  have "tag_counts (s_data (sl_slice ss)) \<noteq> (0, 0)"
    by (simp add: d tag_counts_def Let_def)
  note parse = parse_with_pre_count_eq [OF this loop]
  have "?s + length b2 < 2 ^ 32"
    using at d by (simp add: slice_at_def)
  then have "unat (tr_len (Tag_parse ss)) = ?s + length b2"
    unfolding parse tag_result.select_convs by (rule unat_of_nat_u32)
  moreover have "tag_reads (tr_tag (Tag_parse ss)) (s_data (sl_buf ss)) b2 []"
    using sub_external_update(1) [OF tag_reads_default at, of "CHR ''+'' # b1 @ ''-''" b2 "[]" StPre]
      d assms(2) parse by simp
  ultimately show "tag_reads (tr_tag (Tag_parse ss)) (s_data (sl_buf ss)) b2 [] \<and>
     unat (tr_len (Tag_parse ss)) = length (CHR ''+'' # b1 @ CHR ''-'' # b2)"
    by simp
qed

subsection \<open>Versions\<close>

lemma parse_loop_end: "length (s_data (sl_slice ss)) \<le> i \<Longrightarrow> parse_loop ss i part_i r = (i, part_i, r)"
  by (subst parse_loop.simps) simp

lemma parse_loop_tag:
  assumes "s_data (sl_slice ss) = xs @ c # zs" and "c = CHR ''-'' \<or> c = CHR ''+''" and "2 \<le> part_i"
    and "ss' = \<lparr>sl_buf = sl_buf ss, sl_slice = slice_sub (sl_slice ss) (length xs) (length xs + length (c # zs))\<rparr>"
  shows "parse_loop ss (length xs) part_i r = (length xs + unat (tr_len (Tag_parse ss')), part_i,
    r\<lparr>pr_version := (pr_version r)\<lparr>p_tag := tr_tag (Tag_parse ss')\<rparr>\<rparr>)"
proof -
  have "skip_while (\<lambda>b. b = CHR '' '') (s_data (sl_slice ss)) (length xs) = length xs"
    using assms(1,2) by (subst skip_while_step) (auto simp: nth_append)
  moreover have "\<not> is_ascii_digit c" "s_data (sl_slice ss) ! length xs = c"
    using assms(1,2) by (auto simp: is_ascii_digit_def less_eq_char_def)
  moreover have "slice_sub (sl_slice ss) (length xs) (length (s_data (sl_slice ss))) = sl_slice ss'"
    using assms(1,4) by simp
  ultimately show ?thesis
    using assms(2,3)
    by (subst parse_loop.simps) (elim disjE; simp add: Let_def SlicedString_sub_def assms(1,4))
qed

lemma parse_loop_tag_text:
  assumes at: "slice_at (sl_buf ss) (sl_slice ss) k"
    and src: "s_data (sl_slice ss) = xs @ T" and T: "T = [] \<or> hd T = CHR ''-'' \<or> hd T = CHR ''+''"
    and tp: "tag_parses T pre build" and init: "p_tag (pr_version r) = Tag_default"
  shows "\<exists>t. parse_loop ss (length xs) 3 r
      = (length (s_data (sl_slice ss)), 3, r\<lparr>pr_version := (pr_version r)\<lparr>p_tag := t\<rparr>\<rparr>)
    \<and> tag_reads t (s_data (sl_buf ss)) pre build"
proof (cases T)
  case Nil
  then have "pre = []" "build = []" using tag_parses_Nil tp by auto
  moreover have "pr_version r\<lparr>p_tag := Tag_default\<rparr> = pr_version r"
    using init by (cases "pr_version r") simp
  ultimately show ?thesis
    using src Nil tag_reads_default by (auto simp: parse_loop_end intro!: exI [of _ Tag_default])
next
  case (Cons c zs)
  let ?ss = "\<lparr>sl_buf = sl_buf ss, sl_slice = slice_sub (sl_slice ss) (length xs) (length xs + length (c # zs))\<rparr>"
  have c: "c = CHR ''-'' \<or> c = CHR ''+''"
    using Cons T by simp
  have d: "s_data (sl_slice ?ss) = T"
    using src Cons by (simp add: slice_sub_def subslice_def)
  have "slice_at (sl_buf ?ss) (sl_slice ?ss) (k + length xs)"
    using slice_at_sub [OF at] src Cons by simp
  with d tp have "tag_reads (tr_tag (Tag_parse ?ss)) (s_data (sl_buf ss)) pre build"
    "unat (tr_len (Tag_parse ?ss)) = length T"
    unfolding tag_parses_def by (metis sliced_string.select_convs(1))+
  then show ?thesis
    using parse_loop_tag [OF src [unfolded Cons] c _ refl, of 3 r] Cons src
    by (intro exI [of _ "tr_tag (Tag_parse ?ss)"]) simp
qed

lemma hd_tag_text:
  "tag_text pre build = [] \<or> hd (tag_text pre build) = CHR ''-'' \<or> hd (tag_text pre build) = CHR ''+''"
  by (auto simp: tag_text_def)

lemma parse_release:
  assumes "s_data (sl_slice ss)
    = decimal (unat a) @ ''.'' @ decimal (unat b) @ ''.'' @ decimal (unat c) @ zs"
    and "zs = [] \<or> \<not> is_ascii_digit (hd zs)"
  shows "parse_loop ss 0 0 (ParseResult_default :: u64 parse_result) =
    parse_loop ss (length (s_data (sl_slice ss)) - length zs) 3
      (ParseResult_default\<lparr>pr_version := \<lparr>p_major = Some a, p_minor = Some b, p_patch = Some c,
        p_tag = Tag_default\<rparr>\<rparr>)"
proof -
  let ?A = "decimal (unat a)" and ?B = "decimal (unat b)" and ?C = "decimal (unat c)"
  have nd: "\<not> is_ascii_digit (CHR ''.'')"
    by (simp add: is_ascii_digit_def less_eq_char_def)
  note step = parse_loop_number
  show ?thesis
    using step [of ss "[]" a "''.'' @ ?B @ ''.'' @ ?C @ zs" 0 ParseResult_default]
      step [of ss "?A @ ''.''" b "''.'' @ ?C @ zs" 1]
      step [of ss "?A @ ''.'' @ ?B @ ''.''" c zs 2] assms nd
    by (simp add: numeral_eq_Suc set_part_def ParseResult_default_def Partial_default_def
        add.assoc)
qed

lemma separator_not_digit: "is_ascii_digit c \<Longrightarrow> \<not> is_separator c"
  by (auto simp: is_separator_def WHITESPACE_CHARS_def is_ascii_digit_code)

lemma Version_parse_release:
  assumes at: "slice_at (sl_buf ss) (sl_slice ss) k"
    and src: "s_data (sl_slice ss)
      = decimal (unat a) @ ''.'' @ decimal (unat b) @ ''.'' @ decimal (unat c) @ T"
    and T: "T = [] \<or> hd T = CHR ''-'' \<or> hd T = CHR ''+''" and tp: "tag_parses T pre build"
  shows "\<exists>t. Version_parse ss = Some \<lparr>pr_wildcard = WNone, pr_valid = True,
      pr_version = \<lparr>p_major = Some (a :: u64), p_minor = Some b, p_patch = Some c, p_tag = t\<rparr>,
      pr_len = of_nat (length (s_data (sl_slice ss)))\<rparr> \<and> tag_reads t (s_data (sl_buf ss)) pre build"
proof -
  let ?s = "s_data (sl_slice ss)"
  let ?xs = "decimal (unat a) @ ''.'' @ decimal (unat b) @ ''.'' @ decimal (unat c)"
  let ?r = "ParseResult_default\<lparr>pr_version := \<lparr>p_major = Some a, p_minor = Some b,
      p_patch = Some c, p_tag = Tag_default\<rparr>\<rparr>"
  have len: "length ?s < 2 ^ 32"
    using at by (simp add: slice_at_def)
  have src': "?s = ?xs @ T"
    using src by simp
  from parse_loop_tag_text [OF at src' T tp, of ?r] obtain t where
    t: "parse_loop ss (length ?xs) 3 ?r = (length ?s, 3,
        ?r\<lparr>pr_version := (pr_version ?r)\<lparr>p_tag := t\<rparr>\<rparr>)" "tag_reads t (s_data (sl_buf ss)) pre build"
    by auto
  have "T = [] \<or> \<not> is_ascii_digit (hd T)"
    using T by (auto simp: is_ascii_digit_def less_eq_char_def)
  then have "parse_loop ss 0 0 ParseResult_default = parse_loop ss (length ?xs) 3 ?r"
    using parse_release [of ss a b c T] src by simp
  moreover have "hd (decimal (unat a)) \<in> set (decimal (unat a))" by simp
  then have "is_ascii_digit (?s ! 0)"
    unfolding src using decimal_digits [of "hd (decimal (unat a))" "unat a"]
    by (simp add: nth_append hd_conv_nth [symmetric])
  then have "skip_while is_separator ?s 0 = 0"
    using separator_not_digit by (subst skip_while_step) auto
  ultimately show ?thesis
    using t len src
    by (simp add: Version_parse_def Let_def wildcard_of_part_def ParseResult_default_def)
qed

lemma parse_release_tag:
  assumes "s_data s = decimal (unat a) @ ''.'' @ decimal (unat b) @ ''.'' @ decimal (unat c) @ T"
    and "length (s_data s) < 2 ^ 31"
    and "T = [] \<or> hd T = CHR ''-'' \<or> hd T = CHR ''+''" and "tag_parses T pre build"
  shows "\<exists>t. parse_utf8 s = Some \<lparr>pr_wildcard = WNone, pr_valid = True,
      pr_version = \<lparr>p_major = Some (a :: u64), p_minor = Some b, p_patch = Some c, p_tag = t\<rparr>,
      pr_len = of_nat (length (s_data s))\<rparr> \<and> tag_reads t (s_data s) pre build"
  using Version_parse_release [of "\<lparr>sl_buf = s, sl_slice = s\<rparr>" 0 a b c T pre build] assms
  by (simp add: parse_utf8_def slice_at_def slice_sub_def subslice_def)

lemma Version_fmt_text:
  assumes "tag_reads (v_tag v) buf pre build"
  shows "Version_fmt v buf = decimal (unat (v_major v)) @ ''.'' @ decimal (unat (v_minor v)) @ ''.'' @
    decimal (unat (v_patch v)) @ tag_text pre build"
  using assms by (auto simp: Version_fmt_def tag_reads_def tag_text_def)

subsection \<open>Release numbers of any length\<close>

lemma decimal_value_less: "\<forall>c\<in>set cs. is_ascii_digit c \<Longrightarrow> decimal_value cs 0 < 10 ^ length cs"
proof (induction cs rule: rev_induct)
  case (snoc c cs)
  then have "decimal_value cs 0 < 10 ^ length cs" and "(of_char c :: nat) - 48 < 10"
    by (auto simp: is_ascii_digit_code)
  moreover have "decimal_value (cs @ [c]) 0 = decimal_value cs 0 * 10 + (of_char c - 48)"
    by (simp add: decimal_value_def)
  ultimately show ?case by simp
qed (simp add: decimal_value_def)

lemma version_digits_long:
  "\<forall>c\<in>set cs. is_ascii_digit c \<Longrightarrow> length acc \<le> 20 \<Longrightarrow> 20 < length acc + length cs \<Longrightarrow>
    version_digits cs acc = None"
  by (induction cs arbitrary: acc) (auto simp: is_ascii_digit_code)

lemma parse_version_number_any:
  "(parse_version_number (decimal n) :: u64 option)
   = (if n < 2 ^ 64 then Some (of_nat n) else if n < 10 ^ 20 then Some 0 else None)"
proof (cases "n < 10 ^ 20")
  case True
  then have "length (decimal n) \<le> 20" using length_decimal [of n 19] by simp
  then have "version_digits (decimal n) [] = Some (decimal n)"
    using version_digits_append [of "decimal n" "[]"] by (simp add: decimal_digits)
  moreover from True have "parse_with_sign (decimal n) 10 = Inr n"
    by (intro parse_with_sign_decimal) simp
  ultimately show ?thesis
    using True by (auto simp: parse_version_number_def parse_ascii_def parse_unsigned_def auto_radix_def)
next
  case False
  have "n < 10 ^ length (decimal n)"
    using decimal_value_less [of "decimal n"] by (simp add: decimal_digits decimal_value_decimal)
  with False have "(10 :: nat) ^ 20 < 10 ^ length (decimal n)" by linarith
  then have "20 < length (decimal n)" by (simp only: power_strict_increasing_iff)
  then have "version_digits (decimal n) [] = None"
    by (intro version_digits_long) (auto simp: decimal_digits)
  with False show ?thesis by (simp add: parse_version_number_def)
qed

subsection \<open>The parser stays inside its input\<close>

lemma tag_loop_bound: "i \<le> length (s_data (sl_slice ss)) \<Longrightarrow>
    fst (tag_loop ss n i st start t) \<le> length (s_data (sl_slice ss))"
proof (induction ss n i st start t rule: tag_loop.induct)
  case (1 ss n i st start t)
  then show ?case
    by (subst tag_loop.simps) (auto simp: Let_def split: tag_state.splits)
qed

lemma parse_with_pre_count_bound:
  "unat (tr_len (parse_with_pre_count ss n)) \<le> length (s_data (sl_slice ss))"
  using tag_loop_bound [of 0 ss n StNone 0 Tag_default]
  by (auto simp: parse_with_pre_count_def TagResult_default_def Let_def split: prod.splits
      intro: unat_of_nat_u32_le)

lemma sub_tag_bound:
  assumes "i \<le> length input" and "input = s_data (sl_slice ss)"
  shows "i + unat (tr_len (parse_with_pre_count
    (SlicedString_sub ss (slice_sub (sl_slice ss) i (length input))) n)) \<le> length input"
  using parse_with_pre_count_bound
      [of "SlicedString_sub ss (slice_sub (sl_slice ss) i (length input))" n] assms
  by (simp add: SlicedString_sub_def slice_sub_def length_subslice)

lemma parse_loop_wild:
  assumes "input = s_data (sl_slice ss)" and "i < length input" and "is_wild (input ! i)"
    and "skip_while is_wild input (Suc i) = e"
  shows "parse_loop ss i part_i r =
    parse_loop ss (if e < length input \<and> input ! e = CHR ''.'' then e + 1 else e)
      (if pr_wildcard r = WNone \<and> part_i < 3 then part_i + 1 else part_i)
      (if pr_wildcard r = WNone then r\<lparr>pr_wildcard := wildcard_of_part WNone part_i\<rparr> else r)"
proof -
  have "\<not> is_ascii_digit (input ! i)"
    using assms(3) by (auto simp: is_wild_def is_ascii_digit_code)
  moreover have "input ! i \<notin> {CHR '' '', CHR ''|'', CHR ''^'', CHR ''#'', CHR ''&'', CHR ''%'', CHR ''!'',
      CHR ''.'', CHR ''-'', CHR ''+''}"
    using assms(3) by (auto simp: is_wild_def)
  ultimately show ?thesis
    using assms by (subst parse_loop.simps) (simp add: Let_def)
qed

lemma parse_loop_bound: "i \<le> length (s_data (sl_slice ss)) \<Longrightarrow>
    fst (parse_loop ss i part_i r) \<le> length (s_data (sl_slice ss))"
proof (induction "length (s_data (sl_slice ss)) - i" arbitrary: i part_i r rule: less_induct)
  case less
  let ?input = "s_data (sl_slice ss)"
  have skip: "skip_while p ?input (Suc i) \<le> length ?input" if "i < length ?input" for p
    using that by (intro skip_while_le) simp
  note ih = less.hyps
  consider "length ?input \<le> i"
    | (digit) "i < length ?input" "is_ascii_digit (?input ! i)"
    | (wild) "i < length ?input" "is_wild (?input ! i)"
    | (other) "i < length ?input" "\<not> is_ascii_digit (?input ! i)" "\<not> is_wild (?input ! i)"
    by fastforce
  then show ?case
  proof cases
    case digit
    obtain p part' where "set_part (pr_version r) part_i (parse_version_number
        (subslice ?input i (skip_while is_ascii_digit ?input (Suc i)))) = (p, part')"
      by fastforce
    from parse_loop_digit [OF refl digit refl this] show ?thesis
      using digit(1) skip [OF digit(1), of is_ascii_digit]
      by (auto intro!: ih intro: diff_less_mono2 less_SucI)
  next
    case wild
    from parse_loop_wild [OF refl wild refl, of part_i r] show ?thesis
      using wild(1) skip [OF wild(1), of is_wild]
      by (auto intro!: ih intro: diff_less_mono2 less_SucI)
  next
    case other
    have "skip_while (\<lambda>b. b = CHR '' '') ?input i = i" if "?input ! i \<noteq> CHR '' ''"
      using that by (subst skip_while_step) simp
    with other sub_tag_bound [OF less.prems refl] show ?thesis
      by (subst parse_loop.simps) (auto simp: Let_def Tag_parse_def)
  qed (use less.prems in \<open>simp add: parse_loop_end\<close>)
qed

lemma Version_parse_total:
  assumes "length (s_data (sl_slice ss)) < 2 ^ 32"
  shows "\<exists>r :: 'a::len word parse_result. Version_parse ss = Some r \<and> unat (pr_len r) \<le> length (s_data (sl_slice ss))"
proof (cases "s_data (sl_slice ss) = []")
  case True
  then show ?thesis by (simp add: Version_parse_def ParseResult_default_def)
next
  case False
  let ?input = "s_data (sl_slice ss)"
  define i where "i = (if skip_while is_separator ?input 0 < length ?input
      then skip_while is_separator ?input 0 else 0)"
  obtain j part_i and r :: "'a word parse_result"
    where j: "parse_loop ss i 0 ParseResult_default = (j, part_i, r)"
    by (cases "parse_loop ss i 0 ParseResult_default :: _ \<times> _ \<times> 'a word parse_result") auto
  moreover have "j \<le> length ?input"
    using parse_loop_bound [of i ss 0 "ParseResult_default :: 'a word parse_result"] j
    by (auto simp: i_def)
  ultimately show ?thesis
    using False assms
    by (auto simp: Version_parse_def i_def [symmetric] Let_def intro: unat_of_nat_u32_le)
qed

subsection \<open>The parser's tags are well formed\<close>

lemma length_sub_external [simp]: "length (ss_bytes (es_value (sub_external ss a b))) = 8"
  by (simp add: sub_external_def SlicedString_external_def ExternalString_init_def length_String_init)

lemma tag_wf_update [simp]:
  "tag_wf t \<Longrightarrow> tag_wf (t\<lparr>t_pre := sub_external ss a b\<rparr>)"
  "tag_wf t \<Longrightarrow> tag_wf (t\<lparr>t_build := sub_external ss a b\<rparr>)"
  by (simp_all add: tag_wf_def)

lemma tag_wf_default [simp]: "tag_wf Tag_default"
  using tag_reads_default by (simp add: tag_reads_def)

lemma has_pre_default [simp]: "\<not> has_pre Tag_default"
  using tag_reads_default by (simp add: tag_reads_def)

lemma tag_loop_wf: "tag_wf t \<Longrightarrow> tag_wf (snd (snd (snd (tag_loop ss n i st start t))))"
proof (induction ss n i st start t rule: tag_loop.induct)
  case (1 ss n i st start t)
  then show ?case
    by (subst tag_loop.simps) (auto simp: Let_def split: tag_state.splits)
qed

lemma parse_with_pre_count_wf: "tag_wf (tr_tag (parse_with_pre_count ss n))"
proof -
  have "tag_wf (snd (snd (snd (tag_loop ss n 0 StNone 0 Tag_default))))"
    by (rule tag_loop_wf) simp
  then show ?thesis
    by (auto simp: parse_with_pre_count_def TagResult_default_def Let_def
        split: prod.splits tag_state.splits)
qed

definition partial_wf :: "'a parse_result \<Rightarrow> bool" where
  "partial_wf r \<longleftrightarrow> tag_wf (p_tag (pr_version r))"

lemma parse_loop_wf: "partial_wf r \<Longrightarrow> partial_wf (snd (snd (parse_loop ss i part_i r)))"
proof (induction "length (s_data (sl_slice ss)) - i" arbitrary: i part_i r rule: less_induct)
  case less
  let ?input = "s_data (sl_slice ss)"
  note ih = less.hyps
  consider "length ?input \<le> i"
    | (digit) "i < length ?input" "is_ascii_digit (?input ! i)"
    | (wild) "i < length ?input" "is_wild (?input ! i)"
    | (other) "i < length ?input" "\<not> is_ascii_digit (?input ! i)" "\<not> is_wild (?input ! i)"
    by fastforce
  then show ?case
  proof cases
    case digit
    let ?n = "parse_version_number (subslice ?input i (skip_while is_ascii_digit ?input (Suc i)))"
    obtain p k where sp: "set_part (pr_version r) part_i ?n = (p, k)"
      by fastforce
    then have "p_tag p = p_tag (pr_version r)"
      by (auto simp: set_part_def split: if_splits)
    then have "partial_wf (r\<lparr>pr_version := p\<rparr>)"
      using less.prems by (simp add: partial_wf_def)
    with parse_loop_digit [OF refl digit refl sp] digit(1) show ?thesis
      by (auto intro!: ih intro: diff_less_mono2 less_SucI)
  next
    case wild
    have "partial_wf (r\<lparr>pr_wildcard := w\<rparr>)" for w
      using less.prems by (simp add: partial_wf_def)
    with parse_loop_wild [OF refl wild refl, of part_i r] wild(1) less.prems show ?thesis
      by (auto intro!: ih intro: diff_less_mono2 less_SucI)
  next
    case other
    with less.prems show ?thesis
      by (subst parse_loop.simps)
        (auto simp: Let_def Tag_parse_def partial_wf_def parse_with_pre_count_wf)
  qed (use less.prems in \<open>simp add: parse_loop_end\<close>)
qed

lemma Version_parse_wf:
  fixes r :: "'a::len word parse_result"
  assumes "Version_parse ss = Some r"
  shows "partial_wf r"
proof -
  have d: "partial_wf (ParseResult_default :: 'a word parse_result)"
    by (simp add: partial_wf_def ParseResult_default_def Partial_default_def)
  let ?input = "s_data (sl_slice ss)"
  define i where "i = (if skip_while is_separator ?input 0 < length ?input
      then skip_while is_separator ?input 0 else 0)"
  obtain j k r0 where l: "parse_loop ss i 0 (ParseResult_default :: 'a word parse_result) = (j, k, r0)"
    by (rule prod_cases3)
  then have "partial_wf r0"
    using parse_loop_wf [OF d, of ss i 0] by simp
  with assms l d show ?thesis
    by (auto simp: Version_parse_def Let_def i_def [symmetric] partial_wf_def split: if_splits)
qed

section \<open>Properties\<close>

text \<open>
  C5. \<open>Version::order_without_build\<close> is the order of semver 2.0: it compares the two versions' keys
  (major, minor, patch, release above pre-release, pre-release identifiers) lexicographically,
  numeric identifiers numerically and below alphanumeric ones, where an identifier whose number does not
  fit in 64 bits counts as alphanumeric. Being the comparison of keys of a
  linear order it is reflexive, transitive and total, whatever the stored hashes are.
\<close>

theorem order_without_build_is_semver_order:
  assumes "tag_wf (v_tag l)" and "tag_wf (v_tag r)"
  shows "order_without_build l r l_buf r_buf = cmp (version_key l l_buf) (version_key r r_buf)"
  using assms by (rule order_without_build_cmp)

theorem order_without_build_is_semver_order_witness:
  "order_without_build
     \<lparr>v_major = 1 :: u64, v_minor = 0, v_patch = 0, v_tag = \<lparr>t_pre = \<lparr>es_value = inline_string ''beta.2'', es_hash = 7\<rparr>,
        t_build = ExternalString_default\<rparr>\<rparr>
     \<lparr>v_major = 1, v_minor = 0, v_patch = 0, v_tag = \<lparr>t_pre = \<lparr>es_value = inline_string ''beta.11'', es_hash = 7\<rparr>,
        t_build = ExternalString_default\<rparr>\<rparr> [] [] = Less"
proof -
  have p: "parse_ascii ''2'' = Some (2 :: u64)" "parse_ascii ''11'' = Some (11 :: u64)"
    "parse_ascii ''beta'' = (None :: u64 option)"
    by (simp_all add: parse_ascii_def parse_unsigned_def parse_with_sign_def auto_radix_def
        digit_value_def less_eq_char_def)
  have i: "idents ''beta.2'' = [Alpha ''beta'', Num 2]" "idents ''beta.11'' = [Alpha ''beta'', Num 11]"
    by (simp_all add: idents_def ident_of_def p)
  have n: "nul_free ''beta.2'' \<and> String_can_inline ''beta.2''"
    "nul_free ''beta.11'' \<and> String_can_inline ''beta.11''"
    by (simp_all add: nul_free_def String_can_inline_def)
  show ?thesis
    by (subst order_without_build_is_semver_order)
      (simp_all add: tag_wf_def inline_string_def [symmetric] version_key_def has_pre_def
        ExternalString_is_empty_def String_is_empty_inline ExternalString_slice_def
        String_slice_inline n i cmp_prod cmp_Cons cmp_ident,
       simp_all add: inline_string_def ExternalString_default_def String_EMPTY_def cmp_def)
qed

text \<open>
  C6. Round trip: a version whose pre-release identifiers are made of letters, digits, dots and
  hyphens and whose build metadata is made of letters, digits and dots, printed by \<open>Version::fmt\<close>
  and parsed again, gives a valid result without wildcard that consumes the whole text and has the
  same numbers, the same pre-release and the same build metadata.
\<close>

theorem Version_parse_fmt:
  assumes "tag_reads (v_tag v) buf pre build"
    and "\<forall>x\<in>set pre. tag_char StPre x" and "\<forall>x\<in>set build. tag_char StBuild x"
    and "length (Version_fmt v buf) < 2 ^ 31"
  shows "\<exists>t. parse_utf8 \<lparr>s_addr = addr, s_data = Version_fmt v buf\<rparr>
      = Some \<lparr>pr_wildcard = WNone, pr_valid = True, pr_version = \<lparr>p_major = Some (v_major v :: u64),
          p_minor = Some (v_minor v), p_patch = Some (v_patch v), p_tag = t\<rparr>,
          pr_len = of_nat (length (Version_fmt v buf))\<rparr>
    \<and> tag_reads t (Version_fmt v buf) pre build"
  using parse_release_tag [of "\<lparr>s_addr = addr, s_data = Version_fmt v buf\<rparr>" "v_major v" "v_minor v"
      "v_patch v" "tag_text pre build" pre build] Version_fmt_text [OF assms(1)] assms(2-4)
    hd_tag_text tag_parses_text by simp

theorem Version_parse_fmt_witness:
  "\<exists>t. parse_utf8 \<lparr>s_addr = 64, s_data = ''1.22.3-rc.1+exp''\<rparr>
      = Some \<lparr>pr_wildcard = WNone, pr_valid = True, pr_version = \<lparr>p_major = Some (1 :: u64),
          p_minor = Some 22, p_patch = Some 3, p_tag = t\<rparr>, pr_len = 15\<rparr>
    \<and> tag_reads t ''1.22.3-rc.1+exp'' ''rc.1'' ''exp''"
proof -
  let ?e = "\<lambda>x. \<lparr>es_value = inline_string x, es_hash = 0\<rparr>"
  let ?t = "Tag_default\<lparr>t_pre := ?e ''rc.1'', t_build := ?e ''exp''\<rparr>"
  let ?v = "\<lparr>v_major = 1 :: u64, v_minor = 22, v_patch = 3, v_tag = ?t\<rparr>"
  have e: "ExternalString_slice (?e x) [] = x" "ExternalString_is_empty (?e x) \<longleftrightarrow> x = []"
    "length (ss_bytes (es_value (?e x))) = 8" if "x \<in> {''rc.1'', ''exp''}" for x
    using that by (auto simp: ExternalString_slice_def ExternalString_is_empty_def String_slice_inline
        String_is_empty_inline length_inline_string String_can_inline_def nul_free_def)
  have t: "tag_reads ?t [] ''rc.1'' ''exp''"
    using tag_reads_update(2) [OF tag_reads_update(1) [OF tag_reads_default e(1,2,3)] e(1,2,3)] by simp
  have v: "Version_fmt ?v [] = ''1.22.3-rc.1+exp''"
    using Version_fmt_text [of ?v "[]" "''rc.1''" "''exp''"] t by (simp add: tag_text_def decimal_eval)
  show ?thesis
    using Version_parse_fmt [of ?v "[]" "''rc.1''" "''exp''" 64] t unfolding v
    by (simp add: tag_char_def is_ascii_alphabetic_def is_ascii_digit_def less_eq_char_def)
qed

text \<open>
  The restriction on build metadata is needed: a hyphen inside build metadata ends it. A version
  such as \<open>1.0.0+build-1\<close> parses as valid, but the text after the hyphen becomes its pre-release and
  the build metadata is lost, so the version orders below the release it belongs to.
\<close>

theorem hyphen_in_build_becomes_pre:
  assumes "\<forall>x\<in>set b1. tag_char StBuild x" and "\<forall>x\<in>set b2. tag_char StPre x"
    and "s_data s = decimal (unat a) @ ''.'' @ decimal (unat b) @ ''.'' @ decimal (unat c)
      @ ''+'' @ b1 @ ''-'' @ b2" and "length (s_data s) < 2 ^ 31"
  shows "\<exists>t. parse_utf8 s = Some \<lparr>pr_wildcard = WNone, pr_valid = True,
      pr_version = \<lparr>p_major = Some (a :: u64), p_minor = Some b, p_patch = Some c, p_tag = t\<rparr>,
      pr_len = of_nat (length (s_data s))\<rparr> \<and> tag_reads t (s_data s) b2 []"
  using parse_release_tag [of s a b c "CHR ''+'' # b1 @ CHR ''-'' # b2" b2 "[]"]
    tag_parses_hyphen_build [OF assms(1,2)] assms(3,4) by simp

theorem hyphen_in_build_becomes_pre_witness:
  "\<exists>t. parse_utf8 \<lparr>s_addr = 64, s_data = ''1.0.0+build-1''\<rparr> = Some \<lparr>pr_wildcard = WNone, pr_valid = True,
      pr_version = \<lparr>p_major = Some (1 :: u64), p_minor = Some 0, p_patch = Some 0, p_tag = t\<rparr>,
      pr_len = 13\<rparr> \<and> tag_reads t ''1.0.0+build-1'' ''1'' []"
  using hyphen_in_build_becomes_pre [of "''build''" "''1''" "\<lparr>s_addr = 64, s_data = ''1.0.0+build-1''\<rparr>" 1 0 0]
  by (simp add: tag_char_def is_ascii_alphabetic_def is_ascii_digit_def less_eq_char_def
      decimal_eval)

text \<open>
  A release number is read exactly when it fits 64 bits. A larger number of at most 20 digits is
  silently read as 0, and a number of more than 20 digits counts as missing.
\<close>

theorem parse_version_number_decimal_any:
  "(parse_version_number (decimal n) :: u64 option)
   = (if n < 2 ^ 64 then Some (of_nat n) else if n < 10 ^ 20 then Some 0 else None)"
  by (rule parse_version_number_any)

text \<open>
  \<open>Version::parse\<close> is total: on every input shorter than 4 GiB it returns, without a panic, and
  the reported length does not exceed the input.
\<close>

theorem Version_parse_within_input:
  assumes "length (s_data (sl_slice ss)) < 2 ^ 32"
  shows "\<exists>r :: u64 parse_result. Version_parse ss = Some r \<and> unat (pr_len r) \<le> length (s_data (sl_slice ss))"
  using assms by (rule Version_parse_total)

theorem Version_parse_within_input_witness:
  "\<exists>r :: u64 parse_result. Version_parse \<lparr>sl_buf = \<lparr>s_addr = 0, s_data = ''1.x || =2''\<rparr>,
      sl_slice = \<lparr>s_addr = 0, s_data = ''1.x || =2''\<rparr>\<rparr> = Some r \<and> unat (pr_len r) \<le> length ''1.x || =2''"
  using Version_parse_within_input [of "\<lparr>sl_buf = \<lparr>s_addr = 0, s_data = ''1.x || =2''\<rparr>,
      sl_slice = \<lparr>s_addr = 0, s_data = ''1.x || =2''\<rparr>\<rparr>"] by simp

text \<open>
  \<open>which_version_is_different\<close> reports a difference in the release numbers or the pre-release
  exactly when the semver order distinguishes the two versions.
\<close>

theorem which_version_is_different_order:
  assumes "tag_wf (v_tag l)" and "tag_wf (v_tag r)"
  shows "which_version_is_different l r lb rb \<in> {None, Some ChBuild}
    \<longleftrightarrow> order_without_build l r lb rb = Equal"
  unfolding order_without_build_cmp [OF assms]
  by (auto simp: which_version_is_different_def version_key_def Tag_order_pre_cmp split: if_splits)

theorem which_version_is_different_order_witness:
  "order_without_build \<lparr>v_major = 1 :: u64, v_minor = 2, v_patch = 3, v_tag = Tag_default\<rparr>
      \<lparr>v_major = 1, v_minor = 2, v_patch = 4, v_tag = Tag_default\<rparr> [] [] \<noteq> Equal"
  using which_version_is_different_order
      [of "\<lparr>v_major = 1 :: u64, v_minor = 2, v_patch = 3, v_tag = Tag_default\<rparr>"
        "\<lparr>v_major = 1, v_minor = 2, v_patch = 4, v_tag = Tag_default\<rparr>" "[]" "[]"]
    tag_reads_default
  by (simp add: tag_reads_def which_version_is_different_def)

end
