(* ===== verification/Semver_Range.thy ===== *)
theory Semver_Range
  imports Semver_Version
begin

text \<open>
  \<open>src/src/semver/SemverRange.rs\<close>: a comparator (an operator and a version) and a range of at most
  two comparators. The specification reads a comparator as an inequality between version keys.
\<close>

section \<open>Comparators\<close>

datatype range_op = OpUnset | OpEql | OpLt | OpLte | OpGt | OpGte

record comparator =
  c_op :: range_op
  c_version :: version

definition Comparator_default :: comparator where
  "Comparator_default = \<lparr>c_op = OpUnset, c_version = Version_default\<rparr>"

definition Comparator_eql :: "comparator \<Rightarrow> comparator \<Rightarrow> bool" where
  "Comparator_eql a b \<longleftrightarrow> c_op a = c_op b \<and> Version_eql (c_version a) (c_version b)"

definition Comparator_satisfies :: "comparator \<Rightarrow> version \<Rightarrow> bytes \<Rightarrow> bytes \<Rightarrow> bool" where
  "Comparator_satisfies c version comparator_buf version_buf =
     (case order_without_build version (c_version c) version_buf comparator_buf of
        Equal \<Rightarrow> c_op c \<in> {OpLte, OpGte, OpEql}
      | Greater \<Rightarrow> c_op c \<in> {OpGt, OpGte}
      | Less \<Rightarrow> c_op c \<in> {OpLt, OpLte})"

definition op_text :: "range_op \<Rightarrow> bytes" where
  "op_text p = (case p of OpUnset \<Rightarrow> [] | OpEql \<Rightarrow> ''=='' | OpLt \<Rightarrow> ''<'' | OpLte \<Rightarrow> ''<=''
     | OpGt \<Rightarrow> ''>'' | OpGte \<Rightarrow> ''>='')"

definition Comparator_fmt :: "comparator \<Rightarrow> bytes \<Rightarrow> bytes" where
  "Comparator_fmt c buf =
     (if c_op c = OpUnset then [] else op_text (c_op c) @ Version_fmt (c_version c) buf)"

section \<open>Ranges\<close>

record range =
  r_left :: comparator
  r_right :: comparator

definition Range_default :: range where
  "Range_default = \<lparr>r_left = Comparator_default, r_right = Comparator_default\<rparr>"

definition init_wildcard :: "version \<Rightarrow> wildcard \<Rightarrow> range" where
  "init_wildcard version w =
     (case w of
        WNone \<Rightarrow> Range_default\<lparr>r_left := \<lparr>c_op = OpEql, c_version = version\<rparr>\<rparr>
      | WMajor \<Rightarrow> Range_default\<lparr>r_left := \<lparr>c_op = OpGte, c_version = Version_default\<rparr>\<rparr>
      | WMinor \<Rightarrow>
          (let lhs = Version_default\<lparr>v_major := saturating_add (v_major version) 1\<rparr>;
               rhs = Version_default\<lparr>v_major := v_major version\<rparr>
           in \<lparr>r_left = \<lparr>c_op = OpLt, c_version = lhs\<rparr>, r_right = \<lparr>c_op = OpGte, c_version = rhs\<rparr>\<rparr>)
      | WPatch \<Rightarrow>
          (let lhs = Version_default\<lparr>v_major := v_major version,
                       v_minor := saturating_add (v_minor version) 1\<rparr>;
               rhs = Version_default\<lparr>v_major := v_major version, v_minor := v_minor version\<rparr>
           in \<lparr>r_left = \<lparr>c_op = OpLt, c_version = lhs\<rparr>, r_right = \<lparr>c_op = OpGte, c_version = rhs\<rparr>\<rparr>))"

definition has_left :: "range \<Rightarrow> bool" where
  "has_left r \<longleftrightarrow> c_op (r_left r) \<noteq> OpUnset"

definition has_right :: "range \<Rightarrow> bool" where
  "has_right r \<longleftrightarrow> c_op (r_right r) \<noteq> OpUnset"

definition Range_eql :: "range \<Rightarrow> range \<Rightarrow> bool" where
  "Range_eql a b \<longleftrightarrow> Comparator_eql (r_left a) (r_left b) \<and> Comparator_eql (r_right a) (r_right b)"

definition Range_satisfies :: "range \<Rightarrow> version \<Rightarrow> bytes \<Rightarrow> bytes \<Rightarrow> bool" where
  "Range_satisfies r version range_buf version_buf =
     (if \<not> has_left r then True
      else if \<not> Comparator_satisfies (r_left r) version range_buf version_buf then False
      else if has_right r \<and> \<not> Comparator_satisfies (r_right r) version range_buf version_buf then False
      else True)"

text \<open>\<open>c\<close> has a pre-release and the release numbers of \<open>version\<close>.\<close>

definition pre_match :: "comparator \<Rightarrow> version \<Rightarrow> bool" where
  "pre_match c version \<longleftrightarrow>
     has_pre (v_tag (c_version c)) \<and> v_patch version = v_patch (c_version c) \<and>
     v_minor version = v_minor (c_version c) \<and> v_major version = v_major (c_version c)"

text \<open>The second component of the result is the updated \<open>*pre_matched\<close>.\<close>

definition Range_satisfies_pre :: "range \<Rightarrow> version \<Rightarrow> bytes \<Rightarrow> bytes \<Rightarrow> bool \<Rightarrow> bool \<times> bool" where
  "Range_satisfies_pre r version range_buf version_buf pre_matched =
     (if \<not> has_left r then (True, pre_matched)
      else
        let pm = (pre_matched \<or> pre_match (r_left r) version \<or>
                  has_right r \<and> pre_match (r_right r) version)
        in if \<not> Comparator_satisfies (r_left r) version range_buf version_buf then (False, pm)
           else if has_right r \<and> \<not> Comparator_satisfies (r_right r) version range_buf version_buf
           then (False, pm)
           else (True, pm))"

definition Range_fmt :: "range \<Rightarrow> bytes \<Rightarrow> bytes" where
  "Range_fmt r buf =
     (if c_op (r_left r) = OpUnset \<and> c_op (r_right r) = OpUnset then []
      else if c_op (r_right r) = OpUnset then Comparator_fmt (r_left r) buf
      else Comparator_fmt (r_left r) buf @ '' '' @ Comparator_fmt (r_right r) buf)"

section \<open>Comparators as inequalities between keys\<close>

definition version_wf :: "'a version_type \<Rightarrow> bool" where
  "version_wf v \<longleftrightarrow> tag_wf (v_tag v)"

definition range_wf :: "range \<Rightarrow> bool" where
  "range_wf r \<longleftrightarrow> version_wf (c_version (r_left r)) \<and> version_wf (c_version (r_right r))"

definition op_holds :: "range_op \<Rightarrow> 'k::linorder \<Rightarrow> 'k \<Rightarrow> bool" where
  "op_holds p a b = (case p of OpUnset \<Rightarrow> False | OpEql \<Rightarrow> a = b | OpLt \<Rightarrow> a < b | OpLte \<Rightarrow> a \<le> b
     | OpGt \<Rightarrow> b < a | OpGte \<Rightarrow> b \<le> a)"

lemma Comparator_satisfies_iff:
  assumes "version_wf v" and "version_wf (c_version c)"
  shows "Comparator_satisfies c v cb vb \<longleftrightarrow>
    op_holds (c_op c) (version_key v vb) (version_key (c_version c) cb)"
proof -
  have "order_without_build v (c_version c) vb cb = cmp (version_key v vb) (version_key (c_version c) cb)"
    using assms by (intro order_without_build_cmp) (simp_all add: version_wf_def)
  then show ?thesis
    by (cases "c_op c") (auto simp: Comparator_satisfies_def op_holds_def cmp_def)
qed

lemma Range_satisfies_iff:
  assumes "version_wf v" and "range_wf r"
  shows "Range_satisfies r v rb vb \<longleftrightarrow>
    (has_left r \<longrightarrow> op_holds (c_op (r_left r)) (version_key v vb) (version_key (c_version (r_left r)) rb)
      \<and> (has_right r \<longrightarrow>
          op_holds (c_op (r_right r)) (version_key v vb) (version_key (c_version (r_right r)) rb)))"
  using assms by (auto simp: Range_satisfies_def range_wf_def Comparator_satisfies_iff)

lemma Range_satisfies_pre_fst:
  "fst (Range_satisfies_pre r v rb vb pm) = Range_satisfies r v rb vb"
  by (auto simp: Range_satisfies_pre_def Range_satisfies_def Let_def)

lemma Range_satisfies_pre_snd:
  "snd (Range_satisfies_pre r v rb vb pm) \<longleftrightarrow>
    pm \<or> has_left r \<and> (pre_match (r_left r) v \<or> has_right r \<and> pre_match (r_right r) v)"
  by (auto simp: Range_satisfies_pre_def Let_def)

text \<open>The key of a release, and the keys of the versions below it.\<close>

lemma release_key:
  "\<not> has_pre (v_tag v) \<Longrightarrow> version_key v buf = (v_major v, v_minor v, v_patch v, True, [])"
  by (simp add: version_key_def)

lemma release_key_order:
  assumes "\<not> has_pre (v_tag v)" and "\<not> has_pre (v_tag w)"
  shows "version_key v vb < version_key w wb \<longleftrightarrow>
      (v_major v, v_minor v, v_patch v) < (v_major w, v_minor w, v_patch w)"
    and "version_key v vb \<le> version_key w wb \<longleftrightarrow>
      (v_major v, v_minor v, v_patch v) \<le> (v_major w, v_minor w, v_patch w)"
  using assms by (auto simp: release_key)

section \<open>Properties\<close>

text \<open>
  The range of a wildcard (\<open>*\<close>, \<open>1.x\<close>, \<open>1.2.x\<close>) admits exactly the releases that agree with the
  version on the numbers before the wildcard, unless the number to be incremented is the largest
  64-bit integer.
\<close>

theorem init_wildcard_satisfies:
  assumes "version_wf v" and "\<not> has_pre (v_tag v)" and "v_major u < - 1" and "v_minor u < - 1"
  shows "(Range_satisfies (init_wildcard u WMajor) v rb vb)
    \<and> (Range_satisfies (init_wildcard u WMinor) v rb vb \<longleftrightarrow> v_major v = v_major u)
    \<and> (Range_satisfies (init_wildcard u WPatch) v rb vb
        \<longleftrightarrow> v_major v = v_major u \<and> v_minor v = v_minor u)"
proof -
  have wf: "range_wf (init_wildcard u w)" if "w \<noteq> WNone" for w
    using that by (cases w) (auto simp: init_wildcard_def range_wf_def version_wf_def
        Version_default_def Range_default_def Comparator_default_def)
  show ?thesis
    using assms wf [of WMajor] wf [of WMinor] wf [of WPatch]
    by (auto simp: Range_satisfies_iff init_wildcard_def has_left_def has_right_def op_holds_def
        Range_default_def Comparator_default_def release_key_order release_key Version_default_def
        less_saturating_add_one)
qed

theorem init_wildcard_satisfies_witness:
  "Range_satisfies (init_wildcard (Version_default\<lparr>v_major := 3\<rparr>) WMinor)
     (Version_default\<lparr>v_major := 3, v_minor := 7\<rparr>) [] []"
  using init_wildcard_satisfies [of "Version_default\<lparr>v_major := 3, v_minor := 7\<rparr>"
      "Version_default\<lparr>v_major := 3\<rparr>" "[]" "[]"]
  by (simp add: version_wf_def Version_default_def word_gt_0)

end
