(* ===== verification/Semver_Query.thy ===== *)
theory Semver_Query
  imports Semver_Range
begin

text \<open>
  \<open>src/src/semver/SemverQuery.rs\<close>: version requirements such as \<open>^1.2 || >=3 <4\<close>. A \<open>Query\<close> is a chain
  of ranges that must all hold, a \<open>List\<close> a chain of queries of which one must hold, and a \<open>Group\<close> the
  parsed requirement. The parser appends to the chains through \<open>tail\<close> pointers into them.

  A chain is a non-empty list of its nodes. A \<open>tail\<close> pointer is the index of the node it points to,
  so that writing through it (\<open>tail.next = Some(new)\<close>) replaces everything after that node.
  \<open>None\<close> is a panic: \<open>unreachable!()\<close>, a slice out of range, or the panic of \<open>Version::parse\<close>.
\<close>

section \<open>Chains\<close>

text \<open>Writing \<open>next\<close> through a pointer to node \<open>k\<close> of a chain.\<close>

definition set_next :: "'a list \<Rightarrow> nat \<Rightarrow> 'a \<Rightarrow> 'a list" where
  "set_next chain k new = take (Suc k) chain @ [new]"

text \<open>The loop of the \<open>Clone\<close> implementations that walks to the last node of a chain.\<close>

definition last_node :: "'a list \<Rightarrow> nat option" where
  "last_node chain = (if 1 < length chain then Some (length chain - 1) else None)"

type_synonym query = "range list"

fun Query_eql :: "query \<Rightarrow> query \<Rightarrow> bool" where
  "Query_eql (l # ls) (r # rs) =
     (if \<not> Range_eql l r then False
      else case (ls, rs) of
             ([], _) \<Rightarrow> rs = []
           | (_, []) \<Rightarrow> False
           | _ \<Rightarrow> Query_eql ls rs)"
| "Query_eql _ _ = False"

fun Query_satisfies :: "query \<Rightarrow> version \<Rightarrow> bytes \<Rightarrow> bytes \<Rightarrow> bool" where
  "Query_satisfies [] version query_buf version_buf = True"
| "Query_satisfies (r # rs) version query_buf version_buf =
     (if \<not> Range_satisfies r version query_buf version_buf then False
      else Query_satisfies rs version query_buf version_buf)"

fun Query_satisfies_pre :: "query \<Rightarrow> version \<Rightarrow> bytes \<Rightarrow> bytes \<Rightarrow> bool \<Rightarrow> bool \<times> bool" where
  "Query_satisfies_pre [] version query_buf version_buf pm = (True, pm)"
| "Query_satisfies_pre (r # rs) version query_buf version_buf pm =
     (case Range_satisfies_pre r version query_buf version_buf pm of
        (False, pm') \<Rightarrow> (False, pm')
      | (True, pm') \<Rightarrow> Query_satisfies_pre rs version query_buf version_buf pm')"

text \<open>\<open>QueryFormatter\<close> prints the first range and at most one more.\<close>

definition Query_fmt :: "query \<Rightarrow> bytes \<Rightarrow> bytes" where
  "Query_fmt q buf =
     (case q of
        r # p # _ \<Rightarrow>
          (if has_left p \<or> has_right p then Range_fmt r buf @ '' && '' @ Range_fmt p buf
           else Range_fmt r buf)
      | [r] \<Rightarrow> Range_fmt r buf
      | [] \<Rightarrow> [])"

record query_list =
  ql_head :: query
  ql_tail :: "nat option"

definition List_default :: query_list where
  "List_default = \<lparr>ql_head = [Range_default], ql_tail = None\<rparr>"

definition List_clone_node :: "query_list \<Rightarrow> query_list" where
  "List_clone_node l = \<lparr>ql_head = ql_head l, ql_tail = last_node (ql_head l)\<rparr>"

definition List_clone :: "query_list list \<Rightarrow> query_list list" where
  "List_clone ls = map List_clone_node ls"

fun List_fmt :: "query_list list \<Rightarrow> bytes \<Rightarrow> bytes" where
  "List_fmt [] buf = []"
| "List_fmt [l] buf = Query_fmt (ql_head l) buf"
| "List_fmt (l # ls) buf = Query_fmt (ql_head l) buf @ '' || '' @ List_fmt ls buf"

fun List_satisfies :: "query_list list \<Rightarrow> version \<Rightarrow> bytes \<Rightarrow> bytes \<Rightarrow> bool" where
  "List_satisfies [] version list_buf version_buf = False"
| "List_satisfies (l # ls) version list_buf version_buf =
     (if Query_satisfies (ql_head l) version list_buf version_buf then True
      else List_satisfies ls version list_buf version_buf)"

fun List_satisfies_pre :: "query_list list \<Rightarrow> version \<Rightarrow> bytes \<Rightarrow> bytes \<Rightarrow> bool" where
  "List_satisfies_pre [] version list_buf version_buf = False"
| "List_satisfies_pre (l # ls) version list_buf version_buf =
     (case Query_satisfies_pre (ql_head l) version list_buf version_buf False of (ok, pre_matched) \<Rightarrow>
      if ok \<and> pre_matched then True else List_satisfies_pre ls version list_buf version_buf)"

fun List_eql :: "query_list list \<Rightarrow> query_list list \<Rightarrow> bool" where
  "List_eql (l # ls) (r # rs) =
     (if \<not> Query_eql (ql_head l) (ql_head r) then False
      else case (ls, rs) of
             ([], _) \<Rightarrow> rs = []
           | (_, []) \<Rightarrow> False
           | _ \<Rightarrow> List_eql ls rs)"
| "List_eql _ _ = False"

text \<open>
  \<open>List::and_range\<close>. The first node of a list is the node \<open>self.head\<close>; a new node is linked behind
  \<open>self.tail\<close>, or behind the head when there is no tail.
\<close>

definition List_and_range :: "query_list \<Rightarrow> range \<Rightarrow> query_list" where
  "List_and_range l r =
     (if \<not> has_left (hd (ql_head l)) \<and> \<not> has_right (hd (ql_head l)) then
        l\<lparr>ql_head := (ql_head l)[0 := r]\<rparr>
      else
        let k = (case ql_tail l of Some p \<Rightarrow> p | None \<Rightarrow> 0)
        in \<lparr>ql_head = set_next (ql_head l) k r, ql_tail = Some (Suc k)\<rparr>)"

section \<open>Groups\<close>

record group =
  g_head :: "query_list list"
  g_tail :: "nat option"
  g_input :: bytes
  g_pre :: bool
  g_build :: bool

definition Group_default :: group where
  "Group_default = \<lparr>g_head = [List_default], g_tail = None, g_input = [], g_pre = False, g_build = False\<rparr>"

definition Group_clone :: "group \<Rightarrow> group" where
  "Group_clone g = g\<lparr>g_head := List_clone (g_head g), g_tail := last_node (g_head g)\<rparr>"

fun Group_fmt_lists :: "query_list list \<Rightarrow> bytes \<Rightarrow> bytes" where
  "Group_fmt_lists [] buf = []"
| "Group_fmt_lists [l] buf = List_fmt [l] buf"
| "Group_fmt_lists (l # ls) buf = List_fmt (l # ls) buf @ '' && '' @ Group_fmt_lists ls buf"

definition Group_fmt :: "group \<Rightarrow> bytes \<Rightarrow> bytes" where
  "Group_fmt g buf =
     (if g_tail g = None \<and> ql_tail (hd (g_head g)) = None then
        (if \<not> has_left (hd (ql_head (hd (g_head g)))) then [] else List_fmt (g_head g) buf)
      else Group_fmt_lists (g_head g) buf)"

definition get_exact_version :: "group \<Rightarrow> version option" where
  "get_exact_version g =
     (let r = hd (ql_head (hd (g_head g))) in
      if tl (g_head g) = [] \<and> tl (ql_head (hd (g_head g))) = [] \<and> has_left r \<and>
         c_op (r_left r) = OpEql \<and> \<not> has_right r
      then Some (c_version (r_left r)) else None)"

definition Group_from :: "version \<Rightarrow> group" where
  "Group_from version =
     Group_default\<lparr>g_head := [\<lparr>ql_head =
        [Range_default\<lparr>r_left := \<lparr>c_op = OpEql, c_version = version\<rparr>\<rparr>], ql_tail = None\<rparr>]\<rparr>"

definition is_exact :: "group \<Rightarrow> bool" where
  "is_exact g \<longleftrightarrow>
     tl (g_head g) = [] \<and> tl (ql_head (hd (g_head g))) = [] \<and>
     \<not> has_right (hd (ql_head (hd (g_head g)))) \<and> c_op (r_left (hd (ql_head (hd (g_head g))))) = OpEql"

definition is_star :: "group \<Rightarrow> bool" where
  "is_star g \<longleftrightarrow>
     (let r = hd (ql_head (hd (g_head g))) in
      c_op (r_right r) = OpUnset \<and> c_op (r_left r) = OpGte \<and> tl (g_head g) = [] \<and>
      tl (ql_head (hd (g_head g))) = [] \<and> is_zero (c_version (r_left r)) \<and> \<not> g_build g)"

definition Group_eql :: "group \<Rightarrow> group \<Rightarrow> bool" where
  "Group_eql a b = List_eql (g_head a) (g_head b)"

definition to_version :: "group \<Rightarrow> version" where
  "to_version g = c_version (r_left (hd (ql_head (hd (g_head g)))))"

definition update_first :: "('a \<Rightarrow> 'a) \<Rightarrow> 'a list \<Rightarrow> 'a list" where
  "update_first f xs = xs[0 := f (hd xs)]"

definition push_list :: "group \<Rightarrow> range \<Rightarrow> group" where
  "push_list g r =
     (let k = (case g_tail g of Some p \<Rightarrow> p | None \<Rightarrow> 0)
      in g\<lparr>g_head := set_next (g_head g) k (List_default\<lparr>ql_head := [r]\<rparr>), g_tail := Some (Suc k)\<rparr>)"

definition or_version :: "group \<Rightarrow> version \<Rightarrow> group" where
  "or_version g version =
     (if g_tail g = None \<and> \<not> has_left (hd (ql_head (hd (g_head g)))) then
        g\<lparr>g_head := update_first (\<lambda>l. l\<lparr>ql_head := update_first
            (\<lambda>r. r\<lparr>r_left := \<lparr>c_op = OpEql, c_version = version\<rparr>\<rparr>) (ql_head l)\<rparr>) (g_head g)\<rparr>
      else push_list g (Range_default\<lparr>r_left := \<lparr>c_op = OpEql, c_version = version\<rparr>\<rparr>))"

definition Group_and_range :: "group \<Rightarrow> range \<Rightarrow> group" where
  "Group_and_range g r =
     (let k = (case g_tail g of Some p \<Rightarrow> p | None \<Rightarrow> 0)
      in g\<lparr>g_head := (g_head g)[k := List_and_range (g_head g ! k) r]\<rparr>)"

definition or_range :: "group \<Rightarrow> range \<Rightarrow> group" where
  "or_range g r =
     (if g_tail g = None \<and> ql_tail (hd (g_head g)) = None \<and> \<not> has_left (hd (ql_head (hd (g_head g)))) then
        g\<lparr>g_head := update_first (\<lambda>l. l\<lparr>ql_head := update_first (\<lambda>_. r) (ql_head l)\<rparr>) (g_head g)\<rparr>
      else push_list g r)"

definition Group_satisfies :: "group \<Rightarrow> version \<Rightarrow> bytes \<Rightarrow> bytes \<Rightarrow> bool" where
  "Group_satisfies g version group_buf version_buf =
     (if has_pre (v_tag version) then List_satisfies_pre (g_head g) version group_buf version_buf
      else List_satisfies (g_head g) version group_buf version_buf)"

section \<open>Tokens\<close>

datatype token_tag = TNone | TGt | TGte | TLt | TLte | TVersion | TTilda | TCaret

record token =
  tok_tag :: token_tag
  tok_wildcard :: wildcard

definition Token_default :: token where
  "Token_default = \<lparr>tok_tag = TNone, tok_wildcard = WNone\<rparr>"

definition unwrap_or0 :: "u64 option \<Rightarrow> u64" where
  "unwrap_or0 x = (case x of Some n \<Rightarrow> n | None \<Rightarrow> 0)"

definition caret_range :: "u64 partial_version \<Rightarrow> range" where
  "caret_range version =
     (case p_major version of
        None \<Rightarrow> Range_default
      | Some major \<Rightarrow>
          (let left = Version_default\<lparr>v_major := major\<rparr>;
               right = Version_default;
               mk = (\<lambda>l r. \<lparr>r_left = \<lparr>c_op = OpGte, c_version = l\<rparr>,
                            r_right = \<lparr>c_op = OpLt, c_version = r\<rparr>\<rparr>)
           in case p_minor version of
                None \<Rightarrow> mk left (right\<lparr>v_major := saturating_add major 1\<rparr>)
              | Some minor \<Rightarrow>
                  (let left = left\<lparr>v_minor := minor\<rparr>
                   in case p_patch version of
                        Some patch \<Rightarrow>
                          (let left = left\<lparr>v_patch := patch, v_tag := p_tag version\<rparr>
                           in if major = 0 then
                                (if minor = 0 then mk left (right\<lparr>v_patch := saturating_add patch 1\<rparr>)
                                 else mk left (right\<lparr>v_minor := saturating_add minor 1\<rparr>))
                              else mk left (right\<lparr>v_major := saturating_add major 1\<rparr>))
                      | None \<Rightarrow>
                          (if major = 0 then mk left (right\<lparr>v_minor := saturating_add minor 1\<rparr>)
                           else mk left (right\<lparr>v_major := saturating_add major 1\<rparr>)))))"

definition tilda_range :: "u64 partial_version \<Rightarrow> range" where
  "tilda_range version =
     (case p_major version of
        None \<Rightarrow> Range_default
      | Some major \<Rightarrow>
          (let left = Version_default\<lparr>v_major := major\<rparr>;
               right = Version_default;
               mk = (\<lambda>l r. \<lparr>r_left = \<lparr>c_op = OpGte, c_version = l\<rparr>,
                            r_right = \<lparr>c_op = OpLt, c_version = r\<rparr>\<rparr>)
           in case p_minor version of
                None \<Rightarrow> mk left (right\<lparr>v_major := saturating_add major 1\<rparr>)
              | Some minor \<Rightarrow>
                  (let left = left\<lparr>v_minor := minor\<rparr>;
                       left = (case p_patch version of
                                 Some patch \<Rightarrow> left\<lparr>v_patch := patch, v_tag := p_tag version\<rparr>
                               | None \<Rightarrow> left)
                   in mk left (right\<lparr>v_major := major, v_minor := saturating_add minor 1\<rparr>))))"

text \<open>A range with a left comparator only.\<close>

definition left_range :: "range_op \<Rightarrow> version \<Rightarrow> range" where
  "left_range p version = Range_default\<lparr>r_left := \<lparr>c_op = p, c_version = version\<rparr>\<rparr>"

definition token_op :: "token_tag \<Rightarrow> range_op option" where
  "token_op t =
     (case t of TGt \<Rightarrow> Some OpGt | TGte \<Rightarrow> Some OpGte | TLt \<Rightarrow> Some OpLt | TLte \<Rightarrow> Some OpLte | _ \<Rightarrow> None)"

text \<open>\<open><=1.2.x\<close> and \<open>>1.2.x\<close> compare with the largest patch of 1.2, \<open><1.2.x\<close> and \<open>>=1.2.x\<close> with the least.\<close>

definition bound_of :: "range_op \<Rightarrow> u64" where
  "bound_of p = (if p = OpLte \<or> p = OpGt then - 1 else 0)"

definition to_range :: "token \<Rightarrow> u64 partial_version \<Rightarrow> range option" where
  "to_range tok version =
     (case tok_tag tok of
        TCaret \<Rightarrow> Some (caret_range version)
      | TTilda \<Rightarrow> Some (tilda_range version)
      | TNone \<Rightarrow> None
      | TVersion \<Rightarrow>
          (if tok_wildcard tok \<noteq> WNone then Some (init_wildcard (Partial_min version) (tok_wildcard tok))
           else Some (left_range OpEql (Partial_min version)))
      | _ \<Rightarrow>
          (case tok_wildcard tok of
             WMajor \<Rightarrow>
               Some \<lparr>r_left = \<lparr>c_op = OpGte, c_version = Partial_min version\<rparr>,
                     r_right = \<lparr>c_op = OpLte, c_version = Version_default\<lparr>v_major := - 1, v_minor := - 1,
                                  v_patch := - 1\<rparr>\<rparr>\<rparr>
           | WMinor \<Rightarrow>
               map_option (\<lambda>p. left_range p (Version_default\<lparr>v_major := unwrap_or0 (p_major version),
                    v_minor := bound_of p, v_patch := bound_of p\<rparr>)) (token_op (tok_tag tok))
           | WPatch \<Rightarrow>
               map_option (\<lambda>p. left_range p (Version_default\<lparr>v_major := unwrap_or0 (p_major version),
                    v_minor := unwrap_or0 (p_minor version), v_patch := bound_of p\<rparr>))
                 (token_op (tok_tag tok))
           | WNone \<Rightarrow> map_option (\<lambda>p. left_range p (Partial_min version)) (token_op (tok_tag tok))))"

section \<open>The parser\<close>

definition is_core_start :: "byte \<Rightarrow> bool" where
  "is_core_start c \<longleftrightarrow> is_ascii_digit c \<or> c \<in> {CHR ''X'', CHR ''x'', CHR ''*''}"

definition skip_spaces :: "bytes \<Rightarrow> nat \<Rightarrow> nat" where
  "skip_spaces input i = skip_while (\<lambda>c. c = CHR '' '') input i"

text \<open>
  The \<open>match input[i]\<close> at the head of the loop: the new \<open>i\<close>, \<open>token.tag\<close>, \<open>is_or\<close> and \<open>skip_round\<close>.
\<close>

definition scan_token :: "bytes \<Rightarrow> nat \<Rightarrow> token_tag \<Rightarrow> bool \<Rightarrow> nat \<times> token_tag \<times> bool \<times> bool" where
  "scan_token input i tag is_or =
     (let c = input ! i;
          eq = (i + 1 < length input \<and> input ! (i + 1) = CHR ''='')
      in if c = CHR ''>'' then
           (if eq then (skip_spaces input (i + 2), TGte, is_or, False)
            else (skip_spaces input (i + 1), TGt, is_or, False))
         else if c = CHR ''<'' then
           (if eq then (skip_spaces input (i + 2), TLte, is_or, False)
            else (skip_spaces input (i + 1), TLt, is_or, False))
         else if c = CHR ''='' \<or> c = CHR ''v'' then (skip_spaces input (i + 1), TVersion, True, False)
         else if c = CHR ''~'' then
           (if i + 1 < length input \<and> input ! (i + 1) = CHR ''>''
            then (skip_spaces input (i + 2), TTilda, is_or, False)
            else (skip_spaces input (i + 1), TTilda, is_or, False))
         else if c = CHR ''^'' then (skip_spaces input (i + 1), TCaret, is_or, False)
         else if is_core_start c then (i, TVersion, True, False)
         else if c = CHR ''|'' then
           (skip_spaces input (skip_while (\<lambda>b. b = CHR ''|'') input (i + 1)), TNone, True, True)
         else if c = CHR ''-'' then (skip_spaces input (i + 1), tag, is_or, False)
         else if c = CHR '' '' then (skip_spaces input (i + 1), tag, is_or, True)
         else (skip_while (\<lambda>b. b \<noteq> CHR '' '' \<and> b \<noteq> CHR ''|'') input (i + 1), TNone, is_or, True))"

text \<open>
  The labelled block \<open>'possibly_hyphenate\<close>: the position of the second version of \<open>1.0 - 2.0\<close>, if
  there is one.
\<close>

definition hyphenate :: "bytes \<Rightarrow> nat \<Rightarrow> nat option" where
  "hyphenate input i =
     (let ws = (\<lambda>i. i + length_of_leading_whitespace_ascii (drop i input));
          n = length input
      in if \<not> (i < n \<and> (input ! i = CHR '' '' \<or> input ! i = CHR ''-'')) then None
         else
           let i1 = ws i in
           if \<not> (i1 < n \<and> input ! i1 = CHR ''-'') then None
           else
             let i2 = ws (i1 + 1) in
             if i2 = n then None
             else
               let i3 = (if input ! i2 = CHR ''v'' \<or> input ! i2 = CHR ''='' then i2 + 1 else i2) in
               if i3 = n then None
               else
                 let i4 = ws i3 in
                 if i4 = n then None
                 else if \<not> (i4 < n \<and> is_core_start (input ! i4)) then None
                 else Some i4)"

text \<open>The range of \<open>version - second\<close>.\<close>

definition hyphen_range :: "version \<Rightarrow> u64 parse_result \<Rightarrow> range" where
  "hyphen_range version second =
     (let w = Partial_min (pr_version second);
          left = \<lparr>c_op = OpGte, c_version = version\<rparr>
      in case pr_wildcard second of
           WMajor \<Rightarrow> Range_default\<lparr>r_left := left\<rparr>
         | WMinor \<Rightarrow>
             \<lparr>r_left = left, r_right = \<lparr>c_op = OpLt, c_version =
                w\<lparr>v_major := saturating_add (v_major w) 1, v_minor := 0, v_patch := 0\<rparr>\<rparr>\<rparr>
         | WPatch \<Rightarrow>
             \<lparr>r_left = left, r_right = \<lparr>c_op = OpLt, c_version =
                w\<lparr>v_minor := saturating_add (v_minor w) 1, v_patch := 0\<rparr>\<rparr>\<rparr>
         | WNone \<Rightarrow> \<lparr>r_left = left, r_right = \<lparr>c_op = OpLte, c_version = w\<rparr>\<rparr>)"

definition set_flags :: "group \<Rightarrow> version \<Rightarrow> group" where
  "set_flags g version =
     g\<lparr>g_build := g_build g \<or> has_build (v_tag version), g_pre := g_pre g \<or> has_pre (v_tag version)\<rparr>"

text \<open>\<open>Version::parse(sliced.sub(&input[i..]))\<close>, with the panic of the slicing.\<close>

definition parse_at :: "slice \<Rightarrow> sliced_string \<Rightarrow> nat \<Rightarrow> u64 parse_result option" where
  "parse_at input sliced i =
     (if length (s_data input) < i then None
      else Version_parse (SlicedString_sub sliced (slice_sub input i (length (s_data input)))))"

text \<open>The variables of the loop; \<open>count\<close> is a \<open>u32\<close> that is only compared with 0.\<close>

record qstate =
  q_i :: nat
  q_list :: group
  q_tag :: token_tag
  q_count :: u32
  q_or :: bool

text \<open>How a finished range is added, depending on its token and on what came before.\<close>

definition emit_range :: "qstate \<Rightarrow> token \<Rightarrow> u64 parse_result \<Rightarrow> group option" where
  "emit_range st tok pr =
     (if q_count st = 0 \<and> tok_tag tok = TVersion then
        (if pr_wildcard pr = WNone then Some (or_version (q_list st) (Partial_min (pr_version pr)))
         else map_option (or_range (q_list st)) (to_range tok (pr_version pr)))
      else if q_count st = 0 then map_option (Group_and_range (q_list st)) (to_range tok (pr_version pr))
      else if q_or st then map_option (or_range (q_list st)) (to_range tok (pr_version pr))
      else map_option (Group_and_range (q_list st)) (to_range tok (pr_version pr)))"

text \<open>The part of the loop under \<open>if !skip_round\<close>; \<open>st\<close> is the state after \<open>scan_token\<close>.\<close>

definition parse_chunk :: "slice \<Rightarrow> sliced_string \<Rightarrow> qstate \<Rightarrow> qstate option" where
  "parse_chunk input sliced st =
     (case parse_at input sliced (q_i st) of
        None \<Rightarrow> None
      | Some pr \<Rightarrow>
          (let version = Partial_min (pr_version pr);
               st1 = st\<lparr>q_list := set_flags (q_list st) version\<rparr>;
               tok = \<lparr>tok_tag = q_tag st, tok_wildcard = pr_wildcard pr\<rparr>;
               rollback = q_i st + unat (pr_len pr)
           in case hyphenate (s_data input) rollback of
                Some j \<Rightarrow>
                  (case parse_at input sliced j of
                     None \<Rightarrow> None
                   | Some second \<Rightarrow>
                       (let g = set_flags (q_list st1) (Partial_min (pr_version second));
                            r = hyphen_range version second
                        in Some (st1\<lparr>q_i := j + unat (pr_len second) + 1,
                             q_list := (if q_or st then or_range g r else Group_and_range g r),
                             q_or := False, q_count := q_count st + 1\<rparr>)))
              | None \<Rightarrow>
                  (if q_tag st = TNone then Some (st1\<lparr>q_i := rollback + 1\<rparr>)
                   else map_option (\<lambda>g. st1\<lparr>q_i := rollback + 1, q_list := g, q_or := False,
                            q_count := q_count st + 1\<rparr>) (emit_range st1 tok pr))))"

lemma hyphenate_gt: "hyphenate input i = Some j \<Longrightarrow> i < j"
  by (auto simp: hyphenate_def Let_def split: if_splits)

lemma parse_chunk_advances: "parse_chunk input sliced st = Some st' \<Longrightarrow> q_i st < q_i st'"
  by (auto simp: parse_chunk_def Let_def dest!: hyphenate_gt split: option.splits if_splits)

lemma scan_token_advances:
  assumes "scan_token input i tag is_or = (j, tag', is_or', skip)"
  shows "i \<le> j" and "skip \<Longrightarrow> i < j"
proof -
  have s: "i < skip_while p input (i + 1)" "i < skip_while p input (i + 2)"
    "i < skip_while q input (skip_while p input (i + 1))" for p q
    by (simp_all add: skip_while_def)
  have "i \<le> j \<and> (skip \<longrightarrow> i < j)"
    using assms s unfolding scan_token_def Let_def skip_spaces_def
    by (auto simp: less_imp_le simp del: One_nat_def add_2_eq_Suc' split: if_splits)
  then show "i \<le> j" and "skip \<Longrightarrow> i < j" by auto
qed

lemma scan_skip_decreases:
  assumes "\<not> length input \<le> i" and "(j, tag', is_or', True) = scan_token input i tag is_or"
  shows "length input - j < length input - i"
  using assms scan_token_advances(2) [OF assms(2) [symmetric]] by simp

lemma parse_chunk_decreases:
  assumes "\<not> length (s_data input) \<le> q_i st"
    and "(j, tag', is_or', False) = scan_token (s_data input) (q_i st) tag is_or"
    and "parse_chunk input sliced (st\<lparr>q_i := j, q_tag := tag', q_or := is_or'\<rparr>) = Some st'"
  shows "length (s_data input) - q_i st' < length (s_data input) - q_i st"
  using assms scan_token_advances(1) [OF assms(2) [symmetric]] parse_chunk_advances [OF assms(3)]
  by simp

function query_loop :: "slice \<Rightarrow> sliced_string \<Rightarrow> qstate \<Rightarrow> group option" where
  "query_loop input sliced st =
     (if length (s_data input) \<le> q_i st then Some (q_list st)
      else
        case scan_token (s_data input) (q_i st) (q_tag st) (q_or st) of (i, tag, is_or, skip_round) \<Rightarrow>
          let st1 = st\<lparr>q_i := i, q_tag := tag, q_or := is_or\<rparr>
          in if skip_round then query_loop input sliced st1
             else case parse_chunk input sliced st1 of
                    None \<Rightarrow> None
                  | Some st2 \<Rightarrow> query_loop input sliced st2)"
  by pat_completeness auto
termination
  by (relation "measure (\<lambda>(input, sliced, st). length (s_data input) - q_i st)")
    (auto intro: scan_skip_decreases parse_chunk_decreases)

declare query_loop.simps [simp del]

definition Query_parse :: "slice \<Rightarrow> sliced_string \<Rightarrow> group option" where
  "Query_parse input sliced =
     query_loop input sliced
       \<lparr>q_i = 0, q_list = Group_default\<lparr>g_input := s_data input\<rparr>, q_tag = TNone, q_count = 0, q_or = False\<rparr>"

section \<open>The tail pointers\<close>

text \<open>A chain's \<open>tail\<close> points to its last node, or is absent while the head is the only node.\<close>

definition chain_wf :: "nat option \<Rightarrow> 'a list \<Rightarrow> bool" where
  "chain_wf t chain \<longleftrightarrow> chain \<noteq> [] \<and> t = last_node chain"

lemma chain_wf_index:
  "chain_wf t chain \<Longrightarrow> (case t of Some p \<Rightarrow> p | None \<Rightarrow> 0) = length chain - 1"
  by (cases chain) (auto simp: chain_wf_def last_node_def)

lemma chain_wf_push:
  assumes "chain_wf t chain"
  shows "set_next chain (case t of Some p \<Rightarrow> p | None \<Rightarrow> 0) x = chain @ [x]"
    and "chain_wf (Some (Suc (case t of Some p \<Rightarrow> p | None \<Rightarrow> 0))) (chain @ [x])"
  using assms unfolding chain_wf_index [OF assms]
  by (auto simp: chain_wf_def set_next_def last_node_def)

lemma chain_wf_None: "chain_wf None chain \<longleftrightarrow> (\<exists>x. chain = [x])"
  by (cases chain) (auto simp: chain_wf_def last_node_def)

lemma chain_wf_length: "chain_wf t xs \<Longrightarrow> length ys = length xs \<Longrightarrow> chain_wf t ys"
  by (auto simp: chain_wf_def last_node_def)

lemma chain_wf_update: "chain_wf t xs \<Longrightarrow> chain_wf t (xs[i := x])"
  by (erule chain_wf_length) simp

definition list_wf :: "query_list \<Rightarrow> bool" where
  "list_wf l \<longleftrightarrow> chain_wf (ql_tail l) (ql_head l) \<and> (\<forall>r\<in>set (ql_head l). range_wf r)"

definition group_wf :: "group \<Rightarrow> bool" where
  "group_wf g \<longleftrightarrow> chain_wf (g_tail g) (g_head g) \<and> (\<forall>l\<in>set (g_head g). list_wf l)"

text \<open>What a group means: a disjunction of conjunctions of ranges.\<close>

definition alts :: "group \<Rightarrow> range list list" where
  "alts g = map ql_head (g_head g)"

text \<open>Adding a conjunct replaces a single range that has no comparator.\<close>

definition conj_add :: "range list \<Rightarrow> range \<Rightarrow> range list" where
  "conj_add q r = (if \<not> has_left (hd q) \<and> \<not> has_right (hd q) then q[0 := r] else q @ [r])"

definition blank :: "group \<Rightarrow> bool" where
  "blank g \<longleftrightarrow> (\<exists>r. alts g = [[r]] \<and> \<not> has_left r)"

lemma List_and_range_wf:
  assumes "list_wf l" and "range_wf r"
  shows "list_wf (List_and_range l r)" and "ql_head (List_and_range l r) = conj_add (ql_head l) r"
proof -
  from assms(1) have c: "chain_wf (ql_tail l) (ql_head l)" by (simp add: list_wf_def)
  show "list_wf (List_and_range l r)"
    using assms chain_wf_push [OF c] chain_wf_update [OF c]
    by (auto simp: List_and_range_def list_wf_def Let_def dest: set_update_subset_insert [THEN subsetD])
  show "ql_head (List_and_range l r) = conj_add (ql_head l) r"
    using chain_wf_push [OF c] by (simp add: List_and_range_def conj_add_def Let_def)
qed

lemma Group_and_range_wf:
  assumes "group_wf g" and "range_wf r"
  shows "group_wf (Group_and_range g r)"
    and "alts (Group_and_range g r) = butlast (alts g) @ [conj_add (last (alts g)) r]"
proof -
  let ?k = "length (g_head g) - 1"
  from assms(1) have c: "chain_wf (g_tail g) (g_head g)" by (simp add: group_wf_def)
  then have ne: "g_head g \<noteq> []" by (simp add: chain_wf_def)
  then have "g_head g ! ?k \<in> set (g_head g)" by simp
  with assms have l: "list_wf (g_head g ! ?k)" by (simp add: group_wf_def)
  have g: "Group_and_range g r = g\<lparr>g_head := (g_head g)[?k := List_and_range (g_head g ! ?k) r]\<rparr>"
    by (simp add: Group_and_range_def chain_wf_index [OF c] Let_def)
  show "group_wf (Group_and_range g r)"
    using assms chain_wf_update [OF c] List_and_range_wf [OF l assms(2)]
    by (auto simp: g group_wf_def dest: set_update_subset_insert [THEN subsetD])
  have "map ql_head ((g_head g)[?k := x]) = butlast (map ql_head (g_head g)) @ [ql_head x]" for x
    using ne by (cases "g_head g" rule: rev_cases) (auto simp: map_butlast)
  then show "alts (Group_and_range g r) = butlast (alts g) @ [conj_add (last (alts g)) r]"
    using ne List_and_range_wf [OF l assms(2)] by (simp add: g alts_def last_map last_conv_nth)
qed

lemma push_list_wf:
  assumes "group_wf g" and "range_wf r"
  shows "group_wf (push_list g r)" and "alts (push_list g r) = alts g @ [[r]]"
proof -
  from assms(1) have c: "chain_wf (g_tail g) (g_head g)" by (simp add: group_wf_def)
  have "list_wf (List_default\<lparr>ql_head := [r]\<rparr>)"
    using assms(2) by (simp add: list_wf_def List_default_def chain_wf_None)
  with assms chain_wf_push [OF c] show "group_wf (push_list g r)"
    by (auto simp: push_list_def group_wf_def Let_def)
  show "alts (push_list g r) = alts g @ [[r]]"
    using chain_wf_push [OF c] by (simp add: push_list_def alts_def Let_def)
qed

lemma blank_cases:
  assumes "group_wf g"
  shows "g_tail g = None \<and> ql_tail (hd (g_head g)) = None \<and> \<not> has_left (hd (ql_head (hd (g_head g))))
    \<longleftrightarrow> blank g" (is "?lhs \<longleftrightarrow> _")
proof
  have c: "chain_wf (g_tail g) (g_head g)" "\<forall>l\<in>set (g_head g). chain_wf (ql_tail l) (ql_head l)"
    using assms by (auto simp: group_wf_def list_wf_def)
  {
    assume l: ?lhs
    with c(1) obtain l where "g_head g = [l]" by (auto simp: chain_wf_None)
    with c(2) l obtain r where "ql_head l = [r]" by (auto simp: chain_wf_None)
    with \<open>g_head g = [l]\<close> l show "blank g" by (simp add: blank_def alts_def)
  }
  show ?lhs if "blank g"
    using that c by (auto simp: blank_def alts_def chain_wf_def last_node_def)
qed

lemma or_range_wf:
  assumes "group_wf g" and "range_wf r"
  shows "group_wf (or_range g r)" and "alts (or_range g r) = (if blank g then [[r]] else alts g @ [[r]])"
proof -
  have "group_wf (or_range g r) \<and> alts (or_range g r) = (if blank g then [[r]] else alts g @ [[r]])"
  proof (cases "blank g")
    case True
    then obtain l where "g_head g = [l]" "g_tail g = None" "ql_tail l = None"
      using blank_cases [OF assms(1)] by (auto simp: blank_def alts_def)
    moreover from this True obtain r0 where "ql_head l = [r0]"
      by (auto simp: blank_def alts_def)
    ultimately show ?thesis
      using True blank_cases [OF assms(1)] assms(2)
      by (auto simp: or_range_def update_first_def alts_def group_wf_def list_wf_def chain_wf_None)
  next
    case False
    then show ?thesis
      using push_list_wf [OF assms] blank_cases [OF assms(1)] by (auto simp: or_range_def)
  qed
  then show "group_wf (or_range g r)"
    and "alts (or_range g r) = (if blank g then [[r]] else alts g @ [[r]])" by auto
qed

lemma chain_head: "chain_wf t (x # xs) \<Longrightarrow> chain_wf t (y # xs)"
  by (erule chain_wf_length) simp

lemma version_wf_simps [simp]:
  "version_wf Version_default"
  "version_wf (v\<lparr>v_major := a\<rparr>) = version_wf v" "version_wf (v\<lparr>v_minor := a\<rparr>) = version_wf v"
  "version_wf (v\<lparr>v_patch := a\<rparr>) = version_wf v" "version_wf (v\<lparr>v_tag := t\<rparr>) = tag_wf t"
  by (simp_all add: version_wf_def Version_default_def)

lemma range_wf_simps [simp]:
  "range_wf Range_default"
  "range_wf (Range_default\<lparr>r_left := c\<rparr>) = version_wf (c_version c)"
  "range_wf \<lparr>r_left = c, r_right = d\<rparr> = (version_wf (c_version c) \<and> version_wf (c_version d))"
  by (simp_all add: range_wf_def Range_default_def Comparator_default_def)

lemma range_wf_left: "range_wf r \<Longrightarrow> range_wf (r\<lparr>r_left := c\<rparr>) = version_wf (c_version c)"
  by (simp add: range_wf_def)

lemma or_version_wf:
  assumes "group_wf g" and "version_wf v"
  shows "group_wf (or_version g v)"
    and "alts g = [[Range_default]] \<Longrightarrow> alts (or_version g v) = [[left_range OpEql v]]"
proof -
  let ?r = "Range_default\<lparr>r_left := \<lparr>c_op = OpEql, c_version = v\<rparr>\<rparr>"
  show "group_wf (or_version g v)"
  proof (cases "g_tail g = None \<and> \<not> has_left (hd (ql_head (hd (g_head g))))")
    case True
    with assms(1) obtain l where l: "g_head g = [l]" by (auto simp: group_wf_def chain_wf_None)
    with assms(1) obtain r rs where "ql_head l = r # rs" "chain_wf (ql_tail l) (r # rs)"
      "\<forall>x\<in>set (r # rs). range_wf x"
      by (cases "ql_head l") (auto simp: group_wf_def list_wf_def chain_wf_def)
    with True l assms show ?thesis
      by (auto simp: or_version_def update_first_def group_wf_def list_wf_def chain_wf_None
          range_wf_left intro: chain_head)
  next
    case False
    then show ?thesis
      using push_list_wf(1) [OF assms(1), of ?r] assms(2) by (auto simp: or_version_def)
  qed
  show "alts (or_version g v) = [[left_range OpEql v]]" if "alts g = [[Range_default]]"
  proof -
    from that obtain l where l: "g_head g = [l]" "ql_head l = [Range_default]"
      by (auto simp: alts_def)
    with assms(1) have "g_tail g = None"
      by (simp add: group_wf_def chain_wf_def last_node_def)
    with l show ?thesis
      by (simp add: or_version_def update_first_def alts_def left_range_def has_left_def
          Range_default_def Comparator_default_def)
  qed
qed

section \<open>Satisfaction as a disjunction of conjunctions\<close>

lemma Query_satisfies_all:
  "Query_satisfies q v qb vb \<longleftrightarrow> (\<forall>r\<in>set q. Range_satisfies r v qb vb)"
  by (induction q) auto

text \<open>A comparator of the range has a pre-release on the release numbers of \<open>v\<close>.\<close>

definition range_pre_match :: "range \<Rightarrow> version \<Rightarrow> bool" where
  "range_pre_match r v \<longleftrightarrow>
     has_left r \<and> (pre_match (r_left r) v \<or> has_right r \<and> pre_match (r_right r) v)"

lemma Query_satisfies_pre_spec:
  "(fst (Query_satisfies_pre q v qb vb pm) \<longleftrightarrow> Query_satisfies q v qb vb) \<and>
   (Query_satisfies q v qb vb \<longrightarrow>
     (snd (Query_satisfies_pre q v qb vb pm) \<longleftrightarrow> pm \<or> (\<exists>r\<in>set q. range_pre_match r v)))"
proof (induction q arbitrary: pm)
  case (Cons r q)
  obtain ok pm' where r: "Range_satisfies_pre r v qb vb pm = (ok, pm')" by fastforce
  have ok: "Range_satisfies r v qb vb = ok" and pm': "pm' \<longleftrightarrow> pm \<or> range_pre_match r v"
    using Range_satisfies_pre_fst [of r v qb vb pm] Range_satisfies_pre_snd [of r v qb vb pm]
    by (auto simp: r range_pre_match_def)
  then show ?case using Cons.IH [of pm'] by (cases ok) (auto simp: r)
qed auto

lemma List_satisfies_ex:
  "List_satisfies ls v lb vb \<longleftrightarrow> (\<exists>l\<in>set ls. Query_satisfies (ql_head l) v lb vb)"
  by (induction ls) auto

lemma List_satisfies_pre_ex:
  "List_satisfies_pre ls v lb vb \<longleftrightarrow>
    (\<exists>l\<in>set ls. Query_satisfies (ql_head l) v lb vb \<and> (\<exists>r\<in>set (ql_head l). range_pre_match r v))"
proof (induction ls)
  case (Cons l ls)
  obtain ok pm where q: "Query_satisfies_pre (ql_head l) v lb vb False = (ok, pm)" by fastforce
  have "ok = Query_satisfies (ql_head l) v lb vb"
    and "ok \<Longrightarrow> pm \<longleftrightarrow> (\<exists>r\<in>set (ql_head l). range_pre_match r v)"
    using Query_satisfies_pre_spec [of "ql_head l" v lb vb False] by (simp_all add: q)
  with Cons show ?case by (auto simp: q)
qed simp

lemma Group_satisfies_alts:
  "Group_satisfies g v gb vb \<longleftrightarrow>
    (\<exists>q\<in>set (alts g). (\<forall>r\<in>set q. Range_satisfies r v gb vb)
      \<and> (has_pre (v_tag v) \<longrightarrow> (\<exists>r\<in>set q. range_pre_match r v)))"
  by (auto simp: Group_satisfies_def alts_def List_satisfies_ex List_satisfies_pre_ex
      Query_satisfies_all)

section \<open>The parser never panics\<close>

lemma version_wf_min: "tag_wf (p_tag p) \<Longrightarrow> version_wf (Partial_min p)"
  by (simp add: version_wf_def Partial_min_def)

lemma to_range_wf:
  assumes "tag_wf (p_tag p)" and "tok_tag tok \<noteq> TNone"
  shows "\<exists>r. to_range tok p = Some r \<and> range_wf r"
  using assms
  by (cases "tok_tag tok"; cases "tok_wildcard tok")
    (auto simp: to_range_def token_op_def left_range_def init_wildcard_def version_wf_min
      caret_range_def tilda_range_def Let_def split: option.splits)

lemma set_flags_wf [simp]: "group_wf (set_flags g v) = group_wf g" "alts (set_flags g v) = alts g"
  by (simp_all add: set_flags_def group_wf_def alts_def)

lemma hyphen_range_wf:
  "version_wf v \<Longrightarrow> tag_wf (p_tag (pr_version s)) \<Longrightarrow> range_wf (hyphen_range v s)"
  by (simp add: hyphen_range_def version_wf_min Let_def split: wildcard.split)

lemma parse_at_total:
  assumes "i \<le> length (s_data input)" and "length (s_data input) < 2 ^ 32"
  shows "\<exists>pr. parse_at input sliced i = Some pr \<and> i + unat (pr_len pr) \<le> length (s_data input)
    \<and> tag_wf (p_tag (pr_version pr))"
proof -
  let ?ss = "SlicedString_sub sliced (slice_sub input i (length (s_data input)))"
  have l: "length (s_data (sl_slice ?ss)) = length (s_data input) - i"
    by (simp add: SlicedString_sub_def slice_sub_def length_subslice)
  then have "length (s_data (sl_slice ?ss)) < 2 ^ 32"
    using assms(2) by simp
  from Version_parse_total [OF this, where 'a = 64] l obtain pr :: "u64 parse_result" where
    "Version_parse ?ss = Some pr" "unat (pr_len pr) \<le> length (s_data input) - i"
    by auto
  moreover from this have "tag_wf (p_tag (pr_version pr))"
    using Version_parse_wf by (auto simp: partial_wf_def)
  ultimately show ?thesis using assms(1) by (auto simp: parse_at_def)
qed

lemma hyphenate_lt: "hyphenate input i = Some j \<Longrightarrow> j < length input"
  by (auto simp: hyphenate_def Let_def split: if_splits)

lemma emit_range_wf:
  assumes "group_wf (q_list st)" and "tag_wf (p_tag (pr_version pr))" and "tok_tag tok \<noteq> TNone"
  shows "\<exists>g. emit_range st tok pr = Some g \<and> group_wf g"
  using to_range_wf [OF assms(2,3)] assms or_version_wf(1) [OF assms(1) version_wf_min]
    or_range_wf(1) [OF assms(1)] Group_and_range_wf(1) [OF assms(1)]
  by (auto simp: emit_range_def)

lemma parse_chunk_total:
  assumes "q_i st \<le> length (s_data input)" and "length (s_data input) < 2 ^ 32"
    and "group_wf (q_list st)"
  shows "\<exists>st'. parse_chunk input sliced st = Some st' \<and> group_wf (q_list st')"
proof -
  obtain pr where pr: "parse_at input sliced (q_i st) = Some pr"
    "q_i st + unat (pr_len pr) \<le> length (s_data input)" "tag_wf (p_tag (pr_version pr))"
    using parse_at_total [OF assms(1,2)] by blast
  let ?v = "Partial_min (pr_version pr)" and ?rb = "q_i st + unat (pr_len pr)"
  show ?thesis
  proof (cases "hyphenate (s_data input) ?rb")
    case None
    then show ?thesis
      using pr(1,3) assms(3)
        emit_range_wf [of "st\<lparr>q_list := set_flags (q_list st) ?v\<rparr>" pr
          "\<lparr>tok_tag = q_tag st, tok_wildcard = pr_wildcard pr\<rparr>"]
      by (auto simp: parse_chunk_def Let_def)
  next
    case (Some j)
    then have "j \<le> length (s_data input)" by (auto dest: hyphenate_lt)
    then obtain se where se: "parse_at input sliced j = Some se" "tag_wf (p_tag (pr_version se))"
      using parse_at_total [OF _ assms(2)] by blast
    have "range_wf (hyphen_range ?v se)"
      using se(2) pr(3) by (simp add: hyphen_range_wf version_wf_min)
    then show ?thesis
      using Some pr(1) se(1) assms(3) or_range_wf(1) Group_and_range_wf(1)
      by (auto simp: parse_chunk_def Let_def)
  qed
qed

lemma scan_token_le:
  assumes "i < length input" and "scan_token input i tag is_or = (j, tag', is_or', skip)"
  shows "j \<le> length input"
proof -
  have s: "skip_while p input (i + 1) \<le> length input"
    "i + 1 < length input \<Longrightarrow> skip_while p input (i + 2) \<le> length input"
    "skip_while q input (skip_while p input (i + 1)) \<le> length input" for p q
    using assms(1) by (auto intro!: skip_while_le)
  show ?thesis
    using assms s unfolding scan_token_def Let_def skip_spaces_def
    by (auto simp del: One_nat_def add_2_eq_Suc' split: if_splits)
qed

lemma query_loop_total:
  assumes "length (s_data input) < 2 ^ 32" and "group_wf (q_list st)"
  shows "\<exists>g. query_loop input sliced st = Some g \<and> group_wf g"
  using assms(2)
proof (induction "length (s_data input) - q_i st" arbitrary: st rule: less_induct)
  case less
  show ?case
  proof (cases "length (s_data input) \<le> q_i st")
    case True
    with less.prems show ?thesis by (subst query_loop.simps) simp
  next
    case False
    obtain i tag' is_or' skip where
      sc: "scan_token (s_data input) (q_i st) (q_tag st) (q_or st) = (i, tag', is_or', skip)"
      by (rule prod_cases4)
    let ?st = "st\<lparr>q_i := i, q_tag := tag', q_or := is_or'\<rparr>"
    show ?thesis
    proof (cases skip)
      case True
      then have "length (s_data input) - q_i ?st < length (s_data input) - q_i st"
        using scan_skip_decreases [OF False, of i tag' is_or' "q_tag st" "q_or st"] sc by simp
      from less.hyps [OF this] less.prems show ?thesis
        using False True sc by (subst query_loop.simps) simp
    next
      case nskip: False
      have "i \<le> length (s_data input)"
        using scan_token_le [OF _ sc] False by simp
      then obtain st' where st': "parse_chunk input sliced ?st = Some st'" "group_wf (q_list st')"
        using parse_chunk_total [of ?st input sliced] assms(1) less.prems by auto
      have "length (s_data input) - q_i st' < length (s_data input) - q_i st"
        using parse_chunk_decreases [OF False _ st'(1), of "q_tag st" "q_or st"] sc nskip by simp
      from less.hyps [OF this st'(2)] show ?thesis
        using False nskip sc st'(1) by (subst query_loop.simps) simp
    qed
  qed
qed

lemma Group_default_wf: "group_wf (Group_default\<lparr>g_input := x\<rparr>)" "alts (Group_default\<lparr>g_input := x\<rparr>) = [[Range_default]]"
  by (simp_all add: group_wf_def Group_default_def list_wf_def List_default_def chain_wf_None alts_def)

section \<open>A requirement with one version\<close>

text \<open>The text of a version with the tag text \<open>T\<close>.\<close>

definition version_text :: "u64 \<Rightarrow> u64 \<Rightarrow> u64 \<Rightarrow> bytes \<Rightarrow> bytes" where
  "version_text a b c T = decimal (unat a) @ ''.'' @ decimal (unat b) @ ''.'' @ decimal (unat c) @ T"

lemma version_text_digit: "version_text a b c T \<noteq> [] \<and> is_ascii_digit (hd (version_text a b c T))"
  using decimal_digits [of "hd (decimal (unat a))" "unat a"] by (simp add: version_text_def)

lemma hyphenate_end: "length input \<le> i \<Longrightarrow> hyphenate input i = None"
  by (simp add: hyphenate_def)

lemma query_single:
  assumes at: "slice_at (sl_buf sliced) input k"
    and src: "s_data input = p @ version_text a b c T"
    and T: "T = [] \<or> hd T = CHR ''-'' \<or> hd T = CHR ''+''" and tp: "tag_parses T pre build"
    and scan: "scan_token (s_data input) 0 TNone False = (length p, tag, is_or, False)"
    and tag: "tag \<noteq> TNone"
  shows "\<exists>g t r. Query_parse input sliced = Some g \<and> alts g = [[r]]
    \<and> to_range \<lparr>tok_tag = tag, tok_wildcard = WNone\<rparr>
        \<lparr>p_major = Some a, p_minor = Some b, p_patch = Some c, p_tag = t\<rparr> = Some r
    \<and> tag_reads t (s_data (sl_buf sliced)) pre build"
proof -
  let ?n = "length (s_data input)"
  let ?ss = "SlicedString_sub sliced (slice_sub input (length p) ?n)"
  let ?g = "Group_default\<lparr>g_input := s_data input\<rparr>"
  let ?st = "\<lparr>q_i = length p, q_list = ?g, q_tag = tag, q_count = 0, q_or = is_or\<rparr>"
  have "slice_at (sl_buf ?ss) (sl_slice ?ss) (k + length p)"
    using slice_at_sub [OF at, of "length p" ?n] src by (simp add: SlicedString_sub_def)
  moreover have d: "s_data (sl_slice ?ss) = version_text a b c T"
    using src by (simp add: SlicedString_sub_def slice_sub_def subslice_def)
  ultimately obtain t where t: "Version_parse ?ss = Some \<lparr>pr_wildcard = WNone, pr_valid = True,
      pr_version = \<lparr>p_major = Some a, p_minor = Some b, p_patch = Some c, p_tag = t\<rparr>,
      pr_len = of_nat (length (version_text a b c T))\<rparr>"
    "tag_reads t (s_data (sl_buf sliced)) pre build"
    using Version_parse_release [of ?ss "k + length p" a b c T pre build] T tp
    by (auto simp: version_text_def SlicedString_sub_def)
  define pr where "pr = \<lparr>pr_wildcard = WNone, pr_valid = True,
      pr_version = \<lparr>p_major = Some a, p_minor = Some b, p_patch = Some c, p_tag = t\<rparr>,
      pr_len = of_nat (length (version_text a b c T))\<rparr>"
  let ?tok = "\<lparr>tok_tag = tag, tok_wildcard = pr_wildcard pr\<rparr>"
  let ?st1 = "?st\<lparr>q_list := set_flags ?g (Partial_min (pr_version pr))\<rparr>"
  have at_p: "parse_at input sliced (length p) = Some pr"
    using t(1) src by (simp add: parse_at_def pr_def)
  have "length (version_text a b c T) < 2 ^ 32"
    using at src by (simp add: slice_at_def)
  then have len: "length p + unat (pr_len pr) = ?n"
    using src by (simp add: pr_def unat_of_nat_u32)
  have wf: "tag_wf (p_tag (pr_version pr))"
    using t(2) by (simp add: pr_def tag_reads_def)
  then obtain r where r: "to_range ?tok (pr_version pr) = Some r" "range_wf r"
    using to_range_wf [of "pr_version pr" ?tok] tag by auto
  have g: "group_wf (q_list ?st1)" "alts (q_list ?st1) = [[Range_default]]"
    by (simp_all add: Group_default_wf)
  have "\<exists>g'. emit_range ?st1 ?tok pr = Some g' \<and> alts g' = [[r]]"
  proof (cases "tag = TVersion")
    case True
    then show ?thesis
      using or_version_wf(2) [OF g(1) version_wf_min [OF wf] g(2)] r
      by (auto simp: emit_range_def pr_def to_range_def left_range_def)
  next
    case False
    then show ?thesis
      using Group_and_range_wf(2) [OF g(1) r(2)] r g(2)
      by (simp add: emit_range_def conj_add_def Range_default_def has_left_def has_right_def
          Comparator_default_def)
  qed
  then obtain g' where g': "emit_range ?st1 ?tok pr = Some g'" "alts g' = [[r]]" by blast
  have "parse_chunk input sliced ?st
      = Some (?st1\<lparr>q_i := ?n + 1, q_list := g', q_or := False, q_count := 1\<rparr>)"
    using at_p tag g'(1) by (simp add: parse_chunk_def Let_def len hyphenate_end)
  moreover have "0 < ?n"
    using src version_text_digit [of a b c T] by simp
  ultimately have "Query_parse input sliced = Some g'"
    using scan by (simp add: Query_parse_def, subst query_loop.simps, simp, subst query_loop.simps, simp)
  then show ?thesis
    using g'(2) r(1) t(2) by (auto simp: pr_def)
qed

text \<open>The release numbers of a version, compared lexicographically.\<close>

definition nums :: "version \<Rightarrow> u64 \<times> u64 \<times> u64" where
  "nums v = (v_major v, v_minor v, v_patch v)"

lemma key_le_release:
  "\<not> has_pre (v_tag v) \<Longrightarrow> version_key w wb \<le> version_key v vb \<longleftrightarrow> nums w \<le> nums v"
  by (auto simp: version_key_def nums_def)

lemma release_key_less:
  "\<not> has_pre (v_tag v) \<Longrightarrow> \<not> has_pre (v_tag w) \<Longrightarrow>
    version_key v vb < version_key w wb \<longleftrightarrow> nums v < nums w"
  by (simp add: release_key_order nums_def)

lemmas range_simps =
  Range_satisfies_iff has_left_def has_right_def op_holds_def key_le_release release_key_less

lemma caret_range_satisfies:
  assumes "version_wf v" and "\<not> has_pre (v_tag v)" and "tag_wf t"
    and "a < - 1" and "b < - 1" and "c < - 1"
  shows "Range_satisfies (caret_range \<lparr>p_major = Some a, p_minor = Some b, p_patch = Some c, p_tag = t\<rparr>)
      v rb vb \<longleftrightarrow>
    (a, b, c) \<le> nums v \<and>
      (if a \<noteq> 0 then v_major v = a
       else if b \<noteq> 0 then v_major v = 0 \<and> v_minor v = b
       else v_major v = 0 \<and> v_minor v = 0 \<and> v_patch v = c)"
  using assms
  by (simp add: caret_range_def range_simps Version_default_def version_wf_def)
    (auto simp: nums_def less_saturating_add_one)

lemma tilda_range_satisfies:
  assumes "version_wf v" and "\<not> has_pre (v_tag v)" and "tag_wf t" and "b < - 1"
  shows "Range_satisfies (tilda_range \<lparr>p_major = Some a, p_minor = Some b, p_patch = Some c, p_tag = t\<rparr>)
      v rb vb \<longleftrightarrow> v_major v = a \<and> v_minor v = b \<and> c \<le> v_patch v"
  using assms
  by (simp add: tilda_range_def range_simps Version_default_def version_wf_def)
    (auto simp: nums_def less_saturating_add_one)

lemma scan_operator:
  assumes "input = c # rest" and "rest \<noteq> []" and "is_ascii_digit (hd rest)"
  shows "c = CHR ''^'' \<Longrightarrow> scan_token input 0 TNone False = (length [c], TCaret, False, False)"
    and "c = CHR ''~'' \<Longrightarrow> scan_token input 0 TNone False = (length [c], TTilda, False, False)"
proof -
  have "input ! 1 = hd rest" using assms(1,2) by (cases rest) auto
  then have n: "input ! Suc 0 \<noteq> CHR '' ''" "input ! Suc 0 \<noteq> CHR ''>''"
    using assms(3) by (auto simp: is_ascii_digit_code)
  have "skip_spaces input (Suc 0) = Suc 0"
    unfolding skip_spaces_def using n by (subst skip_while_step) simp
  then show "c = CHR ''^'' \<Longrightarrow> scan_token input 0 TNone False = (length [c], TCaret, False, False)"
    and "c = CHR ''~'' \<Longrightarrow> scan_token input 0 TNone False = (length [c], TTilda, False, False)"
    using assms(1) n by (simp_all add: scan_token_def)
qed

lemma scan_digit:
  assumes "input \<noteq> []" and "is_ascii_digit (hd input)"
  shows "scan_token input 0 TNone False = (length [], TVersion, True, False)"
proof -
  have "input ! 0 = hd input" using assms(1) by (simp add: hd_conv_nth)
  moreover have "hd input \<notin> {CHR ''>'', CHR ''<'', CHR ''='', CHR ''v'', CHR ''~'', CHR ''^''}"
    using assms(2) by (auto simp: is_ascii_digit_code)
  ultimately show ?thesis
    using assms(2) by (simp add: scan_token_def is_core_start_def)
qed

section \<open>Properties\<close>

text \<open>
  C8. A group admits a version exactly when some alternative has only ranges that admit it and, for
  a version with a pre-release, one of that alternative's comparators names a pre-release of the
  same release numbers. (The rule of node-semver that the code cites.)
\<close>

theorem Group_satisfies_dnf:
  "Group_satisfies g v gb vb \<longleftrightarrow>
    (\<exists>q\<in>set (alts g). (\<forall>r\<in>set q. Range_satisfies r v gb vb)
      \<and> (has_pre (v_tag v) \<longrightarrow> (\<exists>r\<in>set q. range_pre_match r v)))"
  by (rule Group_satisfies_alts)

theorem Group_satisfies_dnf_witness:
  "Group_satisfies (Group_from (Version_default\<lparr>v_major := 3\<rparr>)) (Version_default\<lparr>v_major := 3\<rparr>) [] []"
  unfolding Group_satisfies_dnf
  by (auto simp: alts_def Group_from_def Group_default_def Range_satisfies_def Range_default_def
      Comparator_default_def has_left_def has_right_def Comparator_satisfies_def Version_default_def
      order_without_build_cmp)

text \<open>
  C7. The requirement parser is total: for every input shorter than 4 GiB it terminates without
  reaching an \<open>unreachable!()\<close> or slicing out of range, and every \<open>tail\<close> pointer of the result points
  to the last node of its chain.
\<close>

theorem Query_parse_total:
  assumes "length (s_data input) < 2 ^ 32"
  shows "\<exists>g. Query_parse input sliced = Some g \<and> group_wf g"
  unfolding Query_parse_def using assms by (rule query_loop_total) (simp add: Group_default_wf)

theorem Query_parse_total_witness:
  "\<exists>g. Query_parse \<lparr>s_addr = 0, s_data = ''>=1 <2 || - foo || ~3.x - v4''\<rparr>
      \<lparr>sl_buf = \<lparr>s_addr = 0, s_data = ''>=1 <2 || - foo || ~3.x - v4''\<rparr>,
       sl_slice = \<lparr>s_addr = 0, s_data = ''>=1 <2 || - foo || ~3.x - v4''\<rparr>\<rparr> = Some g \<and> group_wf g"
  using Query_parse_total [of "\<lparr>s_addr = 0, s_data = ''>=1 <2 || - foo || ~3.x - v4''\<rparr>"] by simp

text \<open>
  C10. The builder operations implement the disjunctive normal form through the tail pointers:
  \<open>or_range\<close> adds an alternative, \<open>and_range\<close> adds a conjunct to the last alternative, and both keep
  the pointers right. A group without comparator is replaced by the first range.
\<close>

theorem group_builders_refine:
  assumes "group_wf g" and "range_wf r"
  shows "group_wf (or_range g r) \<and> group_wf (Group_and_range g r)
    \<and> alts (or_range g r) = (if blank g then [[r]] else alts g @ [[r]])
    \<and> alts (Group_and_range g r) = butlast (alts g) @ [conj_add (last (alts g)) r]"
  using or_range_wf [OF assms] Group_and_range_wf [OF assms] by simp

theorem group_builders_refine_witness:
  "alts (Group_and_range (or_range (or_range Group_default (left_range OpLt Version_default))
      (left_range OpGt Version_default)) (left_range OpLte Version_default))
    = [[left_range OpLt Version_default], [left_range OpGt Version_default, left_range OpLte Version_default]]"
proof -
  have wf: "range_wf (left_range p Version_default)" for p
    by (simp add: left_range_def)
  have g: "group_wf Group_default" "alts Group_default = [[Range_default]]"
    using Group_default_wf [of "[]"] by (simp_all add: Group_default_def)
  have blank: "blank Group_default" "\<And>g q r p. alts g = [[left_range p Version_default]] \<Longrightarrow> p \<noteq> OpUnset \<Longrightarrow> \<not> blank g"
    using g(2) by (auto simp: blank_def left_range_def Range_default_def Comparator_default_def has_left_def)
  let ?g1 = "or_range Group_default (left_range OpLt Version_default)"
  let ?g2 = "or_range ?g1 (left_range OpGt Version_default)"
  have g1: "group_wf ?g1" "alts ?g1 = [[left_range OpLt Version_default]]"
    using group_builders_refine [OF g(1) wf [of OpLt]] blank(1) by simp_all
  have g2: "group_wf ?g2" "alts ?g2 = [[left_range OpLt Version_default], [left_range OpGt Version_default]]"
    using group_builders_refine [OF g1(1) wf [of OpGt]] blank(2) [OF g1(2)] g1(2) by simp_all
  show ?thesis
    using group_builders_refine [OF g2(1) wf [of OpLte]] g2(2)
    by (simp add: conj_add_def left_range_def has_left_def)
qed

text \<open>
  C9. \<open>^a.b.c\<close> parses, and the resulting requirement admits exactly the releases that are at least
  \<open>a.b.c\<close> and keep the left-most non-zero number: the major version, or the minor version below
  1.0.0, or the patch itself below 0.1.0. The version may carry a pre-release and build metadata. The
  numbers are below \<open>2 ^ 64 - 1\<close>, where adding one saturates.
\<close>

theorem caret_requirement:
  assumes "slice_at (sl_buf sliced) input k" and "s_data input = ''^'' @ version_text a b c (tag_text pre build)"
    and "\<forall>x\<in>set pre. tag_char StPre x" and "\<forall>x\<in>set build. tag_char StBuild x"
    and "a < - 1" and "b < - 1" and "c < - 1" and "version_wf v" and "\<not> has_pre (v_tag v)"
  shows "\<exists>g. Query_parse input sliced = Some g \<and>
    (Group_satisfies g v (s_data (sl_buf sliced)) vb \<longleftrightarrow>
      (a, b, c) \<le> nums v \<and>
      (if a \<noteq> 0 then v_major v = a
       else if b \<noteq> 0 then v_major v = 0 \<and> v_minor v = b
       else v_major v = 0 \<and> v_minor v = 0 \<and> v_patch v = c))"
proof -
  have "scan_token (s_data input) 0 TNone False = (length ''^'', TCaret, False, False)"
    using scan_operator(1) [of "s_data input" "CHR ''^''" "version_text a b c (tag_text pre build)"]
      assms(2) version_text_digit by simp
  from query_single [OF assms(1,2) hd_tag_text tag_parses_text [OF assms(3,4)] this]
  obtain g t where "Query_parse input sliced = Some g" "tag_wf t"
    "alts g = [[caret_range \<lparr>p_major = Some a, p_minor = Some b, p_patch = Some c, p_tag = t\<rparr>]]"
    by (auto simp: to_range_def tag_reads_def)
  with assms(5-9) show ?thesis
    by (auto simp: Group_satisfies_alts caret_range_satisfies)
qed

theorem caret_requirement_witness:
  "\<exists>g. Query_parse \<lparr>s_addr = 0, s_data = ''^0.2.3''\<rparr> \<lparr>sl_buf = \<lparr>s_addr = 0, s_data = ''^0.2.3''\<rparr>,
       sl_slice = \<lparr>s_addr = 0, s_data = ''^0.2.3''\<rparr>\<rparr> = Some g
    \<and> \<not> Group_satisfies g (Version_default\<lparr>v_minor := 3\<rparr>) ''^0.2.3'' []"
proof -
  have "version_text 0 2 3 (tag_text [] []) = ''0.2.3''"
    by (simp add: version_text_def tag_text_def decimal_eval)
  then show ?thesis
    using caret_requirement [of "\<lparr>sl_buf = \<lparr>s_addr = 0, s_data = ''^0.2.3''\<rparr>,
        sl_slice = \<lparr>s_addr = 0, s_data = ''^0.2.3''\<rparr>\<rparr>" "\<lparr>s_addr = 0, s_data = ''^0.2.3''\<rparr>" 0 0 2 3 "[]" "[]"
        "Version_default\<lparr>v_minor := 3\<rparr>" "[]"]
    by (simp add: slice_at_def slice_sub_def subslice_def word_gt_0 Version_default_def nums_def
        version_wf_def)
qed

text \<open>
  \<open>~a.b.c\<close> parses, and the resulting requirement admits exactly the releases \<open>a.b.p\<close> with
  \<open>p >= c\<close>.
\<close>

theorem tilde_requirement:
  assumes "slice_at (sl_buf sliced) input k" and "s_data input = ''~'' @ version_text a b c (tag_text pre build)"
    and "\<forall>x\<in>set pre. tag_char StPre x" and "\<forall>x\<in>set build. tag_char StBuild x"
    and "b < - 1" and "version_wf v" and "\<not> has_pre (v_tag v)"
  shows "\<exists>g. Query_parse input sliced = Some g \<and>
    (Group_satisfies g v (s_data (sl_buf sliced)) vb \<longleftrightarrow>
      v_major v = a \<and> v_minor v = b \<and> c \<le> v_patch v)"
proof -
  have "scan_token (s_data input) 0 TNone False = (length ''~'', TTilda, False, False)"
    using scan_operator(2) [of "s_data input" "CHR ''~''" "version_text a b c (tag_text pre build)"]
      assms(2) version_text_digit by simp
  from query_single [OF assms(1,2) hd_tag_text tag_parses_text [OF assms(3,4)] this]
  obtain g t where "Query_parse input sliced = Some g" "tag_wf t"
    "alts g = [[tilda_range \<lparr>p_major = Some a, p_minor = Some b, p_patch = Some c, p_tag = t\<rparr>]]"
    by (auto simp: to_range_def tag_reads_def)
  with assms(5-7) show ?thesis
    by (auto simp: Group_satisfies_alts tilda_range_satisfies)
qed

theorem tilde_requirement_witness:
  "\<exists>g. Query_parse \<lparr>s_addr = 0, s_data = ''~1.2.3''\<rparr> \<lparr>sl_buf = \<lparr>s_addr = 0, s_data = ''~1.2.3''\<rparr>,
       sl_slice = \<lparr>s_addr = 0, s_data = ''~1.2.3''\<rparr>\<rparr> = Some g
    \<and> Group_satisfies g (Version_default\<lparr>v_major := 1, v_minor := 2, v_patch := 9\<rparr>) ''~1.2.3'' []"
proof -
  have "version_text 1 2 3 (tag_text [] []) = ''1.2.3''"
    by (simp add: version_text_def tag_text_def decimal_eval)
  then show ?thesis
    using tilde_requirement [of "\<lparr>sl_buf = \<lparr>s_addr = 0, s_data = ''~1.2.3''\<rparr>,
        sl_slice = \<lparr>s_addr = 0, s_data = ''~1.2.3''\<rparr>\<rparr>" "\<lparr>s_addr = 0, s_data = ''~1.2.3''\<rparr>" 0 1 2 3 "[]" "[]"
        "Version_default\<lparr>v_major := 1, v_minor := 2, v_patch := 9\<rparr>" "[]"]
    by (simp add: slice_at_def slice_sub_def subslice_def Version_default_def version_wf_def)
qed

text \<open>
  A printed version, used as a requirement, is an exact requirement for a version with the same
  numbers, pre-release and build metadata.
\<close>

theorem exact_requirement:
  assumes "slice_at (sl_buf sliced) input k" and "s_data input = Version_fmt v buf"
    and "tag_reads (v_tag v) buf pre build"
    and "\<forall>x\<in>set pre. tag_char StPre x" and "\<forall>x\<in>set build. tag_char StBuild x"
  shows "\<exists>g w. Query_parse input sliced = Some g \<and> is_exact g \<and> get_exact_version g = Some w
    \<and> nums w = nums v \<and> tag_reads (v_tag w) (s_data (sl_buf sliced)) pre build"
proof -
  let ?t = "version_text (v_major v) (v_minor v) (v_patch v) (tag_text pre build)"
  have src: "s_data input = [] @ ?t"
    using assms(2) Version_fmt_text [OF assms(3)] by (simp add: version_text_def)
  have "scan_token (s_data input) 0 TNone False = (length [], TVersion, True, False)"
    using scan_digit [of "s_data input"] src version_text_digit by simp
  from query_single [OF assms(1) src hd_tag_text tag_parses_text [OF assms(4,5)] this]
  obtain g t where g: "Query_parse input sliced = Some g" "tag_reads t (s_data (sl_buf sliced)) pre build"
    "alts g = [[left_range OpEql (Partial_min \<lparr>p_major = Some (v_major v), p_minor = Some (v_minor v),
        p_patch = Some (v_patch v), p_tag = t\<rparr>)]]"
    by (auto simp: to_range_def)
  then obtain l where "g_head g = [l]" "ql_head l = hd (alts g)"
    by (auto simp: alts_def)
  with g show ?thesis
    by (auto simp: is_exact_def get_exact_version_def left_range_def has_left_def has_right_def
        Range_default_def Comparator_default_def Partial_min_def nums_def)
qed

theorem exact_requirement_witness:
  "\<exists>g w. Query_parse \<lparr>s_addr = 8, s_data = ''1.22.3''\<rparr> \<lparr>sl_buf = \<lparr>s_addr = 8, s_data = ''1.22.3''\<rparr>,
      sl_slice = \<lparr>s_addr = 8, s_data = ''1.22.3''\<rparr>\<rparr> = Some g
    \<and> is_exact g \<and> get_exact_version g = Some w \<and> nums w = (1, 22, 3)
    \<and> tag_reads (v_tag w) ''1.22.3'' [] []"
proof -
  let ?v = "\<lparr>v_major = 1 :: u64, v_minor = 22, v_patch = 3, v_tag = Tag_default\<rparr>"
  have "Version_fmt ?v [] = ''1.22.3''"
    using Version_fmt_text [of ?v "[]" "[]" "[]"]
    by (simp add: tag_reads_default tag_text_def decimal_eval)
  then show ?thesis
    using exact_requirement [of "\<lparr>sl_buf = \<lparr>s_addr = 8, s_data = ''1.22.3''\<rparr>,
        sl_slice = \<lparr>s_addr = 8, s_data = ''1.22.3''\<rparr>\<rparr>" "\<lparr>s_addr = 8, s_data = ''1.22.3''\<rparr>" 0 ?v "[]" "[]" "[]"]
    by (simp add: slice_at_def slice_sub_def subslice_def tag_reads_default nums_def)
qed

text \<open>
  Printing a group with two alternatives repeats the second one, joined by \<open>&&\<close>: the group
  printer walks the alternatives, and prints for each the list printer's output, which itself
  walks to the end of the chain.
\<close>

theorem Group_fmt_repeats:
  assumes "group_wf g" and "alts g = [[r], [s]]"
  shows "Group_fmt g buf = Range_fmt r buf @ '' || '' @ Range_fmt s buf @ '' && '' @ Range_fmt s buf"
proof -
  obtain l m where "g_head g = [l, m]" "ql_head l = [r]" "ql_head m = [s]"
    using assms(2) by (auto simp: alts_def)
  moreover from this assms(1) have "g_tail g \<noteq> None"
    by (simp add: group_wf_def chain_wf_def last_node_def)
  ultimately show ?thesis
    by (simp add: Group_fmt_def Query_fmt_def)
qed

theorem Group_fmt_repeats_witness:
  "\<exists>g. Group_fmt g [] = ''<0.0.0 || >0.0.0 && >0.0.0''"
proof -
  let ?r = "\<lambda>p. left_range p Version_default"
  let ?l = "\<lambda>p. \<lparr>ql_head = [?r p], ql_tail = None\<rparr>"
  let ?g = "\<lparr>g_head = [?l OpLt, ?l OpGt], g_tail = Some 1, g_input = [], g_pre = False, g_build = False\<rparr>"
  have "group_wf ?g" "alts ?g = [[?r OpLt], [?r OpGt]]"
    by (simp_all add: group_wf_def list_wf_def chain_wf_def last_node_def alts_def left_range_def)
  from Group_fmt_repeats [OF this, of "[]"] have "Group_fmt ?g [] = ''<0.0.0 || >0.0.0 && >0.0.0''"
    using tag_reads_default
    by (simp add: Range_fmt_def left_range_def Range_default_def Comparator_default_def
        Comparator_fmt_def op_text_def Version_fmt_def Version_default_def decimal_eval tag_reads_def)
  then show ?thesis by blast
qed

end
