(* ===== verification/Linear_Fifo.thy ===== *)
theory Linear_Fifo
  imports Bun_Prelude
begin

unbundle bit_operations_syntax

text \<open>
  \<open>src/src/collections/linear_fifo.rs\<close>: a ring buffer in contiguous storage, which may be inline,
  borrowed or a growable allocation. Indices wrap by masking when the storage is meant to have a
  power-of-two length and by a remainder otherwise.

  The state refines a list: \<open>contents\<close> reads the live slots in order, and every operation is shown to
  act on it as the corresponding list operation. Slots that were never written hold an arbitrary
  value \<open>f_junk\<close>. Two outcomes are errors: \<open>AllocError\<close>, and \<open>Diverges\<close> for a loop that makes no
  progress (the scratch buffer of \<open>realign\<close> is too small for one element, or a write without
  capacity). A failed growth returns no fifo: the code may have realigned the storage by then, which
  keeps the contents. The model is the release build: the poisoning of unused slots under
  \<open>debug_assertions\<close> is left out. So is \<open>pump\<close>, which moves bytes between a reader and a writer.
\<close>

section \<open>State\<close>

datatype buffer_kind = StaticBuffer | SliceBuffer | DynamicBuffer

datatype fifo_error = AllocError | Diverges

record 'a fifo =
  f_kind :: buffer_kind
  f_buf :: "'a list"
  f_head :: nat
  f_count :: nat
  f_tsize :: nat
  f_junk :: 'a

text \<open>\<open>next_power_of_two\<close>, by doubling from \<open>k\<close>.\<close>

function next_pow2_from :: "nat \<Rightarrow> nat \<Rightarrow> nat" where
  "next_pow2_from k n = (if k = 0 \<or> n \<le> k then k else next_pow2_from (2 * k) n)"
  by pat_completeness auto
termination
  by (relation "measure (\<lambda>(k, n). n - k)") auto

declare next_pow2_from.simps [simp del]

definition next_power_of_two :: "nat \<Rightarrow> nat" where
  "next_power_of_two n = next_pow2_from 1 n"

definition checked_next_power_of_two :: "nat \<Rightarrow> nat option" where
  "checked_next_power_of_two n = (if n \<le> 2 ^ 63 then Some (next_power_of_two n) else None)"

definition POWERS_OF_TWO :: "'a fifo \<Rightarrow> bool" where
  "POWERS_OF_TWO f =
     (case f_kind f of
        StaticBuffer \<Rightarrow> next_power_of_two (length (f_buf f)) = length (f_buf f)
      | SliceBuffer \<Rightarrow> False
      | DynamicBuffer \<Rightarrow> True)"

definition DYNAMIC :: "'a fifo \<Rightarrow> bool" where
  "DYNAMIC f \<longleftrightarrow> f_kind f = DynamicBuffer"

definition fifo_init_static :: "nat \<Rightarrow> nat \<Rightarrow> 'a \<Rightarrow> 'a fifo" where
  "fifo_init_static n tsize junk =
     \<lparr>f_kind = StaticBuffer, f_buf = replicate n junk, f_head = 0, f_count = 0, f_tsize = tsize,
      f_junk = junk\<rparr>"

definition fifo_init_slice :: "'a list \<Rightarrow> nat \<Rightarrow> 'a \<Rightarrow> 'a fifo" where
  "fifo_init_slice buf tsize junk =
     \<lparr>f_kind = SliceBuffer, f_buf = buf, f_head = 0, f_count = 0, f_tsize = tsize, f_junk = junk\<rparr>"

definition fifo_init_dynamic :: "nat \<Rightarrow> 'a \<Rightarrow> 'a fifo" where
  "fifo_init_dynamic tsize junk =
     \<lparr>f_kind = DynamicBuffer, f_buf = [], f_head = 0, f_count = 0, f_tsize = tsize, f_junk = junk\<rparr>"

definition buf_len :: "'a fifo \<Rightarrow> nat" where
  "buf_len f = length (f_buf f)"

text \<open>
  \<open>x &= buf_len.wrapping_sub(1)\<close> or \<open>x %= buf_len\<close>; masking with all ones (an empty buffer) is the
  identity. The remainder by an empty fixed buffer, which panics in the code, is the dividend here: no
  operation of a fifo in use reaches it, since a fixed buffer has slots.
\<close>

definition wrap :: "'a fifo \<Rightarrow> nat \<Rightarrow> nat" where
  "wrap f x =
     (if POWERS_OF_TWO f then (if buf_len f = 0 then x else x AND (buf_len f - 1))
      else x mod buf_len f)"

definition capacity :: "'a fifo \<Rightarrow> nat" where
  "capacity f = buf_len f"

definition readable_length :: "'a fifo \<Rightarrow> nat" where
  "readable_length f = f_count f"

definition writable_length :: "'a fifo \<Rightarrow> nat" where
  "writable_length f = buf_len f - f_count f"

definition reset_head_if_empty :: "'a fifo \<Rightarrow> 'a fifo" where
  "reset_head_if_empty f = (if f_count f = 0 then f\<lparr>f_head := 0\<rparr> else f)"

section \<open>Capacity\<close>

definition PAGE_SIZE_MIN :: nat where
  "PAGE_SIZE_MIN = 4096"

text \<open>\<open>ptr::copy\<close> inside one buffer: \<open>n\<close> elements from \<open>src\<close> to \<open>dst\<close>, which may overlap.\<close>

definition copy_within :: "'a list \<Rightarrow> nat \<Rightarrow> nat \<Rightarrow> nat \<Rightarrow> 'a list" where
  "copy_within buf src dst n = copy_at buf dst (subslice buf src (src + n))"

text \<open>The rotation loop of \<open>realign\<close>: at most \<open>tmp_len\<close> elements per round go through the scratch.\<close>

function realign_loop :: "nat \<Rightarrow> nat \<Rightarrow> 'a list \<Rightarrow> 'a list option" where
  "realign_loop tmp_len head buf =
     (if head = 0 then Some buf
      else
        let n = min head tmp_len;
            m = length buf - n
        in if n = 0 then None
           else
             let tmp = take n buf;
                 buf1 = copy_within buf n 0 m;
                 buf2 = copy_at buf1 m tmp
             in realign_loop tmp_len (head - n) buf2)"
  by pat_completeness auto
termination
  by (relation "measure (\<lambda>(tmp_len, head, buf). head)") auto

declare realign_loop.simps [simp del]

definition realign :: "'a fifo \<Rightarrow> fifo_error + 'a fifo" where
  "realign f =
     (if f_count f \<le> buf_len f - f_head f then
        Inr (f\<lparr>f_buf := copy_within (f_buf f) (f_head f) 0 (f_count f), f_head := 0\<rparr>)
      else
        case realign_loop (PAGE_SIZE_MIN div 2 div f_tsize f) (f_head f) (f_buf f) of
          None \<Rightarrow> Inl Diverges
        | Some buf \<Rightarrow> Inr (f\<lparr>f_buf := buf, f_head := 0\<rparr>))"

text \<open>\<open>DynamicBuffer::realloc\<close> keeps the common prefix.\<close>

definition buf_realloc :: "'a fifo \<Rightarrow> nat \<Rightarrow> 'a fifo" where
  "buf_realloc f new_size =
     (let n = min (buf_len f) new_size
      in f\<lparr>f_buf := take n (f_buf f) @ replicate (new_size - n) (f_junk f)\<rparr>)"

definition shrink :: "'a fifo \<Rightarrow> nat \<Rightarrow> fifo_error + 'a fifo" where
  "shrink f sz =
     (if DYNAMIC f then
        (case realign f of Inl e \<Rightarrow> Inl e | Inr f1 \<Rightarrow> Inr (buf_realloc f1 sz))
      else Inr f)"

definition ensure_total_capacity :: "'a fifo \<Rightarrow> nat \<Rightarrow> fifo_error + 'a fifo" where
  "ensure_total_capacity f sz =
     (if sz \<le> buf_len f then Inr f
      else if DYNAMIC f then
        (case realign f of
           Inl e \<Rightarrow> Inl e
         | Inr f1 \<Rightarrow>
             (case (if POWERS_OF_TWO f1 then checked_next_power_of_two sz else Some sz) of
                None \<Rightarrow> Inl AllocError
              | Some new_size \<Rightarrow>
                  (let old = f_buf f1;
                       new = replicate new_size (f_junk f1)
                   in Inr (f1\<lparr>f_buf := (if 0 < f_count f1 then copy_at new 0 (take (f_count f1) old)
                                        else new), f_head := 0\<rparr>))))
      else Inl AllocError)"

definition ensure_unused_capacity :: "'a fifo \<Rightarrow> nat \<Rightarrow> fifo_error + 'a fifo" where
  "ensure_unused_capacity f sz =
     (if sz \<le> writable_length f then Inr f
      else if 2 ^ 64 \<le> f_count f + sz then Inl AllocError
      else ensure_total_capacity f (f_count f + sz))"

section \<open>Reading\<close>

text \<open>The bounds of the slice that \<open>readable_slice\<close> and \<open>readable_slice_mut\<close> return.\<close>

definition readable_range :: "'a fifo \<Rightarrow> nat \<Rightarrow> nat \<times> nat" where
  "readable_range f offset =
     (if f_count f < offset then (0, 0)
      else
        let start = f_head f + offset in
        if buf_len f \<le> start then
          (start - buf_len f, start - buf_len f + (f_count f - offset))
        else (start, min (f_head f + f_count f) (buf_len f)))"

definition readable_slice :: "'a fifo \<Rightarrow> nat \<Rightarrow> 'a list" where
  "readable_slice f offset = (case readable_range f offset of (s, e) \<Rightarrow> subslice (f_buf f) s e)"

definition discard :: "'a fifo \<Rightarrow> nat \<Rightarrow> 'a fifo" where
  "discard f n = f\<lparr>f_head := wrap f (f_head f + n), f_count := f_count f - n\<rparr>"

definition read_item :: "'a fifo \<Rightarrow> 'a option \<times> 'a fifo" where
  "read_item f =
     (if f_count f = 0 then (None, f) else (Some (f_buf f ! f_head f), discard f 1))"

text \<open>\<open>read\<close> into a destination of \<open>left\<close> elements: the items copied, in order.\<close>

function fifo_read :: "'a fifo \<Rightarrow> nat \<Rightarrow> 'a list \<times> 'a fifo" where
  "fifo_read f left =
     (if left = 0 then ([], f)
      else
        let slice = readable_slice f 0 in
        if slice = [] then ([], f)
        else
          let n = min (length slice) left;
              (rest, f') = fifo_read (discard f n) (left - n)
          in (take n slice @ rest, f'))"
  by pat_completeness auto
termination
  by (relation "measure (\<lambda>(f, left). left)") auto

declare fifo_read.simps [simp del]

definition peek_item :: "'a fifo \<Rightarrow> nat \<Rightarrow> 'a" where
  "peek_item f offset = f_buf f ! wrap f (f_head f + offset)"

text \<open>An assignment through the reference that \<open>peek_item_mut\<close> returns.\<close>

definition peek_item_mut :: "'a fifo \<Rightarrow> nat \<Rightarrow> 'a \<Rightarrow> 'a fifo" where
  "peek_item_mut f offset v = f\<lparr>f_buf := (f_buf f)[wrap f (f_head f + offset) := v]\<rparr>"

section \<open>Writing\<close>

definition writable_range :: "'a fifo \<Rightarrow> nat \<Rightarrow> nat \<times> nat" where
  "writable_range f offset =
     (if buf_len f < offset then (0, 0)
      else
        let tail = f_head f + offset + f_count f in
        if tail < buf_len f then (tail, buf_len f)
        else (tail - buf_len f, tail - buf_len f + (buf_len f - f_count f - offset)))"

definition update :: "'a fifo \<Rightarrow> nat \<Rightarrow> 'a fifo" where
  "update f n = f\<lparr>f_count := f_count f + n\<rparr>"

text \<open>The result is the fifo and the bounds of the slice of exactly \<open>sz\<close> slots.\<close>

definition writable_with_size :: "'a fifo \<Rightarrow> nat \<Rightarrow> fifo_error + ('a fifo \<times> nat \<times> nat)" where
  "writable_with_size f sz =
     (case ensure_unused_capacity f sz of
        Inl e \<Rightarrow> Inl e
      | Inr f1 \<Rightarrow>
          (case (if (case writable_range f1 0 of (s, e) \<Rightarrow> e - s) < sz then realign f1 else Inr f1) of
             Inl e \<Rightarrow> Inl e
           | Inr f2 \<Rightarrow> Inr (f2, fst (writable_range f2 0), fst (writable_range f2 0) + sz)))"

function write_assume_capacity :: "'a fifo \<Rightarrow> 'a list \<Rightarrow> fifo_error + 'a fifo" where
  "write_assume_capacity f src_left =
     (if src_left = [] then Inr f
      else
        case writable_range f 0 of (s, e) \<Rightarrow>
          let n = min (e - s) (length src_left) in
          if n = 0 then Inl Diverges
          else write_assume_capacity
                 (update (f\<lparr>f_buf := copy_at (f_buf f) s (take n src_left)\<rparr>) n) (drop n src_left))"
  by pat_completeness auto
termination
  by (relation "measure (\<lambda>(f, src). length src)") auto

declare write_assume_capacity.simps [simp del]

definition fifo_write :: "'a fifo \<Rightarrow> 'a list \<Rightarrow> fifo_error + 'a fifo" where
  "fifo_write f src =
     (case ensure_unused_capacity f (length src) of
        Inl e \<Rightarrow> Inl e | Inr f1 \<Rightarrow> write_assume_capacity f1 src)"

definition write_item_assume_capacity :: "'a fifo \<Rightarrow> 'a \<Rightarrow> 'a fifo" where
  "write_item_assume_capacity f item =
     (let tail = wrap f (f_head f + f_count f)
      in update (f\<lparr>f_buf := (f_buf f)[tail := item]\<rparr>) 1)"

definition write_item :: "'a fifo \<Rightarrow> 'a \<Rightarrow> fifo_error + 'a fifo" where
  "write_item f item =
     (case ensure_unused_capacity f 1 of
        Inl e \<Rightarrow> Inl e | Inr f1 \<Rightarrow> Inr (write_item_assume_capacity f1 item))"

definition rewind :: "'a fifo \<Rightarrow> nat \<Rightarrow> 'a fifo" where
  "rewind f n = f\<lparr>f_head := wrap f (f_head f + (buf_len f - n)), f_count := f_count f + n\<rparr>"

definition unget :: "'a fifo \<Rightarrow> 'a list \<Rightarrow> fifo_error + 'a fifo" where
  "unget f src =
     (case ensure_unused_capacity f (length src) of
        Inl e \<Rightarrow> Inl e
      | Inr f1 \<Rightarrow>
          (let f2 = rewind f1 (length src)
           in case readable_range f2 0 of (s, e) \<Rightarrow>
                let slice_len = e - s;
                    n = min slice_len (length src);
                    f3 = f2\<lparr>f_buf := copy_at (f_buf f2) s (take n src)\<rparr>
                in if slice_len < length src then
                     (case readable_range f3 slice_len of (s2, e2) \<Rightarrow>
                        Inr (f3\<lparr>f_buf := copy_at (f_buf f3) s2 (drop slice_len src)\<rparr>))
                   else Inr f3))"

text \<open>\<open>std::io::Write::write\<close>: a fixed buffer takes what fits; the result also has the count.\<close>

definition io_write :: "'a fifo \<Rightarrow> 'a list \<Rightarrow> fifo_error + (nat \<times> 'a fifo)" where
  "io_write f src =
     (let src' = (if DYNAMIC f then src else take (min (length src) (writable_length f)) src)
      in case fifo_write f src' of Inl e \<Rightarrow> Inl e | Inr f' \<Rightarrow> Inr (length src', f'))"

section \<open>Removing an item\<close>

definition shift_down_one :: "'a list \<Rightarrow> nat \<Rightarrow> nat \<Rightarrow> 'a list" where
  "shift_down_one buf s e = (if e - s \<le> 1 then buf else copy_within buf (s + 1) s (e - s - 1))"

definition ordered_remove_item :: "'a fifo \<Rightarrow> nat \<Rightarrow> 'a fifo" where
  "ordered_remove_item f offset =
     (if offset = 0 then discard f 1
      else
        let n = buf_len f; head = f_head f; count = f_count f; buf = f_buf f in
        if count \<le> n - head then
          f\<lparr>f_buf := shift_down_one buf (head + offset) n, f_count := count - 1\<rparr>
        else
          let index = wrap f (head + offset);
              wrap_len = head + count - n
          in if index < head then
               f\<lparr>f_buf := shift_down_one buf index wrap_len, f_count := count - 1\<rparr>
             else
               let wrap0 = buf ! 0;
                   b1 = shift_down_one buf index n;
                   b2 = b1[n - 1 := wrap0];
                   b3 = shift_down_one b2 0 wrap_len
               in f\<lparr>f_buf := b3, f_count := count - 1\<rparr>)"

section \<open>The invariant and the contents\<close>

definition fifo_inv :: "'a fifo \<Rightarrow> bool" where
  "fifo_inv f \<longleftrightarrow>
     f_count f \<le> buf_len f \<and> (f_head f < buf_len f \<or> buf_len f = 0 \<and> f_head f = 0) \<and>
     (POWERS_OF_TWO f \<longrightarrow> buf_len f = 0 \<or> next_power_of_two (buf_len f) = buf_len f) \<and>
     0 < PAGE_SIZE_MIN div 2 div f_tsize f"

definition contents :: "'a fifo \<Rightarrow> 'a list" where
  "contents f = map (\<lambda>i. f_buf f ! ((f_head f + i) mod buf_len f)) [0..<f_count f]"

lemma length_contents [simp]: "length (contents f) = f_count f"
  by (simp add: contents_def)

lemma nth_contents:
  "i < f_count f \<Longrightarrow> contents f ! i = f_buf f ! ((f_head f + i) mod buf_len f)"
  by (simp add: contents_def)

lemma next_pow2_from_power: "k = 2 ^ j \<Longrightarrow> \<exists>e. next_pow2_from k n = 2 ^ e"
proof (induction k n arbitrary: j rule: next_pow2_from.induct)
  case (1 k n)
  show ?case
  proof (cases "n \<le> k")
    case True
    with "1.prems" show ?thesis by (subst next_pow2_from.simps) auto
  next
    case False
    with "1.prems" "1.IH" [of "Suc j"] show ?thesis by (subst next_pow2_from.simps) simp
  qed
qed

lemma next_pow2_from_ge: "0 < k \<Longrightarrow> n \<le> next_pow2_from k n"
proof (induction k n rule: next_pow2_from.induct)
  case (1 k n)
  then show ?case by (subst next_pow2_from.simps) auto
qed

lemma next_pow2_from_fixed: "k = 2 ^ j \<Longrightarrow> j \<le> e \<Longrightarrow> next_pow2_from k (2 ^ e) = 2 ^ e"
proof (induction "e - j" arbitrary: j k)
  case 0
  then show ?case by (subst next_pow2_from.simps) simp
next
  case (Suc d)
  then have "\<not> (2 :: nat) ^ e \<le> 2 ^ j" by (simp add: power_increasing_iff)
  moreover have "next_pow2_from (2 * 2 ^ j) (2 ^ e) = 2 ^ e"
    using Suc.hyps(2) Suc.prems by (intro Suc.hyps(1) [of "Suc j"]) auto
  ultimately show ?case using Suc.prems by (subst next_pow2_from.simps) simp
qed

lemma next_power_of_two_power: "\<exists>e. next_power_of_two n = 2 ^ e"
  unfolding next_power_of_two_def using next_pow2_from_power [of 1 0 n] by simp

lemma next_power_of_two_ge: "n \<le> next_power_of_two n"
  by (simp add: next_power_of_two_def next_pow2_from_ge)

lemma next_power_of_two_idem: "next_power_of_two (next_power_of_two n) = next_power_of_two n"
  using next_power_of_two_power [of n] next_pow2_from_fixed [of 1 0]
  by (auto simp: next_power_of_two_def)

lemma wrap_mod:
  assumes "fifo_inv f" and "0 < buf_len f"
  shows "wrap f x = x mod buf_len f"
proof (cases "POWERS_OF_TWO f")
  case True
  then have "next_power_of_two (buf_len f) = buf_len f" using assms by (auto simp: fifo_inv_def)
  then obtain e where "buf_len f = 2 ^ e" using next_power_of_two_power by metis
  then have "x AND (buf_len f - 1) = x mod buf_len f"
    by (simp only: mask_eq_exp_minus_1 [symmetric] take_bit_eq_mask [symmetric] take_bit_eq_mod)
  with True assms(2) show ?thesis by (simp add: wrap_def)
qed (simp add: wrap_def)

lemma mod_inj:
  assumes "(h + i) mod n = (h + j) mod (n :: nat)" and "i < n" and "j < n"
  shows "i = j"
proof -
  have "i mod n = j mod n" using assms(1) by (simp add: nat_mod_eq_iff)
  with assms show ?thesis by simp
qed

lemma fifo_inv_head: "fifo_inv f \<Longrightarrow> 0 < buf_len f \<Longrightarrow> f_head f < buf_len f"
  by (auto simp: fifo_inv_def)

text \<open>
  The basic step of every write: \<open>xs\<close> is stored in the contiguous slots that hold the items from
  offset \<open>k\<close> on.
\<close>

lemma contents_overwrite:
  assumes inv: "f_count f \<le> buf_len f" and fit: "k + length xs \<le> f_count f"
    and s: "xs \<noteq> [] \<Longrightarrow> s = (f_head f + k) mod buf_len f \<and> s + length xs \<le> buf_len f"
    and s0: "s \<le> buf_len f"
  shows "contents (f\<lparr>f_buf := copy_at (f_buf f) s xs\<rparr>) = copy_at (contents f) k xs"
proof (cases "xs = []")
  case True
  then show ?thesis by (simp add: copy_at_def)
next
  case False
  with s have s: "s = (f_head f + k) mod buf_len f" "s + length xs \<le> buf_len f" by auto
  let ?f = "f\<lparr>f_buf := copy_at (f_buf f) s xs\<rparr>"
  have n: "buf_len ?f = buf_len f" "s + length xs \<le> length (f_buf f)" "0 < buf_len f"
    using s(2) False by (auto simp: buf_len_def length_copy_at)
  show ?thesis
  proof (rule nth_equalityI)
    show "length (contents ?f) = length (copy_at (contents f) k xs)"
      using fit by (simp add: length_copy_at)
    fix i assume "i < length (contents ?f)"
    then have i: "i < f_count f" by simp
    let ?p = "(f_head f + i) mod buf_len f"
    have p: "?p < length (f_buf f)" using n(3) by (simp add: buf_len_def)
    have "contents ?f ! i = copy_at (f_buf f) s xs ! ?p"
      using i n(1) by (simp add: nth_contents)
    also have "\<dots> = (if s \<le> ?p \<and> ?p < s + length xs then xs ! (?p - s) else f_buf f ! ?p)"
      using n(2) p by (rule nth_copy_at)
    also have "\<dots> = (if k \<le> i \<and> i < k + length xs then xs ! (i - k) else contents f ! i)"
    proof (cases "k \<le> i \<and> i < k + length xs")
      case True
      then have "s + (i - k) < buf_len f" using s(2) by linarith
      moreover have "f_head f + i = f_head f + k + (i - k)" using True by simp
      then have "?p = (s + (i - k)) mod buf_len f"
        unfolding s(1) by (metis mod_add_left_eq)
      ultimately have "?p = s + (i - k)" by simp
      with True show ?thesis by auto
    next
      case False
      have "\<not> (s \<le> ?p \<and> ?p < s + length xs)"
      proof
        assume a: "s \<le> ?p \<and> ?p < s + length xs"
        have "(f_head f + (k + d)) mod buf_len f = (s + d) mod buf_len f" for d
          unfolding s(1) by (metis add.assoc mod_add_left_eq)
        then have "(f_head f + (k + (?p - s))) mod buf_len f = (s + (?p - s)) mod buf_len f" .
        also have "\<dots> = ?p" using a by simp
        finally have "k + (?p - s) = i"
          by (rule mod_inj) (use a fit i inv in linarith)+
        with False a show False by auto
      qed
      with False i show ?thesis by (auto simp: nth_contents)
    qed
    also have "\<dots> = copy_at (contents f) k xs ! i"
      using fit i by (simp add: nth_copy_at)
    finally show "contents ?f ! i = copy_at (contents f) k xs ! i" .
  qed
qed

lemma contents_append:
  assumes "f_count f + length xs \<le> buf_len f"
    and "xs \<noteq> [] \<Longrightarrow> s = (f_head f + f_count f) mod buf_len f \<and> s + length xs \<le> buf_len f"
    and "s \<le> buf_len f"
  shows "contents (update (f\<lparr>f_buf := copy_at (f_buf f) s xs\<rparr>) (length xs)) = contents f @ xs"
proof -
  let ?g = "f\<lparr>f_count := f_count f + length xs\<rparr>"
  have "contents (?g\<lparr>f_buf := copy_at (f_buf ?g) s xs\<rparr>) = copy_at (contents ?g) (f_count f) xs"
    using assms by (intro contents_overwrite) (auto simp: buf_len_def)
  also have "\<dots> = take (f_count f) (contents ?g) @ xs"
    by (simp add: copy_at_def)
  also have "take (f_count f) (contents ?g) = contents f"
    by (simp add: contents_def buf_len_def take_map)
  also have "?g\<lparr>f_buf := copy_at (f_buf ?g) s xs\<rparr> = update (f\<lparr>f_buf := copy_at (f_buf f) s xs\<rparr>) (length xs)"
    by (cases f) (simp add: update_def)
  finally show ?thesis .
qed

lemma fifo_update_simps [simp]:
  "buf_len (f\<lparr>f_head := h\<rparr>) = buf_len f" "buf_len (f\<lparr>f_count := c\<rparr>) = buf_len f"
  "POWERS_OF_TWO (f\<lparr>f_head := h\<rparr>) = POWERS_OF_TWO f"
  "POWERS_OF_TWO (f\<lparr>f_count := c\<rparr>) = POWERS_OF_TWO f"
  by (simp_all add: buf_len_def POWERS_OF_TWO_def split: buffer_kind.split)

lemma fifo_inv_head_count:
  assumes "fifo_inv f" and "h < buf_len f \<or> buf_len f = 0 \<and> h = 0" and "c \<le> buf_len f"
  shows "fifo_inv (f\<lparr>f_head := h, f_count := c\<rparr>)" "fifo_inv (f\<lparr>f_head := h\<rparr>)" "fifo_inv (f\<lparr>f_count := c\<rparr>)"
  using assms by (simp_all add: fifo_inv_def)

lemma fifo_inv_buf:
  "fifo_inv f \<Longrightarrow> length b = buf_len f \<Longrightarrow> fifo_inv (f\<lparr>f_buf := b\<rparr>)"
  by (cases "f_kind f") (auto simp: fifo_inv_def buf_len_def POWERS_OF_TWO_def)

lemma contents_cong:
  assumes "f_count g = f_count f" "buf_len g = buf_len f"
    "\<And>i. i < f_count f \<Longrightarrow> f_buf g ! ((f_head g + i) mod buf_len f) = f_buf f ! ((f_head f + i) mod buf_len f)"
  shows "contents g = contents f"
  using assms by (simp add: contents_def)

section \<open>Capacity keeps the contents\<close>

lemma rotate_step:
  assumes "n \<le> length buf"
  shows "copy_at (copy_within buf n 0 (length buf - n)) (length buf - n) (take n buf) = drop n buf @ take n buf"
  using assms by (simp add: copy_at_def copy_within_def subslice_def)

lemma realign_loop_rotate:
  "0 < tmp_len \<Longrightarrow> head \<le> length buf \<Longrightarrow>
    realign_loop tmp_len head buf = Some (drop head buf @ take head buf)"
proof (induction tmp_len head buf rule: realign_loop.induct)
  case (1 tmp_len head buf)
  show ?case
  proof (cases "head = 0")
    case True
    then show ?thesis by (subst realign_loop.simps) simp
  next
    case False
    define n where "n = min head tmp_len"
    let ?b = "drop n buf @ take n buf"
    have n: "n \<noteq> 0" "n \<le> head" "n \<le> length buf"
      using False "1.prems" by (auto simp: n_def)
    then have step: "realign_loop tmp_len head buf = realign_loop tmp_len (head - n) ?b"
      using False by (subst realign_loop.simps) (simp add: n_def [symmetric] Let_def rotate_step)
    have "realign_loop tmp_len (head - n) ?b = Some (drop (head - n) ?b @ take (head - n) ?b)"
      using "1.IH" [OF False n_def refl n(1) refl refl refl] "1.prems" n by (simp add: rotate_step)
    moreover have "drop (head - n) ?b @ take (head - n) ?b = drop head buf @ take head buf"
      using n "1.prems"(2) take_add [of n "head - n" buf] by simp
    ultimately show ?thesis using step by simp
  qed
qed

lemma realign_refines:
  assumes "fifo_inv f"
  obtains f' where "realign f = Inr f'" "fifo_inv f'" "contents f' = contents f" "f_head f' = 0"
    "f_kind f' = f_kind f" "buf_len f' = buf_len f" "f_count f' = f_count f"
proof (cases "f_count f \<le> buf_len f - f_head f")
  case True
  let ?b = "copy_within (f_buf f) (f_head f) 0 (f_count f)"
  let ?g = "f\<lparr>f_buf := ?b, f_head := 0\<rparr>"
  have c: "f_count f + f_head f \<le> length (f_buf f)"
    using True assms by (auto simp: fifo_inv_def buf_len_def)
  then have l: "length ?b = buf_len f" and n: "i < f_count f \<Longrightarrow> ?b ! i = f_buf f ! (f_head f + i)" for i
    by (simp_all add: copy_within_def copy_at_def subslice_def buf_len_def nth_append)
  have "contents ?g = contents f"
    using c l by (intro contents_cong) (simp_all add: n buf_len_def)
  moreover have "fifo_inv (f\<lparr>f_buf := ?b\<rparr>)" using fifo_inv_buf [OF assms l] .
  then have "fifo_inv ?g" using fifo_inv_head_count(2) [of "f\<lparr>f_buf := ?b\<rparr>" 0] by auto
  ultimately show ?thesis
    using True l that [of ?g] by (simp add: realign_def buf_len_def)
next
  case False
  let ?b = "drop (f_head f) (f_buf f) @ take (f_head f) (f_buf f)"
  let ?g = "f\<lparr>f_buf := ?b, f_head := 0\<rparr>"
  have h: "f_head f < buf_len f" using False assms by (auto simp: fifo_inv_def)
  then have l: "length ?b = buf_len f" and n: "i < buf_len f \<Longrightarrow> ?b ! i = f_buf f ! ((f_head f + i) mod buf_len f)" for i
    using nth_rotate [of i "f_buf f" "f_head f"]
    by (simp_all add: buf_len_def rotate_drop_take)
  have "contents ?g = contents f"
    using assms l by (intro contents_cong) (auto simp: n buf_len_def fifo_inv_def)
  moreover have "fifo_inv (f\<lparr>f_buf := ?b\<rparr>)" using fifo_inv_buf [OF assms l] .
  then have "fifo_inv ?g" using fifo_inv_head_count(2) [of "f\<lparr>f_buf := ?b\<rparr>" 0] by auto
  moreover have "realign f = Inr ?g"
    using False h assms by (simp add: realign_def realign_loop_rotate fifo_inv_def buf_len_def)
  ultimately show ?thesis
    using l that [of ?g] by (simp add: buf_len_def)
qed

lemma contents_head0:
  assumes "f_head f = 0" and "f_count f \<le> buf_len f"
  shows "contents f = take (f_count f) (f_buf f)"
  using assms by (intro nth_equalityI) (auto simp: nth_contents buf_len_def)

lemma ensure_total_capacity_refines:
  assumes "fifo_inv f" and "DYNAMIC f" and "sz \<le> 2 ^ 63"
  obtains f' where "ensure_total_capacity f sz = Inr f'" "fifo_inv f'" "contents f' = contents f"
    "f_kind f' = f_kind f" "f_count f' = f_count f" "sz \<le> buf_len f'"
proof (cases "sz \<le> buf_len f")
  case True
  then show ?thesis using that [of f] assms(1) by (simp add: ensure_total_capacity_def)
next
  case False
  obtain g where g: "realign f = Inr g" "fifo_inv g" "contents g = contents f" "f_head g = 0"
    "f_kind g = f_kind f" "buf_len g = buf_len f" "f_count g = f_count f"
    using realign_refines [OF assms(1)] by metis
  let ?m = "next_power_of_two sz"
  let ?new = "replicate ?m (f_junk g)"
  let ?b = "if 0 < f_count g then copy_at ?new 0 (take (f_count g) (f_buf g)) else ?new"
  let ?f = "g\<lparr>f_buf := ?b, f_head := 0\<rparr>"
  have m: "sz \<le> ?m" "f_count g \<le> length (f_buf g)" "f_count g \<le> ?m"
    using next_power_of_two_ge [of sz] g(2) False g(6) by (auto simp: fifo_inv_def buf_len_def)
  have l: "length ?b = ?m"
    using m(2,3) by (simp add: length_copy_at)
  have t: "take (f_count g) ?b = take (f_count g) (f_buf g)"
    using m(2) by (simp add: copy_at_def)
  have "f_kind g = DynamicBuffer" using assms(2) g(5) by (simp add: DYNAMIC_def)
  then have "ensure_total_capacity f sz = Inr ?f"
    using False assms(2,3) g(1)
    by (simp add: ensure_total_capacity_def POWERS_OF_TWO_def checked_next_power_of_two_def Let_def)
  moreover have "fifo_inv ?f"
    using g(2) l m False \<open>f_kind g = DynamicBuffer\<close>
    by (simp add: fifo_inv_def buf_len_def POWERS_OF_TWO_def next_power_of_two_idem)
  moreover have "contents ?f = contents f"
    using contents_head0 [of ?f] contents_head0 [OF g(4)] t m l g(3) by (simp add: buf_len_def)
  ultimately show ?thesis
    using that [of ?f] g(5,7) l m(1) by (simp add: buf_len_def)
qed

text \<open>There is room for \<open>n\<close> more items: they fit, or the storage can grow.\<close>

definition fifo_room :: "'a fifo \<Rightarrow> nat \<Rightarrow> bool" where
  "fifo_room f n \<longleftrightarrow> n \<le> writable_length f \<or> DYNAMIC f \<and> f_count f + n \<le> 2 ^ 63"

lemma ensure_unused_capacity_refines:
  assumes "fifo_inv f" and "fifo_room f sz"
  obtains f' where "ensure_unused_capacity f sz = Inr f'" "fifo_inv f'" "contents f' = contents f"
    "f_kind f' = f_kind f" "sz \<le> writable_length f'"
proof (cases "sz \<le> writable_length f")
  case True
  then show ?thesis using that [of f] assms(1) by (simp add: ensure_unused_capacity_def)
next
  case False
  then have d: "DYNAMIC f" "f_count f + sz \<le> 2 ^ 63"
    using assms(2) by (auto simp: fifo_room_def)
  obtain f' where "ensure_total_capacity f (f_count f + sz) = Inr f'" "fifo_inv f'"
    "contents f' = contents f" "f_kind f' = f_kind f" "f_count f' = f_count f" "f_count f + sz \<le> buf_len f'"
    by (rule ensure_total_capacity_refines [OF assms(1) d])
  with False d(2) show ?thesis
    using that [of f'] by (simp add: ensure_unused_capacity_def writable_length_def)
qed

lemma ensure_unused_capacity_full:
  assumes "fifo_inv f" and "\<not> fifo_room f sz"
  shows "ensure_unused_capacity f sz = Inl AllocError"
proof -
  obtain g where "realign f = Inr g" "f_kind g = f_kind f"
    using realign_refines [OF assms(1)] by metis
  with assms(2) show ?thesis
    by (auto simp: ensure_unused_capacity_def ensure_total_capacity_def writable_length_def fifo_room_def
        checked_next_power_of_two_def POWERS_OF_TWO_def DYNAMIC_def)
qed

section \<open>Reading and writing refine the list operations\<close>

lemma discard_refines:
  assumes "fifo_inv f" and "n \<le> f_count f"
  shows "fifo_inv (discard f n)" and "contents (discard f n) = drop n (contents f)"
    and "f_kind (discard f n) = f_kind f" and "buf_len (discard f n) = buf_len f"
proof -
  show "fifo_inv (discard f n)"
  proof (cases "buf_len f = 0")
    case True
    then have "wrap f (f_head f + n) = 0"
      using assms by (simp add: fifo_inv_def wrap_def)
    with True assms show ?thesis
      by (simp add: discard_def fifo_inv_head_count(1) fifo_inv_def)
  next
    case False
    then show ?thesis
      using assms by (auto simp: discard_def wrap_mod fifo_inv_def)
  qed
  show "contents (discard f n) = drop n (contents f)"
  proof (cases "buf_len f = 0")
    case True
    with assms show ?thesis by (simp add: fifo_inv_def contents_def discard_def)
  next
    case False
    then have w: "wrap f (f_head f + n) = (f_head f + n) mod buf_len f"
      using assms(1) by (intro wrap_mod) auto
    show ?thesis
      by (rule nth_equalityI)
        (auto simp: nth_contents discard_def w mod_add_left_eq add.assoc buf_len_def)
  qed
qed (simp_all add: discard_def)

lemma read_item_refines:
  assumes "fifo_inv f"
  shows "read_item f = (case contents f of [] \<Rightarrow> (None, f) | x # _ \<Rightarrow> (Some x, discard f 1))"
proof (cases "contents f")
  case Nil
  then have "f_count f = 0" using length_contents [of f] by simp
  with Nil show ?thesis by (simp add: read_item_def)
next
  case (Cons x xs)
  then have c: "0 < f_count f" using length_contents [of f] by (metis length_greater_0_conv list.distinct(1))
  then have "f_head f < buf_len f" using assms by (auto simp: fifo_inv_def)
  moreover have "contents f ! 0 = x" using Cons by simp
  ultimately have "f_buf f ! f_head f = x" using c by (simp add: nth_contents)
  with c Cons show ?thesis by (simp add: read_item_def)
qed

lemma readable_slice_prefix:
  assumes "fifo_inv f"
  shows "readable_slice f 0 = take (length (readable_slice f 0)) (contents f)"
    and "readable_slice f 0 = [] \<longleftrightarrow> contents f = []"
    and "length (readable_slice f 0) \<le> f_count f"
proof -
  let ?k = "min (f_head f + f_count f) (buf_len f) - f_head f"
  have r: "readable_slice f 0 = (if buf_len f = 0 then [] else subslice (f_buf f) (f_head f)
      (min (f_head f + f_count f) (buf_len f)))"
    using assms by (auto simp: readable_slice_def readable_range_def Let_def fifo_inv_def subslice_def)
  have l: "length (readable_slice f 0) = ?k"
    using assms by (auto simp: r subslice_def buf_len_def fifo_inv_def)
  have n: "readable_slice f 0 ! i = contents f ! i" if "i < ?k" for i
    using that assms by (auto simp: r nth_contents subslice_def buf_len_def fifo_inv_def)
  show "readable_slice f 0 = take (length (readable_slice f 0)) (contents f)"
    using l n by (intro nth_equalityI) auto
  show "readable_slice f 0 = [] \<longleftrightarrow> contents f = []"
    using l assms length_contents [of f] by (auto simp: fifo_inv_def length_0_conv [symmetric] simp del: length_0_conv)
  show "length (readable_slice f 0) \<le> f_count f"
    using l by simp
qed

lemma fifo_read_refines:
  "fifo_inv f \<Longrightarrow> fst (fifo_read f k) = take k (contents f)
    \<and> contents (snd (fifo_read f k)) = drop k (contents f) \<and> fifo_inv (snd (fifo_read f k))"
proof (induction f k rule: fifo_read.induct)
  case (1 f k)
  let ?s = "readable_slice f 0"
  note p = readable_slice_prefix [OF "1.prems"]
  show ?case
  proof (cases "k = 0 \<or> ?s = []")
    case True
    then show ?thesis using "1.prems" p(2) by (subst (1 2 3) fifo_read.simps) auto
  next
    case False
    define n where "n = min (length ?s) k"
    have n: "n \<le> f_count f" "n \<le> k" "take n ?s = take n (contents f)"
      using p(3) False by (auto simp: n_def) (metis p(1) min.cobounded1 min_def take_take)
    have d: "fifo_inv (discard f n)" "contents (discard f n) = drop n (contents f)"
      using discard_refines [OF "1.prems" n(1)] by auto
    have "fifo_read f k = (take n ?s @ fst (fifo_read (discard f n) (k - n)),
        snd (fifo_read (discard f n) (k - n)))"
      using False by (subst fifo_read.simps) (simp add: n_def [symmetric] Let_def case_prod_beta)
    with "1.IH" [OF _ refl _ n_def d(1)] False d(2) n show ?thesis
      using take_add [of n "k - n" "contents f"] by simp
  qed
qed

lemma writable_range_start:
  assumes "fifo_inv f" and "0 < writable_length f" and "writable_range f 0 = (s, e)"
  shows "s = (f_head f + f_count f) mod buf_len f" and "e \<le> buf_len f" and "s < e"
    and "e - s \<le> writable_length f"
proof -
  have b: "0 < buf_len f" "f_count f < buf_len f" using assms(2) by (auto simp: writable_length_def)
  have h: "f_head f < buf_len f" using fifo_inv_head [OF assms(1) b(1)] .
  have "s = (f_head f + f_count f) mod buf_len f \<and> e \<le> buf_len f \<and> s < e \<and> e - s \<le> writable_length f"
  proof (cases "f_head f + f_count f < buf_len f")
    case True
    with assms(3) show ?thesis by (auto simp: writable_range_def writable_length_def)
  next
    case False
    then have "(f_head f + f_count f) mod buf_len f = f_head f + f_count f - buf_len f"
      using h b by (simp add: mod_if)
    with False assms(3) b h show ?thesis
      by (auto simp: writable_range_def writable_length_def)
  qed
  then show "s = (f_head f + f_count f) mod buf_len f" and "e \<le> buf_len f" and "s < e"
    and "e - s \<le> writable_length f" by auto
qed

lemma append_chunk_refines:
  assumes "fifo_inv f" and "length xs \<le> writable_length f" and "s + length xs \<le> buf_len f"
    and "xs \<noteq> [] \<Longrightarrow> s = (f_head f + f_count f) mod buf_len f"
  shows "fifo_inv (update (f\<lparr>f_buf := copy_at (f_buf f) s xs\<rparr>) (length xs))"
    and "contents (update (f\<lparr>f_buf := copy_at (f_buf f) s xs\<rparr>) (length xs)) = contents f @ xs"
    and "writable_length (update (f\<lparr>f_buf := copy_at (f_buf f) s xs\<rparr>) (length xs))
      = writable_length f - length xs"
proof -
  have l: "length (copy_at (f_buf f) s xs) = buf_len f"
    using assms(3) by (simp add: length_copy_at buf_len_def)
  have c: "f_count f + length xs \<le> buf_len f"
    using assms(1,2) by (auto simp: writable_length_def fifo_inv_def)
  show "fifo_inv (update (f\<lparr>f_buf := copy_at (f_buf f) s xs\<rparr>) (length xs))"
    using fifo_inv_buf [OF assms(1) l] c l
    by (simp add: update_def fifo_inv_def) (simp add: buf_len_def)
  show "contents (update (f\<lparr>f_buf := copy_at (f_buf f) s xs\<rparr>) (length xs)) = contents f @ xs"
    using assms(3,4) c by (intro contents_append) auto
  show "writable_length (update (f\<lparr>f_buf := copy_at (f_buf f) s xs\<rparr>) (length xs))
      = writable_length f - length xs"
    using l by (simp add: update_def writable_length_def) (simp add: buf_len_def)
qed

lemma write_assume_capacity_refines:
  "fifo_inv f \<Longrightarrow> length src \<le> writable_length f \<Longrightarrow>
    \<exists>f'. write_assume_capacity f src = Inr f' \<and> fifo_inv f' \<and> contents f' = contents f @ src
      \<and> f_kind f' = f_kind f \<and> buf_len f' = buf_len f"
proof (induction f src rule: write_assume_capacity.induct)
  case (1 f src)
  show ?case
  proof (cases "src = []")
    case True
    then show ?thesis using "1.prems" by (subst write_assume_capacity.simps) simp
  next
    case False
    obtain s e where r: "writable_range f 0 = (s, e)" by fastforce
    define n where "n = min (e - s) (length src)"
    have w: "0 < writable_length f" using False "1.prems"(2) by (cases src) auto
    note ws = writable_range_start [OF "1.prems"(1) w r]
    have n: "0 < n" "n \<le> length src" "n \<le> writable_length f" "s + n \<le> buf_len f" "length (take n src) = n"
      using ws False by (auto simp: n_def)
    let ?f = "update (f\<lparr>f_buf := copy_at (f_buf f) s (take n src)\<rparr>) n"
    have c: "fifo_inv ?f" "contents ?f = contents f @ take n src"
      "writable_length ?f = writable_length f - n"
      using append_chunk_refines [OF "1.prems"(1), of "take n src" s] n ws(1) by auto
    moreover have "f_kind ?f = f_kind f" "buf_len ?f = buf_len f"
      using n(4,5) by (simp_all add: update_def buf_len_def length_copy_at)
    moreover have "write_assume_capacity f src = write_assume_capacity ?f (drop n src)"
      using False r n(1) by (subst write_assume_capacity.simps) (simp add: n_def [symmetric] Let_def)
    ultimately show ?thesis
      using "1.IH" [OF False r [symmetric] n_def] n(1,2) "1.prems"(2) by simp
  qed
qed

lemma fifo_write_refines:
  assumes "fifo_inv f" and "fifo_room f (length src)"
  shows "\<exists>f'. fifo_write f src = Inr f' \<and> fifo_inv f' \<and> contents f' = contents f @ src
    \<and> f_kind f' = f_kind f \<and> (\<not> DYNAMIC f \<longrightarrow> buf_len f' = buf_len f)"
proof -
  obtain g where g: "ensure_unused_capacity f (length src) = Inr g" "fifo_inv g"
    "contents g = contents f" "f_kind g = f_kind f" "length src \<le> writable_length g"
    using ensure_unused_capacity_refines [OF assms] by metis
  have "g = f" if "\<not> DYNAMIC f"
    using g(1) that assms(2) by (simp add: ensure_unused_capacity_def fifo_room_def)
  then show ?thesis
    using write_assume_capacity_refines [OF g(2,5)] g by (auto simp: fifo_write_def)
qed

lemma write_item_assume_capacity_refines:
  assumes "fifo_inv f" and "0 < writable_length f"
  shows "fifo_inv (write_item_assume_capacity f x)"
    and "contents (write_item_assume_capacity f x) = contents f @ [x]"
proof -
  let ?s = "(f_head f + f_count f) mod buf_len f"
  have b: "0 < buf_len f" using assms(2) by (simp add: writable_length_def)
  then have s: "?s < length (f_buf f)" by (simp add: buf_len_def)
  then have "(f_buf f)[?s := x] = copy_at (f_buf f) ?s [x]"
    by (simp add: copy_at_def upd_conv_take_nth_drop)
  then have "write_item_assume_capacity f x = update (f\<lparr>f_buf := copy_at (f_buf f) ?s [x]\<rparr>) (length [x])"
    using assms(1) b by (simp add: write_item_assume_capacity_def wrap_mod)
  then show "fifo_inv (write_item_assume_capacity f x)"
    and "contents (write_item_assume_capacity f x) = contents f @ [x]"
    using append_chunk_refines [OF assms(1), of "[x]" ?s] assms(2) s by (auto simp: buf_len_def)
qed

lemma write_item_refines:
  assumes "fifo_inv f" and "fifo_room f 1"
  shows "\<exists>f'. write_item f x = Inr f' \<and> fifo_inv f' \<and> contents f' = contents f @ [x] \<and> f_kind f' = f_kind f"
proof -
  obtain g where "ensure_unused_capacity f 1 = Inr g" "fifo_inv g"
    "contents g = contents f" "f_kind g = f_kind f" "1 \<le> writable_length g"
    by (rule ensure_unused_capacity_refines [OF assms])
  then show ?thesis
    using write_item_assume_capacity_refines [of g x]
    by (simp add: write_item_def) (simp add: write_item_assume_capacity_def update_def Let_def)
qed

section \<open>Ungetting, peeking and removing\<close>

lemma peek_item_refines:
  "fifo_inv f \<Longrightarrow> i < f_count f \<Longrightarrow> peek_item f i = contents f ! i"
  by (subst nth_contents) (auto simp: peek_item_def wrap_mod fifo_inv_def)

lemma peek_item_mut_refines:
  assumes "fifo_inv f" and "i < f_count f"
  shows "fifo_inv (peek_item_mut f i v)" and "contents (peek_item_mut f i v) = (contents f)[i := v]"
proof -
  let ?s = "(f_head f + i) mod buf_len f"
  have b: "0 < buf_len f" using assms by (auto simp: fifo_inv_def)
  then have s: "?s < length (f_buf f)" by (simp add: buf_len_def)
  then have u: "peek_item_mut f i v = f\<lparr>f_buf := copy_at (f_buf f) ?s [v]\<rparr>"
    using assms(1) b by (simp add: peek_item_mut_def wrap_mod copy_at_def upd_conv_take_nth_drop)
  show "fifo_inv (peek_item_mut f i v)"
    using fifo_inv_buf [OF assms(1)] s by (simp add: u length_copy_at buf_len_def)
  have "contents (peek_item_mut f i v) = copy_at (contents f) i [v]"
    unfolding u using assms s by (intro contents_overwrite) (auto simp: fifo_inv_def buf_len_def)
  then show "contents (peek_item_mut f i v) = (contents f)[i := v]"
    using assms(2) by (simp add: copy_at_def upd_conv_take_nth_drop)
qed

lemma rewind_refines:
  assumes "fifo_inv f" and "n \<le> writable_length f"
  shows "fifo_inv (rewind f n)" and "drop n (contents (rewind f n)) = contents f"
    and "f_count (rewind f n) = f_count f + n" and "buf_len (rewind f n) = buf_len f"
proof -
  have c: "f_count f + n \<le> buf_len f"
    using assms by (auto simp: writable_length_def fifo_inv_def)
  have w: "wrap f (f_head f + (buf_len f - n)) = (f_head f + (buf_len f - n)) mod buf_len f"
  proof (cases "buf_len f = 0")
    case True
    with assms(1) show ?thesis by (simp add: wrap_def fifo_inv_def)
  qed (use assms(1) wrap_mod in auto)
  show "fifo_inv (rewind f n)"
    unfolding rewind_def w using assms(1) c
    by (intro fifo_inv_head_count(1)) (auto simp: fifo_inv_def)
  have m: "((f_head f + (buf_len f - n)) mod buf_len f + (n + i)) mod buf_len f
      = (f_head f + i) mod buf_len f" for i
  proof -
    have "((f_head f + (buf_len f - n)) mod buf_len f + (n + i)) mod buf_len f
        = (f_head f + (buf_len f - n) + (n + i)) mod buf_len f" by (rule mod_add_left_eq)
    also have "f_head f + (buf_len f - n) + (n + i) = (f_head f + i) + buf_len f"
      using c by simp
    finally show ?thesis by simp
  qed
  show "drop n (contents (rewind f n)) = contents f"
  proof (rule nth_equalityI)
    fix i assume "i < length (drop n (contents (rewind f n)))"
    then have i: "i < f_count f" by (simp add: rewind_def)
    have r: "f_head (rewind f n) = (f_head f + (buf_len f - n)) mod buf_len f"
      "f_buf (rewind f n) = f_buf f" "buf_len (rewind f n) = buf_len f"
      unfolding rewind_def w by simp_all
    have "drop n (contents (rewind f n)) ! i = contents (rewind f n) ! (n + i)"
      by (simp add: rewind_def)
    also have "\<dots> = f_buf f ! ((f_head (rewind f n) + (n + i)) mod buf_len f)"
      using i r by (subst nth_contents) (simp_all add: rewind_def)
    also have "\<dots> = contents f ! i"
      unfolding r m using i by (simp add: nth_contents)
    finally show "drop n (contents (rewind f n)) ! i = contents f ! i" .
  qed (simp add: rewind_def)
qed (simp_all add: rewind_def)

text \<open>
  \<open>unget\<close> fills the slots in front of the old contents in two chunks: up to the end of the storage,
  and from its start.
\<close>

lemma unget_chunks:
  assumes "fifo_inv f" and "length src \<le> f_count f"
    and "k = min (f_head f + f_count f) (buf_len f) - f_head f"
  defines "g \<equiv> f\<lparr>f_buf := copy_at (f_buf f) (f_head f) (take (min k (length src)) src)\<rparr>"
  shows "fifo_inv g" and "contents g = take (min k (length src)) src @ drop (min k (length src)) (contents f)"
    and "k < length src \<Longrightarrow> fifo_inv (g\<lparr>f_buf := copy_at (f_buf g) 0 (drop k src)\<rparr>)"
    and "k < length src \<Longrightarrow> contents (g\<lparr>f_buf := copy_at (f_buf g) 0 (drop k src)\<rparr>)
      = src @ drop (length src) (contents f)"
proof -
  let ?m = "min k (length src)"
  have c: "f_count f \<le> buf_len f" using assms(1) by (simp add: fifo_inv_def)
  have h: "f_head f + k \<le> buf_len f" "f_head f \<le> buf_len f"
    using assms(1,3) by (auto simp: fifo_inv_def)
  have bl: "buf_len g = buf_len f"
    using h by (simp add: g_def buf_len_def length_copy_at)
  show g: "fifo_inv g"
    using h by (simp add: g_def fifo_inv_buf [OF assms(1)] length_copy_at buf_len_def)
  have "contents g = copy_at (contents f) 0 (take ?m src)"
    unfolding g_def using h c assms(1,2) by (intro contents_overwrite) (auto simp: fifo_inv_def)
  then show cg: "contents g = take ?m src @ drop ?m (contents f)"
    by (simp add: copy_at_def)
  assume k: "k < length src"
  then have wrapped: "f_head f + k = buf_len f"
    using assms(2,3) h(2) by auto
  have "length src - k \<le> buf_len f"
    using assms(2) c by simp
  then show "fifo_inv (g\<lparr>f_buf := copy_at (f_buf g) 0 (drop k src)\<rparr>)"
    using bl by (intro fifo_inv_buf [OF g]) (simp add: length_copy_at buf_len_def)
  have "contents (g\<lparr>f_buf := copy_at (f_buf g) 0 (drop k src)\<rparr>) = copy_at (contents g) k (drop k src)"
    using assms(2) c k wrapped \<open>length src - k \<le> buf_len f\<close> bl
    by (intro contents_overwrite) (auto simp: g_def)
  then show "contents (g\<lparr>f_buf := copy_at (f_buf g) 0 (drop k src)\<rparr>) = src @ drop (length src) (contents f)"
    using k by (simp add: cg copy_at_def)
qed

lemma unget_refines:
  assumes "fifo_inv f" and "fifo_room f (length src)"
  shows "\<exists>f'. unget f src = Inr f' \<and> fifo_inv f' \<and> contents f' = src @ contents f"
proof -
  obtain g where g: "ensure_unused_capacity f (length src) = Inr g" "fifo_inv g"
    "contents g = contents f" "length src \<le> writable_length g"
    by (rule ensure_unused_capacity_refines [OF assms])
  let ?g = "rewind g (length src)"
  note rw = rewind_refines [OF g(2,4)]
  define k where "k = min (f_head ?g + f_count ?g) (buf_len ?g) - f_head ?g"
  have len: "length src \<le> f_count ?g" by (simp add: rw(3))
  note ch = unget_chunks [OF rw(1) len k_def]
  have r0: "readable_range ?g 0 = (f_head ?g, f_head ?g + k)"
    using rw(1) by (auto simp: readable_range_def Let_def k_def fifo_inv_def)
  let ?h = "?g\<lparr>f_buf := copy_at (f_buf ?g) (f_head ?g) (take (min k (length src)) src)\<rparr>"
  show ?thesis
  proof (cases "k < length src")
    case True
    moreover have "f_head ?g \<le> buf_len ?g" using rw(1) by (auto simp: fifo_inv_def)
    ultimately have "f_head ?g + k = buf_len ?g" using len by (auto simp: k_def)
    moreover have "buf_len ?h = buf_len ?g"
      using calculation by (simp add: buf_len_def length_copy_at)
    ultimately have "fst (readable_range ?h k) = 0"
      using True len by (simp add: readable_range_def Let_def)
    then have "unget f src = Inr (?h\<lparr>f_buf := copy_at (f_buf ?h) 0 (drop k src)\<rparr>)"
      using g(1) True by (simp add: unget_def r0 Let_def case_prod_beta)
    with ch(3,4) [OF True] rw(2) g(3) show ?thesis by simp
  next
    case False
    then have "unget f src = Inr ?h" using g(1) by (simp add: unget_def r0 Let_def)
    with ch(1,2) False rw(2) g(3) show ?thesis by (simp add: min_def)
  qed
qed

lemma length_shift_down_one: "s < e \<Longrightarrow> e \<le> length buf \<Longrightarrow> length (shift_down_one buf s e) = length buf"
  by (simp add: shift_down_one_def copy_within_def length_copy_at subslice_def)

lemma nth_shift_down_one:
  assumes "e \<le> length buf" and "i < length buf"
  shows "shift_down_one buf s e ! i = (if s \<le> i \<and> i + 1 < e then buf ! (i + 1) else buf ! i)"
proof (cases "e - s \<le> 1")
  case True
  then show ?thesis by (auto simp: shift_down_one_def)
next
  case False
  have "length (subslice buf (s + 1) (s + 1 + (e - s - 1))) = e - s - 1"
    using assms(1) False by (simp add: subslice_def)
  then show ?thesis
    using False assms by (auto simp: shift_down_one_def copy_within_def nth_copy_at) (auto simp: subslice_def)
qed

lemma remove_nth_contents:
  assumes "fifo_inv f" and "k < f_count f" and "length b = buf_len f"
    and "\<And>i. i < f_count f - 1 \<Longrightarrow> b ! ((f_head f + i) mod buf_len f) =
      f_buf f ! ((f_head f + (if i < k then i else i + 1)) mod buf_len f)"
  shows "fifo_inv (f\<lparr>f_buf := b, f_count := f_count f - 1\<rparr>)"
    and "contents (f\<lparr>f_buf := b, f_count := f_count f - 1\<rparr>) = take k (contents f) @ drop (k + 1) (contents f)"
proof -
  show "fifo_inv (f\<lparr>f_buf := b, f_count := f_count f - 1\<rparr>)"
    using fifo_inv_buf [OF assms(1,3)] by (auto simp: fifo_inv_def)
  show "contents (f\<lparr>f_buf := b, f_count := f_count f - 1\<rparr>) = take k (contents f) @ drop (k + 1) (contents f)"
  proof (rule nth_equalityI)
    fix i assume "i < length (contents (f\<lparr>f_buf := b, f_count := f_count f - 1\<rparr>))"
    then have i: "i < f_count f - 1" by simp
    have "contents (f\<lparr>f_buf := b, f_count := f_count f - 1\<rparr>) ! i = b ! ((f_head f + i) mod buf_len f)"
      using i assms(3) by (simp add: nth_contents) (simp add: buf_len_def)
    also have "\<dots> = contents f ! (if i < k then i else i + 1)"
      using assms(4) [OF i] i by (simp add: nth_contents)
    finally show "contents (f\<lparr>f_buf := b, f_count := f_count f - 1\<rparr>) ! i
        = (take k (contents f) @ drop (k + 1) (contents f)) ! i"
      using i assms(2) by (auto simp: nth_append min_def)
  qed (use assms(2) in simp)
qed

lemma mod_unfold: "x < 2 * n \<Longrightarrow> x mod n = (if x < n then x else x - n)" for x n :: nat
  by (simp add: mod_if)

lemma ordered_remove_item_refines:
  assumes inv: "fifo_inv f" and k: "k < f_count f"
  shows "fifo_inv (ordered_remove_item f k)
    \<and> contents (ordered_remove_item f k) = take k (contents f) @ drop (k + 1) (contents f)"
proof (cases "k = 0")
  case True
  then show ?thesis using discard_refines [OF inv, of 1] k by (simp add: ordered_remove_item_def)
next
  case False
  let ?n = "buf_len f" and ?h = "f_head f" and ?c = "f_count f"
  have c: "?c \<le> ?n" "?h < ?n" "length (f_buf f) = ?n"
    using inv k by (auto simp: fifo_inv_def buf_len_def)
  have w: "wrap f (?h + k) = (?h + k) mod ?n" using inv c(2) by (intro wrap_mod) auto
  note rm = remove_nth_contents [OF inv k]
  consider (flat) "?c \<le> ?n - ?h" | (front) "\<not> ?c \<le> ?n - ?h" "?n \<le> ?h + k"
    | (split) "\<not> ?c \<le> ?n - ?h" "?h + k < ?n"
    by linarith
  then show ?thesis
  proof cases
    case flat
    let ?b = "shift_down_one (f_buf f) (?h + k) ?n"
    have "length ?b = ?n" using flat k c by (simp add: length_shift_down_one)
    moreover have "?b ! ((?h + i) mod ?n) = f_buf f ! ((?h + (if i < k then i else i + 1)) mod ?n)"
      if "i < ?c - 1" for i
      using that flat k c by (simp add: nth_shift_down_one) linarith
    ultimately show ?thesis
      using rm [of ?b] False flat by (simp add: ordered_remove_item_def)
  next
    case front
    let ?b = "shift_down_one (f_buf f) (?h + k - ?n) (?h + ?c - ?n)"
    have "length ?b = ?n" using front k c by (simp add: length_shift_down_one)
    moreover have "?b ! ((?h + i) mod ?n) = f_buf f ! ((?h + (if i < k then i else i + 1)) mod ?n)"
      if "i < ?c - 1" for i
      using that front k c by (simp add: nth_shift_down_one mod_unfold) (auto simp: Suc_diff_le)
    moreover have "(?h + k) mod ?n = ?h + k - ?n" "?h + k - ?n < ?h"
      using front k c by (simp_all add: mod_unfold)
    ultimately show ?thesis
      using rm [of ?b] False front by (simp add: ordered_remove_item_def w Let_def)
  next
    case split
    let ?b1 = "shift_down_one (f_buf f) (?h + k) ?n"
    let ?b2 = "?b1[?n - 1 := f_buf f ! 0]"
    let ?b = "shift_down_one ?b2 0 (?h + ?c - ?n)"
    have l: "length ?b1 = ?n" using split c by (simp add: length_shift_down_one)
    then have "length ?b = ?n" using split c k by (simp add: length_shift_down_one)
    moreover have "?b ! ((?h + i) mod ?n) = f_buf f ! ((?h + (if i < k then i else i + 1)) mod ?n)"
      if i: "i < ?c - 1" for i
    proof -
      consider "?h + i < ?n - 1" | "?h + i = ?n - 1" | "?n \<le> ?h + i" by linarith
      then show ?thesis
      proof cases
        case 1
        then show ?thesis using i split k c l by (auto simp: nth_shift_down_one)
      next
        case 2
        then have "?h + (i + 1) = ?n" "k \<le> i" "\<not> ?n < ?h + ?c - ?n" using c(1,2) split by auto
        then show ?thesis using 2 i split k c l by (simp add: nth_shift_down_one)
      next
        case 3
        then have "(?h + i) mod ?n = ?h + i - ?n" "(?h + (i + 1)) mod ?n = Suc (?h + i - ?n)" "k \<le> i"
          using i c split by (auto simp: mod_unfold Suc_diff_le)
        moreover have "Suc (?h + i - ?n) < ?h + ?c - ?n" "\<not> ?h + k \<le> Suc (?h + i - ?n)"
          using 3 i c split by auto
        ultimately show ?thesis using 3 i split k c l by (simp add: nth_shift_down_one)
      qed
    qed
    moreover have "(?h + k) mod ?n = ?h + k" using split by simp
    ultimately show ?thesis
      using rm [of ?b] False split by (simp add: ordered_remove_item_def w Let_def)
  qed
qed

lemma shrink_refines:
  assumes "fifo_inv f" and "f_count f \<le> sz" and "sz = 0 \<or> next_power_of_two sz = sz"
  shows "\<exists>f'. shrink f sz = Inr f' \<and> fifo_inv f' \<and> contents f' = contents f"
proof (cases "DYNAMIC f")
  case True
  obtain g where g: "realign f = Inr g" "fifo_inv g" "contents g = contents f" "f_head g = 0"
    "f_kind g = f_kind f" "buf_len g = buf_len f" "f_count g = f_count f"
    using realign_refines [OF assms(1)] by metis
  let ?h = "buf_realloc g sz"
  have l: "buf_len ?h = sz" "f_head ?h = 0" "f_count ?h = f_count g"
    using g(4) by (auto simp: buf_realloc_def buf_len_def Let_def)
  have "f_count g \<le> buf_len g" using g(2) by (simp add: fifo_inv_def)
  then have "take (f_count g) (f_buf ?h) = take (f_count g) (f_buf g)"
    using assms(2) g(7) by (simp add: buf_realloc_def Let_def buf_len_def min_def)
  moreover have "f_count g \<le> buf_len ?h" using l(1) g(7) assms(2) by simp
  ultimately have "contents ?h = contents g"
    using contents_head0 [of ?h] contents_head0 [OF g(4) \<open>f_count g \<le> buf_len g\<close>] l by simp
  moreover have "fifo_inv ?h"
    using g(2) l assms(2,3) g(7) by (auto simp: fifo_inv_def) (simp_all add: buf_realloc_def Let_def)
  ultimately show ?thesis using True g(1,3) by (simp add: shrink_def)
qed (use assms(1) in \<open>simp add: shrink_def\<close>)

section \<open>The queue contract\<close>

text \<open>
  What the users of a fifo rely on: \<open>push\<close> appends a whole slice when there is room, fails without
  room, \<open>pop\<close> removes the first item.
\<close>

locale fifo_queue =
  fixes inv :: "'q \<Rightarrow> bool" and items :: "'q \<Rightarrow> 'a list" and room :: "'q \<Rightarrow> nat \<Rightarrow> bool"
    and push :: "'q \<Rightarrow> 'a list \<Rightarrow> 'e + 'q" and full :: 'e and pop :: "'q \<Rightarrow> 'a option \<times> 'q"
  assumes push: "inv q \<Longrightarrow> room q (length xs) \<Longrightarrow>
      \<exists>q'. push q xs = Inr q' \<and> inv q' \<and> items q' = items q @ xs"
    and push_full: "inv q \<Longrightarrow> \<not> room q (length xs) \<Longrightarrow> push q xs = Inl full"
    and pop_Nil: "inv q \<Longrightarrow> items q = [] \<Longrightarrow> pop q = (None, q)"
    and pop_Cons: "inv q \<Longrightarrow> items q = x # xs \<Longrightarrow> \<exists>q'. pop q = (Some x, q') \<and> inv q' \<and> items q' = xs"
begin

lemma push_inv: "inv q \<Longrightarrow> push q xs = Inr q' \<Longrightarrow> inv q' \<and> items q' = items q @ xs"
  using push [of q xs] push_full [of q xs] by (cases "room q (length xs)") auto

lemma push_cases:
  assumes "inv q"
  obtains q' where "push q xs = Inr q'" "inv q'" "items q' = items q @ xs" "room q (length xs)"
  | "push q xs = Inl full" "\<not> room q (length xs)"
  using push [OF assms, of xs] push_full [OF assms, of xs] by (cases "room q (length xs)") auto

lemma pop_cases:
  assumes "inv q"
  obtains "pop q = (None, q)" "items q = []"
  | x q' where "pop q = (Some x, q')" "inv q'" "items q = x # items q'"
  using pop_Nil [OF assms] pop_Cons [OF assms] by (cases "items q") auto

end

interpretation linear_fifo: fifo_queue fifo_inv contents fifo_room fifo_write AllocError read_item
proof
  fix f :: "'a fifo" and xs :: "'a list"
  assume inv: "fifo_inv f"
  show "\<exists>f'. fifo_write f xs = Inr f' \<and> fifo_inv f' \<and> contents f' = contents f @ xs"
    if "fifo_room f (length xs)"
    using fifo_write_refines [OF inv that] by blast
  show "fifo_write f xs = Inl AllocError" if "\<not> fifo_room f (length xs)"
    using ensure_unused_capacity_full [OF inv that] by (simp add: fifo_write_def)
  show "read_item f = (None, f)" if "contents f = []"
    using that by (simp add: read_item_refines [OF inv])
  show "\<exists>f'. read_item f = (Some x, f') \<and> fifo_inv f' \<and> contents f' = ys"
    if "contents f = x # ys" for x ys
    using that discard_refines [OF inv, of 1] length_contents [of f]
    by (simp add: read_item_refines [OF inv])
qed

section \<open>Properties\<close>

text \<open>
  C13. Writing a slice appends it to the contents, across the wrap-around and any growth of the
  storage; reading \<open>n\<close> items returns the first \<open>n\<close> and leaves the rest; both keep the invariant.
\<close>

theorem fifo_write_read:
  assumes "fifo_inv f" and "fifo_room f (length src)"
  shows "\<exists>f'. fifo_write f src = Inr f' \<and> fifo_inv f' \<and> contents f' = contents f @ src
    \<and> fst (fifo_read f' n) = take n (contents f @ src)
    \<and> contents (snd (fifo_read f' n)) = drop n (contents f @ src) \<and> fifo_inv (snd (fifo_read f' n))"
  using linear_fifo.push [OF assms] fifo_read_refines by metis

theorem fifo_write_read_witness:
  "\<exists>f'. fifo_write (fifo_init_dynamic 1 (CHR ''?'')) ''HELLO'' = Inr f'
    \<and> fst (fifo_read f' 3) = ''HEL'' \<and> contents (snd (fifo_read f' 3)) = ''LO''"
  using fifo_write_read [of "fifo_init_dynamic 1 (CHR ''?'')" "''HELLO''" 3]
  by (auto simp: fifo_inv_def fifo_init_dynamic_def fifo_room_def DYNAMIC_def PAGE_SIZE_MIN_def
      buf_len_def contents_def)

text \<open>
  \<open>unget\<close> puts a slice back in front of the contents, also when it has to be split at the end of
  the storage.
\<close>

theorem unget_prepends:
  assumes "fifo_inv f" and "fifo_room f (length src)"
  shows "\<exists>f'. unget f src = Inr f' \<and> fifo_inv f' \<and> contents f' = src @ contents f"
  using assms by (rule unget_refines)

theorem unget_prepends_witness:
  "\<exists>f'. unget \<lparr>f_kind = SliceBuffer, f_buf = ''xyzuv'', f_head = 1, f_count = 2, f_tsize = 1,
      f_junk = CHR ''?''\<rparr> ''abc'' = Inr f' \<and> contents f' = ''abcyz''"
proof -
  let ?f = "\<lparr>f_kind = SliceBuffer, f_buf = ''xyzuv'', f_head = 1, f_count = 2, f_tsize = 1, f_junk = CHR ''?''\<rparr>"
  have "fifo_inv ?f" "fifo_room ?f (length ''abc'')"
    by (simp_all add: fifo_inv_def fifo_room_def PAGE_SIZE_MIN_def buf_len_def writable_length_def
        POWERS_OF_TWO_def)
  moreover have "contents ?f = ''yz''"
    by (simp add: contents_def buf_len_def upt_rec)
  ultimately show ?thesis
    using unget_prepends [of ?f "''abc''"] by auto
qed

text \<open>
  \<open>ordered_remove_item\<close> removes exactly the item at the offset and keeps the order of the others,
  in each of its three cases (no wrap-around, item before the wrap, item after it).
\<close>

theorem ordered_remove_item_removes:
  assumes "fifo_inv f" and "k < f_count f"
  shows "fifo_inv (ordered_remove_item f k)
    \<and> contents (ordered_remove_item f k) = take k (contents f) @ drop (k + 1) (contents f)"
  using assms by (rule ordered_remove_item_refines)

theorem ordered_remove_item_removes_witness:
  "contents (ordered_remove_item \<lparr>f_kind = SliceBuffer, f_buf = [30, 40, 0, 10, 20], f_head = 3,
      f_count = 4, f_tsize = 8, f_junk = 0 :: nat\<rparr> 1) = [10, 30, 40]"
  using ordered_remove_item_removes [of "\<lparr>f_kind = SliceBuffer, f_buf = [30, 40, 0, 10, 20], f_head = 3,
      f_count = 4, f_tsize = 8, f_junk = 0 :: nat\<rparr>" 1]
  by (simp add: fifo_inv_def PAGE_SIZE_MIN_def buf_len_def POWERS_OF_TWO_def contents_def upt_rec)

text \<open>
  \<open>shrink\<close> keeps the contents when the new size is a power of two (or zero) and holds them.
\<close>

theorem shrink_keeps_contents:
  assumes "fifo_inv f" and "f_count f \<le> sz" and "sz = 0 \<or> next_power_of_two sz = sz"
  shows "\<exists>f'. shrink f sz = Inr f' \<and> fifo_inv f' \<and> contents f' = contents f"
  using assms by (rule shrink_refines)

theorem shrink_keeps_contents_witness:
  "\<exists>f'. shrink (fifo_init_dynamic 1 (CHR ''?'')) 0 = Inr f' \<and> fifo_inv f' \<and> contents f' = []"
  using shrink_keeps_contents [of "fifo_init_dynamic 1 (CHR ''?'')" 0]
  by (auto simp: fifo_inv_def fifo_init_dynamic_def PAGE_SIZE_MIN_def buf_len_def contents_def)

text \<open>
  The restriction is needed: a dynamic fifo that was shrunk to three slots still wraps its
  indices by masking, so after reading one item the head is at the same slot again, and the item is
  read a second time.
\<close>

theorem shrink_breaks_masking:
  "\<exists>f1 f2 f3. shrink (\<lparr>f_kind = DynamicBuffer, f_buf = [10, 20, 30, 0], f_head = 0, f_count = 3,
        f_tsize = 8, f_junk = 0\<rparr> :: nat fifo) 3 = Inr f1
    \<and> contents f1 = [10, 20, 30] \<and> read_item f1 = (Some 10, f2)
    \<and> read_item f2 = (Some 10, f3)"
  by (simp add: shrink_def DYNAMIC_def realign_def buf_len_def buf_realloc_def copy_within_def
      copy_at_def subslice_def contents_def upt_rec read_item_def discard_def wrap_def
      POWERS_OF_TWO_def)

end
