(* ===== verification/Channel.thy ===== *)
theory Channel
  imports Linear_Fifo
begin

text \<open>
  \<open>src/src/threading/channel.rs\<close>: a blocking channel, a ring buffer under a mutex with one condition
  variable for the threads that wait to put and one for those that wait to get.

  The mutex is held except while a thread waits on a condition, so a call is a sequence of atomic
  segments: each ends when the call returns or when it waits. \<open>write_loop\<close> and \<open>read_loop\<close> are such
  segments; they return the outcome, the new channel and the notifications they sent, in order. The
  threads of a program that share a channel are an interleaving of segments, a step relation over a
  list of thread states in which a notification makes a parked thread ready, and a parked thread may
  also become ready on its own, as the documentation of \<open>Condition::wait\<close> says.
\<close>

section \<open>The channel\<close>

datatype channel_error = Closed | OutOfMemory

record 'a channel =
  ch_buffer :: "'a fifo"
  ch_is_closed :: bool

datatype notification = PuttersSignal | GettersSignal | PuttersBroadcast | GettersBroadcast

text \<open>\<open>Waiting n\<close>: the call waits after \<open>n\<close> rounds; \<open>Hangs\<close>: the buffer never returned.\<close>

datatype 'r outcome = Finished "channel_error + 'r" | Waiting nat | Hangs

definition with_buffer :: "'a fifo \<Rightarrow> 'a channel" where
  "with_buffer buffer = \<lparr>ch_buffer = buffer, ch_is_closed = False\<rparr>"

definition channel_init_static :: "nat \<Rightarrow> nat \<Rightarrow> 'a \<Rightarrow> 'a channel" where
  "channel_init_static n tsize junk = with_buffer (fifo_init_static n tsize junk)"

definition channel_init_slice :: "'a list \<Rightarrow> nat \<Rightarrow> 'a \<Rightarrow> 'a channel" where
  "channel_init_slice buf tsize junk = with_buffer (fifo_init_slice buf tsize junk)"

definition channel_init_dynamic :: "nat \<Rightarrow> 'a \<Rightarrow> 'a channel" where
  "channel_init_dynamic tsize junk = with_buffer (fifo_init_dynamic tsize junk)"

definition close :: "'a channel \<Rightarrow> 'a channel \<times> notification list" where
  "close ch =
     (if ch_is_closed ch then (ch, [])
      else (ch\<lparr>ch_is_closed := True\<rparr>, [PuttersBroadcast, GettersBroadcast]))"

text \<open>
  The loop of \<open>write_items\<close> from \<open>pushed\<close> rounds on. Every round passes the whole slice to the buffer.
\<close>

function write_loop ::
  "'a channel \<Rightarrow> 'a list \<Rightarrow> bool \<Rightarrow> nat \<Rightarrow> nat outcome \<times> 'a channel \<times> notification list" where
  "write_loop ch xs should_block pushed =
     (if pushed < length xs then
        if ch_is_closed ch then (Finished (Inl Closed), ch, [])
        else
          (case fifo_write (ch_buffer ch) xs of
             Inr b \<Rightarrow>
               (case write_loop (ch\<lparr>ch_buffer := b\<rparr>) xs should_block (pushed + 1) of
                  (r, ch', ns) \<Rightarrow> (r, ch', GettersSignal # ns))
           | Inl Diverges \<Rightarrow> (Hangs, ch, [])
           | Inl AllocError \<Rightarrow>
               if DYNAMIC (ch_buffer ch) then (Finished (Inl OutOfMemory), ch, [])
               else if should_block then (Waiting pushed, ch, [])
               else (Finished (Inr pushed), ch, []))
      else (Finished (Inr pushed), ch, []))"
  by pat_completeness auto
termination
  by (relation "measure (\<lambda>(ch, xs, b, pushed). length xs - pushed)") auto

declare write_loop.simps [simp del]

definition write_items ::
  "'a channel \<Rightarrow> 'a list \<Rightarrow> bool \<Rightarrow> nat outcome \<times> 'a channel \<times> notification list" where
  "write_items ch xs should_block = write_loop ch xs should_block 0"

text \<open>
  The loop of \<open>read_items\<close> into a destination of \<open>n\<close> elements, \<open>got\<close> of which are filled. The filled
  elements are part of the result: they stay in the caller's slice also when the call fails.
\<close>

function read_loop ::
  "'a channel \<Rightarrow> nat \<Rightarrow> bool \<Rightarrow> 'a list \<Rightarrow> nat outcome \<times> 'a list \<times> 'a channel \<times> notification list" where
  "read_loop ch n should_block got =
     (if length got < n then
        if readable_length (ch_buffer ch) = 0 then
          if ch_is_closed ch then (Finished (Inl Closed), got, ch, [])
          else if should_block then (Waiting (length got), got, ch, [])
          else (Finished (Inr (length got)), got, ch, [])
        else
          (case read_item (ch_buffer ch) of
             (Some x, b) \<Rightarrow>
               (case read_loop (ch\<lparr>ch_buffer := b\<rparr>) n should_block (got @ [x]) of
                  (r, got', ch', ns) \<Rightarrow> (r, got', ch', PuttersSignal # ns))
           | (None, b) \<Rightarrow>
               (if should_block then Waiting (length got) else Finished (Inr (length got)),
                got, ch\<lparr>ch_buffer := b\<rparr>, [PuttersSignal]))
      else (Finished (Inr (length got)), got, ch, []))"
  by pat_completeness auto
termination
  by (relation "measure (\<lambda>(ch, n, b, got). n - length got)") auto

declare read_loop.simps [simp del]

definition read_items ::
  "'a channel \<Rightarrow> nat \<Rightarrow> bool \<Rightarrow> nat outcome \<times> 'a list \<times> 'a channel \<times> notification list" where
  "read_items ch n should_block = read_loop ch n should_block []"

definition channel_write :: "'a channel \<Rightarrow> 'a list \<Rightarrow> nat outcome \<times> 'a channel \<times> notification list" where
  "channel_write ch xs = write_items ch xs False"

definition write_all :: "'a channel \<Rightarrow> 'a list \<Rightarrow> unit outcome \<times> 'a channel \<times> notification list" where
  "write_all ch xs = apfst (map_outcome (\<lambda>_. ())) (write_items ch xs True)"

definition try_write_item :: "'a channel \<Rightarrow> 'a \<Rightarrow> bool outcome \<times> 'a channel \<times> notification list" where
  "try_write_item ch x = apfst (map_outcome (\<lambda>wrote. wrote = 1)) (channel_write ch [x])"

definition channel_write_item :: "'a channel \<Rightarrow> 'a \<Rightarrow> unit outcome \<times> 'a channel \<times> notification list" where
  "channel_write_item ch x = write_all ch [x]"

definition channel_read ::
  "'a channel \<Rightarrow> nat \<Rightarrow> nat outcome \<times> 'a list \<times> 'a channel \<times> notification list" where
  "channel_read ch n = read_items ch n False"

definition read_all ::
  "'a channel \<Rightarrow> nat \<Rightarrow> unit outcome \<times> 'a list \<times> 'a channel \<times> notification list" where
  "read_all ch n = apfst (map_outcome (\<lambda>_. ())) (read_items ch n True)"

definition try_read_item :: "'a channel \<Rightarrow> 'a option outcome \<times> 'a channel \<times> notification list" where
  "try_read_item ch =
     (case channel_read ch 1 of
        (r, got, ch', ns) \<Rightarrow> (map_outcome (\<lambda>n. if n \<noteq> 1 then None else Some (hd got)) r, ch', ns))"

definition channel_read_item :: "'a channel \<Rightarrow> 'a outcome \<times> 'a channel \<times> notification list" where
  "channel_read_item ch =
     (case read_all ch 1 of (r, got, ch', ns) \<Rightarrow> (map_outcome (\<lambda>_. hd got) r, ch', ns))"

section \<open>What a segment does\<close>

definition channel_inv :: "'a channel \<Rightarrow> bool" where
  "channel_inv ch \<longleftrightarrow> fifo_inv (ch_buffer ch)"

abbreviation ch_items :: "'a channel \<Rightarrow> 'a list" where
  "ch_items ch \<equiv> contents (ch_buffer ch)"

text \<open>The slice \<open>xs\<close>, \<open>k\<close> times.\<close>

definition repeated :: "nat \<Rightarrow> 'a list \<Rightarrow> 'a list" where
  "repeated k xs = concat (replicate k xs)"

lemma repeated_simps [simp]: "repeated 0 xs = []" "repeated (Suc k) xs = xs @ repeated k xs"
  by (simp_all add: repeated_def)

text \<open>
  How a write segment may end: after \<open>m\<close> rounds in all, for a slice of \<open>n\<close> items, with the buffer \<open>b\<close>.
\<close>

fun write_end :: "bool \<Rightarrow> bool \<Rightarrow> 'a fifo \<Rightarrow> nat \<Rightarrow> nat \<Rightarrow> nat outcome \<Rightarrow> bool" where
  "write_end closed should_block b n m (Finished (Inr w)) \<longleftrightarrow>
     w = m \<and> (m = n \<or> \<not> should_block \<and> \<not> DYNAMIC b \<and> \<not> fifo_room b n)"
| "write_end closed should_block b n m (Finished (Inl Closed)) \<longleftrightarrow> closed \<and> m < n"
| "write_end closed should_block b n m (Finished (Inl OutOfMemory)) \<longleftrightarrow> m < n \<and> DYNAMIC b \<and> \<not> fifo_room b n"
| "write_end closed should_block b n m (Waiting w) \<longleftrightarrow>
     w = m \<and> m < n \<and> should_block \<and> \<not> closed \<and> \<not> DYNAMIC b \<and> \<not> fifo_room b n"
| "write_end closed should_block b n m Hangs \<longleftrightarrow> False"

lemma write_loop_spec:
  assumes "channel_inv ch" and "write_loop ch xs should_block pushed = (r, ch', ns)" and "pushed \<le> length xs"
  shows "\<exists>k. channel_inv ch' \<and> ch_is_closed ch' = ch_is_closed ch \<and> ns = replicate k GettersSignal
    \<and> ch_items ch' = ch_items ch @ repeated k xs \<and> (k = 0 \<or> \<not> ch_is_closed ch) \<and> k + pushed \<le> length xs
    \<and> f_kind (ch_buffer ch') = f_kind (ch_buffer ch)
    \<and> (\<not> DYNAMIC (ch_buffer ch) \<longrightarrow> buf_len (ch_buffer ch') = buf_len (ch_buffer ch))
    \<and> write_end (ch_is_closed ch) should_block (ch_buffer ch') (length xs) (k + pushed) r"
  using assms
proof (induction ch xs should_block pushed arbitrary: r ch' ns rule: write_loop.induct)
  case (1 ch xs should_block pushed)
  note eq = 1(3) [unfolded write_loop.simps [of ch]]
  consider "pushed = length xs" | "pushed < length xs" "ch_is_closed ch"
    | "pushed < length xs" "\<not> ch_is_closed ch" using 1(4) by linarith
  then show ?case
  proof cases
    case 3
    have inv: "fifo_inv (ch_buffer ch)" using 1(2) by (simp add: channel_inv_def)
    show ?thesis
    proof (cases "fifo_room (ch_buffer ch) (length xs)")
      case False
      then have "fifo_write (ch_buffer ch) xs = Inl AllocError"
        using linear_fifo.push_full [OF inv] by simp
      then show ?thesis
        using eq 3 1(2) False by (auto split: if_splits intro!: exI [of _ 0])
    next
      case True
      obtain b where b: "fifo_write (ch_buffer ch) xs = Inr b" "fifo_inv b"
        "contents b = ch_items ch @ xs" "f_kind b = f_kind (ch_buffer ch)"
        "\<not> DYNAMIC (ch_buffer ch) \<longrightarrow> buf_len b = buf_len (ch_buffer ch)"
        using fifo_write_refines [OF inv True] by blast
      obtain r' c' ns' where w: "write_loop (ch\<lparr>ch_buffer := b\<rparr>) xs should_block (pushed + 1) = (r', c', ns')"
        by (metis prod_cases3)
      then have rr: "r' = r" "c' = ch'" "ns = GettersSignal # ns'"
        using eq 3 b(1) by auto
      have ci: "channel_inv (ch\<lparr>ch_buffer := b\<rparr>)" using b(2) by (simp add: channel_inv_def)
      obtain k where "channel_inv ch'" "ch_is_closed ch' = ch_is_closed ch" "ns' = replicate k GettersSignal"
        "ch_items ch' = (ch_items ch @ xs) @ repeated k xs" "k + (pushed + 1) \<le> length xs"
        "f_kind (ch_buffer ch') = f_kind b" "\<not> DYNAMIC b \<longrightarrow> buf_len (ch_buffer ch') = buf_len b"
        "write_end (ch_is_closed ch) should_block (ch_buffer ch') (length xs) (k + (pushed + 1)) r"
        using 1(1) [OF 3(1) 3(2) b(1) ci w] 3 b(3) rr(1,2) by auto
      then show ?thesis
        using 3 b(4,5) rr(3) by (intro exI [of _ "Suc k"]) (simp add: DYNAMIC_def)
    qed
  qed (use eq 1(2) in \<open>auto intro!: exI [of _ 0]\<close>)
qed

text \<open>How a read segment may end: with \<open>m\<close> of \<open>n\<close> elements filled and \<open>left\<close> items in the buffer.\<close>

fun read_end :: "bool \<Rightarrow> bool \<Rightarrow> nat \<Rightarrow> nat \<Rightarrow> nat \<Rightarrow> nat outcome \<Rightarrow> bool" where
  "read_end closed should_block left n m (Finished (Inr w)) \<longleftrightarrow>
     w = m \<and> (m = n \<or> \<not> should_block \<and> \<not> closed \<and> left = 0)"
| "read_end closed should_block left n m (Finished (Inl Closed)) \<longleftrightarrow> closed \<and> m < n \<and> left = 0"
| "read_end closed should_block left n m (Finished (Inl OutOfMemory)) \<longleftrightarrow> False"
| "read_end closed should_block left n m (Waiting w) \<longleftrightarrow>
     w = m \<and> m < n \<and> should_block \<and> \<not> closed \<and> left = 0"
| "read_end closed should_block left n m Hangs \<longleftrightarrow> False"

lemma read_loop_spec:
  assumes "channel_inv ch" and "read_loop ch n should_block got = (r, got', ch', ns)" and "length got \<le> n"
  shows "\<exists>k. channel_inv ch' \<and> ch_is_closed ch' = ch_is_closed ch \<and> ns = replicate k PuttersSignal
    \<and> k \<le> length (ch_items ch) \<and> got' = got @ take k (ch_items ch) \<and> ch_items ch' = drop k (ch_items ch)
    \<and> k + length got \<le> n \<and> f_kind (ch_buffer ch') = f_kind (ch_buffer ch)
    \<and> buf_len (ch_buffer ch') = buf_len (ch_buffer ch)
    \<and> read_end (ch_is_closed ch) should_block (length (ch_items ch')) n (k + length got) r"
  using assms
proof (induction ch n should_block got arbitrary: r got' ch' ns rule: read_loop.induct)
  case (1 ch n should_block got)
  note eq = 1(3) [unfolded read_loop.simps [of ch]]
  have inv: "fifo_inv (ch_buffer ch)" using 1(2) by (simp add: channel_inv_def)
  consider "length got = n" | "length got < n" "readable_length (ch_buffer ch) = 0"
    | "length got < n" "readable_length (ch_buffer ch) \<noteq> 0" using 1(4) by linarith
  then show ?case
  proof cases
    case 3
    then have ne: "ch_items ch \<noteq> []" by (metis length_contents length_0_conv readable_length_def)
    let ?b = "discard (ch_buffer ch) 1"
    have it: "read_item (ch_buffer ch) = (Some (hd (ch_items ch)), ?b)"
      using ne read_item_refines [OF inv] by (simp add: hd_conv_nth split: list.splits)
    have b: "fifo_inv ?b" "contents ?b = drop 1 (ch_items ch)" "f_kind ?b = f_kind (ch_buffer ch)"
      "buf_len ?b = buf_len (ch_buffer ch)"
      using discard_refines [OF inv, of 1] 3 by (simp_all add: readable_length_def)
    obtain r1 g1 c1 ns1 where w: "read_loop (ch\<lparr>ch_buffer := ?b\<rparr>) n should_block (got @ [hd (ch_items ch)])
        = (r1, g1, c1, ns1)"
      by (metis prod_cases4)
    then have rr: "r1 = r" "g1 = got'" "c1 = ch'" "ns = PuttersSignal # ns1"
      using eq 3 it by auto
    have ci: "channel_inv (ch\<lparr>ch_buffer := ?b\<rparr>)" using b(1) by (simp add: channel_inv_def)
    obtain k where k: "channel_inv ch'" "ch_is_closed ch' = ch_is_closed ch" "ns1 = replicate k PuttersSignal"
      "k \<le> length (drop 1 (ch_items ch))" "got' = (got @ [hd (ch_items ch)]) @ take k (drop 1 (ch_items ch))"
      "ch_items ch' = drop k (drop 1 (ch_items ch))" "k + (length got + 1) \<le> n"
      "f_kind (ch_buffer ch') = f_kind ?b" "buf_len (ch_buffer ch') = buf_len ?b"
      "read_end (ch_is_closed ch) should_block (length (ch_items ch')) n (k + (length got + 1)) r"
      using 1(1) [OF 3 it [symmetric] refl ci w] 3 b(2) rr(1-3) by (auto simp del: length_contents)
    show ?thesis
      using k ne rr(4) b(3,4) by (intro exI [of _ "Suc k"]) (cases "ch_items ch", auto simp del: length_contents)
  next
    case 2
    then have "ch_items ch = []" by (metis length_contents length_0_conv readable_length_def)
    then show ?thesis
      using eq 2 1(2) by (auto split: if_splits simp: readable_length_def)
  qed (use eq 1(2) in \<open>auto intro!: exI [of _ 0]\<close>)
qed

section \<open>Threads that share a channel\<close>

datatype 'a thread_state =
    Idle
  | WriteParked "'a list" nat
  | WriteReady "'a list" nat
  | ReadParked "'a list" nat
  | ReadReady "'a list" nat

fun parked_putter :: "'a thread_state \<Rightarrow> bool" where
  "parked_putter (WriteParked _ _) = True"
| "parked_putter _ = False"

fun parked_getter :: "'a thread_state \<Rightarrow> bool" where
  "parked_getter (ReadParked _ _) = True"
| "parked_getter _ = False"

fun ready_putter :: "'a thread_state \<Rightarrow> bool" where
  "ready_putter (WriteReady _ _) = True"
| "ready_putter _ = False"

fun ready_getter :: "'a thread_state \<Rightarrow> bool" where
  "ready_getter (ReadReady _ _) = True"
| "ready_getter _ = False"

fun wake :: "'a thread_state \<Rightarrow> 'a thread_state" where
  "wake (WriteParked xs m) = WriteReady xs m"
| "wake (ReadParked got n) = ReadReady got n"
| "wake t = t"

fun notified :: "notification \<Rightarrow> 'a thread_state \<Rightarrow> bool" where
  "notified PuttersSignal t = parked_putter t"
| "notified PuttersBroadcast t = parked_putter t"
| "notified GettersSignal t = parked_getter t"
| "notified GettersBroadcast t = parked_getter t"

fun is_signal :: "notification \<Rightarrow> bool" where
  "is_signal PuttersSignal = True"
| "is_signal GettersSignal = True"
| "is_signal _ = False"

text \<open>
  A signal makes one parked thread ready, any of them, and is lost when there is none; a broadcast makes
  all of them ready.
\<close>

inductive notify :: "notification \<Rightarrow> 'a thread_state list \<Rightarrow> 'a thread_state list \<Rightarrow> bool" where
  signal_one: "is_signal a \<Longrightarrow> j < length ts \<Longrightarrow> notified a (ts ! j) \<Longrightarrow> notify a ts (ts[j := wake (ts ! j)])"
| signal_none: "is_signal a \<Longrightarrow> (\<And>t. t \<in> set ts \<Longrightarrow> \<not> notified a t) \<Longrightarrow> notify a ts ts"
| broadcast: "\<not> is_signal a \<Longrightarrow> notify a ts (map (\<lambda>t. if notified a t then wake t else t) ts)"

inductive notifies :: "notification list \<Rightarrow> 'a thread_state list \<Rightarrow> 'a thread_state list \<Rightarrow> bool" where
  notifies_Nil: "notifies [] ts ts"
| notifies_Cons: "notify a ts ts1 \<Longrightarrow> notifies as ts1 ts2 \<Longrightarrow> notifies (a # as) ts ts2"

inductive_simps notifies_Nil_iff [simp]: "notifies [] ts ts'"
inductive_simps notifies_Cons_iff: "notifies (a # as) ts ts'"
inductive_cases notifyE: "notify a ts ts'"

record 'a shared =
  sh_channel :: "'a channel"
  sh_threads :: "'a thread_state list"
  sh_sent :: "'a list"
  sh_received :: "'a list"

datatype 'a label =
    CallWrite nat "'a list" bool
  | CallRead nat nat bool
  | CallClose nat
  | ResumeWrite nat
  | ResumeRead nat
  | SpuriousWake nat

fun after_write :: "'a list \<Rightarrow> nat outcome \<Rightarrow> 'a thread_state" where
  "after_write xs (Waiting m) = WriteParked xs m"
| "after_write xs _ = Idle"

fun after_read :: "'a list \<Rightarrow> nat \<Rightarrow> nat outcome \<Rightarrow> 'a thread_state" where
  "after_read got n (Waiting _) = ReadParked got n"
| "after_read got n _ = Idle"

text \<open>
  \<open>sh_sent\<close> and \<open>sh_received\<close> are histories: what the buffer was given, one slice per \<open>getters.signal()\<close>,
  and what the readers took out of it.
\<close>

inductive channel_step :: "'a shared \<Rightarrow> 'a label \<Rightarrow> 'a shared \<Rightarrow> bool" where
  call_write: "i < length (sh_threads s) \<Longrightarrow> sh_threads s ! i = Idle \<Longrightarrow>
    write_items (sh_channel s) xs block = (r, ch, ns) \<Longrightarrow> notifies ns (sh_threads s) ts \<Longrightarrow>
    channel_step s (CallWrite i xs block)
      (s\<lparr>sh_channel := ch, sh_threads := ts[i := after_write xs r],
         sh_sent := sh_sent s @ repeated (count_list ns GettersSignal) xs\<rparr>)"
| resume_write: "i < length (sh_threads s) \<Longrightarrow> sh_threads s ! i = WriteReady xs m \<Longrightarrow>
    write_loop (sh_channel s) xs True m = (r, ch, ns) \<Longrightarrow> notifies ns (sh_threads s) ts \<Longrightarrow>
    channel_step s (ResumeWrite i)
      (s\<lparr>sh_channel := ch, sh_threads := ts[i := after_write xs r],
         sh_sent := sh_sent s @ repeated (count_list ns GettersSignal) xs\<rparr>)"
| call_read: "i < length (sh_threads s) \<Longrightarrow> sh_threads s ! i = Idle \<Longrightarrow>
    read_items (sh_channel s) n block = (r, got, ch, ns) \<Longrightarrow> notifies ns (sh_threads s) ts \<Longrightarrow>
    channel_step s (CallRead i n block)
      (s\<lparr>sh_channel := ch, sh_threads := ts[i := after_read got n r],
         sh_received := sh_received s @ got\<rparr>)"
| resume_read: "i < length (sh_threads s) \<Longrightarrow> sh_threads s ! i = ReadReady got0 n \<Longrightarrow>
    read_loop (sh_channel s) n True got0 = (r, got, ch, ns) \<Longrightarrow> notifies ns (sh_threads s) ts \<Longrightarrow>
    channel_step s (ResumeRead i)
      (s\<lparr>sh_channel := ch, sh_threads := ts[i := after_read got n r],
         sh_received := sh_received s @ drop (length got0) got\<rparr>)"
| call_close: "i < length (sh_threads s) \<Longrightarrow> sh_threads s ! i = Idle \<Longrightarrow>
    close (sh_channel s) = (ch, ns) \<Longrightarrow> notifies ns (sh_threads s) ts \<Longrightarrow>
    channel_step s (CallClose i) (s\<lparr>sh_channel := ch, sh_threads := ts\<rparr>)"
| spurious_wake: "i < length (sh_threads s) \<Longrightarrow> parked_putter (sh_threads s ! i) \<or> parked_getter (sh_threads s ! i) \<Longrightarrow>
    channel_step s (SpuriousWake i) (s\<lparr>sh_threads := (sh_threads s)[i := wake (sh_threads s ! i)]\<rparr>)"

definition shared_init :: "'a channel \<Rightarrow> nat \<Rightarrow> 'a shared" where
  "shared_init ch n = \<lparr>sh_channel = ch, sh_threads = replicate n Idle, sh_sent = [], sh_received = []\<rparr>"

inductive channel_run :: "'a shared \<Rightarrow> 'a label list \<Rightarrow> 'a shared \<Rightarrow> bool" where
  run_Nil: "channel_run s [] s"
| run_snoc: "channel_run s ls s1 \<Longrightarrow> channel_step s1 l s2 \<Longrightarrow> channel_run s (ls @ [l]) s2"

section \<open>What reaches the readers\<close>

lemma count_list_replicate: "count_list (replicate k a) b = (if a = b then k else 0)"
  by (induction k) auto

text \<open>What a parked or ready thread keeps between its segments.\<close>

fun thread_ok :: "'a thread_state \<Rightarrow> bool" where
  "thread_ok (WriteParked xs m) \<longleftrightarrow> m < length xs"
| "thread_ok (WriteReady xs m) \<longleftrightarrow> m < length xs"
| "thread_ok (ReadParked got n) \<longleftrightarrow> length got < n"
| "thread_ok (ReadReady got n) \<longleftrightarrow> length got < n"
| "thread_ok Idle \<longleftrightarrow> True"

lemma thread_ok_wake [simp]: "thread_ok (wake t) = thread_ok t"
  by (cases t) auto

definition shared_inv :: "'a shared \<Rightarrow> bool" where
  "shared_inv s \<longleftrightarrow> channel_inv (sh_channel s) \<and> (\<forall>t\<in>set (sh_threads s). thread_ok t)
     \<and> sh_sent s = sh_received s @ ch_items (sh_channel s)"

lemma set_update_ok: "\<forall>t\<in>set ts. P t \<Longrightarrow> P x \<Longrightarrow> \<forall>t\<in>set (ts[i := x]). P t"
  using set_update_subset_insert [of ts i x] by auto

lemma notify_all:
  assumes "notify a ts ts'" and "\<And>t. P (wake t) = P t" and "\<forall>t\<in>set ts. P t"
  shows "\<forall>t\<in>set ts'. P t"
  using assms(1)
proof (cases rule: notify.cases)
  case (signal_one j)
  then show ?thesis using set_update_ok [OF assms(3), of "wake (ts ! j)" j] assms(2,3) by simp
qed (use assms(2,3) in auto)

lemma notifies_all:
  assumes "notifies ns ts ts'" and "\<And>t. P (wake t) = P t" and "\<forall>t\<in>set ts. P t"
  shows "\<forall>t\<in>set ts'. P t"
  using assms(1,3)
proof (induction rule: notifies.induct)
  case (notifies_Cons a ts ts1 as ts2)
  then show ?case using notify_all [where P = P, OF notifies_Cons(1) assms(2)] by blast
qed

lemmas notifies_ok = notifies_all [where P = thread_ok, OF _ thread_ok_wake]

lemma after_write_ok: "write_end c b f n m r \<Longrightarrow> n = length xs \<Longrightarrow> thread_ok (after_write xs r)"
  by (cases r) auto

lemma after_read_ok: "read_end c b l n m r \<Longrightarrow> m = length got \<Longrightarrow> thread_ok (after_read got n r)"
  by (cases r) auto

lemma write_shared_inv:
  assumes "shared_inv s" and "write_loop (sh_channel s) xs block m = (r, ch, ns)" and "m \<le> length xs"
    and "notifies ns (sh_threads s) ts"
  shows "shared_inv (s\<lparr>sh_channel := ch, sh_threads := ts[i := after_write xs r],
         sh_sent := sh_sent s @ repeated (count_list ns GettersSignal) xs\<rparr>)"
proof -
  have inv: "channel_inv (sh_channel s)" "\<forall>t\<in>set (sh_threads s). thread_ok t"
    "sh_sent s = sh_received s @ ch_items (sh_channel s)"
    using assms(1) by (auto simp: shared_inv_def)
  obtain k where "channel_inv ch" "ns = replicate k GettersSignal"
    "ch_items ch = ch_items (sh_channel s) @ repeated k xs"
    and e: "write_end (ch_is_closed (sh_channel s)) block (ch_buffer ch) (length xs) (k + m) r"
    using write_loop_spec [OF inv(1) assms(2,3)] by blast
  then show ?thesis
    using set_update_ok [OF notifies_ok [OF assms(4) inv(2)] after_write_ok [OF e refl]] inv(3)
    by (simp add: shared_inv_def count_list_replicate)
qed

lemma read_shared_inv:
  assumes "shared_inv s" and "read_loop (sh_channel s) n block got0 = (r, got, ch, ns)" and "length got0 \<le> n"
    and "notifies ns (sh_threads s) ts"
  shows "shared_inv (s\<lparr>sh_channel := ch, sh_threads := ts[i := after_read got n r],
         sh_received := sh_received s @ drop (length got0) got\<rparr>)"
proof -
  have inv: "channel_inv (sh_channel s)" "\<forall>t\<in>set (sh_threads s). thread_ok t"
    "sh_sent s = sh_received s @ ch_items (sh_channel s)"
    using assms(1) by (auto simp: shared_inv_def)
  obtain k where k: "channel_inv ch" "got = got0 @ take k (ch_items (sh_channel s))"
    "ch_items ch = drop k (ch_items (sh_channel s))" "k \<le> length (ch_items (sh_channel s))"
    and e: "read_end (ch_is_closed (sh_channel s)) block (length (ch_items ch)) n (k + length got0) r"
    using read_loop_spec [OF inv(1) assms(2,3)] by blast
  then have "k + length got0 = length got" by simp
  then show ?thesis
    using set_update_ok [OF notifies_ok [OF assms(4) inv(2)] after_read_ok [OF e, of got]] inv(3) k
    by (simp add: shared_inv_def)
qed

lemma channel_step_inv:
  assumes "channel_step s l s'" and "shared_inv s"
  shows "shared_inv s'"
  using assms
proof (cases rule: channel_step.cases)
  case (call_write i xs block r ch ns ts)
  then show ?thesis using write_shared_inv [OF assms(2)] by (simp add: write_items_def)
next
  case (resume_write i xs m r ch ns ts)
  then have "thread_ok (WriteReady xs m)" using assms(2) by (metis nth_mem shared_inv_def)
  then show ?thesis using resume_write write_shared_inv [OF assms(2)] by simp
next
  case (call_read i n block r got ch ns ts)
  then show ?thesis using read_shared_inv [OF assms(2), of n block "[]"] by (simp add: read_items_def)
next
  case (resume_read i got0 n r got ch ns ts)
  then have "thread_ok (ReadReady got0 n)" using assms(2) by (metis nth_mem shared_inv_def)
  then show ?thesis using resume_read read_shared_inv [OF assms(2)] by simp
next
  case (call_close i ch ns ts)
  then show ?thesis
    using assms(2) notifies_ok [OF call_close(6)]
    by (auto simp: shared_inv_def close_def channel_inv_def split: if_splits)
next
  case (spurious_wake i)
  then show ?thesis
    using assms(2) set_update_ok [of "sh_threads s" thread_ok "wake (sh_threads s ! i)" i]
    by (simp add: shared_inv_def)
qed

lemma channel_run_inv: "channel_run s ls s' \<Longrightarrow> shared_inv s \<Longrightarrow> shared_inv s'"
  by (induction rule: channel_run.induct) (auto intro: channel_step_inv)

lemma shared_init_inv: "channel_inv ch \<Longrightarrow> ch_items ch = [] \<Longrightarrow> shared_inv (shared_init ch n)"
  by (simp add: shared_inv_def shared_init_def)

section \<open>Wake-ups\<close>

lemma notify_length: "notify a ts ts' \<Longrightarrow> length ts' = length ts"
  by (erule notifyE) auto

lemma notifies_length: "notifies ns ts ts' \<Longrightarrow> length ts' = length ts"
  by (induction rule: notifies.induct) (simp_all add: notify_length)

lemma notify_nth: "notify a ts ts' \<Longrightarrow> i < length ts \<Longrightarrow> \<not> notified a (ts ! i) \<Longrightarrow> ts' ! i = ts ! i"
  by (erule notifyE) (auto simp: nth_list_update)

lemma notified_parked: "notified a t \<Longrightarrow> parked_putter t \<or> parked_getter t"
  by (cases a) auto

lemma notifies_nth:
  assumes "notifies ns ts ts'" and "i < length ts" and "\<not> parked_putter (ts ! i)" and "\<not> parked_getter (ts ! i)"
  shows "ts' ! i = ts ! i"
  using assms
proof (induction rule: notifies.induct)
  case (notifies_Cons a ts ts1 as ts2)
  then have "ts1 ! i = ts ! i" using notify_nth notified_parked by blast
  then show ?case using notifies_Cons notify_length by metis
qed simp

lemma notify_other:
  assumes "notify a ts ts'" and "\<And>t. notified a t \<Longrightarrow> Q (wake t) = Q t"
  shows "number Q ts' = number Q ts"
  using assms(1)
proof (cases rule: notify.cases)
  case (signal_one j)
  then show ?thesis using number_update [OF signal_one(3), of Q "wake (ts ! j)"] assms(2) by simp
next
  case broadcast
  have "filter Q (map (\<lambda>t. if notified a t then wake t else t) us)
      = map (\<lambda>t. if notified a t then wake t else t) (filter Q us)" for us
    using assms(2) by (induction us) auto
  then show ?thesis using broadcast by (simp add: number_def)
qed simp

lemma notifies_other:
  assumes "notifies ns ts ts'" and "\<And>a t. a \<in> set ns \<Longrightarrow> notified a t \<Longrightarrow> Q (wake t) = Q t"
  shows "number Q ts' = number Q ts"
  using assms
proof (induction rule: notifies.induct)
  case (notifies_Cons a ts ts1 as ts2)
  have "number Q ts1 = number Q ts" by (rule notify_other [OF notifies_Cons(1)], rule notifies_Cons(4) [of a]) simp_all
  moreover have "number Q ts2 = number Q ts1" by (rule notifies_Cons(3), rule notifies_Cons(4)) auto
  ultimately show ?case by simp
qed simp

text \<open>\<open>k\<close> signals make \<open>k\<close> of the parked threads ready, or all of them when there are fewer.\<close>

lemma notify_signal:
  assumes "notify a ts ts'" and "is_signal a" and "\<And>t. notified a t \<Longrightarrow> \<not> notified a (wake t) \<and> R (wake t) \<and> \<not> R t"
  shows "number (notified a) ts' = number (notified a) ts - 1"
    and "number R ts' = number R ts + min 1 (number (notified a) ts)"
proof -
  have "number (notified a) ts' = number (notified a) ts - 1
      \<and> number R ts' = number R ts + min 1 (number (notified a) ts)"
    using assms(1)
  proof (cases rule: notify.cases)
    case (signal_one j)
    then show ?thesis
      using number_update [OF signal_one(3), of R "wake (ts ! j)"] number_pos [of j ts "notified a"]
        number_update [OF signal_one(3), of "notified a" "wake (ts ! j)"] assms(3) by simp
  qed (use assms(2) number_zero [of ts "notified a"] in simp_all)
  then show "number (notified a) ts' = number (notified a) ts - 1"
    and "number R ts' = number R ts + min 1 (number (notified a) ts)" by auto
qed

lemma notifies_signals:
  assumes "notifies (replicate k a) ts ts'" and "is_signal a"
    and "\<And>t. notified a t \<Longrightarrow> \<not> notified a (wake t) \<and> R (wake t) \<and> \<not> R t"
  shows "number (notified a) ts' = number (notified a) ts - k
    \<and> number R ts' = number R ts + min k (number (notified a) ts)"
  using assms(1)
proof (induction k arbitrary: ts)
  case (Suc k)
  then obtain ts1 where n: "notify a ts ts1" "notifies (replicate k a) ts1 ts'"
    by (auto simp: notifies_Cons_iff)
  then show ?case
    using Suc.IH [OF n(2)] notify_signal [where R = R, OF n(1) assms(2,3)] by auto
qed simp

lemma notified_signal: "notified GettersSignal = parked_getter" "notified PuttersSignal = parked_putter"
  by auto

lemma parked_wake:
  "parked_getter t \<Longrightarrow> \<not> parked_getter (wake t) \<and> ready_getter (wake t) \<and> \<not> ready_getter t
     \<and> \<not> parked_putter (wake t) \<and> \<not> ready_putter (wake t) \<and> \<not> parked_putter t \<and> \<not> ready_putter t"
  "parked_putter t \<Longrightarrow> \<not> parked_putter (wake t) \<and> ready_putter (wake t) \<and> \<not> ready_putter t
     \<and> \<not> parked_getter (wake t) \<and> \<not> ready_getter (wake t) \<and> \<not> parked_getter t \<and> \<not> ready_getter t"
  by (cases t; simp)+

lemma getters_signals:
  assumes "notifies (replicate k GettersSignal) ts ts'"
  shows "number parked_getter ts' = number parked_getter ts - k"
    and "number ready_getter ts' = number ready_getter ts + min k (number parked_getter ts)"
    and "number parked_putter ts' = number parked_putter ts"
    and "number ready_putter ts' = number ready_putter ts"
proof -
  note w = parked_wake(1)
  have "number parked_getter ts' = number parked_getter ts - k
      \<and> number ready_getter ts' = number ready_getter ts + min k (number parked_getter ts)"
    using w by (intro notifies_signals [OF assms, unfolded notified_signal]) auto
  then show "number parked_getter ts' = number parked_getter ts - k"
    and "number ready_getter ts' = number ready_getter ts + min k (number parked_getter ts)" by auto
  show "number parked_putter ts' = number parked_putter ts"
    and "number ready_putter ts' = number ready_putter ts"
    by (rule notifies_other [OF assms]; simp add: w)+
qed

lemma putters_signals:
  assumes "notifies (replicate k PuttersSignal) ts ts'"
  shows "number parked_putter ts' = number parked_putter ts - k"
    and "number ready_putter ts' = number ready_putter ts + min k (number parked_putter ts)"
    and "number parked_getter ts' = number parked_getter ts"
    and "number ready_getter ts' = number ready_getter ts"
proof -
  note w = parked_wake(2)
  have "number parked_putter ts' = number parked_putter ts - k
      \<and> number ready_putter ts' = number ready_putter ts + min k (number parked_putter ts)"
    using w by (intro notifies_signals [OF assms, unfolded notified_signal]) auto
  then show "number parked_putter ts' = number parked_putter ts - k"
    and "number ready_putter ts' = number ready_putter ts + min k (number parked_putter ts)" by auto
  show "number parked_getter ts' = number parked_getter ts"
    and "number ready_getter ts' = number ready_getter ts"
    by (rule notifies_other [OF assms]; simp add: w)+
qed

text \<open>
  The wake-up invariant, for threads that write one item at a time: while a getter is parked there are
  at least as many ready getters as items, while a putter is parked at least as many ready putters as
  free slots, and nobody is parked once the channel is closed.
\<close>

fun single_thread :: "'a thread_state \<Rightarrow> bool" where
  "single_thread (WriteParked xs m) \<longleftrightarrow> length xs = 1"
| "single_thread (WriteReady xs m) \<longleftrightarrow> length xs = 1"
| "single_thread _ \<longleftrightarrow> True"

fun single_label :: "'a label \<Rightarrow> bool" where
  "single_label (CallWrite i xs block) \<longleftrightarrow> length xs \<le> 1"
| "single_label _ \<longleftrightarrow> True"

definition wakeups :: "'a shared \<Rightarrow> bool" where
  "wakeups s \<longleftrightarrow>
     (0 < number parked_getter (sh_threads s) \<longrightarrow> \<not> ch_is_closed (sh_channel s)
        \<and> length (ch_items (sh_channel s)) \<le> number ready_getter (sh_threads s))
   \<and> (0 < number parked_putter (sh_threads s) \<longrightarrow> \<not> ch_is_closed (sh_channel s)
        \<and> \<not> DYNAMIC (ch_buffer (sh_channel s))
        \<and> writable_length (ch_buffer (sh_channel s)) \<le> number ready_putter (sh_threads s))"

lemma single_thread_wake [simp]: "single_thread (wake t) = single_thread t"
  by (cases t) auto

lemmas notifies_single = notifies_all [where P = single_thread, OF _ single_thread_wake]

lemma write_wakeups:
  assumes "shared_inv s" and "wakeups s" and "length xs \<le> 1" and "m \<le> length xs"
    and w: "write_loop (sh_channel s) xs block m = (r, ch, ns)"
    and i: "i < length (sh_threads s)" and ns: "notifies ns (sh_threads s) ts"
    and t: "sh_threads s ! i = Idle \<or> sh_threads s ! i = WriteReady xs m \<and> block \<and> m < length xs"
  shows "wakeups (s\<lparr>sh_channel := ch, sh_threads := ts[i := after_write xs r], sh_sent := z\<rparr>)"
proof -
  let ?b = "ch_buffer (sh_channel s)" and ?b' = "ch_buffer ch" and ?x = "after_write xs r"
  have inv: "channel_inv (sh_channel s)" using assms(1) by (simp add: shared_inv_def)
  obtain k where k: "channel_inv ch" "ch_is_closed ch = ch_is_closed (sh_channel s)" "ns = replicate k GettersSignal"
    "ch_items ch = ch_items (sh_channel s) @ repeated k xs" "k + m \<le> length xs" "f_kind ?b' = f_kind ?b"
    "\<not> DYNAMIC ?b \<longrightarrow> buf_len ?b' = buf_len ?b"
    and e: "write_end (ch_is_closed (sh_channel s)) block ?b' (length xs) (k + m) r"
    using write_loop_spec [OF inv w assms(4)] by blast
  have c: "f_count ?b' = f_count ?b + k"
    using arg_cong [OF k(4), of length] k(5) assms(3) by (cases k) (auto simp: le_Suc_eq)
  have d: "DYNAMIC ?b' = DYNAMIC ?b" using k(6) by (simp add: DYNAMIC_def)
  have ti: "ts ! i = sh_threads s ! i" "i < length ts"
    using notifies_nth [OF ns i] notifies_length [OF ns] t i by auto
  note sg = getters_signals [OF ns [unfolded k(3)]]
  note up = number_update [OF ti(2), where x = ?x]
  have xg: "\<not> parked_getter ?x" "\<not> ready_getter ?x" "\<not> ready_putter ?x"
    by (cases r; simp)+
  have get: "length (ch_items ch) \<le> number ready_getter (ts[i := ?x])" "\<not> ch_is_closed ch"
    if "0 < number parked_getter (ts[i := ?x])"
  proof -
    have "k < number parked_getter (sh_threads s)"
      using that up [of parked_getter] sg(1) xg(1) ti(1) t by (auto split: if_splits)
    then show "length (ch_items ch) \<le> number ready_getter (ts[i := ?x])" "\<not> ch_is_closed ch"
      using assms(2) up [of ready_getter] sg(2) xg(2) ti(1) t c k(2) by (auto simp: wakeups_def)
  qed
  have put: "\<not> ch_is_closed ch \<and> \<not> DYNAMIC ?b' \<and> writable_length ?b' \<le> number ready_putter (ts[i := ?x])"
    if "0 < number parked_putter (ts[i := ?x])"
  proof (cases r)
    case (Waiting v)
    then have "\<not> fifo_room ?b' (length xs)" "\<not> DYNAMIC ?b'" "\<not> ch_is_closed ch" "length xs = 1"
      using e k(2) assms(3) by auto
    then show ?thesis by (simp add: fifo_room_def)
  next
    case (Finished v)
    then have "number parked_putter (sh_threads s) > 0"
      using that up [of parked_putter] sg(3) ti(1) t by (auto split: if_splits)
    then have o: "\<not> ch_is_closed (sh_channel s)" "\<not> DYNAMIC ?b"
      "writable_length ?b \<le> number ready_putter (sh_threads s)"
      using assms(2) by (auto simp: wakeups_def)
    have "writable_length ?b' = writable_length ?b - k" using o(2) k(7) c by (simp add: writable_length_def)
    moreover have "0 < k" if "sh_threads s ! i = WriteReady xs m"
    proof (cases v)
      case (Inl er)
      then show ?thesis using e o d Finished by (cases er) auto
    qed (use e t that Finished in auto)
    ultimately show ?thesis
      using o d k(2) up [of ready_putter] sg(4) ti(1) t xg(3) by auto
  qed (use e in simp)
  show ?thesis using get put by (auto simp: wakeups_def)
qed

lemma read_wakeups:
  assumes "shared_inv s" and "wakeups s" and "length got0 \<le> n"
    and w: "read_loop (sh_channel s) n block got0 = (r, got, ch, ns)"
    and i: "i < length (sh_threads s)" and ns: "notifies ns (sh_threads s) ts"
    and t: "sh_threads s ! i = Idle \<or> sh_threads s ! i = ReadReady got0 n \<and> block \<and> length got0 < n"
  shows "wakeups (s\<lparr>sh_channel := ch, sh_threads := ts[i := after_read got n r], sh_received := z\<rparr>)"
proof -
  let ?b = "ch_buffer (sh_channel s)" and ?b' = "ch_buffer ch" and ?x = "after_read got n r"
  have inv: "channel_inv (sh_channel s)" using assms(1) by (simp add: shared_inv_def)
  obtain k where k: "channel_inv ch" "ch_is_closed ch = ch_is_closed (sh_channel s)" "ns = replicate k PuttersSignal"
    "k \<le> length (ch_items (sh_channel s))" "ch_items ch = drop k (ch_items (sh_channel s))"
    "f_kind ?b' = f_kind ?b" "buf_len ?b' = buf_len ?b"
    and e: "read_end (ch_is_closed (sh_channel s)) block (length (ch_items ch)) n (k + length got0) r"
    using read_loop_spec [OF inv w assms(3)] by blast
  have c: "f_count ?b' = f_count ?b - k" "k \<le> f_count ?b"
    using arg_cong [OF k(5), of length] k(4) by simp_all
  have wl: "writable_length ?b' = writable_length ?b + k"
    using inv k(7) c by (simp add: writable_length_def channel_inv_def fifo_inv_def)
  have d: "DYNAMIC ?b' = DYNAMIC ?b" using k(6) by (simp add: DYNAMIC_def)
  have ti: "ts ! i = sh_threads s ! i" "i < length ts"
    using notifies_nth [OF ns i] notifies_length [OF ns] t i by auto
  note sg = putters_signals [OF ns [unfolded k(3)]]
  note up = number_update [OF ti(2), where x = ?x]
  have xp: "\<not> parked_putter ?x" "\<not> ready_putter ?x" "\<not> ready_getter ?x"
    by (cases r; simp)+
  have put: "\<not> ch_is_closed ch \<and> \<not> DYNAMIC ?b' \<and> writable_length ?b' \<le> number ready_putter (ts[i := ?x])"
    if "0 < number parked_putter (ts[i := ?x])"
  proof -
    have "k < number parked_putter (sh_threads s)"
      using that up [of parked_putter] sg(1) xp(1) ti(1) t by (auto split: if_splits)
    then show ?thesis
      using assms(2) up [of ready_putter] sg(2) xp(2) ti(1) t wl d k(2) by (auto simp: wakeups_def)
  qed
  have get: "\<not> ch_is_closed ch \<and> length (ch_items ch) \<le> number ready_getter (ts[i := ?x])"
    if "0 < number parked_getter (ts[i := ?x])"
  proof (cases r)
    case (Waiting v)
    then show ?thesis using e k(2) by simp
  next
    case (Finished v)
    then have "number parked_getter (sh_threads s) > 0"
      using that up [of parked_getter] sg(3) ti(1) t by (auto split: if_splits)
    then have o: "\<not> ch_is_closed (sh_channel s)" "f_count ?b \<le> number ready_getter (sh_threads s)"
      using assms(2) by (auto simp: wakeups_def)
    have "0 < k" if "sh_threads s ! i = ReadReady got0 n"
    proof (cases v)
      case (Inl er)
      then show ?thesis using e o Finished by (cases er) auto
    qed (use e t that Finished in auto)
    then show ?thesis
      using o k(2) c up [of ready_getter] sg(4) ti(1) t xp(3) by auto
  qed (use e in simp)
  show ?thesis using get put by (auto simp: wakeups_def)
qed

lemma close_wakeups:
  assumes "wakeups s" and "close (sh_channel s) = (ch, ns)" and ns: "notifies ns (sh_threads s) ts"
  shows "wakeups (s\<lparr>sh_channel := ch, sh_threads := ts\<rparr>)"
proof (cases "ch_is_closed (sh_channel s)")
  case True
  then show ?thesis using assms by (simp add: close_def wakeups_def)
next
  case False
  then have c: "ns = [PuttersBroadcast, GettersBroadcast]" using assms(2) by (simp add: close_def)
  obtain ts1 where n: "notify PuttersBroadcast (sh_threads s) ts1" "notify GettersBroadcast ts1 ts"
    using ns c by (auto simp: notifies_Cons_iff)
  have "\<not> parked_putter t \<and> \<not> parked_getter t" if "t \<in> set ts" for t
    using n that by (auto elim!: notifyE dest: parked_wake)
  then show ?thesis by (simp add: wakeups_def number_zero)
qed

lemma spurious_wakeups:
  assumes "wakeups s" and "i < length (sh_threads s)"
    and "parked_putter (sh_threads s ! i) \<or> parked_getter (sh_threads s ! i)"
  shows "wakeups (s\<lparr>sh_threads := (sh_threads s)[i := wake (sh_threads s ! i)]\<rparr>)"
proof -
  note up = number_update [OF assms(2), where x = "wake (sh_threads s ! i)"]
  have pk: "number P ((sh_threads s)[i := wake (sh_threads s ! i)]) \<le> number P (sh_threads s)"
    if "\<not> P (wake (sh_threads s ! i))" for P
    using up [of P] that by simp
  have rd: "number P (sh_threads s) \<le> number P ((sh_threads s)[i := wake (sh_threads s ! i)])"
    if "\<not> P (sh_threads s ! i)" for P
    using up [of P] that by simp
  show ?thesis
    using assms(1) assms(3) parked_wake [of "sh_threads s ! i"] pk [of parked_getter] pk [of parked_putter]
      rd [of ready_getter] rd [of ready_putter]
    by (auto simp: wakeups_def)
qed

definition single_inv :: "'a shared \<Rightarrow> bool" where
  "single_inv s \<longleftrightarrow> shared_inv s \<and> wakeups s \<and> (\<forall>t\<in>set (sh_threads s). single_thread t)"

lemma after_write_single: "write_end c b f n m r \<Longrightarrow> n = length xs \<Longrightarrow> n \<le> 1 \<Longrightarrow> single_thread (after_write xs r)"
  by (cases r) auto

lemma after_read_single: "single_thread (after_read got n r)"
  by (cases r) auto

lemma channel_step_single:
  assumes "channel_step s l s'" and "single_label l" and "single_inv s"
  shows "single_inv s'"
proof -
  have s: "shared_inv s" "wakeups s" "\<forall>t\<in>set (sh_threads s). single_thread t" "channel_inv (sh_channel s)"
    using assms(3) by (auto simp: single_inv_def shared_inv_def)
  have "wakeups s' \<and> (\<forall>t\<in>set (sh_threads s'). single_thread t)"
    using assms(1)
  proof (cases rule: channel_step.cases)
    case (call_write i xs block r ch ns ts)
    note w = call_write(5) [unfolded write_items_def]
    have l: "length xs \<le> 1" using assms(2) call_write(1) by simp
    obtain k where "write_end (ch_is_closed (sh_channel s)) block (ch_buffer ch) (length xs) (k + 0) r"
      using write_loop_spec [OF s(4) w le0] by blast
    then show ?thesis
      using call_write(2) write_wakeups [OF s(1,2) l _ w call_write(3,6)] call_write(4)
        set_update_ok [OF notifies_single [OF call_write(6) s(3)] after_write_single [OF _ refl l]] by simp
  next
    case (resume_write i xs m r ch ns ts)
    have t: "WriteReady xs m \<in> set (sh_threads s)" using resume_write(3,4) by (metis nth_mem)
    then have l: "length xs \<le> 1" "m < length xs" using s(1,3) by (force simp: shared_inv_def)+
    obtain k where "write_end (ch_is_closed (sh_channel s)) True (ch_buffer ch) (length xs) (k + m) r"
      using write_loop_spec [OF s(4) resume_write(5) less_imp_le [OF l(2)]] by blast
    then show ?thesis
      using resume_write(2) write_wakeups [OF s(1,2) l(1) _ resume_write(5,3,6)] resume_write(4) l(2)
        set_update_ok [OF notifies_single [OF resume_write(6) s(3)] after_write_single [OF _ refl l(1)]] by simp
  next
    case (call_read i n block r got ch ns ts)
    then show ?thesis
      using read_wakeups [OF s(1,2) _ call_read(5) [unfolded read_items_def] call_read(3,6)]
        set_update_ok [OF notifies_single [OF call_read(6) s(3)] after_read_single] by simp
  next
    case (resume_read i got0 n r got ch ns ts)
    have "ReadReady got0 n \<in> set (sh_threads s)" using resume_read(3,4) by (metis nth_mem)
    then have "length got0 < n" using s(1) by (force simp: shared_inv_def)
    then show ?thesis
      using resume_read(2,4) read_wakeups [OF s(1,2) _ resume_read(5,3,6)]
        set_update_ok [OF notifies_single [OF resume_read(6) s(3)] after_read_single] by simp
  next
    case (call_close i ch ns ts)
    then show ?thesis using close_wakeups [OF s(2)] notifies_single [OF call_close(6) s(3)] by simp
  next
    case (spurious_wake i)
    have w: "single_thread (wake (sh_threads s ! i))" using s(3) spurious_wake(3) by simp
    show ?thesis
      using spurious_wake(2) spurious_wakeups [OF s(2) spurious_wake(3,4)] set_update_ok [OF s(3) w, of i] by simp
  qed
  then show ?thesis using channel_step_inv [OF assms(1) s(1)] by (simp add: single_inv_def)
qed

lemma channel_run_single:
  "channel_run s ls s' \<Longrightarrow> \<forall>l\<in>set ls. single_label l \<Longrightarrow> single_inv s \<Longrightarrow> single_inv s'"
  by (induction rule: channel_run.induct) (auto intro: channel_step_single)

lemma shared_init_single: "channel_inv ch \<Longrightarrow> ch_items ch = [] \<Longrightarrow> single_inv (shared_init ch n)"
  using shared_init_inv [of ch n]
  by (auto simp: single_inv_def wakeups_def shared_init_def number_def)

lemma write_one:
  assumes "channel_inv ch"
  shows "write_loop ch [x] block 0 =
    (if ch_is_closed ch then (Finished (Inl Closed), ch, [])
     else case fifo_write (ch_buffer ch) [x] of
       Inr b \<Rightarrow> (Finished (Inr 1), ch\<lparr>ch_buffer := b\<rparr>, [GettersSignal])
     | Inl e \<Rightarrow>
         if DYNAMIC (ch_buffer ch) then (Finished (Inl OutOfMemory), ch, [])
         else if block then (Waiting 0, ch, []) else (Finished (Inr 0), ch, []))"
proof -
  have "write_loop c [x] block 1 = (Finished (Inr 1), c, [])" for c :: "'a channel"
    by (simp add: write_loop.simps)
  moreover have "fifo_write (ch_buffer ch) [x] \<noteq> Inl Diverges"
    by (rule linear_fifo.push_cases [of "ch_buffer ch" "[x]"]) (use assms in \<open>simp_all add: channel_inv_def\<close>)
  ultimately show ?thesis
    by (subst write_loop.simps) (auto split: sum.splits fifo_error.splits)
qed

lemma read_one:
  assumes "channel_inv ch"
  shows "read_loop ch 1 block [] =
    (case ch_items ch of
       [] \<Rightarrow> (if ch_is_closed ch then Finished (Inl Closed) else if block then Waiting 0 else Finished (Inr 0), [], ch, [])
     | x # _ \<Rightarrow> (Finished (Inr 1), [x], ch\<lparr>ch_buffer := discard (ch_buffer ch) 1\<rparr>, [PuttersSignal]))"
proof -
  have "read_loop c 1 block [x] = (Finished (Inr 1), [x], c, [])" for c :: "'a channel" and x
    by (simp add: read_loop.simps)
  moreover have "(readable_length (ch_buffer ch) = 0) = (ch_items ch = [])"
    using length_contents [of "ch_buffer ch"] by (auto simp: readable_length_def simp del: length_contents)
  ultimately show ?thesis
    using read_item_refines [of "ch_buffer ch"] assms
    by (subst read_loop.simps) (auto simp: channel_inv_def split: list.splits)
qed

text \<open>A channel over four slots, for the concrete runs below.\<close>

definition four_slots :: "nat list \<Rightarrow> nat \<Rightarrow> nat \<Rightarrow> nat channel" where
  "four_slots buf head count =
     \<lparr>ch_buffer = \<lparr>f_kind = SliceBuffer, f_buf = buf, f_head = head, f_count = count, f_tsize = 8, f_junk = 0\<rparr>,
      ch_is_closed = False\<rparr>"

lemma four_slots_ok: "channel_inv (four_slots [0, 0, 0, 0] 0 0)" "ch_items (four_slots [0, 0, 0, 0] 0 0) = []"
  by (simp_all add: four_slots_def channel_inv_def fifo_inv_def PAGE_SIZE_MIN_def buf_len_def POWERS_OF_TWO_def
      contents_def)

lemma park_readers:
  "channel_run (shared_init (four_slots [0, 0, 0, 0] 0 0) 4) [CallRead 0 1 True, CallRead 1 1 True, CallRead 2 1 True]
     \<lparr>sh_channel = four_slots [0, 0, 0, 0] 0 0, sh_threads = [ReadParked [] 1, ReadParked [] 1, ReadParked [] 1, Idle],
      sh_sent = [], sh_received = []\<rparr>"
proof -
  have w: "read_items (four_slots [0, 0, 0, 0] 0 0) 1 True = (Waiting 0, [], four_slots [0, 0, 0, 0] 0 0, [])"
    by code_simp
  let ?s = "\<lambda>ts. \<lparr>sh_channel = four_slots [0, 0, 0, 0] 0 0, sh_threads = ts, sh_sent = [], sh_received = []\<rparr>"
  let ?p = "ReadParked [] 1"
  have step: "channel_step (?s ts) (CallRead i 1 True) (?s (ts[i := ?p]))" if "i < length ts" "ts ! i = Idle" for ts i
    using channel_step.call_read [of i "?s ts" 1 True "Waiting 0" "[]" "four_slots [0, 0, 0, 0] 0 0" "[]" ts] that w
    by simp
  have init: "shared_init (four_slots [0, 0, 0, 0] 0 0) 4 = ?s [Idle, Idle, Idle, Idle]"
    by (simp add: shared_init_def numeral_eq_Suc)
  have "channel_run (?s [Idle, Idle, Idle, Idle]) [CallRead 0 1 True] (?s [?p, Idle, Idle, Idle])"
    using run_snoc [OF run_Nil step [of 0 "[Idle, Idle, Idle, Idle]"]] by simp
  then have "channel_run (?s [Idle, Idle, Idle, Idle]) [CallRead 0 1 True, CallRead 1 1 True] (?s [?p, ?p, Idle, Idle])"
    using run_snoc [OF _ step [of 1 "[?p, Idle, Idle, Idle]"]] by fastforce
  then show ?thesis
    using run_snoc [OF _ step [of 2 "[?p, ?p, Idle, Idle]"]] unfolding init by fastforce
qed

text \<open>Then the fourth thread writes two items, and the two readers it woke up run.\<close>

lemma write_two_wake_two:
  "channel_run (shared_init (four_slots [0, 0, 0, 0] 0 0) 4)
     [CallRead 0 1 True, CallRead 1 1 True, CallRead 2 1 True, CallWrite 3 [1, 2] False, ResumeRead 0, ResumeRead 1]
     \<lparr>sh_channel = four_slots [1, 2, 1, 2] 2 2, sh_threads = [Idle, Idle, ReadParked [] 1, Idle],
      sh_sent = [1, 2, 1, 2], sh_received = [1, 2]\<rparr>"
proof -
  let ?s = "\<lambda>ch ts got. \<lparr>sh_channel = ch, sh_threads = ts, sh_sent = [1, 2, 1, 2], sh_received = got\<rparr>"
  let ?p = "ReadParked [] 1 :: nat thread_state" and ?r = "ReadReady [] 1 :: nat thread_state"
  let ?g = "GettersSignal" and ?c = "\<lambda>h n. four_slots [1, 2, 1, 2] h n"
  have "notify ?g [?p, ?p, ?p, Idle] [?r, ?p, ?p, Idle]" "notify ?g [?r, ?p, ?p, Idle] [?r, ?r, ?p, Idle]"
    using notify.signal_one [of ?g 0 "[?p, ?p, ?p, Idle]"] notify.signal_one [of ?g 1 "[?r, ?p, ?p, Idle]"] by simp_all
  then have n: "notifies [?g, ?g] [?p, ?p, ?p, Idle] [?r, ?r, ?p, Idle]"
    by (auto simp: notifies_Cons_iff)
  have q: "notifies [PuttersSignal] ts ts" if "\<forall>t\<in>set ts. \<not> parked_putter t" for ts :: "nat thread_state list"
    using that by (auto simp: notifies_Cons_iff intro: notify.signal_none)
  have w: "write_items (four_slots [0, 0, 0, 0] 0 0) [1, 2] False = (Finished (Inr 2), ?c 0 4, [?g, ?g])"
    by code_simp
  have r: "read_loop (?c 0 4) 1 True [] = (Finished (Inr 1), [1], ?c 1 3, [PuttersSignal])"
    "read_loop (?c 1 3) 1 True [] = (Finished (Inr 1), [2], ?c 2 2, [PuttersSignal])"
    by code_simp+
  have "channel_run (shared_init (four_slots [0, 0, 0, 0] 0 0) 4)
     [CallRead 0 1 True, CallRead 1 1 True, CallRead 2 1 True, CallWrite 3 [1, 2] False] (?s (?c 0 4) [?r, ?r, ?p, Idle] [])"
    using run_snoc [OF park_readers channel_step.call_write [of 3 _ "[1, 2]" False "Finished (Inr 2)" "?c 0 4" "[?g, ?g]"
        "[?r, ?r, ?p, Idle]"]] w n by simp
  moreover have "channel_step (?s (?c 0 4) [?r, ?r, ?p, Idle] []) (ResumeRead 0) (?s (?c 1 3) [Idle, ?r, ?p, Idle] [1])"
    using channel_step.resume_read [of 0 "?s (?c 0 4) [?r, ?r, ?p, Idle] []"] r(1) q [of "[?r, ?r, ?p, Idle]"] by fastforce
  moreover have "channel_step (?s (?c 1 3) [Idle, ?r, ?p, Idle] [1]) (ResumeRead 1) (?s (?c 2 2) [Idle, Idle, ?p, Idle] [1, 2])"
    using channel_step.resume_read [of 1 "?s (?c 1 3) [Idle, ?r, ?p, Idle] [1]"] r(2) q [of "[Idle, ?r, ?p, Idle]"] by fastforce
  ultimately show ?thesis
    using run_snoc [OF run_snoc] by fastforce
qed

section \<open>Properties\<close>

text \<open>
  C32. In every interleaving of writers, readers and \<open>close\<close> calls, with any wake-ups, the items given to
  the channel's buffer are exactly those the readers took followed by those still in it: nothing is
  lost, invented or reordered.
\<close>

theorem channel_first_in_first_out:
  assumes "channel_inv ch" and "ch_items ch = []" and "channel_run (shared_init ch n) ls s"
  shows "sh_sent s = sh_received s @ ch_items (sh_channel s) \<and> channel_inv (sh_channel s)"
  using channel_run_inv [OF assms(3) shared_init_inv [OF assms(1,2)]] by (simp add: shared_inv_def)

theorem channel_first_in_first_out_witness:
  "[1, 2, 1, 2] = [1, 2] @ ch_items (four_slots [1, 2, 1, 2] 2 2)"
  using channel_first_in_first_out [OF four_slots_ok write_two_wake_two] by simp

text \<open>
  C33. No wake-up is lost while every write is of one item: a reader is never left parked beside an item
  with no reader about to run, a writer never beside a free slot with no writer about to run, and
  nobody stays parked once the channel is closed.
\<close>

theorem channel_no_lost_wakeup:
  assumes "channel_inv ch" and "ch_items ch = []" and "channel_run (shared_init ch n) ls s"
    and "\<forall>l\<in>set ls. single_label l"
  shows "((\<exists>t\<in>set (sh_threads s). parked_getter t) \<longrightarrow> \<not> ch_is_closed (sh_channel s)
      \<and> (ch_items (sh_channel s) \<noteq> [] \<longrightarrow> (\<exists>t\<in>set (sh_threads s). ready_getter t)))
    \<and> ((\<exists>t\<in>set (sh_threads s). parked_putter t) \<longrightarrow> \<not> ch_is_closed (sh_channel s)
      \<and> (0 < writable_length (ch_buffer (sh_channel s)) \<longrightarrow> (\<exists>t\<in>set (sh_threads s). ready_putter t)))"
  using channel_run_single [OF assms(3,4) shared_init_single [OF assms(1,2)]]
  unfolding single_inv_def wakeups_def number_exists [symmetric]
  by (auto simp: number_def simp flip: length_greater_0_conv)

theorem channel_no_lost_wakeup_witness:
  "\<not> ch_is_closed (four_slots [0, 0, 0, 0] 0 0)"
  using channel_no_lost_wakeup [OF four_slots_ok park_readers] by simp

text \<open>
  \<open>try_write_item\<close> on every branch: a closed channel refuses, a full fixed buffer answers
  \<open>false\<close>, an allocation that cannot grow is out of memory, and otherwise the item is appended and one
  reader is notified.
\<close>

theorem try_write_item_contract:
  assumes "channel_inv ch" and "try_write_item ch x = (r, ch', ns)"
  shows "channel_inv ch' \<and>
    (if ch_is_closed ch then r = Finished (Inl Closed) \<and> ch' = ch \<and> ns = []
     else if fifo_room (ch_buffer ch) 1 then
       r = Finished (Inr True) \<and> ch_items ch' = ch_items ch @ [x] \<and> ns = [GettersSignal]
     else ch' = ch \<and> ns = [] \<and>
       r = (if DYNAMIC (ch_buffer ch) then Finished (Inl OutOfMemory) else Finished (Inr False)))"
proof -
  have "fifo_inv (ch_buffer ch)" using assms(1) by (simp add: channel_inv_def)
  then show ?thesis
    using assms
    by (cases rule: linear_fifo.push_cases [where xs = "[x]"])
      (auto simp: try_write_item_def channel_write_def write_items_def write_one channel_inv_def split: if_splits)
qed

theorem try_write_item_contract_witness:
  "fst (try_write_item ((four_slots [7, 8, 0, 0] 0 2)\<lparr>ch_is_closed := True\<rparr>) 9) = Finished (Inl Closed)"
proof -
  let ?ch = "(four_slots [7, 8, 0, 0] 0 2)\<lparr>ch_is_closed := True\<rparr>"
  obtain r ch' ns where w: "try_write_item ?ch 9 = (r, ch', ns)" by (metis prod_cases3)
  have "channel_inv ?ch" "ch_is_closed ?ch"
    by (simp_all add: four_slots_def channel_inv_def fifo_inv_def PAGE_SIZE_MIN_def buf_len_def POWERS_OF_TWO_def)
  then show ?thesis using try_write_item_contract [OF _ w] w by simp
qed

text \<open>
  \<open>try_read_item\<close> on every branch: the oldest item is returned, also after \<open>close\<close>, and one
  writer is notified; an empty open channel has nothing, an empty closed one reports \<open>Closed\<close>.
\<close>

theorem try_read_item_contract:
  assumes "channel_inv ch" and "try_read_item ch = (r, ch', ns)"
  shows "channel_inv ch' \<and>
    (case ch_items ch of
       [] \<Rightarrow> ch' = ch \<and> ns = [] \<and> r = (if ch_is_closed ch then Finished (Inl Closed) else Finished (Inr None))
     | x # xs \<Rightarrow> r = Finished (Inr (Some x)) \<and> ch_items ch' = xs \<and> ns = [PuttersSignal])"
proof -
  have i: "fifo_inv (ch_buffer ch)" using assms(1) by (simp add: channel_inv_def)
  have "0 < f_count (ch_buffer ch)" if "ch_items ch = y # ys" for y ys
    using that by (metis length_contents length_greater_0_conv list.distinct(1))
  then show ?thesis
    using assms discard_refines [OF i, of 1]
    by (auto simp: try_read_item_def channel_read_def read_items_def read_one [OF assms(1), simplified] channel_inv_def
        split: list.splits if_splits)
qed

theorem try_read_item_contract_witness:
  "fst (try_read_item ((four_slots [7, 8, 0, 0] 0 2)\<lparr>ch_is_closed := True\<rparr>)) = Finished (Inr (Some 7))"
proof -
  let ?ch = "(four_slots [7, 8, 0, 0] 0 2)\<lparr>ch_is_closed := True\<rparr>"
  obtain r ch' ns where w: "try_read_item ?ch = (r, ch', ns)" by (metis prod_cases3)
  have "channel_inv ?ch" "ch_items ?ch = [7, 8]"
    by (simp_all add: four_slots_def channel_inv_def fifo_inv_def PAGE_SIZE_MIN_def buf_len_def POWERS_OF_TWO_def
        contents_def upt_rec)
  then show ?thesis using try_read_item_contract [OF _ w] w by simp
qed

text \<open>
  Writing a slice of \<open>n\<close> items with room for \<open>n * n\<close> answers \<open>n\<close> but appends the whole slice \<open>n\<close>
  times: every round of the loop passes all of \<open>items\<close> to the buffer.
\<close>

theorem channel_write_repeats_slice:
  assumes "channel_inv ch" and "\<not> ch_is_closed ch" and "channel_write ch xs = (r, ch', ns)"
    and "if DYNAMIC (ch_buffer ch) then f_count (ch_buffer ch) + length xs * length xs \<le> 2 ^ 63
         else length xs * length xs \<le> writable_length (ch_buffer ch)"
  shows "r = Finished (Inr (length xs)) \<and> ch_items ch' = ch_items ch @ concat (replicate (length xs) xs)"
proof -
  let ?b = "ch_buffer ch" and ?b' = "ch_buffer ch'" and ?n = "length xs"
  obtain k where k: "ch_items ch' = ch_items ch @ repeated k xs" "k \<le> ?n" "f_kind ?b' = f_kind ?b"
    "\<not> DYNAMIC ?b \<longrightarrow> buf_len ?b' = buf_len ?b" and e: "write_end False False ?b' ?n k r"
    using write_loop_spec [OF assms(1) assms(3) [unfolded channel_write_def write_items_def] le0] assms(2) by auto
  have c: "f_count ?b' = f_count ?b + k * ?n"
    using arg_cong [OF k(1), of length] by (simp add: repeated_def length_concat sum_list_replicate)
  have "fifo_room ?b' ?n" if "k < ?n"
  proof -
    have "k * ?n + ?n \<le> ?n * ?n"
      using mult_le_mono1 [of "Suc k" ?n ?n] that by simp
    then show ?thesis
      using assms(4) c k(3,4) by (auto simp: fifo_room_def writable_length_def DYNAMIC_def split: if_splits)
  qed
  then have "r = Finished (Inr ?n) \<and> k = ?n"
    using e le_neq_implies_less [OF k(2)] by (cases "(False, False, ?b', ?n, k, r)" rule: write_end.cases) auto
  then show ?thesis using k(1) by (simp add: repeated_def)
qed

theorem channel_write_repeats_slice_witness:
  "\<exists>ch' ns. channel_write (channel_init_dynamic 1 (CHR ''?'')) ''ab'' = (Finished (Inr 2), ch', ns)
     \<and> ch_items ch' = ''abab''"
proof -
  let ?ch = "channel_init_dynamic 1 (CHR ''?'')"
  obtain r ch' ns where w: "channel_write ?ch ''ab'' = (r, ch', ns)" by (metis prod_cases3)
  have i: "channel_inv ?ch" "\<not> ch_is_closed ?ch" "DYNAMIC (ch_buffer ?ch)" "f_count (ch_buffer ?ch) = 0" "ch_items ?ch = []"
    by (auto simp: channel_init_dynamic_def with_buffer_def channel_inv_def fifo_inv_def fifo_init_dynamic_def
        DYNAMIC_def PAGE_SIZE_MIN_def buf_len_def contents_def)
  have "length ''ab'' = 2" "concat (replicate 2 ''ab'') = ''abab''" by (simp_all add: numeral_eq_Suc)
  then show ?thesis
    using channel_write_repeats_slice [OF i(1,2) w] i(3-5) w by simp
qed

text \<open>
  Reading more items than a closed channel holds fails with \<open>Closed\<close> although it took all of them
  out of the channel: the caller of \<open>read\<close> gets the error and not their number.
\<close>

theorem read_closed_consumes:
  assumes "channel_inv ch" and "ch_is_closed ch" and "length (ch_items ch) < n"
    and "channel_read ch n = (r, got, ch', ns)"
  shows "r = Finished (Inl Closed) \<and> got = ch_items ch \<and> ch_items ch' = []"
proof -
  obtain k where k: "k \<le> length (ch_items ch)" "got = take k (ch_items ch)" "ch_items ch' = drop k (ch_items ch)"
    and e: "read_end True False (length (ch_items ch')) n k r"
    using read_loop_spec [OF assms(1) assms(4) [unfolded channel_read_def read_items_def]] assms(2)
    by (auto simp del: length_contents)
  have "k < n" using k(1) assms(3) by simp
  then have "r = Finished (Inl Closed) \<and> length (ch_items ch') = 0"
    using e by (cases "(True, False, length (ch_items ch'), n, k, r)" rule: read_end.cases) auto
  then show ?thesis using k by (simp del: length_contents)
qed

theorem read_closed_consumes_witness:
  "\<exists>ch' ns. channel_read ((four_slots [7, 8, 0, 0] 0 2)\<lparr>ch_is_closed := True\<rparr>) 3
      = (Finished (Inl Closed), [7, 8], ch', ns) \<and> ch_items ch' = []"
proof -
  let ?ch = "(four_slots [7, 8, 0, 0] 0 2)\<lparr>ch_is_closed := True\<rparr>"
  obtain r got ch' ns where w: "channel_read ?ch 3 = (r, got, ch', ns)" by (metis prod_cases4)
  have i: "channel_inv ?ch" "ch_is_closed ?ch" "ch_items ?ch = [7, 8]"
    by (simp_all add: four_slots_def channel_inv_def fifo_inv_def PAGE_SIZE_MIN_def buf_len_def POWERS_OF_TWO_def
        contents_def upt_rec)
  show ?thesis
    using read_closed_consumes [OF i(1,2) _ w] i(3) w by (simp del: length_contents)
qed

text \<open>
  A write of two items can lose a wake-up: it fills the buffer with four items and wakes two of
  three waiting readers, and when those have taken one each the third stays parked beside two items,
  with nobody about to run.
\<close>

theorem multi_item_write_loses_wakeup:
  "\<exists>s. channel_run (shared_init (four_slots [0, 0, 0, 0] 0 0) 4)
       [CallRead 0 1 True, CallRead 1 1 True, CallRead 2 1 True, CallWrite 3 [1, 2] False, ResumeRead 0, ResumeRead 1] s
     \<and> sh_threads s = [Idle, Idle, ReadParked [] 1, Idle] \<and> ch_items (sh_channel s) = [1, 2]"
  using write_two_wake_two
  by (intro exI conjI) (assumption, simp_all add: four_slots_def contents_def buf_len_def upt_rec)

end
