(* ===== verification/Bit_Set.thy ===== *)
theory Bit_Set
  imports Bun_Prelude
begin

unbundle bit_operations_syntax

text \<open>
  The bit sets of \<open>src/src/collections/bit_set.rs\<close>: the helpers on words that they share, \<open>IntegerBitSet\<close>
  in one word, \<open>ArrayBitSet\<close> in a fixed number of words, and the iterator over a slice of words. A
  \<open>usize\<close> that holds bits is a word of 64, one that is an index a natural number.

  Debug assertions, which a release build does not have, are not part of the model; an index out of range
  of a slice is a panic, \<open>None\<close>.
\<close>

section \<open>Words\<close>

text \<open>The methods of \<open>usize\<close> that count bits.\<close>

definition count_ones :: "u64 \<Rightarrow> nat" where
  "count_ones w = length (filter (bit w) [0..<64])"

definition trailing_zeros :: "u64 \<Rightarrow> nat" where
  "trailing_zeros w = length (takeWhile (\<lambda>i. \<not> bit w i) [0..<64])"

definition leading_zeros :: "u64 \<Rightarrow> nat" where
  "leading_zeros w = length (takeWhile (\<lambda>i. \<not> bit w (63 - i)) [0..<64])"

definition bool_mask_usize :: "bool \<Rightarrow> u64" where
  "bool_mask_usize b = (if b then - 1 else 0)"

definition word_mask_bit :: "nat \<Rightarrow> u64" where
  "word_mask_bit index = push_bit (index mod 64) 1"

definition word_mask_index :: "nat \<Rightarrow> nat" where
  "word_mask_index index = index div 64"

definition num_masks_for :: "nat \<Rightarrow> nat" where
  "num_masks_for bit_length = (bit_length + 63) div 64"

text \<open>An indexed read-modify-write of a slice.\<close>

definition update_mask :: "u64 list \<Rightarrow> nat \<Rightarrow> (u64 \<Rightarrow> u64) \<Rightarrow> u64 list option" where
  "update_mask masks i f = (if i < length masks then Some (masks[i := f (masks ! i)]) else None)"

definition set_range_value_masks :: "u64 list \<Rightarrow> nat \<Rightarrow> nat \<Rightarrow> bool \<Rightarrow> u64 list option" where
  "set_range_value_masks masks start stop v =
     (if start = stop then Some masks
      else
        let start_mask_index = word_mask_index start; start_bit = start mod 64;
            end_mask_index = word_mask_index stop; end_bit = stop mod 64
        in
        if start_mask_index = end_mask_index then
          (if end_bit = 0 then None
           else
             update_mask masks start_mask_index (\<lambda>w.
               w AND NOT (push_bit start_bit (bool_mask_usize True)
                          AND drop_bit (63 - (end_bit - 1)) (bool_mask_usize True))
               OR (push_bit start_bit (bool_mask_usize v) AND drop_bit (63 - (end_bit - 1)) (bool_mask_usize v))))
        else
          (case (if 0 < start_bit then
                   map_option (\<lambda>masks. (masks, start_mask_index + 1))
                     (update_mask masks start_mask_index (\<lambda>w.
                       w AND NOT (push_bit start_bit (bool_mask_usize True)) OR push_bit start_bit (bool_mask_usize v)))
                 else Some (masks, start_mask_index)) of
             None \<Rightarrow> None
           | Some (masks, bulk_mask_index) \<Rightarrow>
               if bulk_mask_index \<le> end_mask_index \<and> end_mask_index \<le> length masks then
                 let masks = copy_at masks bulk_mask_index
                               (replicate (end_mask_index - bulk_mask_index) (bool_mask_usize v)) in
                 if 0 < end_bit then
                   update_mask masks end_mask_index (\<lambda>w.
                     w AND push_bit end_bit (bool_mask_usize True)
                     OR drop_bit (63 - (end_bit - 1)) (bool_mask_usize v))
                 else Some masks
               else None))"

section \<open>IntegerBitSet\<close>

text \<open>The set's value is its mask; its \<open>SIZE\<close> is a parameter.\<close>

definition FULL_MASK :: "nat \<Rightarrow> u64" where
  "FULL_MASK sz = (if 64 \<le> sz then - 1 else push_bit sz 1 - 1)"

definition Integer_init_empty :: u64 where
  "Integer_init_empty = 0"

definition Integer_init_full :: "nat \<Rightarrow> u64" where
  "Integer_init_full sz = FULL_MASK sz"

definition mask_bit :: "nat \<Rightarrow> nat \<Rightarrow> u64" where
  "mask_bit sz index = (if sz = 0 then 0 else push_bit index 1)"

definition Integer_is_set :: "nat \<Rightarrow> u64 \<Rightarrow> nat \<Rightarrow> bool" where
  "Integer_is_set sz m index \<longleftrightarrow> m AND mask_bit sz index \<noteq> 0"

definition Integer_count :: "u64 \<Rightarrow> nat" where
  "Integer_count m = count_ones m"

definition Integer_set_value :: "nat \<Rightarrow> u64 \<Rightarrow> nat \<Rightarrow> bool \<Rightarrow> u64" where
  "Integer_set_value sz m index v =
     (if sz = 0 then m
      else
        let b = mask_bit sz index; new_bit = b AND bool_mask_usize v in m AND NOT b OR new_bit)"

definition Integer_set :: "nat \<Rightarrow> u64 \<Rightarrow> nat \<Rightarrow> u64" where
  "Integer_set sz m index = m OR mask_bit sz index"

definition Integer_set_range_value :: "nat \<Rightarrow> u64 \<Rightarrow> nat \<Rightarrow> nat \<Rightarrow> bool \<Rightarrow> u64" where
  "Integer_set_range_value sz m start stop v =
     (if start = stop \<or> sz = 0 then m
      else
        let mk = push_bit start (bool_mask_usize True);
            mk = (if stop \<noteq> sz then mk AND drop_bit (64 - stop) (bool_mask_usize True) else mk);
            mk = mk AND FULL_MASK sz;
            m = m AND NOT mk;
            mk = push_bit start (bool_mask_usize v);
            mk = (if stop \<noteq> sz then mk AND drop_bit (64 - stop) (bool_mask_usize v) else mk);
            mk = mk AND FULL_MASK sz
        in m OR mk)"

definition Integer_unset :: "nat \<Rightarrow> u64 \<Rightarrow> nat \<Rightarrow> u64" where
  "Integer_unset sz m index = (if sz = 0 then m else m AND NOT (mask_bit sz index))"

definition Integer_toggle :: "nat \<Rightarrow> u64 \<Rightarrow> nat \<Rightarrow> u64" where
  "Integer_toggle sz m index = m XOR mask_bit sz index"

definition Integer_toggle_set :: "u64 \<Rightarrow> u64 \<Rightarrow> u64" where
  "Integer_toggle_set m toggles = m XOR toggles"

definition Integer_toggle_all :: "nat \<Rightarrow> u64 \<Rightarrow> u64" where
  "Integer_toggle_all sz m = NOT m AND FULL_MASK sz"

definition Integer_set_union :: "u64 \<Rightarrow> u64 \<Rightarrow> u64" where
  "Integer_set_union m other = m OR other"

definition Integer_set_intersection :: "u64 \<Rightarrow> u64 \<Rightarrow> u64" where
  "Integer_set_intersection m other = m AND other"

definition Integer_find_first_set :: "u64 \<Rightarrow> nat option" where
  "Integer_find_first_set m = (if m = 0 then None else Some (trailing_zeros m))"

definition Integer_find_first_unset :: "nat \<Rightarrow> u64 \<Rightarrow> nat option" where
  "Integer_find_first_unset sz m =
     (let mk = NOT m AND FULL_MASK sz in if mk = 0 then None else Some (trailing_zeros mk))"

definition Integer_toggle_first_set :: "u64 \<Rightarrow> (nat \<times> u64) option" where
  "Integer_toggle_first_set m =
     (if m = 0 then None else let index = trailing_zeros m in Some (index, m AND (m - 1)))"

definition Integer_eql :: "nat \<Rightarrow> u64 \<Rightarrow> u64 \<Rightarrow> bool" where
  "Integer_eql sz m other \<longleftrightarrow> sz = 0 \<or> m = other"

definition Integer_complement :: "nat \<Rightarrow> u64 \<Rightarrow> u64" where
  "Integer_complement sz m = Integer_toggle_all sz m"

definition Integer_union_with :: "u64 \<Rightarrow> u64 \<Rightarrow> u64" where
  "Integer_union_with m other = Integer_set_union m other"

definition Integer_intersect_with :: "u64 \<Rightarrow> u64 \<Rightarrow> u64" where
  "Integer_intersect_with m other = Integer_set_intersection m other"

definition Integer_subset_of :: "nat \<Rightarrow> u64 \<Rightarrow> u64 \<Rightarrow> bool" where
  "Integer_subset_of sz m other \<longleftrightarrow> Integer_eql sz (Integer_intersect_with m other) m"

definition Integer_superset_of :: "nat \<Rightarrow> u64 \<Rightarrow> u64 \<Rightarrow> bool" where
  "Integer_superset_of sz m other \<longleftrightarrow> Integer_subset_of sz other m"

definition Integer_xor_with :: "u64 \<Rightarrow> u64 \<Rightarrow> u64" where
  "Integer_xor_with m other = Integer_toggle_set m other"

definition Integer_difference_with :: "nat \<Rightarrow> u64 \<Rightarrow> u64 \<Rightarrow> u64" where
  "Integer_difference_with sz m other = Integer_set_intersection m (Integer_complement sz other)"

text \<open>\<open>SingleWordIterator\<close>: the bits that remain, the next one from below or from above.\<close>

definition Integer_iterator :: "nat \<Rightarrow> bool \<Rightarrow> u64 \<Rightarrow> u64" where
  "Integer_iterator sz kind_set m = (if kind_set then m else NOT m AND FULL_MASK sz)"

definition SingleWord_next :: "bool \<Rightarrow> u64 \<Rightarrow> (nat \<times> u64) option" where
  "SingleWord_next dir_fwd bits_remain =
     (if bits_remain = 0 then None
      else if dir_fwd then Some (trailing_zeros bits_remain, bits_remain AND (bits_remain - 1))
      else
        let top_bit = 63 - leading_zeros bits_remain in Some (top_bit, bits_remain AND (push_bit top_bit 1 - 1)))"

section \<open>Operations on slices of words\<close>

text \<open>
  The loops that \<open>ArrayBitSet\<close> and \<open>DynamicBitSetUnmanaged\<close> write out alike, on the words of the set.
\<close>

definition masks_is_set :: "u64 list \<Rightarrow> nat \<Rightarrow> bool option" where
  "masks_is_set masks index =
     (let i = word_mask_index index in
      if i < length masks then Some (masks ! i AND word_mask_bit index \<noteq> 0) else None)"

definition masks_count :: "u64 list \<Rightarrow> nat" where
  "masks_count masks = foldl (\<lambda>total w. total + count_ones w) 0 masks"

definition masks_set_value :: "u64 list \<Rightarrow> nat \<Rightarrow> bool \<Rightarrow> u64 list option" where
  "masks_set_value masks index v =
     (let b = word_mask_bit index; new_bit = b AND bool_mask_usize v in
      update_mask masks (word_mask_index index) (\<lambda>w. w AND NOT b OR new_bit))"

definition masks_set :: "u64 list \<Rightarrow> nat \<Rightarrow> u64 list option" where
  "masks_set masks index = update_mask masks (word_mask_index index) (\<lambda>w. w OR word_mask_bit index)"

definition masks_unset :: "u64 list \<Rightarrow> nat \<Rightarrow> u64 list option" where
  "masks_unset masks index = update_mask masks (word_mask_index index) (\<lambda>w. w AND NOT (word_mask_bit index))"

definition masks_toggle :: "u64 list \<Rightarrow> nat \<Rightarrow> u64 list option" where
  "masks_toggle masks index = update_mask masks (word_mask_index index) (\<lambda>w. w XOR word_mask_bit index)"

fun find_first_loop :: "u64 list \<Rightarrow> nat \<Rightarrow> nat option" where
  "find_first_loop [] offset = None"
| "find_first_loop (w # masks) offset =
     (if w \<noteq> 0 then Some (offset + trailing_zeros w) else find_first_loop masks (offset + 64))"

fun toggle_first_loop :: "u64 list \<Rightarrow> nat \<Rightarrow> (nat \<times> u64 list) option" where
  "toggle_first_loop [] offset = None"
| "toggle_first_loop (w # masks) offset =
     (if w \<noteq> 0 then Some (offset + trailing_zeros w, (w AND (w - 1)) # masks)
      else map_option (\<lambda>(index, masks). (index, w # masks)) (toggle_first_loop masks (offset + 64)))"

fun any_intersection :: "u64 list \<Rightarrow> u64 list \<Rightarrow> bool" where
  "any_intersection (a # as) (b # bs) = (a AND b \<noteq> 0 \<or> any_intersection as bs)"
| "any_intersection _ _ = False"

text \<open>The padding of the last word, cut off by a mask.\<close>

definition mask_last :: "u64 list \<Rightarrow> u64 \<Rightarrow> u64 list option" where
  "mask_last masks last_item_mask = update_mask masks (length masks - 1) (\<lambda>w. w AND last_item_mask)"

section \<open>ArrayBitSet\<close>

text \<open>A set is its list of words, of length \<open>num_masks_for SIZE\<close>, as the type asserts.\<close>

definition LAST_PAD_BITS :: "nat \<Rightarrow> nat" where
  "LAST_PAD_BITS sz = 64 * num_masks_for sz - sz"

definition LAST_ITEM_MASK :: "nat \<Rightarrow> u64" where
  "LAST_ITEM_MASK sz = drop_bit (LAST_PAD_BITS sz) (- 1)"

definition Array_init_empty :: "nat \<Rightarrow> u64 list" where
  "Array_init_empty sz = replicate (num_masks_for sz) 0"

definition Array_init_full :: "nat \<Rightarrow> u64 list" where
  "Array_init_full sz =
     (if num_masks_for sz = 0 then replicate (num_masks_for sz) 0
      else (replicate (num_masks_for sz) (- 1))[num_masks_for sz - 1 := LAST_ITEM_MASK sz])"

definition Array_is_set :: "u64 list \<Rightarrow> nat \<Rightarrow> bool option" where
  "Array_is_set masks index = (if masks = [] then Some False else masks_is_set masks index)"

definition Array_count :: "u64 list \<Rightarrow> nat" where
  "Array_count masks = masks_count masks"

definition Array_set_value :: "u64 list \<Rightarrow> nat \<Rightarrow> bool \<Rightarrow> u64 list option" where
  "Array_set_value masks index v = (if masks = [] then Some masks else masks_set_value masks index v)"

definition Array_set :: "u64 list \<Rightarrow> nat \<Rightarrow> u64 list option" where
  "Array_set masks index = (if masks = [] then Some masks else masks_set masks index)"

definition Array_set_range_value :: "u64 list \<Rightarrow> nat \<Rightarrow> nat \<Rightarrow> bool \<Rightarrow> u64 list option" where
  "Array_set_range_value masks start stop v =
     (if masks = [] then Some masks else set_range_value_masks masks start stop v)"

definition Array_unset :: "u64 list \<Rightarrow> nat \<Rightarrow> u64 list option" where
  "Array_unset masks index = (if masks = [] then Some masks else masks_unset masks index)"

definition Array_toggle :: "u64 list \<Rightarrow> nat \<Rightarrow> u64 list option" where
  "Array_toggle masks index = (if masks = [] then Some masks else masks_toggle masks index)"

definition Array_toggle_set :: "u64 list \<Rightarrow> u64 list \<Rightarrow> u64 list" where
  "Array_toggle_set masks toggles = map2 (XOR) masks toggles"

definition Array_toggle_all :: "nat \<Rightarrow> u64 list \<Rightarrow> u64 list option" where
  "Array_toggle_all sz masks =
     (if masks = [] then Some masks else mask_last (map NOT masks) (LAST_ITEM_MASK sz))"

definition Array_set_all :: "nat \<Rightarrow> u64 list \<Rightarrow> bool \<Rightarrow> u64 list option" where
  "Array_set_all sz masks v =
     (if masks = [] then Some masks
      else mask_last (replicate (length masks) (bool_mask_usize v)) (LAST_ITEM_MASK sz))"

definition Array_set_union :: "u64 list \<Rightarrow> u64 list \<Rightarrow> u64 list" where
  "Array_set_union masks other = map2 (OR) masks other"

definition Array_set_intersection :: "u64 list \<Rightarrow> u64 list \<Rightarrow> u64 list" where
  "Array_set_intersection masks other = map2 (AND) masks other"

definition Array_find_first_set :: "u64 list \<Rightarrow> nat option" where
  "Array_find_first_set masks = find_first_loop masks 0"

definition Array_toggle_first_set :: "u64 list \<Rightarrow> (nat \<times> u64 list) option" where
  "Array_toggle_first_set masks = toggle_first_loop masks 0"

definition Array_eql :: "u64 list \<Rightarrow> u64 list \<Rightarrow> bool" where
  "Array_eql masks other \<longleftrightarrow> list_all (\<lambda>i. masks ! i = other ! i) [0..<length masks]"

definition Array_intersect_with :: "u64 list \<Rightarrow> u64 list \<Rightarrow> u64 list" where
  "Array_intersect_with masks other = Array_set_intersection masks other"

definition Array_subset_of :: "u64 list \<Rightarrow> u64 list \<Rightarrow> bool" where
  "Array_subset_of masks other \<longleftrightarrow> Array_eql (Array_intersect_with masks other) masks"

definition Array_superset_of :: "u64 list \<Rightarrow> u64 list \<Rightarrow> bool" where
  "Array_superset_of masks other \<longleftrightarrow> Array_subset_of other masks"

definition Array_complement :: "nat \<Rightarrow> u64 list \<Rightarrow> u64 list option" where
  "Array_complement sz masks = Array_toggle_all sz masks"

definition Array_union_with :: "u64 list \<Rightarrow> u64 list \<Rightarrow> u64 list" where
  "Array_union_with masks other = Array_set_union masks other"

definition Array_has_intersection :: "u64 list \<Rightarrow> u64 list \<Rightarrow> bool" where
  "Array_has_intersection masks other = any_intersection masks other"

definition Array_xor_with :: "u64 list \<Rightarrow> u64 list \<Rightarrow> u64 list" where
  "Array_xor_with masks other = Array_toggle_set masks other"

definition Array_difference_with :: "nat \<Rightarrow> u64 list \<Rightarrow> u64 list \<Rightarrow> u64 list option" where
  "Array_difference_with sz masks other =
     map_option (Array_set_intersection masks) (Array_complement sz other)"

section \<open>BitSetIterator\<close>

record bit_set_iterator =
  it_bits_remain :: u64
  it_words_remain :: "u64 list"
  it_bit_offset :: nat
  it_last_word_mask :: u64

definition next_word :: "bool \<Rightarrow> bool \<Rightarrow> bool \<Rightarrow> bit_set_iterator \<Rightarrow> bit_set_iterator" where
  "next_word kind_set dir_fwd is_first_word it =
     (let words = it_words_remain it;
          word = (if dir_fwd then hd words else last words);
          word = (if kind_set then word
                  else if \<not> dir_fwd \<and> is_first_word \<or> dir_fwd \<and> length words = 1
                  then NOT word AND it_last_word_mask it else NOT word)
      in it\<lparr>it_words_remain := if dir_fwd then tl words else butlast words, it_bits_remain := word\<rparr>)"

definition Iterator_init :: "bool \<Rightarrow> bool \<Rightarrow> u64 list \<Rightarrow> u64 \<Rightarrow> bit_set_iterator" where
  "Iterator_init kind_set dir_fwd masks last_word_mask =
     (if masks = [] then
        \<lparr>it_bits_remain = 0, it_words_remain = [], it_bit_offset = 0, it_last_word_mask = last_word_mask\<rparr>
      else
        next_word kind_set dir_fwd True
          \<lparr>it_bits_remain = 0, it_words_remain = masks,
           it_bit_offset = if dir_fwd then 0 else (length masks - 1) * 64,
           it_last_word_mask = last_word_mask\<rparr>)"

function skip_empty_words :: "bool \<Rightarrow> bool \<Rightarrow> bit_set_iterator \<Rightarrow> bit_set_iterator option" where
  "skip_empty_words kind_set dir_fwd it =
     (if it_bits_remain it = 0 then
        if it_words_remain it = [] then None
        else
          let it = next_word kind_set dir_fwd False it in
          skip_empty_words kind_set dir_fwd
            (it\<lparr>it_bit_offset := if dir_fwd then it_bit_offset it + 64 else it_bit_offset it - 64\<rparr>)
      else Some it)"
  by pat_completeness auto
termination
  by (relation "measure (\<lambda>(k, d, it). length (it_words_remain it))") (auto simp: next_word_def Let_def)

declare skip_empty_words.simps [simp del]

definition Iterator_next :: "bool \<Rightarrow> bool \<Rightarrow> bit_set_iterator \<Rightarrow> (nat \<times> bit_set_iterator) option" where
  "Iterator_next kind_set dir_fwd it =
     (case skip_empty_words kind_set dir_fwd it of
        None \<Rightarrow> None
      | Some it \<Rightarrow>
          if dir_fwd then
            Some (trailing_zeros (it_bits_remain it) + it_bit_offset it,
                  it\<lparr>it_bits_remain := it_bits_remain it AND (it_bits_remain it - 1)\<rparr>)
          else
            let top_bit = 63 - leading_zeros (it_bits_remain it) in
            Some (top_bit + it_bit_offset it,
                  it\<lparr>it_bits_remain := it_bits_remain it AND (push_bit top_bit 1 - 1)\<rparr>))"

definition Array_iterator :: "nat \<Rightarrow> bool \<Rightarrow> bool \<Rightarrow> u64 list \<Rightarrow> bit_set_iterator" where
  "Array_iterator sz kind_set dir_fwd masks = Iterator_init kind_set dir_fwd masks (LAST_ITEM_MASK sz)"

section \<open>The set of a slice of words\<close>

definition members :: "u64 list \<Rightarrow> nat set" where
  "members masks = {i. i div 64 < length masks \<and> bit (masks ! (i div 64)) (i mod 64)}"

definition word_members :: "u64 \<Rightarrow> nat set" where
  "word_members w = {i. bit w i}"

lemma in_word_members [simp]: "i \<in> word_members w \<longleftrightarrow> bit w i"
  by (simp add: word_members_def)

lemma in_members: "i \<in> members masks \<longleftrightarrow> i div 64 < length masks \<and> bit (masks ! (i div 64)) (i mod 64)"
  by (simp add: members_def)

lemma div_64_less: "i div 64 < n \<longleftrightarrow> i < 64 * n" for i n :: nat
  by (simp add: div_less_iff_less_mult mult.commute)

lemma members_less: "i \<in> members masks \<Longrightarrow> i < 64 * length masks"
  by (simp add: in_members div_64_less)

lemma finite_members [simp]: "finite (members masks)"
  using members_less by (auto intro: finite_subset [of _ "{..<64 * length masks}"])

lemma word_eq_0_iff: "w = 0 \<longleftrightarrow> word_members w = {}" for w :: u64
proof
  assume "word_members w = {}"
  then have "\<not> bit w i" for i by (auto simp: word_members_def)
  then show "w = 0" by (intro bit_eqI) simp
qed (simp add: word_members_def)

lemma bit_word_mask_bit [simp]: "bit (word_mask_bit index) i \<longleftrightarrow> i = index mod 64"
  by (auto simp: word_mask_bit_def bit_simps)

lemma bit_bool_mask [simp]: "bit (bool_mask_usize b) i \<longleftrightarrow> b \<and> i < 64"
  by (simp add: bool_mask_usize_def)

text \<open>Equal words, by the bits below 64 that the index split gives.\<close>

lemma members_update:
  assumes "k < length masks"
  shows "i \<in> members (masks[k := w]) \<longleftrightarrow> (if i div 64 = k then bit w (i mod 64) else i \<in> members masks)"
  using assms by (auto simp: in_members nth_list_update)

lemma update_mask_members:
  assumes "k < length masks"
  obtains masks' where "update_mask masks k f = Some masks'" "length masks' = length masks"
    "\<And>i. i \<in> members masks' \<longleftrightarrow> (if i div 64 = k then bit (f (masks ! k)) (i mod 64) else i \<in> members masks)"
  using assms members_update [OF assms, of _ "f (masks ! k)"] by (simp add: update_mask_def)

lemma members_masks_ops:
  assumes "index < 64 * length masks"
  shows "\<exists>masks'. masks_set masks index = Some masks' \<and> length masks' = length masks \<and> members masks' = insert index (members masks)"
    "\<exists>masks'. masks_unset masks index = Some masks' \<and> length masks' = length masks \<and> members masks' = members masks - {index}"
    "\<exists>masks'. masks_toggle masks index = Some masks' \<and> length masks' = length masks
      \<and> members masks' = (if index \<in> members masks then members masks - {index} else insert index (members masks))"
    "\<exists>masks'. masks_set_value masks index v = Some masks' \<and> length masks' = length masks
      \<and> members masks' = (if v then insert index (members masks) else members masks - {index})"
    "masks_is_set masks index = Some (index \<in> members masks)"
proof -
  have k: "index div 64 < length masks" using assms by (simp add: div_64_less)
  have e: "i = index" if "i div 64 = index div 64" "i mod 64 = index mod 64" for i
    using that by (metis div_mult_mod_eq)
  note u = update_mask_members [OF k]
  show "\<exists>masks'. masks_set masks index = Some masks' \<and> length masks' = length masks \<and> members masks' = insert index (members masks)"
    unfolding masks_set_def word_mask_index_def
    by (rule u [of "\<lambda>w. w OR word_mask_bit index"]) (use k e in \<open>auto simp: set_eq_iff in_members bit_simps\<close>)
  show "\<exists>masks'. masks_unset masks index = Some masks' \<and> length masks' = length masks \<and> members masks' = members masks - {index}"
    unfolding masks_unset_def word_mask_index_def
    by (rule u [of "\<lambda>w. w AND NOT (word_mask_bit index)"]) (use k e in \<open>auto simp: set_eq_iff in_members bit_simps\<close>)
  show "\<exists>masks'. masks_toggle masks index = Some masks' \<and> length masks' = length masks
      \<and> members masks' = (if index \<in> members masks then members masks - {index} else insert index (members masks))"
    unfolding masks_toggle_def word_mask_index_def
    by (rule u [of "\<lambda>w. w XOR word_mask_bit index"]) (use k e in \<open>auto simp: set_eq_iff in_members bit_simps\<close>)
  show "\<exists>masks'. masks_set_value masks index v = Some masks' \<and> length masks' = length masks
      \<and> members masks' = (if v then insert index (members masks) else members masks - {index})"
    unfolding masks_set_value_def word_mask_index_def Let_def
    by (rule u [of "\<lambda>w. w AND NOT (word_mask_bit index) OR (word_mask_bit index AND bool_mask_usize v)"])
      (use k e in \<open>auto simp: set_eq_iff in_members bit_simps\<close>)
  have "(masks ! (index div 64) AND word_mask_bit index \<noteq> 0) \<longleftrightarrow> bit (masks ! (index div 64)) (index mod 64)"
    by (auto simp: word_eq_0_iff set_eq_iff bit_simps)
  then show "masks_is_set masks index = Some (index \<in> members masks)"
    using k by (simp add: masks_is_set_def word_mask_index_def in_members Let_def)
qed

section \<open>Ranges\<close>

lemma bit_range_high: "bit (push_bit n (bool_mask_usize b)) i \<longleftrightarrow> b \<and> n \<le> i \<and> i < 64"
  by (auto simp: bit_simps)

lemma bit_range_low: "0 < n \<Longrightarrow> n < 64 \<Longrightarrow> bit (drop_bit (63 - (n - 1)) (bool_mask_usize b)) i \<longleftrightarrow> b \<and> i < n"
  by (auto simp: bit_simps)

lemma members_copy_at:
  assumes "a + n \<le> length masks"
  shows "i \<in> members (copy_at masks a (replicate n w)) \<longleftrightarrow>
    (if a \<le> i div 64 \<and> i div 64 < a + n then bit w (i mod 64) else i \<in> members masks)"
  using assms by (auto simp: in_members length_copy_at nth_copy_at)

lemma less_split: "i < s \<longleftrightarrow> i div 64 < s div 64 \<or> i div 64 = s div 64 \<and> i mod 64 < s mod 64" for i s :: nat
proof -
  define q r q' r' where d: "q = i div 64" "r = i mod 64" "q' = s div 64" "r' = s mod 64"
  have "i = q * 64 + r" "s = q' * 64 + r'" "r < 64" "r' < 64" by (simp_all add: d)
  then show ?thesis unfolding d [symmetric] by linarith
qed

lemma le_split: "s \<le> i \<longleftrightarrow> s div 64 < i div 64 \<or> i div 64 = s div 64 \<and> s mod 64 \<le> i mod 64" for i s :: nat
  using less_split [of i s] by linarith

lemma set_range_first_word:
  fixes masks :: "u64 list" and start :: nat and v :: bool
  assumes a: "start div 64 < length masks"
  defines "r \<equiv> (if 0 < start mod 64 then
       map_option (\<lambda>masks. (masks, start div 64 + 1))
         (update_mask masks (start div 64) (\<lambda>w.
           w AND NOT (push_bit (start mod 64) (bool_mask_usize True)) OR push_bit (start mod 64) (bool_mask_usize v)))
     else Some (masks, start div 64))"
  obtains masks' bulk where "r = Some (masks', bulk)" "length masks' = length masks"
    "bulk \<in> {start div 64, start div 64 + 1}" "\<And>i. bulk \<le> i div 64 \<Longrightarrow> start \<le> i"
    "\<And>i. i \<in> members masks' \<longleftrightarrow> (if i div 64 < bulk \<and> start \<le> i then v else i \<in> members masks)"
proof (cases "0 < start mod 64")
  case True
  let ?f = "\<lambda>w. w AND NOT (push_bit (start mod 64) (bool_mask_usize True)) OR push_bit (start mod 64) (bool_mask_usize v)"
  have f: "bit (?f w) (i mod 64) \<longleftrightarrow> (if start mod 64 \<le> i mod 64 then v else bit w (i mod 64))" for w i
    by (simp only: bit_or_iff bit_and_iff bit_not_iff bit_range_high) auto
  obtain masks' where m: "update_mask masks (start div 64) ?f = Some masks'" "length masks' = length masks"
      "\<And>i. i \<in> members masks' \<longleftrightarrow> (if i div 64 = start div 64 then bit (?f (masks ! (start div 64))) (i mod 64) else i \<in> members masks)"
    using update_mask_members [OF a, of ?f] by blast
  have "i \<in> members masks' \<longleftrightarrow> (if i div 64 < start div 64 + 1 \<and> start \<le> i then v else i \<in> members masks)" for i
    using m(3) [of i] a unfolding f by (auto simp: le_split [of start i] in_members [of i masks])
  moreover have "start \<le> i" if "start div 64 + 1 \<le> i div 64" for i
    using that by (simp add: le_split [of start i])
  ultimately show thesis using that [of masks' "start div 64 + 1"] True m(1,2) by (simp add: r_def)
next
  case False
  then have r: "r = Some (masks, start div 64)" by (simp only: r_def if_False)
  have g: "start \<le> i" if "start div 64 \<le> i div 64" for i
    using that False by (simp only: le_split [of start i]) linarith
  have "i \<in> members masks \<longleftrightarrow> (if i div 64 < start div 64 \<and> start \<le> i then v else i \<in> members masks)" for i
  proof -
    have "\<not> (i div 64 < start div 64 \<and> start \<le> i)" using div_le_mono [of start i 64] by linarith
    then show ?thesis by (simp only: if_False)
  qed
  then show thesis using that [OF r refl _ g] by blast
qed

lemma set_range_value_masks_members:
  assumes "start \<le> stop" and "stop \<le> 64 * length masks"
  shows "\<exists>masks'. set_range_value_masks masks start stop v = Some masks' \<and> length masks' = length masks
    \<and> members masks' = (if v then members masks \<union> {start..<stop} else members masks - {start..<stop})"
proof -
  let ?a = "start div 64" and ?b = "stop div 64"
  let ?goal = "\<lambda>masks'. \<forall>i. i \<in> members masks' \<longleftrightarrow> (if start \<le> i \<and> i < stop then v else i \<in> members masks)"
  have "\<exists>masks'. set_range_value_masks masks start stop v = Some masks' \<and> length masks' = length masks \<and> ?goal masks'"
  proof (cases "start = stop")
    case True
    then show ?thesis by (auto simp: set_range_value_masks_def)
  next
    case False
    then have less: "start < stop" using assms(1) by simp
    then have a: "?a < length masks" using assms(2) by (simp add: div_64_less)
    show ?thesis
    proof (cases "?a = ?b")
      case True
      then have eb: "0 < stop mod 64" using less less_split [of start stop] by simp
      let ?f = "\<lambda>w. w AND NOT (push_bit (start mod 64) (bool_mask_usize True)
            AND drop_bit (63 - (stop mod 64 - 1)) (bool_mask_usize True))
          OR (push_bit (start mod 64) (bool_mask_usize v) AND drop_bit (63 - (stop mod 64 - 1)) (bool_mask_usize v))"
      have f: "bit (?f w) (i mod 64) \<longleftrightarrow> (if start mod 64 \<le> i mod 64 \<and> i mod 64 < stop mod 64 then v else bit w (i mod 64))" for w i
        using bit_range_low [OF eb]
        by (simp only: bit_or_iff bit_and_iff bit_not_iff bit_range_high) auto
      obtain masks' where m: "update_mask masks ?a ?f = Some masks'" "length masks' = length masks"
          "\<And>i. i \<in> members masks' \<longleftrightarrow> (if i div 64 = ?a then bit (?f (masks ! ?a)) (i mod 64) else i \<in> members masks)"
        using update_mask_members [OF a, of ?f] by blast
      have "?goal masks'"
        using m(3) a True unfolding f by (auto simp: le_split [of start] less_split [of _ stop] in_members [of _ masks])
      then show ?thesis
        using False True eb m(1,2) unfolding set_range_value_masks_def word_mask_index_def Let_def by simp
    next
      case ne: False
      then have ab: "?a < ?b" using less less_split [of start stop] by simp
      have b: "?b \<le> length masks" using div_le_mono [OF assms(2), of 64] by simp
      obtain masks1 bulk where m1: "(if 0 < start mod 64 then
           map_option (\<lambda>masks. (masks, ?a + 1))
             (update_mask masks ?a (\<lambda>w.
               w AND NOT (push_bit (start mod 64) (bool_mask_usize True)) OR push_bit (start mod 64) (bool_mask_usize v)))
         else Some (masks, ?a)) = Some (masks1, bulk)" "length masks1 = length masks"
        "bulk \<in> {?a, ?a + 1}" "\<And>i. bulk \<le> i div 64 \<Longrightarrow> start \<le> i"
        "\<And>i. i \<in> members masks1 \<longleftrightarrow> (if i div 64 < bulk \<and> start \<le> i then v else i \<in> members masks)"
        using set_range_first_word [OF a, of v] by blast
      define masks2 where "masks2 = copy_at masks1 bulk (replicate (?b - bulk) (bool_mask_usize v))"
      have bulk: "bulk \<le> ?b" using m1(3) ab by auto
      then have "bulk + (?b - bulk) \<le> length masks1" using b m1(2) by simp
      from members_copy_at [OF this, of _ "bool_mask_usize v"] bulk
      have m2: "i \<in> members masks2 \<longleftrightarrow> (if i div 64 < ?b \<and> start \<le> i then v else i \<in> members masks)" for i
        using m1(4,5) [of i] by (auto simp: masks2_def)
      have l2: "length masks2 = length masks" using bulk b m1(2) by (simp add: masks2_def length_copy_at)
      have sb: "start \<le> i" if "i div 64 = ?b" for i using that ab by (simp add: le_split [of start i])
      show ?thesis
      proof (cases "0 < stop mod 64")
        case True
        then have "stop < 64 * length masks" using assms(2) by (metis mod_mult_self1_is_0 order_le_imp_less_or_eq less_irrefl)
        then have bl: "?b < length masks2" using l2 by (simp add: div_64_less)
        let ?f = "\<lambda>w. w AND push_bit (stop mod 64) (bool_mask_usize True) OR drop_bit (63 - (stop mod 64 - 1)) (bool_mask_usize v)"
        have f: "bit (?f w) (i mod 64) \<longleftrightarrow> (if i mod 64 < stop mod 64 then v else bit w (i mod 64))" for w i
          using bit_range_low [OF True] by (simp only: bit_or_iff bit_and_iff bit_not_iff bit_range_high) auto
        obtain masks' where m3: "update_mask masks2 ?b ?f = Some masks'" "length masks' = length masks2"
            "\<And>i. i \<in> members masks' \<longleftrightarrow> (if i div 64 = ?b then bit (?f (masks2 ! ?b)) (i mod 64) else i \<in> members masks2)"
          using update_mask_members [OF bl, of ?f] by blast
        have w: "bit (masks2 ! ?b) (i mod 64) \<longleftrightarrow> i \<in> members masks2" if "i div 64 = ?b" for i
          using that bl by (simp add: in_members)
        have "i \<in> members masks' \<longleftrightarrow> (if start \<le> i \<and> i < stop then v else i \<in> members masks)" for i
          using m3(3) [of i] m2 [of i] w [of i] sb [of i] unfolding f less_split [of i stop] by auto
        then have "?goal masks'" by blast
        then show ?thesis
          using False ne True m1(1) bulk b m3(1,2) l2 m1(2)
          unfolding set_range_value_masks_def word_mask_index_def Let_def masks2_def by simp
      next
        case zero: False
        have "?goal masks2" using m2 zero by (auto simp: less_split [of _ stop])
        then show ?thesis
          using False ne zero m1(1) bulk b l2 m1(2)
          unfolding set_range_value_masks_def word_mask_index_def Let_def masks2_def by simp
      qed
    qed
  qed
  then show ?thesis by (auto simp: set_eq_iff)
qed

section \<open>Counting and clearing bits of a word\<close>

lemma finite_word_members [simp]: "finite (word_members w)"
  by (rule finite_subset [of _ "{..<64}"]) (auto dest: bit_imp_le_length simp: word_members_def)

lemma word_members_less: "i \<in> word_members w \<Longrightarrow> i < 64"
  by (auto dest: bit_imp_le_length simp: word_members_def)

lemma count_ones_eq_card: "count_ones w = card (word_members w)"
proof -
  have "word_members w = set (filter (bit w) [0..<64])" using word_members_less [of _ w] by auto
  then show ?thesis using distinct_card [of "filter (bit w) [0..<64]"] unfolding count_ones_def by simp
qed

lemma takeWhile_upt_props:
  assumes "P i" and "i < n"
  shows "length (takeWhile (\<lambda>i. \<not> P i) [0..<n]) < n" and "P (length (takeWhile (\<lambda>i. \<not> P i) [0..<n]))"
    and "length (takeWhile (\<lambda>i. \<not> P i) [0..<n]) \<le> i"
proof -
  let ?k = "length (takeWhile (\<lambda>i. \<not> P i) [0..<n])"
  have before: "\<not> P j" if "j < ?k" for j
  proof -
    have "takeWhile (\<lambda>i. \<not> P i) [0..<n] ! j \<in> set (takeWhile (\<lambda>i. \<not> P i) [0..<n])" using that by (rule nth_mem)
    moreover have "takeWhile (\<lambda>i. \<not> P i) [0..<n] ! j = j"
      using that length_takeWhile_le [of "\<lambda>i. \<not> P i" "[0..<n]"] by (simp add: takeWhile_nth)
    ultimately show ?thesis by (auto dest: set_takeWhileD)
  qed
  then show le: "?k \<le> i" using assms(1) by (meson not_le)
  then show less: "?k < n" using assms(2) by simp
  then show "P ?k" using nth_length_takeWhile [of "\<lambda>i. \<not> P i" "[0..<n]"] by simp
qed

lemma trailing_zeros_Min:
  assumes "w \<noteq> 0"
  shows "trailing_zeros w = Min (word_members w)" and "bit w (trailing_zeros w)"
proof -
  obtain i where i: "bit w i" using assms by (auto simp: word_eq_0_iff)
  note p = takeWhile_upt_props [where P = "bit w" and n = 64, folded trailing_zeros_def]
  show b: "bit w (trailing_zeros w)" using p(2) i bit_imp_le_length [OF i] by simp
  have "trailing_zeros w \<le> j" if "bit w j" for j using p(3) [OF that] bit_imp_le_length [OF that] by simp
  then show "trailing_zeros w = Min (word_members w)" using b by (intro Min_eqI [symmetric]) auto
qed

lemma leading_zeros_Max:
  assumes "w \<noteq> 0"
  shows "63 - leading_zeros w = Max (word_members w)" and "bit w (63 - leading_zeros w)"
proof -
  obtain i where i: "bit w i" using assms by (auto simp: word_eq_0_iff)
  note p = takeWhile_upt_props [where P = "\<lambda>i. bit w (63 - i)" and n = 64, folded leading_zeros_def]
  have le: "leading_zeros w \<le> 63 - j" if "bit w j" for j
    using p(3) [of "63 - j"] that bit_imp_le_length [OF that] by simp
  show b: "bit w (63 - leading_zeros w)" using p(2) [of "63 - i"] i bit_imp_le_length [OF i] by simp
  have "j \<le> 63 - leading_zeros w" if "bit w j" for j
    using le [OF that] bit_imp_le_length [OF that] by simp
  then show "63 - leading_zeros w = Max (word_members w)" using b by (intro Max_eqI [symmetric]) auto
qed

text \<open>\<open>w & (w - 1)\<close> clears the lowest bit, \<open>w & ((1 << top) - 1)\<close> the highest.\<close>

lemma bit_clear_lowest:
  assumes "w \<noteq> 0"
  shows "bit (w AND (w - 1)) i \<longleftrightarrow> bit w i \<and> i \<noteq> trailing_zeros w"
proof -
  let ?k = "trailing_zeros w"
  let ?p = "push_bit ?k 1 :: u64" and ?u = "w AND NOT (push_bit ?k 1)"
  have k: "bit w ?k" "?k < 64" using trailing_zeros_Min(2) [OF assms] bit_imp_le_length [of w ?k] by simp_all
  have "?k \<le> j" if "bit w j" for j using that trailing_zeros_Min(1) [OF assms] Min_le [of "word_members w" j] by simp
  then have low: "\<not> bit w j" if "j < ?k" for j using that by (meson not_le)
  have "?u AND ?p = 0" by (rule bit_eqI) (auto simp: bit_simps)
  then have "?u + ?p = ?u OR ?p" by (rule disjunctive_add_eq_or)
  also have "\<dots> = w" by (rule bit_eqI) (use k in \<open>auto simp: bit_simps\<close>)
  finally have w: "w - 1 = ?u + (?p - 1)" by (metis add_diff_eq)
  have m: "?p - 1 = Bit_Operations.mask ?k" by (simp add: mask_eq_exp_minus_1 push_bit_eq_mult)
  have "?u AND Bit_Operations.mask ?k = 0" by (rule bit_eqI) (use low in \<open>auto simp: bit_simps\<close>)
  then have "w - 1 = ?u OR Bit_Operations.mask ?k" unfolding w m by (rule disjunctive_add_eq_or)
  then show ?thesis using low [of i] k by (auto simp: bit_simps dest: bit_imp_le_length)
qed

lemma word_members_clear_lowest:
  "w \<noteq> 0 \<Longrightarrow> word_members (w AND (w - 1)) = word_members w - {Min (word_members w)}"
  using bit_clear_lowest [of w] trailing_zeros_Min(1) [of w] by (auto simp: word_members_def)

lemma word_members_clear_highest:
  assumes "w \<noteq> 0"
  shows "word_members (w AND (push_bit (63 - leading_zeros w) 1 - 1)) = word_members w - {Max (word_members w)}"
proof -
  let ?k = "63 - leading_zeros w"
  have m: "push_bit ?k 1 - 1 = (Bit_Operations.mask ?k :: u64)" by (simp add: mask_eq_exp_minus_1 push_bit_eq_mult)
  have "i \<le> ?k" if "bit w i" for i using that leading_zeros_Max(1) [OF assms] Max_ge [of "word_members w" i] by simp
  then have "bit (w AND Bit_Operations.mask ?k) i \<longleftrightarrow> bit w i \<and> i \<noteq> ?k" for i
    by (auto simp: bit_simps order_le_less dest: bit_imp_le_length)
  then show ?thesis unfolding m using leading_zeros_Max(1) [OF assms] by (simp add: set_eq_iff)
qed

section \<open>Whole words at a time\<close>

lemma members_map2:
  assumes "length masks = length other"
  shows "i \<in> members (map2 f masks other) \<longleftrightarrow>
    i div 64 < length masks \<and> bit (f (masks ! (i div 64)) (other ! (i div 64))) (i mod 64)"
  using assms by (auto simp: in_members)

lemma members_zip_ops:
  assumes "length masks = length other"
  shows "members (map2 (OR) masks other) = members masks \<union> members other"
    "members (map2 (AND) masks other) = members masks \<inter> members other"
    "members (map2 (XOR) masks other) = (members masks - members other) \<union> (members other - members masks)"
    "members (map2 (\<lambda>a b. a AND NOT b) masks other) = members masks - members other"
  using assms by (auto simp: members_map2 in_members bit_or_iff bit_and_iff bit_xor_iff bit_not_iff)

lemma members_map_not: "members (map NOT masks) = {..<64 * length masks} - members masks"
  by (auto simp: in_members bit_simps simp flip: div_64_less)

lemma members_replicate: "members (replicate n (bool_mask_usize v)) = (if v then {..<64 * n} else {})"
  by (auto simp: in_members simp flip: div_64_less)

lemma members_Cons: "members (w # masks) = word_members w \<union> (+) 64 ` members masks"
proof -
  have "i \<in> members (w # masks) \<longleftrightarrow> bit w i \<or> 64 \<le> i \<and> i - 64 \<in> members masks" for i
  proof (cases "i < 64")
    case True
    then show ?thesis by (simp add: in_members)
  next
    case False
    then have "i div 64 = Suc ((i - 64) div 64)" "i mod 64 = (i - 64) mod 64" by (simp_all add: le_div_geq le_mod_geq)
    then show ?thesis using False by (auto simp: in_members dest: bit_imp_le_length)
  qed
  moreover have "i \<in> (+) 64 ` members masks \<longleftrightarrow> 64 \<le> i \<and> i - 64 \<in> members masks" for i
    unfolding image_iff by (metis add_diff_cancel_left' le_add1 le_add_diff_inverse)
  ultimately show ?thesis by (simp only: set_eq_iff Un_iff in_word_members) blast
qed

lemma members_zero_Cons [simp]: "members (0 # masks) = (+) 64 ` members masks"
  by (simp add: members_Cons word_members_def)

lemma bit_64_add [simp]: "\<not> bit w (64 + n)" for w :: u64
  by (auto dest: bit_imp_le_length)

lemma members_Nil [simp]: "members [] = {}"
  by (simp add: members_def)

lemma members_snoc: "members (masks @ [w]) = members masks \<union> (+) (64 * length masks) ` word_members w"
proof (induction masks)
  case Nil
  then show ?case by (simp add: members_Cons)
next
  case (Cons m masks)
  then show ?case by (simp add: members_Cons image_Un image_image ac_simps)
qed

text \<open>Two slices of one length have the same members exactly when they are the same.\<close>

lemma members_inject:
  assumes "length masks = length other"
  shows "members masks = members other \<longleftrightarrow> masks = other"
proof
  assume e: "members masks = members other"
  show "masks = other"
  proof (rule nth_equalityI [OF assms], rule bit_eqI)
    fix k n
    assume k: "k < length masks" and n: "possible_bit TYPE(u64) n"
    have "(64 * k + n) div 64 = k" "(64 * k + n) mod 64 = n" using n by simp_all
    then show "bit (masks ! k) n \<longleftrightarrow> bit (other ! k) n"
      using e k assms in_members [of "64 * k + n"] by (metis)
  qed
qed simp

section \<open>The padding of the last word\<close>

text \<open>
  \<open>Padding bits at the end must be zeroed\<close>: a set of \<open>sz\<close> bits has just the words it needs, and the last
  of them has no bit that the mask of the last word cuts off.
\<close>

definition fits :: "nat \<Rightarrow> u64 list \<Rightarrow> bool" where
  "fits sz masks \<longleftrightarrow> length masks = num_masks_for sz
     \<and> (masks = [] \<or> last masks AND LAST_ITEM_MASK sz = last masks)"

lemma num_masks_bounds: "sz \<le> 64 * num_masks_for sz" "64 * num_masks_for sz < sz + 64"
  unfolding num_masks_for_def by linarith+

lemma num_masks_for_0 [simp]: "num_masks_for 0 = 0" "num_masks_for sz = 0 \<longleftrightarrow> sz = 0"
  by (auto simp: num_masks_for_def div_eq_0_iff)

lemma num_masks_for_pos [simp]: "0 < num_masks_for sz \<longleftrightarrow> 0 < sz"
  by (auto simp flip: neq0_conv)

lemma bit_LAST_ITEM_MASK:
  assumes "i div 64 = num_masks_for sz - 1" and "0 < sz"
  shows "bit (LAST_ITEM_MASK sz) (i mod 64) \<longleftrightarrow> i < sz"
proof -
  define q r n where d: "q = i div 64" "r = i mod 64" "n = num_masks_for sz"
  have i: "i = 64 * q + r" "r < 64" by (simp_all add: d)
  have n: "sz \<le> 64 * n" "64 * n < sz + 64" using num_masks_bounds [of sz] by (simp_all only: d)
  have q: "q = n - 1" using assms(1) by (simp only: d)
  have b: "bit (drop_bit p (- 1 :: u64)) r \<longleftrightarrow> p + r < 64" for p by (auto simp: bit_simps)
  have "64 * n - sz + r < 64 \<longleftrightarrow> 64 * q + r < sz" using n q assms(2) i(2) by linarith
  then have "bit (LAST_ITEM_MASK sz) r \<longleftrightarrow> 64 * q + r < sz"
    unfolding LAST_ITEM_MASK_def LAST_PAD_BITS_def d(3) [symmetric] b .
  then show ?thesis unfolding d(2) [symmetric] i(1) [symmetric] .
qed

lemma less_num_masks: "i < sz \<Longrightarrow> i div 64 < num_masks_for sz"
  using num_masks_bounds(1) [of sz] by (simp add: div_64_less)

lemma div_less_last: "i div 64 < num_masks_for sz - 1 \<Longrightarrow> i < sz"
proof -
  assume a: "i div 64 < num_masks_for sz - 1"
  have "i = 64 * (i div 64) + i mod 64" "i mod 64 < 64" by simp_all
  then show ?thesis using a num_masks_bounds(2) [of sz] by linarith
qed

lemma fits_iff: "fits sz masks \<longleftrightarrow> length masks = num_masks_for sz \<and> members masks \<subseteq> {..<sz}"
proof (cases "length masks = num_masks_for sz \<and> masks \<noteq> []")
  case True
  let ?n = "num_masks_for sz"
  have sz: "0 < sz" using True by (cases "sz = 0") auto
  have lst: "last masks = masks ! (?n - 1)" using True by (simp add: last_conv_nth)
  have split: "i div 64 < ?n \<longleftrightarrow> i div 64 < ?n - 1 \<or> i div 64 = ?n - 1" for i
    using True by (cases "?n") (auto simp: less_Suc_eq)
  have "last masks AND LAST_ITEM_MASK sz = last masks \<longleftrightarrow> (\<forall>r. bit (last masks) r \<longrightarrow> bit (LAST_ITEM_MASK sz) r)"
  proof safe
    fix r assume "last masks AND LAST_ITEM_MASK sz = last masks" "bit (last masks) r"
    then show "bit (LAST_ITEM_MASK sz) r" by (metis bit_and_iff)
  next
    assume "\<forall>r. bit (last masks) r \<longrightarrow> bit (LAST_ITEM_MASK sz) r"
    then show "last masks AND LAST_ITEM_MASK sz = last masks" by (intro bit_eqI) (auto simp: bit_and_iff)
  qed
  also have "\<dots> \<longleftrightarrow> (\<forall>i. i div 64 = ?n - 1 \<longrightarrow> i \<in> members masks \<longrightarrow> i < sz)"
  proof safe
    fix i assume a: "\<forall>r. bit (last masks) r \<longrightarrow> bit (LAST_ITEM_MASK sz) r" "i div 64 = ?n - 1" "i \<in> members masks"
    then show "i < sz" using bit_LAST_ITEM_MASK [OF a(2) sz] lst by (metis in_members)
  next
    fix r assume a: "\<forall>i. i div 64 = ?n - 1 \<longrightarrow> i \<in> members masks \<longrightarrow> i < sz" "bit (last masks) r"
    let ?i = "64 * (?n - 1) + r"
    have r: "?i div 64 = ?n - 1" "?i mod 64 = r" using bit_imp_le_length [OF a(2)] by simp_all
    have "0 < ?n" using True by (cases "?n") auto
    then have "?i \<in> members masks" using r a(2) lst True by (simp add: in_members)
    then show "bit (LAST_ITEM_MASK sz) r" using a(1) r bit_LAST_ITEM_MASK [OF r(1) sz] by metis
  qed
  also have "\<dots> \<longleftrightarrow> members masks \<subseteq> {..<sz}"
  proof safe
    fix i assume a: "\<forall>i. i div 64 = ?n - 1 \<longrightarrow> i \<in> members masks \<longrightarrow> i < sz" "i \<in> members masks"
    then have "i div 64 < ?n" using True by (simp only: in_members)
    then show "i < sz" using a split [of i] div_less_last [of i sz] by blast
  qed auto
  finally show ?thesis using True by (simp add: fits_def)
next
  case False
  then show ?thesis by (auto simp: fits_def)
qed

lemma fitsD: "fits sz masks \<Longrightarrow> length masks = num_masks_for sz" "fits sz masks \<Longrightarrow> i \<in> members masks \<Longrightarrow> i < sz"
  by (auto simp: fits_iff)

text \<open>Masking the last word keeps just the bits below the length.\<close>

lemma mask_last_members:
  assumes "length masks = num_masks_for sz" and "0 < sz"
  shows "\<exists>masks'. mask_last masks (LAST_ITEM_MASK sz) = Some masks' \<and> fits sz masks'
    \<and> members masks' = members masks \<inter> {..<sz}"
proof -
  have k: "length masks - 1 < length masks" using assms by (cases "length masks") auto
  obtain masks' where m: "mask_last masks (LAST_ITEM_MASK sz) = Some masks'" "length masks' = length masks"
    "\<And>i. i \<in> members masks' \<longleftrightarrow> (if i div 64 = length masks - 1
        then bit (masks ! (length masks - 1) AND LAST_ITEM_MASK sz) (i mod 64) else i \<in> members masks)"
    using update_mask_members [OF k, of "\<lambda>w. w AND LAST_ITEM_MASK sz"] unfolding mask_last_def by blast
  have "i \<in> members masks' \<longleftrightarrow> i \<in> members masks \<and> i < sz" for i
  proof (cases "i div 64 = num_masks_for sz - 1")
    case True
    then show ?thesis using m(3) [of i] bit_LAST_ITEM_MASK [OF True assms(2)] assms(1) k
      by (simp only: in_members bit_and_iff) simp
  next
    case False
    have "i < sz" if "i \<in> members masks"
    proof (rule div_less_last)
      have "i div 64 < num_masks_for sz" using that assms(1) by (simp only: in_members)
      then show "i div 64 < num_masks_for sz - 1" using False by linarith
    qed
    then show ?thesis using m(3) [of i] False assms(1) by metis
  qed
  then have "members masks' = members masks \<inter> {..<sz}" by auto
  then show ?thesis using m(1,2) assms(1) by (auto simp: fits_iff)
qed

section \<open>The first member\<close>

lemma Min_shift: "finite A \<Longrightarrow> A \<noteq> {} \<Longrightarrow> Min ((+) k ` A) = k + Min A" for A :: "nat set"
  by (rule Min_eqI) auto

lemma Max_shift: "finite A \<Longrightarrow> A \<noteq> {} \<Longrightarrow> Max ((+) k ` A) = k + Max A" for A :: "nat set"
  by (rule Max_eqI) auto

lemma Min_members_Cons:
  assumes "w \<noteq> 0"
  shows "Min (members (w # masks)) = Min (word_members w)"
proof (rule Min_eqI)
  have ne: "word_members w \<noteq> {}" using assms by (simp add: word_eq_0_iff)
  show "Min (word_members w) \<in> members (w # masks)" using Min_in [OF finite_word_members ne] by (simp add: members_Cons)
  fix i assume "i \<in> members (w # masks)"
  moreover have "Min (word_members w) < 64" using Min_in [OF finite_word_members ne] by (rule word_members_less)
  ultimately show "Min (word_members w) \<le> i" by (auto simp: members_Cons intro: Min_le)
qed simp

lemma find_first_loop_Min:
  "find_first_loop masks offset = (if members masks = {} then None else Some (offset + Min (members masks)))"
proof (induction masks arbitrary: offset)
  case (Cons w masks)
  show ?case
  proof (cases "w = 0")
    case True
    then show ?thesis using Cons [of "offset + 64"] Min_shift [of "members masks" 64] by simp
  next
    case False
    then have "members (w # masks) \<noteq> {}" by (simp add: members_Cons word_eq_0_iff)
    then show ?thesis using False by (simp add: Min_members_Cons trailing_zeros_Min(1))
  qed
qed simp

lemma toggle_first_loop_Min:
  "toggle_first_loop masks offset = None \<longleftrightarrow> members masks = {}"
  "toggle_first_loop masks offset = Some (index, masks') \<Longrightarrow>
    index = offset + Min (members masks) \<and> length masks' = length masks
    \<and> members masks' = members masks - {Min (members masks)}"
proof (induction masks arbitrary: offset index masks')
  case (Cons w masks)
  case 1
  show ?case using Cons(1) [of "offset + 64"] by (simp add: members_Cons word_eq_0_iff)
next
  case (Cons w masks)
  case 2
  show ?case
  proof (cases "w = 0")
    case True
    then obtain ms where ms: "toggle_first_loop masks (offset + 64) = Some (index, ms)" "masks' = w # ms"
      using 2 by auto
    have ne: "members masks \<noteq> {}" using ms(1) Cons(1) [of "offset + 64"] by auto
    have "(+) 64 ` members ms = (+) 64 ` members masks - {64 + Min (members masks)}"
      using Cons(2) [OF ms(1)] by (simp add: image_set_diff)
    then show ?thesis using Cons(2) [OF ms(1)] True ms(2) Min_shift [OF finite_members ne, of 64] by simp
  next
    case False
    have "members (w # masks) - {Min (word_members w)} = members ((w AND (w - 1)) # masks)"
    proof -
      have "Min (word_members w) < 64"
        using False word_members_less [OF Min_in [OF finite_word_members]] by (simp add: word_eq_0_iff)
      then have "Min (word_members w) \<notin> (+) 64 ` members masks" by auto
      then show ?thesis unfolding members_Cons word_members_clear_lowest [OF False] by blast
    qed
    moreover have "index = offset + trailing_zeros w" "masks' = (w AND (w - 1)) # masks" using 2 False by simp_all
    ultimately show ?thesis unfolding Min_members_Cons [OF False] trailing_zeros_Min(1) [OF False] by simp
  qed
qed simp_all

lemma masks_count_card: "masks_count masks = card (members masks)"
proof -
  have "foldl (\<lambda>total w. total + count_ones w) k masks = k + card (members masks)" for k
  proof (induction masks arbitrary: k)
    case (Cons w masks)
    have "word_members w \<inter> (+) 64 ` members masks = {}" by (auto dest: word_members_less)
    then have "card (members (w # masks)) = card (word_members w) + card (members masks)"
      unfolding members_Cons by (subst card_Un_disjoint) (auto simp: card_image)
    then show ?case using Cons by (simp add: count_ones_eq_card)
  qed simp
  then show ?thesis by (simp add: masks_count_def)
qed

lemma any_intersection_iff:
  "length masks = length other \<Longrightarrow> any_intersection masks other \<longleftrightarrow> members masks \<inter> members other \<noteq> {}"
proof (induction masks other rule: any_intersection.induct)
  case (1 a as b bs)
  have "members (a # as) \<inter> members (b # bs) = word_members (a AND b) \<union> (+) 64 ` (members as \<inter> members bs)"
    by (auto simp: members_Cons bit_simps)
  then show ?case using 1 by (auto simp: word_eq_0_iff)
qed simp_all

section \<open>What the iterator visits\<close>

text \<open>
  The loop of the clients, \<open>while let Some(index) = iter.next() { function(ctx, index) }\<close>, as in
  \<open>AutoBitSet::for_each\<close>. Each step takes a word or a bit away, so the loop ends.
\<close>

lemma skip_empty_words_props:
  assumes "skip_empty_words kind_set dir_fwd it = Some it'"
  shows "it_bits_remain it' \<noteq> 0 \<and> (it' = it \<or> length (it_words_remain it') < length (it_words_remain it))"
  using assms
proof (induction kind_set dir_fwd it rule: skip_empty_words.induct)
  case (1 kind_set dir_fwd it)
  show ?case
  proof (cases "it_bits_remain it = 0 \<and> it_words_remain it \<noteq> []")
    case True
    define it1 where "it1 = next_word kind_set dir_fwd False it"
    define it2 where "it2 = it1\<lparr>it_bit_offset := if dir_fwd then it_bit_offset it1 + 64 else it_bit_offset it1 - 64\<rparr>"
    have s: "skip_empty_words kind_set dir_fwd it2 = Some it'"
      using 1(2) True unfolding skip_empty_words.simps [of _ _ it] it2_def it1_def by (simp add: Let_def)
    have "length (it_words_remain it2) < length (it_words_remain it)"
      using True by (simp add: it2_def it1_def next_word_def Let_def)
    then show ?thesis using 1(1) True s unfolding it2_def it1_def by fastforce
  next
    case False
    then show ?thesis using 1(2) unfolding skip_empty_words.simps [of _ _ it] by (auto split: if_splits)
  qed
qed

function iterate_loop :: "bool \<Rightarrow> bool \<Rightarrow> ('c \<Rightarrow> nat \<Rightarrow> 'c) \<Rightarrow> 'c \<Rightarrow> bit_set_iterator \<Rightarrow> 'c" where
  "iterate_loop kind_set dir_fwd f ctx it =
     (case Iterator_next kind_set dir_fwd it of
        None \<Rightarrow> ctx
      | Some (index, it) \<Rightarrow> iterate_loop kind_set dir_fwd f (f ctx index) it)"
  by pat_completeness auto
termination
proof (relation "measures [\<lambda>(k, d, f, c, it). length (it_words_remain it),
    \<lambda>(k, d, f, c, it). card (word_members (it_bits_remain it))]")
  fix kind_set dir_fwd and f :: "'c \<Rightarrow> nat \<Rightarrow> 'c" and ctx :: 'c and it r index it2
  assume a: "Iterator_next kind_set dir_fwd it = Some r" "(index, it2) = r"
  obtain it1 where it1: "skip_empty_words kind_set dir_fwd it = Some it1"
    using a by (auto simp: Iterator_next_def split: option.splits)
  note p = skip_empty_words_props [OF it1]
  then have ne: "it_bits_remain it1 \<noteq> 0" "word_members (it_bits_remain it1) \<noteq> {}"
    by (auto simp: word_eq_0_iff)
  have w: "it_words_remain it2 = it_words_remain it1"
    "word_members (it_bits_remain it2) = word_members (it_bits_remain it1) -
      {if dir_fwd then Min (word_members (it_bits_remain it1)) else Max (word_members (it_bits_remain it1))}"
    using a it1 word_members_clear_lowest [OF ne(1)] word_members_clear_highest [OF ne(1)]
    by (cases dir_fwd; force simp: Iterator_next_def Let_def)+
  have "card (word_members (it_bits_remain it2)) < card (word_members (it_bits_remain it1))"
    unfolding w(2) using Min_in [OF finite_word_members ne(2)] Max_in [OF finite_word_members ne(2)]
    by (cases dir_fwd) (simp_all only: if_True if_False card_Diff1_less finite_word_members)
  then show "((kind_set, dir_fwd, f, f ctx index, it2), kind_set, dir_fwd, f, ctx, it)
    \<in> measures [\<lambda>(k, d, f, c, it). length (it_words_remain it),
      \<lambda>(k, d, f, c, it). card (word_members (it_bits_remain it))]"
    using p w(1) by auto
qed simp

declare iterate_loop.simps [simp del]

text \<open>The words that an iterator has still to load, as they will be loaded, and the indices it will yield.\<close>

definition to_load :: "bool \<Rightarrow> bool \<Rightarrow> u64 \<Rightarrow> u64 list \<Rightarrow> u64 list" where
  "to_load kind_set dir_fwd last_word_mask ws =
     (if kind_set then ws
      else if dir_fwd \<and> ws \<noteq> [] then map NOT (butlast ws) @ [NOT (last ws) AND last_word_mask]
      else map NOT ws)"

definition pending :: "bool \<Rightarrow> bool \<Rightarrow> bit_set_iterator \<Rightarrow> nat set" where
  "pending kind_set dir_fwd it =
     (let ws = to_load kind_set dir_fwd (it_last_word_mask it) (it_words_remain it) in
      if dir_fwd then (+) (it_bit_offset it) ` members (it_bits_remain it # ws)
      else members (ws @ [it_bits_remain it]))"

definition iterator_ok :: "bool \<Rightarrow> bit_set_iterator \<Rightarrow> bool" where
  "iterator_ok dir_fwd it \<longleftrightarrow> dir_fwd \<or> it_bit_offset it = 64 * length (it_words_remain it)"

lemma length_to_load [simp]: "length (to_load k d m ws) = length ws"
  by (simp add: to_load_def)

lemma finite_pending [simp]: "finite (pending k d it)"
  by (simp add: pending_def Let_def)

lemma to_load_fwd:
  "to_load k True m (w # ws) = (if k then w else if ws = [] then NOT w AND m else NOT w) # to_load k True m ws"
  by (simp add: to_load_def)

lemma to_load_bwd: "to_load k False m (ws @ [w]) = to_load k False m ws @ [if k then w else NOT w]"
  by (simp add: to_load_def)

lemma next_word_fwd:
  assumes "it_words_remain it = w # ws"
  shows "it_words_remain (next_word k True b it) = ws" "it_last_word_mask (next_word k True b it) = it_last_word_mask it"
    "it_bits_remain (next_word k True b it) =
      (if k then w else if ws = [] then NOT w AND it_last_word_mask it else NOT w)"
    "it_bit_offset (next_word k True b it) = it_bit_offset it"
  using assms by (simp_all add: next_word_def Let_def)

lemma next_word_bwd:
  assumes "it_words_remain it = ws @ [w]"
  shows "it_words_remain (next_word k False b it) = ws" "it_last_word_mask (next_word k False b it) = it_last_word_mask it"
    "it_bits_remain (next_word k False b it) =
      (if k then w else if b then NOT w AND it_last_word_mask it else NOT w)"
    "it_bit_offset (next_word k False b it) = it_bit_offset it"
  using assms by (simp_all add: next_word_def Let_def)

lemma pending_next_word:
  fixes it :: bit_set_iterator and k d :: bool
  assumes "it_bits_remain it = 0" and ws: "it_words_remain it \<noteq> []" and ok: "iterator_ok d it"
  defines "it1 \<equiv> next_word k d False it"
  defines "it2 \<equiv> it1\<lparr>it_bit_offset := if d then it_bit_offset it1 + 64 else it_bit_offset it1 - 64\<rparr>"
  shows "pending k d it2 = pending k d it" "iterator_ok d it2"
proof -
  have "pending k d it2 = pending k d it \<and> iterator_ok d it2"
  proof (cases d)
    case True
    obtain w ws where w: "it_words_remain it = w # ws" using ws by (cases "it_words_remain it") auto
    show ?thesis
      using assms(1) True unfolding pending_def iterator_ok_def it2_def it1_def Let_def
      by (simp add: next_word_fwd [OF w] w to_load_fwd image_image ac_simps)
  next
    case False
    obtain w ws where w: "it_words_remain it = ws @ [w]" using ws by (cases "it_words_remain it" rule: rev_cases) auto
    have "members (ms @ [0]) = members ms" for ms by (simp add: members_snoc word_members_def)
    then show ?thesis
      using assms(1) ok False unfolding pending_def iterator_ok_def it2_def it1_def Let_def
      by (simp add: next_word_bwd [OF w] w to_load_bwd del: append_assoc)
  qed
  then show "pending k d it2 = pending k d it" "iterator_ok d it2" by auto
qed

lemma skip_empty_words_pending:
  "iterator_ok d it \<Longrightarrow>
    (case skip_empty_words k d it of
       None \<Rightarrow> pending k d it = {}
     | Some it' \<Rightarrow> pending k d it' = pending k d it \<and> iterator_ok d it' \<and> it_bits_remain it' \<noteq> 0)"
proof (induction k d it rule: skip_empty_words.induct)
  case (1 k d it)
  consider "it_bits_remain it \<noteq> 0" | "it_bits_remain it = 0" "it_words_remain it = []"
    | "it_bits_remain it = 0" "it_words_remain it \<noteq> []" by blast
  then show ?case
  proof cases
    case 1
    then show ?thesis using "1.prems" by (simp add: skip_empty_words.simps [of k d it])
  next
    case 2
    then have "pending k d it = {}"
      by (auto simp: pending_def Let_def to_load_def members_Cons word_members_def)
    then show ?thesis using 2 by (simp add: skip_empty_words.simps [of k d it])
  next
    case 3
    note p = pending_next_word [OF 3 "1.prems", of k]
    show ?thesis
      using "1.IH" [OF 3 refl p(2)] 3 unfolding skip_empty_words.simps [of k d it] Let_def p(1) by simp
  qed
qed

text \<open>A step yields the least index still to come, or the greatest, and takes it away.\<close>

definition extreme :: "bool \<Rightarrow> nat set \<Rightarrow> nat" where
  "extreme dir_fwd A = (if dir_fwd then Min A else Max A)"

lemma Max_members_snoc:
  assumes "w \<noteq> 0"
  shows "Max (members (masks @ [w])) = 64 * length masks + Max (word_members w)"
proof (rule Max_eqI)
  have ne: "word_members w \<noteq> {}" using assms by (simp add: word_eq_0_iff)
  show "64 * length masks + Max (word_members w) \<in> members (masks @ [w])"
    using Max_in [OF finite_word_members ne] by (simp add: members_snoc)
  fix i assume "i \<in> members (masks @ [w])"
  then show "i \<le> 64 * length masks + Max (word_members w)"
    by (auto simp: members_snoc intro: Max_ge dest: members_less)
qed simp

lemma pending_extreme:
  assumes ok: "iterator_ok d it" and ne: "it_bits_remain it \<noteq> 0"
  shows "extreme d (pending k d it) = it_bit_offset it + extreme d (word_members (it_bits_remain it))"
    and "pending k d it \<noteq> {}"
proof -
  have w: "word_members (it_bits_remain it) \<noteq> {}" using ne by (simp add: word_eq_0_iff)
  show "pending k d it \<noteq> {}" using w by (auto simp: pending_def Let_def members_Cons members_snoc)
  show "extreme d (pending k d it) = it_bit_offset it + extreme d (word_members (it_bits_remain it))"
  proof (cases d)
    case True
    have "members (it_bits_remain it # ws) \<noteq> {}" for ws using w by (simp add: members_Cons)
    then show ?thesis using True by (simp add: extreme_def pending_def Let_def Min_shift Min_members_Cons [OF ne])
  next
    case False
    then show ?thesis using ok by (simp add: extreme_def pending_def Let_def iterator_ok_def Max_members_snoc [OF ne])
  qed
qed

lemma pending_remove:
  fixes it :: bit_set_iterator and k d :: bool and r :: u64
  assumes ok: "iterator_ok d it" and ne: "it_bits_remain it \<noteq> 0"
    and r: "word_members r = word_members (it_bits_remain it) - {extreme d (word_members (it_bits_remain it))}"
  shows "pending k d (it\<lparr>it_bits_remain := r\<rparr>) = pending k d it - {extreme d (pending k d it)}"
proof -
  define ws where "ws = to_load k d (it_last_word_mask it) (it_words_remain it)"
  define e where "e = extreme d (word_members (it_bits_remain it))"
  have w: "word_members (it_bits_remain it) \<noteq> {}" using ne by (simp add: word_eq_0_iff)
  have "e \<in> word_members (it_bits_remain it)"
    using Min_in [OF finite_word_members w] Max_in [OF finite_word_members w] by (simp only: e_def extreme_def split: if_split) simp
  then have e: "e < 64" by (rule word_members_less)
  have x: "extreme d (pending k d it) = it_bit_offset it + e" using pending_extreme(1) [OF ok ne] by (simp only: e_def)
  have "pending k d (it\<lparr>it_bits_remain := r\<rparr>) = pending k d it - {it_bit_offset it + e}"
  proof (cases d)
    case True
    have "members (r # ws) = members (it_bits_remain it # ws) - {e}"
      using e unfolding members_Cons r e_def [symmetric] by auto
    then show ?thesis using True unfolding pending_def Let_def by (simp add: image_set_diff ws_def)
  next
    case False
    have l: "it_bit_offset it = 64 * length ws" using ok False by (simp add: iterator_ok_def ws_def)
    have "64 * length ws + e \<notin> members ws" by (auto dest: members_less)
    then have "members (ws @ [r]) = members (ws @ [it_bits_remain it]) - {64 * length ws + e}"
      unfolding members_snoc r e_def [symmetric] by (auto simp: image_set_diff)
    then show ?thesis using False unfolding pending_def Let_def by (simp add: l ws_def)
  qed
  then show ?thesis by (simp only: x)
qed

lemma Iterator_next_spec:
  assumes "iterator_ok d it"
  shows "case Iterator_next k d it of
      None \<Rightarrow> pending k d it = {}
    | Some (index, it') \<Rightarrow> pending k d it \<noteq> {} \<and> index = extreme d (pending k d it)
        \<and> pending k d it' = pending k d it - {index} \<and> iterator_ok d it'"
proof (cases "skip_empty_words k d it")
  case None
  then show ?thesis using skip_empty_words_pending [OF assms, of k] by (simp add: Iterator_next_def)
next
  case (Some it1)
  then have p: "pending k d it1 = pending k d it" and ok: "iterator_ok d it1" and ne: "it_bits_remain it1 \<noteq> 0"
    using skip_empty_words_pending [OF assms, of k] by auto
  define r where "r = (if d then it_bits_remain it1 AND (it_bits_remain it1 - 1)
    else it_bits_remain it1 AND (push_bit (63 - leading_zeros (it_bits_remain it1)) 1 - 1))"
  have "word_members r = word_members (it_bits_remain it1) - {extreme d (word_members (it_bits_remain it1))}"
    using word_members_clear_lowest [OF ne] word_members_clear_highest [OF ne] by (simp add: r_def extreme_def)
  from pending_remove [OF ok ne this, of k] pending_extreme [OF ok ne, of k]
  have q: "pending k d (it1\<lparr>it_bits_remain := r\<rparr>) = pending k d it - {extreme d (pending k d it)}"
    "extreme d (pending k d it) = it_bit_offset it1 + extreme d (word_members (it_bits_remain it1))"
    "pending k d it \<noteq> {}"
    unfolding p by simp_all
  have "iterator_ok d (it1\<lparr>it_bits_remain := r\<rparr>)" using ok by (simp add: iterator_ok_def)
  moreover have "Iterator_next k d it = Some (extreme d (pending k d it), it1\<lparr>it_bits_remain := r\<rparr>)"
    using Some trailing_zeros_Min(1) [OF ne] leading_zeros_Max(1) [OF ne] unfolding q(2)
    by (simp add: Iterator_next_def r_def extreme_def Let_def)
  ultimately show ?thesis using q by simp
qed

text \<open>So the loop runs over the indices in order.\<close>

definition in_order :: "bool \<Rightarrow> nat set \<Rightarrow> nat list" where
  "in_order dir_fwd A = (if dir_fwd then sorted_list_of_set A else rev (sorted_list_of_set A))"

lemma sorted_list_of_set_Max:
  fixes A :: "nat set"
  assumes "finite A" and "A \<noteq> {}"
  shows "sorted_list_of_set A = sorted_list_of_set (A - {Max A}) @ [Max A]"
proof (rule sorted_distinct_set_unique)
  show "sorted (sorted_list_of_set (A - {Max A}) @ [Max A])" using assms by (auto simp: sorted_append)
  show "set (sorted_list_of_set A) = set (sorted_list_of_set (A - {Max A}) @ [Max A])" using assms Max_in [OF assms] by (simp add: insert_absorb)
qed (use assms in auto)

lemma in_order_step:
  assumes "finite A" and "A \<noteq> {}"
  shows "in_order d A = extreme d A # in_order d (A - {extreme d A})"
proof (cases d)
  case True
  then show ?thesis using sorted_list_of_set_nonempty [OF assms] by (simp add: in_order_def extreme_def)
next
  case False
  then show ?thesis unfolding in_order_def extreme_def by (simp add: sorted_list_of_set_Max [OF assms])
qed

lemma iterate_loop_pending:
  "iterator_ok d it \<Longrightarrow> iterate_loop k d f ctx it = foldl f ctx (in_order d (pending k d it))"
proof (induction k d f ctx it rule: iterate_loop.induct)
  case (1 k d f ctx it)
  show ?case
  proof (cases "Iterator_next k d it")
    case None
    then show ?thesis using Iterator_next_spec [OF "1.prems", of k]
      by (simp add: iterate_loop.simps [of k d f ctx it] in_order_def)
  next
    case (Some r)
    obtain index it' where r: "r = (index, it')" by (cases r)
    have s: "pending k d it \<noteq> {}" "index = extreme d (pending k d it)"
      "pending k d it' = pending k d it - {index}" "iterator_ok d it'"
      using Iterator_next_spec [OF "1.prems", of k] Some r by simp_all
    then show ?thesis
      using "1.IH" [OF Some r [symmetric] s(4)] Some r in_order_step [OF finite_pending s(1)]
      by (simp add: iterate_loop.simps [of k d f ctx it])
  qed
qed

lemma Iterator_init_pending:

  shows "iterator_ok d (Iterator_init k d masks m)"
    and "pending k d (Iterator_init k d masks m) = members (to_load k True m masks)"
proof -
  have "iterator_ok d (Iterator_init k d masks m) \<and> pending k d (Iterator_init k d masks m) = members (to_load k True m masks)"
  proof (cases "masks = []")
    case True
    then show ?thesis by (simp add: Iterator_init_def iterator_ok_def pending_def Let_def to_load_def members_Cons word_members_def)
  next
    case ne: False
    show ?thesis
    proof (cases d)
      case True
      obtain w ws where "masks = w # ws" using ne by (cases masks) auto
      then show ?thesis using True
        by (simp add: Iterator_init_def iterator_ok_def pending_def Let_def next_word_fwd to_load_fwd)
    next
      case False
      obtain w ws where "masks = ws @ [w]" using ne by (cases masks rule: rev_cases) auto
      then show ?thesis using False
        by (simp add: Iterator_init_def iterator_ok_def pending_def Let_def next_word_bwd to_load_def)
    qed
  qed
  then show "iterator_ok d (Iterator_init k d masks m)"
    and "pending k d (Iterator_init k d masks m) = members (to_load k True m masks)" by auto
qed

section \<open>The interface of a bit set\<close>

text \<open>
  What the three bit sets promise alike: \<open>put\<close> is \<open>set_value\<close>, \<open>pop\<close> is \<open>toggle_first_set\<close>, and
  \<open>elems\<close> the set that a state stands for.
\<close>

fun pops :: "('s \<Rightarrow> (nat \<times> 's) option) \<Rightarrow> nat \<Rightarrow> 's \<Rightarrow> nat list" where
  "pops pop 0 s = []"
| "pops pop (Suc n) s = (case pop s of None \<Rightarrow> [] | Some (i, s') \<Rightarrow> i # pops pop n s')"

fun puts :: "('s \<Rightarrow> nat \<Rightarrow> bool \<Rightarrow> 's option) \<Rightarrow> 's \<Rightarrow> (nat \<times> bool) list \<Rightarrow> 's option" where
  "puts put s [] = Some s"
| "puts put s ((i, v) # ws) = (case put s i v of None \<Rightarrow> None | Some s' \<Rightarrow> puts put s' ws)"

fun put_elems :: "nat set \<Rightarrow> (nat \<times> bool) list \<Rightarrow> nat set" where
  "put_elems A [] = A"
| "put_elems A ((i, v) # ws) = put_elems (if v then insert i A else A - {i}) ws"

locale bit_set =
  fixes ok :: "'s \<Rightarrow> bool" and cap :: "'s \<Rightarrow> nat" and elems :: "'s \<Rightarrow> nat set"
    and put :: "'s \<Rightarrow> nat \<Rightarrow> bool \<Rightarrow> 's option" and pop :: "'s \<Rightarrow> (nat \<times> 's) option"
  assumes elems_less: "ok s \<Longrightarrow> elems s \<subseteq> {..<cap s}"
    and put_ok: "ok s \<Longrightarrow> i < cap s \<Longrightarrow>
      \<exists>s'. put s i v = Some s' \<and> ok s' \<and> cap s' = cap s \<and> elems s' = (if v then insert i (elems s) else elems s - {i})"
    and pop_None: "ok s \<Longrightarrow> pop s = None \<longleftrightarrow> elems s = {}"
    and pop_Some: "ok s \<Longrightarrow> pop s = Some (i, s') \<Longrightarrow>
      i = Min (elems s) \<and> ok s' \<and> cap s' = cap s \<and> elems s' = elems s - {Min (elems s)}"
begin

lemma finite_elems: "ok s \<Longrightarrow> finite (elems s)"
  using elems_less finite_subset by blast

lemma card_elems: "ok s \<Longrightarrow> card (elems s) \<le> cap s"
  using card_mono [OF _ elems_less] by fastforce

lemma pops_card: "ok s \<Longrightarrow> card (elems s) \<le> n \<Longrightarrow> pops pop n s = sorted_list_of_set (elems s)"
proof (induction n arbitrary: s)
  case 0
  then show ?case using finite_elems by simp
next
  case (Suc n)
  show ?case
  proof (cases "pop s")
    case None
    then show ?thesis using pop_None [OF Suc.prems(1)] by simp
  next
    case (Some r)
    obtain i s' where r: "r = (i, s')" by (cases r)
    note p = pop_Some [OF Suc.prems(1) Some [unfolded r]]
    have ne: "elems s \<noteq> {}" using pop_None [OF Suc.prems(1)] Some by auto
    have "card (elems s') \<le> n"
      using p Suc.prems finite_elems [OF Suc.prems(1)] ne by (simp add: card_Diff_singleton)
    then have "pops pop n s' = sorted_list_of_set (elems s')" using p by (intro Suc.IH) simp_all
    then show ?thesis
      using Some r p sorted_list_of_set_nonempty [OF finite_elems [OF Suc.prems(1)] ne] by simp
  qed
qed

lemma pops_cap: "ok s \<Longrightarrow> pops pop (cap s) s = sorted_list_of_set (elems s)"
  using card_elems by (intro pops_card) auto

lemma puts_ok:
  "ok s \<Longrightarrow> fst ` set ws \<subseteq> {..<cap s} \<Longrightarrow>
    \<exists>s'. puts put s ws = Some s' \<and> ok s' \<and> cap s' = cap s \<and> elems s' = put_elems (elems s) ws"
proof (induction ws arbitrary: s)
  case (Cons w ws)
  obtain i v where w: "w = (i, v)" by (cases w)
  have "i < cap s" using Cons.prems(2) w by simp
  then obtain s' where s': "put s i v = Some s'" "ok s'" "cap s' = cap s"
    "elems s' = (if v then insert i (elems s) else elems s - {i})"
    using put_ok [OF Cons.prems(1)] by blast
  then show ?case using Cons.IH [OF s'(2)] Cons.prems(2) by (simp add: w)
qed simp

lemma puts_pops:
  assumes "ok s" and "elems s = {}" and "fst ` set ws \<subseteq> {..<cap s}"
  shows "\<exists>s'. puts put s ws = Some s' \<and> pops pop (cap s) s' = sorted_list_of_set (put_elems {} ws)"
  using puts_ok [OF assms(1,3)] pops_cap assms(2) by metis

end

text \<open>An \<open>IntegerBitSet\<close> of at most a word, and an \<open>ArrayBitSet\<close>.\<close>

definition integer_fits :: "nat \<Rightarrow> u64 \<Rightarrow> bool" where
  "integer_fits sz m \<longleftrightarrow> sz \<le> 64 \<and> m AND FULL_MASK sz = m"

lemma bit_FULL_MASK: "sz \<le> 64 \<Longrightarrow> bit (FULL_MASK sz) i \<longleftrightarrow> i < sz"
proof -
  have "push_bit sz 1 - 1 = (Bit_Operations.mask sz :: u64)" by (simp add: mask_eq_exp_minus_1 push_bit_eq_mult)
  then show "sz \<le> 64 \<Longrightarrow> bit (FULL_MASK sz) i \<longleftrightarrow> i < sz" by (auto simp: FULL_MASK_def bit_simps)
qed

lemma integer_fits_iff: "integer_fits sz m \<longleftrightarrow> sz \<le> 64 \<and> word_members m \<subseteq> {..<sz}"
proof -
  have "m AND FULL_MASK sz = m \<longleftrightarrow> (\<forall>i. bit m i \<longrightarrow> bit (FULL_MASK sz) i)"
  proof
    assume "m AND FULL_MASK sz = m"
    then show "\<forall>i. bit m i \<longrightarrow> bit (FULL_MASK sz) i" by (metis bit_and_iff)
  next
    assume "\<forall>i. bit m i \<longrightarrow> bit (FULL_MASK sz) i"
    then show "m AND FULL_MASK sz = m" by (intro bit_eqI) (auto simp: bit_and_iff)
  qed
  then show ?thesis by (auto simp: integer_fits_def bit_FULL_MASK)
qed

lemma Integer_set_value_members:
  assumes "integer_fits sz m" and "i < sz"
  shows "word_members (Integer_set_value sz m i v) = (if v then insert i (word_members m) else word_members m - {i})"
proof -
  have "i < 64" "0 < sz" using assms by (auto simp: integer_fits_def)
  moreover have "\<not> bit m j" if "\<not> j < 64" for j using that by (auto dest: bit_imp_le_length)
  ultimately show ?thesis by (auto simp: Integer_set_value_def mask_bit_def Let_def bit_simps)
qed

interpretation integer: bit_set "integer_fits sz" "\<lambda>m. sz" word_members
    "\<lambda>m i v. Some (Integer_set_value sz m i v)" Integer_toggle_first_set for sz
proof (unfold_locales, goal_cases)
  case (2 s i v)
  then show ?case using Integer_set_value_members [OF 2, of v] by (auto simp: integer_fits_iff)
next
  case (4 s i s')
  then have "s \<noteq> 0" "i = trailing_zeros s" "s' = s AND (s - 1)"
    by (auto simp: Integer_toggle_first_set_def Let_def split: if_splits)
  then show ?case using 4(1) word_members_clear_lowest [of s] trailing_zeros_Min(1) [of s] by (auto simp: integer_fits_iff)
qed (auto simp: integer_fits_iff Integer_toggle_first_set_def Let_def word_eq_0_iff)

lemma Array_set_value_fits:
  assumes "fits sz masks" and "i < sz"
  shows "\<exists>masks'. Array_set_value masks i v = Some masks' \<and> fits sz masks'
    \<and> members masks' = (if v then insert i (members masks) else members masks - {i})"
proof -
  have i: "i < 64 * length masks" using assms num_masks_bounds(1) [of sz] by (simp add: fits_iff)
  then have "masks \<noteq> []" by auto
  then show ?thesis using members_masks_ops(4) [OF i, of v] assms by (auto simp: Array_set_value_def fits_iff)
qed

interpretation array: bit_set "fits sz" "\<lambda>masks. sz" members Array_set_value Array_toggle_first_set for sz
proof (unfold_locales, goal_cases)
  case (2 s i v)
  then show ?case using Array_set_value_fits [OF 2, of v] by simp
next
  case (4 s i s')
  then show ?case using toggle_first_loop_Min(2) [of s 0 i s'] by (auto simp: Array_toggle_first_set_def fits_iff)
qed (auto simp: fits_iff Array_toggle_first_set_def toggle_first_loop_Min(1))

section \<open>Operations on whole sets\<close>

lemma Array_toggle_all_members:
  assumes "fits sz masks"
  shows "\<exists>masks'. Array_toggle_all sz masks = Some masks' \<and> fits sz masks' \<and> members masks' = {..<sz} - members masks"
proof (cases "sz = 0")
  case True
  then have "masks = []" using assms by (simp add: fits_def)
  then show ?thesis using True assms by (simp add: Array_toggle_all_def)
next
  case False
  have l: "length masks = num_masks_for sz" using assms by (simp add: fits_def)
  then have "masks \<noteq> []" using False by auto
  moreover have "({..<64 * length masks} - members masks) \<inter> {..<sz} = {..<sz} - members masks"
    using num_masks_bounds(1) [of sz] l by auto
  ultimately show ?thesis
    using mask_last_members [of "map NOT masks" sz] False l by (simp add: Array_toggle_all_def members_map_not)
qed

lemma members_to_load:
  assumes "fits sz masks"
  shows "members (to_load k True (LAST_ITEM_MASK sz) masks) = (if k then members masks else {..<sz} - members masks)"
proof (cases "k \<or> masks = []")
  case True
  then show ?thesis using assms by (auto simp: to_load_def fits_def)
next
  case False
  obtain w ws where m: "masks = ws @ [w]" using False by (cases masks rule: rev_cases) auto
  have "Array_toggle_all sz masks = Some (to_load k True (LAST_ITEM_MASK sz) masks)"
    using False
    by (simp add: Array_toggle_all_def mask_last_def update_mask_def to_load_def m list_update_append nth_append)
  then show ?thesis using Array_toggle_all_members [OF assms] False by auto
qed

lemma iterate_loop_visits:
  assumes "fits sz masks"
  shows "iterate_loop k d f ctx (Iterator_init k d masks (LAST_ITEM_MASK sz)) =
    foldl f ctx (in_order d (if k then members masks else {..<sz} - members masks))"
  by (subst iterate_loop_pending [OF Iterator_init_pending(1)])
    (simp only: Iterator_init_pending(2) members_to_load [OF assms])

lemma Array_set_all_members:
  assumes "fits sz masks"
  shows "\<exists>masks'. Array_set_all sz masks v = Some masks' \<and> fits sz masks' \<and> members masks' = (if v then {..<sz} else {})"
proof (cases "sz = 0")
  case True
  then have "masks = []" using assms by (simp add: fits_def)
  then show ?thesis using True assms by (simp add: Array_set_all_def)
next
  case False
  have l: "length masks = num_masks_for sz" using assms by (simp add: fits_def)
  then have "masks \<noteq> []" using False by auto
  then have e: "Array_set_all sz masks v = mask_last (replicate (num_masks_for sz) (bool_mask_usize v)) (LAST_ITEM_MASK sz)"
    by (simp only: Array_set_all_def l if_False)
  have cut: "(if v then {..<64 * num_masks_for sz} else {}) \<inter> {..<sz} = (if v then {..<sz} else {})"
    using num_masks_bounds(1) [of sz] by auto
  have pos: "0 < sz" using False by simp
  from mask_last_members [OF length_replicate pos, of "bool_mask_usize v"]
  show ?thesis unfolding e members_replicate cut .
qed

lemma list_all_nth_eq: "length xs = length ys \<Longrightarrow> list_all (\<lambda>i. xs ! i = ys ! i) [0..<length xs] \<longleftrightarrow> xs = ys"
  unfolding list_all_iff list_eq_iff_nth_eq [of xs ys] by auto

lemma Array_set_algebra:
  assumes "fits sz a" and "fits sz b"
  shows "members (Array_set_union a b) = members a \<union> members b"
    "members (Array_set_intersection a b) = members a \<inter> members b"
    "members (Array_toggle_set a b) = (members a - members b) \<union> (members b - members a)"
    "Array_eql a b \<longleftrightarrow> members a = members b"
    "Array_subset_of a b \<longleftrightarrow> members a \<subseteq> members b"
    "Array_has_intersection a b \<longleftrightarrow> members a \<inter> members b \<noteq> {}"
proof -
  have l: "length a = length b" using assms by (simp add: fits_def)
  show "members (Array_set_union a b) = members a \<union> members b"
    "members (Array_set_intersection a b) = members a \<inter> members b"
    "members (Array_toggle_set a b) = (members a - members b) \<union> (members b - members a)"
    using members_zip_ops [OF l] by (simp_all add: Array_set_union_def Array_set_intersection_def Array_toggle_set_def)
  have eql: "Array_eql x y \<longleftrightarrow> members x = members y" if "length x = length y" for x y
    unfolding Array_eql_def list_all_nth_eq [OF that] members_inject [OF that] ..
  show "Array_eql a b \<longleftrightarrow> members a = members b" by (rule eql [OF l])
  have "Array_subset_of a b \<longleftrightarrow> members a \<inter> members b = members a"
    using eql [of "map2 (AND) a b" a] l members_zip_ops(2) [OF l]
    by (simp add: Array_subset_of_def Array_intersect_with_def Array_set_intersection_def)
  then show "Array_subset_of a b \<longleftrightarrow> members a \<subseteq> members b" by blast
  show "Array_has_intersection a b \<longleftrightarrow> members a \<inter> members b \<noteq> {}"
    using any_intersection_iff [OF l] by (simp add: Array_has_intersection_def)
qed

lemma Array_difference_members:
  assumes "fits sz a" and "fits sz b"
  shows "\<exists>c. Array_difference_with sz a b = Some c \<and> fits sz c \<and> members c = members a - members b"
proof -
  obtain c where c: "Array_toggle_all sz b = Some c" "fits sz c" "members c = {..<sz} - members b"
    using Array_toggle_all_members [OF assms(2)] by blast
  have "members (Array_set_intersection a c) = members a - members b"
    using Array_set_algebra(2) [OF assms(1) c(2)] c(3) assms(1) by (auto simp: fits_iff)
  moreover have "length (Array_set_intersection a c) = num_masks_for sz"
    using assms(1) c(2) by (simp add: Array_set_intersection_def fits_def)
  ultimately show ?thesis using c(1) assms(1) by (auto simp: Array_difference_with_def Array_complement_def fits_iff)
qed

lemma Integer_set_range_value_members:
  assumes "integer_fits sz m" and "start \<le> stop" and "stop \<le> sz"
  shows "word_members (Integer_set_range_value sz m start stop v) =
    (if v then word_members m \<union> {start..<stop} else word_members m - {start..<stop})"
proof (cases "start = stop")
  case True
  then show ?thesis by (simp add: Integer_set_range_value_def)
next
  case False
  have sz: "sz \<le> 64" "0 < sz" "0 < stop" using assms False by (auto simp: integer_fits_def)
  have lowbits: "bit (drop_bit (64 - stop) (bool_mask_usize b)) i \<longleftrightarrow> b \<and> i < stop" for b i
    using sz assms(3) by (auto simp: bit_simps)
  define mk where "mk b = (if stop \<noteq> sz then push_bit start (bool_mask_usize b) AND drop_bit (64 - stop) (bool_mask_usize b)
      else push_bit start (bool_mask_usize b)) AND FULL_MASK sz" for b
  have mk: "bit (mk b) i \<longleftrightarrow> b \<and> start \<le> i \<and> i < stop" for b i
    using sz assms(3) by (auto simp: mk_def bit_and_iff bit_range_high lowbits bit_FULL_MASK [OF sz(1)])
  have "Integer_set_range_value sz m start stop v = m AND NOT (mk True) OR mk v"
    using False sz by (simp add: Integer_set_range_value_def Let_def mk_def)
  then have "bit (Integer_set_range_value sz m start stop v) i \<longleftrightarrow> (if start \<le> i \<and> i < stop then v else bit m i)" for i
    using bit_imp_possible_bit [of m i] by (simp only: bit_or_iff bit_and_iff bit_not_iff mk) argo
  then show ?thesis by (auto simp: set_eq_iff)
qed

section \<open>Properties\<close>

lemma num_masks_for_eq [simp]: "num_masks_for 100 = 2" "num_masks_for 130 = 3" "num_masks_for 64 = 1" "num_masks_for 70 = 2"
  by (simp_all add: num_masks_for_def)

lemma fits_zeros: "fits sz (replicate (num_masks_for sz) 0)"
  using members_replicate [of _ False] by (simp add: fits_iff bool_mask_usize_def)

text \<open>
  C19. \<open>set_range_value\<close> on a range within the set adds exactly the indices of the range, or removes them,
  whether the range lies in one word or spans words; it does not panic, and the padding stays zero.
\<close>

theorem Array_set_range_value_spec:
  assumes "fits sz masks" and "start \<le> stop" and "stop \<le> sz"
  shows "\<exists>masks'. Array_set_range_value masks start stop v = Some masks' \<and> fits sz masks'
    \<and> members masks' = (if v then members masks \<union> {start..<stop} else members masks - {start..<stop})"
proof (cases "masks = []")
  case True
  then have "sz = 0" using assms(1) by (simp add: fits_def)
  then show ?thesis using True assms by (auto simp: Array_set_range_value_def)
next
  case False
  have "stop \<le> 64 * length masks" using assms num_masks_bounds(1) [of sz] by (simp add: fits_def)
  then show ?thesis
    using set_range_value_masks_members [OF assms(2), of masks v] False assms
    by (cases v) (auto simp: Array_set_range_value_def fits_iff)
qed

theorem Array_set_range_value_spec_witness:
  "\<exists>masks'. Array_set_range_value (replicate 3 0) 60 129 True = Some masks' \<and> fits 130 masks'
    \<and> members masks' = members (replicate 3 0) \<union> {60..<129}"
  using Array_set_range_value_spec [of 130 "replicate 3 0" 60 129 True] fits_zeros [of 130] by simp

text \<open>
  For a size of at most a word, the set in one word and the set in an array of one word do the same:
  their range assignments, which compute their masks differently, agree.
\<close>

theorem Integer_Array_set_range_agree:
  assumes "integer_fits sz m" and "start \<le> stop" and "stop \<le> sz" and "0 < sz"
  shows "Array_set_range_value [m] start stop v = Some [Integer_set_range_value sz m start stop v]"
proof -
  have one: "members [w] = word_members w" for w by (simp add: members_Cons)
  have sz: "sz \<le> 64" using assms(1) by (simp add: integer_fits_def)
  obtain masks' where m: "set_range_value_masks [m] start stop v = Some masks'" "length masks' = 1"
    "members masks' = (if v then members [m] \<union> {start..<stop} else members [m] - {start..<stop})"
    using set_range_value_masks_members [OF assms(2), of "[m]" v] assms(3) sz by auto
  have "members masks' = members [Integer_set_range_value sz m start stop v]"
    unfolding m(3) one Integer_set_range_value_members [OF assms(1-3)] ..
  then have "masks' = [Integer_set_range_value sz m start stop v]" using m(2) by (simp only: members_inject length_Cons list.size)
  then show ?thesis using m(1) by (simp add: Array_set_range_value_def)
qed

theorem Integer_Array_set_range_agree_witness:
  "Array_set_range_value [5] 1 9 True = Some [Integer_set_range_value 10 5 1 9 True]"
  by (rule Integer_Array_set_range_agree) (auto simp: integer_fits_def FULL_MASK_def)

text \<open>
  C20. The iterator of a set yields exactly its members, or exactly the indices below its size that are not
  members, each once, in ascending order, or descending: a loop over it folds the caller's function over
  that list.
\<close>

theorem Array_iterator_visits:
  assumes "fits sz masks"
  shows "iterate_loop kind_set dir_fwd f ctx (Array_iterator sz kind_set dir_fwd masks) =
    foldl f ctx (in_order dir_fwd (if kind_set then members masks else {..<sz} - members masks))"
  unfolding Array_iterator_def by (rule iterate_loop_visits [OF assms])

theorem Array_iterator_visits_witness:
  "iterate_loop False False (\<lambda>is i. i # is) [] (Array_iterator 70 False False (replicate 2 0)) =
    foldl (\<lambda>is i. i # is) [] (in_order False ({..<70} - members (replicate 2 0)))"
  using Array_iterator_visits [of 70 "replicate 2 0" False False "\<lambda>is i. i # is" "[]"] fits_zeros [of 70] by simp

text \<open>
  Assigning bits of an empty \<open>ArrayBitSet\<close> in any order, then taking the first bit away until there
  is none, gives the indices whose last assignment set them, in ascending order.
\<close>

theorem Array_puts_pops:
  assumes "fst ` set ws \<subseteq> {..<sz}"
  shows "\<exists>masks. puts Array_set_value (Array_init_empty sz) ws = Some masks
    \<and> pops Array_toggle_first_set sz masks = sorted_list_of_set (put_elems {} ws)"
  using array.puts_pops [of sz "Array_init_empty sz" ws] assms fits_zeros [of sz] members_replicate [of "num_masks_for sz" False]
  by (simp add: Array_init_empty_def bool_mask_usize_def)

theorem Array_puts_pops_witness:
  "\<exists>masks. puts Array_set_value (Array_init_empty 100) [(99, True), (3, True), (64, True), (3, False)] = Some masks
    \<and> pops Array_toggle_first_set 100 masks = sorted_list_of_set {99, 64}"
proof -
  have "put_elems {} [(99, True), (3, True), (64, True), (3, False)] = {99, 64}" by auto
  then show ?thesis using Array_puts_pops [of "[(99, True), (3, True), (64, True), (3, False)]" 100] by simp
qed

end
