(* ===== verification/Dynamic_Bit_Set.thy ===== *)
theory Dynamic_Bit_Set
  imports Bit_Set
begin

text \<open>
  The heap-allocated bit sets of \<open>src/src/collections/bit_set.rs\<close>: \<open>DynamicBitSetUnmanaged\<close> with its
  resizing, the wrapper \<open>DynamicBitSet\<close>, \<open>DynamicBitSetList\<close> with several sets in one buffer, and
  \<open>AutoBitSet\<close>, which chooses between an array and the heap.

  The allocator is a parameter: \<open>alloc old_len new_len\<close> answers \<open>None\<close> when there is no memory (or the
  layout is too large), and otherwise the contents of the words that the block did not have before. An
  access outside the allocation is \<open>None\<close>.
\<close>

unbundle bit_operations_syntax

section \<open>DynamicBitSetUnmanaged\<close>

text \<open>
  \<open>masks\<close> points one word into the allocation; \<open>d_alloc\<close> is the word before it, the length of the
  allocation, and \<open>d_words\<close> the words from \<open>masks\<close> to its end. The empty set points into a static array of
  two words.
\<close>

record dynamic_bit_set =
  d_bit_length :: nat
  d_alloc :: nat
  d_words :: "u64 list"

datatype alloc_error = AllocError

type_synonym allocator = "nat \<Rightarrow> nat \<Rightarrow> (nat \<Rightarrow> u64) option"

definition EMPTY_MASKS_DATA :: "u64 list" where
  "EMPTY_MASKS_DATA = [0, 0]"

definition Dynamic_default :: dynamic_bit_set where
  "Dynamic_default = \<lparr>d_bit_length = 0, d_alloc = unat (hd EMPTY_MASKS_DATA), d_words = tl EMPTY_MASKS_DATA\<rparr>"

definition num_masks :: "nat \<Rightarrow> nat" where
  "num_masks bit_length = num_masks_for bit_length"

definition masks_slice :: "dynamic_bit_set \<Rightarrow> u64 list" where
  "masks_slice d = take (num_masks (d_bit_length d)) (d_words d)"

text \<open>Writing through \<open>masks_slice_mut\<close>.\<close>

definition with_masks :: "dynamic_bit_set \<Rightarrow> u64 list \<Rightarrow> dynamic_bit_set" where
  "with_masks d masks = d\<lparr>d_words := masks @ drop (length masks) (d_words d)\<rparr>"

definition zip_masks_raw :: "dynamic_bit_set \<Rightarrow> dynamic_bit_set \<Rightarrow> (u64 \<Rightarrow> u64 \<Rightarrow> u64) \<Rightarrow> dynamic_bit_set option" where
  "zip_masks_raw d other f =
     (let n = num_masks (d_bit_length d); dst = d_words d; src = d_words other in
      if n \<le> length dst \<and> n \<le> length src
      then Some (d\<lparr>d_words := map2 f (take n dst) (take n src) @ drop n dst\<rparr>) else None)"

definition dyn_realloc :: "allocator \<Rightarrow> u64 list \<Rightarrow> nat \<Rightarrow> nat \<Rightarrow> u64 list option" where
  "dyn_realloc alloc ws old_len new_len =
     (case alloc old_len new_len of
        None \<Rightarrow> None
      | Some fresh \<Rightarrow> Some (map (\<lambda>i. if i + 1 < old_len then ws ! i else fresh i) [0..<new_len - 1]))"

definition last_item_mask :: "nat \<Rightarrow> u64" where
  "last_item_mask bit_length = (let padding_bits = num_masks bit_length * 64 - bit_length in drop_bit padding_bits (- 1))"

text \<open>The three parts of \<open>resize\<close>: the allocation, the new bits, the padding.\<close>

definition resize_realloc :: "allocator \<Rightarrow> dynamic_bit_set \<Rightarrow> nat \<Rightarrow> alloc_error + dynamic_bit_set" where
  "resize_realloc alloc d new_masks =
     (let old_alloc_len = d_alloc d in
      if old_alloc_len = new_masks + 1 then Inr d
      else
        case dyn_realloc alloc (d_words d) old_alloc_len (new_masks + 1) of
          None \<Rightarrow> if old_alloc_len < new_masks + 1 then Inl AllocError else Inr d
        | Some ws \<Rightarrow> Inr (d\<lparr>d_alloc := new_masks + 1, d_words := ws\<rparr>))"

definition resize_fill :: "u64 list \<Rightarrow> nat \<Rightarrow> nat \<Rightarrow> bool \<Rightarrow> u64 list option" where
  "resize_fill ws old_len new_len fill =
     (let old_masks = num_masks old_len; new_masks = num_masks new_len in
      if old_len < new_len then
        case (if fill \<and> 0 < old_masks
              then update_mask ws (old_masks - 1) (\<lambda>w. w OR NOT (last_item_mask old_len)) else Some ws) of
          None \<Rightarrow> None
        | Some ws \<Rightarrow>
            if old_masks < new_masks then
              (if new_masks \<le> length ws
               then Some (copy_at ws old_masks (replicate (new_masks - old_masks) (bool_mask_usize fill))) else None)
            else Some ws
      else Some ws)"

definition Dynamic_resize :: "allocator \<Rightarrow> dynamic_bit_set \<Rightarrow> nat \<Rightarrow> bool \<Rightarrow> ((alloc_error + unit) \<times> dynamic_bit_set) option" where
  "Dynamic_resize alloc d new_len fill =
     (let old_len = d_bit_length d; new_masks = num_masks new_len in
      if new_masks = 0 then Some (Inr (), Dynamic_default)
      else
        case resize_realloc alloc d new_masks of
          Inl e \<Rightarrow> Some (Inl e, d)
        | Inr d \<Rightarrow>
            (case resize_fill (d_words d) old_len new_len fill of
               None \<Rightarrow> None
             | Some ws \<Rightarrow>
                 map_option (\<lambda>ws. (Inr (), d\<lparr>d_words := ws, d_bit_length := new_len\<rparr>))
                   (if 0 < new_len then update_mask ws (new_masks - 1) (\<lambda>w. w AND last_item_mask new_len)
                    else Some ws)))"

definition Dynamic_init :: "allocator \<Rightarrow> nat \<Rightarrow> bool \<Rightarrow> (alloc_error + dynamic_bit_set) option" where
  "Dynamic_init alloc bit_length fill =
     (case Dynamic_resize alloc Dynamic_default bit_length fill of
        None \<Rightarrow> None | Some (Inl e, d) \<Rightarrow> Some (Inl e) | Some (Inr u, d) \<Rightarrow> Some (Inr d))"

definition Dynamic_init_empty :: "allocator \<Rightarrow> nat \<Rightarrow> (alloc_error + dynamic_bit_set) option" where
  "Dynamic_init_empty alloc bit_length = Dynamic_init alloc bit_length False"

definition Dynamic_init_full :: "allocator \<Rightarrow> nat \<Rightarrow> (alloc_error + dynamic_bit_set) option" where
  "Dynamic_init_full alloc bit_length = Dynamic_init alloc bit_length True"

definition Dynamic_deinit :: "allocator \<Rightarrow> dynamic_bit_set \<Rightarrow> dynamic_bit_set option" where
  "Dynamic_deinit alloc d =
     (case Dynamic_resize alloc d 0 False of Some (Inr u, d) \<Rightarrow> Some d | _ \<Rightarrow> None)"

definition Dynamic_clone :: "allocator \<Rightarrow> dynamic_bit_set \<Rightarrow> (alloc_error + dynamic_bit_set) option" where
  "Dynamic_clone alloc d =
     (case Dynamic_init alloc (d_bit_length d) False of
        None \<Rightarrow> None
      | Some (Inl e) \<Rightarrow> Some (Inl e)
      | Some (Inr copy) \<Rightarrow>
          if length (masks_slice copy) = length (masks_slice d) then Some (Inr (with_masks copy (masks_slice d))) else None)"

definition Dynamic_is_set :: "dynamic_bit_set \<Rightarrow> nat \<Rightarrow> bool option" where
  "Dynamic_is_set d index = masks_is_set (masks_slice d) index"

definition Dynamic_is_set_allow_out_of_bound :: "dynamic_bit_set \<Rightarrow> nat \<Rightarrow> bool \<Rightarrow> bool option" where
  "Dynamic_is_set_allow_out_of_bound d index out_of_bounds =
     (if d_bit_length d \<le> index then Some out_of_bounds else masks_is_set (masks_slice d) index)"

text \<open>The bytes of the words, the lowest first.\<close>

definition word_bytes :: "u64 \<Rightarrow> 8 word list" where
  "word_bytes w = map (\<lambda>k. ucast (drop_bit (8 * k) w)) [0..<8]"

definition Dynamic_bytes :: "dynamic_bit_set \<Rightarrow> 8 word list" where
  "Dynamic_bytes d = concat (map word_bytes (masks_slice d))"

definition Dynamic_count :: "dynamic_bit_set \<Rightarrow> nat" where
  "Dynamic_count d = masks_count (masks_slice d)"

definition Dynamic_has_intersection :: "dynamic_bit_set \<Rightarrow> dynamic_bit_set \<Rightarrow> bool" where
  "Dynamic_has_intersection d other = any_intersection (masks_slice d) (masks_slice other)"

definition Dynamic_set_value :: "dynamic_bit_set \<Rightarrow> nat \<Rightarrow> bool \<Rightarrow> dynamic_bit_set option" where
  "Dynamic_set_value d index v = map_option (with_masks d) (masks_set_value (masks_slice d) index v)"

definition Dynamic_set :: "dynamic_bit_set \<Rightarrow> nat \<Rightarrow> dynamic_bit_set option" where
  "Dynamic_set d index = map_option (with_masks d) (masks_set (masks_slice d) index)"

definition Dynamic_set_range_value :: "dynamic_bit_set \<Rightarrow> nat \<Rightarrow> nat \<Rightarrow> bool \<Rightarrow> dynamic_bit_set option" where
  "Dynamic_set_range_value d start stop v = map_option (with_masks d) (set_range_value_masks (masks_slice d) start stop v)"

definition Dynamic_unset :: "dynamic_bit_set \<Rightarrow> nat \<Rightarrow> dynamic_bit_set option" where
  "Dynamic_unset d index = map_option (with_masks d) (masks_unset (masks_slice d) index)"

definition Dynamic_toggle :: "dynamic_bit_set \<Rightarrow> nat \<Rightarrow> dynamic_bit_set option" where
  "Dynamic_toggle d index = map_option (with_masks d) (masks_toggle (masks_slice d) index)"

text \<open>The last word of the slice, cut to the length.\<close>

definition mask_padding :: "dynamic_bit_set \<Rightarrow> dynamic_bit_set option" where
  "mask_padding d =
     map_option (with_masks d)
       (update_mask (masks_slice d) (num_masks (d_bit_length d) - 1) (\<lambda>w. w AND last_item_mask (d_bit_length d)))"

definition Dynamic_toggle_set :: "dynamic_bit_set \<Rightarrow> dynamic_bit_set \<Rightarrow> dynamic_bit_set option" where
  "Dynamic_toggle_set d toggles =
     (if d_bit_length d = 0 then Some d
      else case zip_masks_raw d toggles (XOR) of None \<Rightarrow> None | Some d \<Rightarrow> mask_padding d)"

definition Dynamic_set_all :: "dynamic_bit_set \<Rightarrow> bool \<Rightarrow> dynamic_bit_set option" where
  "Dynamic_set_all d v =
     (if d_bit_length d = 0 then Some d
      else mask_padding (with_masks d (map (\<lambda>w. bool_mask_usize v) (masks_slice d))))"

definition Dynamic_toggle_all :: "dynamic_bit_set \<Rightarrow> dynamic_bit_set option" where
  "Dynamic_toggle_all d =
     (if d_bit_length d = 0 then Some d else mask_padding (with_masks d (map NOT (masks_slice d))))"

definition Dynamic_copy_into :: "dynamic_bit_set \<Rightarrow> dynamic_bit_set \<Rightarrow> dynamic_bit_set option" where
  "Dynamic_copy_into d other =
     (if d_bit_length d = 0 then Some d
      else case zip_masks_raw d other (\<lambda>a b. b) of None \<Rightarrow> None | Some d \<Rightarrow> mask_padding d)"

definition Dynamic_set_union :: "dynamic_bit_set \<Rightarrow> dynamic_bit_set \<Rightarrow> dynamic_bit_set option" where
  "Dynamic_set_union d other = zip_masks_raw d other (OR)"

definition Dynamic_set_intersection :: "dynamic_bit_set \<Rightarrow> dynamic_bit_set \<Rightarrow> dynamic_bit_set option" where
  "Dynamic_set_intersection d other = zip_masks_raw d other (AND)"

definition Dynamic_set_exclude :: "dynamic_bit_set \<Rightarrow> dynamic_bit_set \<Rightarrow> dynamic_bit_set option" where
  "Dynamic_set_exclude d other = zip_masks_raw d other (\<lambda>a b. a AND NOT b)"

definition Dynamic_set_exclude_two :: "dynamic_bit_set \<Rightarrow> dynamic_bit_set \<Rightarrow> dynamic_bit_set \<Rightarrow> dynamic_bit_set option" where
  "Dynamic_set_exclude_two d other third =
     (case zip_masks_raw d other (\<lambda>a b. a AND NOT b) of
        None \<Rightarrow> None | Some d \<Rightarrow> zip_masks_raw d third (\<lambda>a c. a AND NOT c))"

definition Dynamic_find_first_set :: "dynamic_bit_set \<Rightarrow> nat option" where
  "Dynamic_find_first_set d = find_first_loop (masks_slice d) 0"

definition Dynamic_toggle_first_set :: "dynamic_bit_set \<Rightarrow> (nat \<times> dynamic_bit_set) option" where
  "Dynamic_toggle_first_set d =
     map_option (\<lambda>(index, masks). (index, with_masks d masks)) (toggle_first_loop (masks_slice d) 0)"

definition Dynamic_eql :: "dynamic_bit_set \<Rightarrow> dynamic_bit_set \<Rightarrow> bool" where
  "Dynamic_eql d other \<longleftrightarrow> d_bit_length d = d_bit_length other \<and> masks_slice d = masks_slice other"

definition Dynamic_subset_of :: "dynamic_bit_set \<Rightarrow> dynamic_bit_set \<Rightarrow> bool" where
  "Dynamic_subset_of d other \<longleftrightarrow>
     d_bit_length d = d_bit_length other
     \<and> list_all (\<lambda>(a, b). a AND b = a) (zip (masks_slice d) (masks_slice other))"

definition Dynamic_superset_of :: "dynamic_bit_set \<Rightarrow> dynamic_bit_set \<Rightarrow> bool" where
  "Dynamic_superset_of d other \<longleftrightarrow>
     d_bit_length d = d_bit_length other
     \<and> list_all (\<lambda>(a, b). a AND b = b) (zip (masks_slice d) (masks_slice other))"

definition Dynamic_iterator :: "bool \<Rightarrow> bool \<Rightarrow> dynamic_bit_set \<Rightarrow> bit_set_iterator" where
  "Dynamic_iterator kind_set dir_fwd d = Iterator_init kind_set dir_fwd (masks_slice d) (last_item_mask (d_bit_length d))"

section \<open>DynamicBitSet\<close>

text \<open>
  The wrapper holds just the unmanaged set, so a state of it is the state of that set; its methods forward
  under the same names, except that \<open>copy_into\<close> has the receiver and the argument the other way round.
\<close>

definition DynamicBitSet_copy_into :: "dynamic_bit_set \<Rightarrow> dynamic_bit_set \<Rightarrow> dynamic_bit_set option" where
  "DynamicBitSet_copy_into self other = Dynamic_copy_into other self"

section \<open>DynamicBitSetList\<close>

record dynamic_bit_set_list =
  dl_buf :: "u64 list"
  dl_n :: nat
  dl_bit_length :: nat

text \<open>\<open>mem\<close> says whether the zeroed allocation of \<open>buf_len\<close> words succeeds.\<close>

definition List_init_empty :: "(nat \<Rightarrow> bool) \<Rightarrow> nat \<Rightarrow> nat \<Rightarrow> alloc_error + dynamic_bit_set_list" where
  "List_init_empty mem n bit_length =
     (let masks = num_masks bit_length; single_bitset_buf_size = masks + 1; buf_len = single_bitset_buf_size * n in
      if buf_len = 0 then Inr \<lparr>dl_buf = [], dl_n = n, dl_bit_length = bit_length\<rparr>
      else if \<not> mem buf_len then Inl AllocError
      else
        Inr \<lparr>dl_buf = foldl (\<lambda>buf i. buf[i * single_bitset_buf_size := of_nat single_bitset_buf_size])
                        (replicate buf_len 0) [0..<n],
             dl_n = n, dl_bit_length = bit_length\<rparr>)"

text \<open>A view of the \<open>i\<close>-th set points into the buffer, one word past its header.\<close>

definition List_at :: "dynamic_bit_set_list \<Rightarrow> nat \<Rightarrow> dynamic_bit_set" where
  "List_at l i =
     (let single_bitset_buf_size = num_masks (dl_bit_length l) + 1; offset = single_bitset_buf_size * i in
      \<lparr>d_bit_length = dl_bit_length l, d_alloc = unat (dl_buf l ! offset), d_words = drop (offset + 1) (dl_buf l)\<rparr>)"

text \<open>What is written through a view lands in the buffer.\<close>

definition List_put :: "dynamic_bit_set_list \<Rightarrow> nat \<Rightarrow> dynamic_bit_set \<Rightarrow> dynamic_bit_set_list" where
  "List_put l i d =
     (let offset = (num_masks (dl_bit_length l) + 1) * i in
      l\<lparr>dl_buf := take (offset + 1) (dl_buf l) @ d_words d\<rparr>)"

definition List_set :: "dynamic_bit_set_list \<Rightarrow> nat \<Rightarrow> nat \<Rightarrow> dynamic_bit_set_list option" where
  "List_set l i j = map_option (List_put l i) (Dynamic_set (List_at l i) j)"

definition List_set_union :: "dynamic_bit_set_list \<Rightarrow> nat \<Rightarrow> dynamic_bit_set \<Rightarrow> dynamic_bit_set_list option" where
  "List_set_union l i other = map_option (List_put l i) (Dynamic_set_union (List_at l i) other)"

section \<open>AutoBitSet\<close>

text \<open>One bit less than the two words of a \<open>DynamicBitSetUnmanaged\<close>.\<close>

definition AUTO_STATIC_BITS :: nat where
  "AUTO_STATIC_BITS = 16 * 8 - 1"

datatype auto_bit_set = Static "u64 list" | Dynamic dynamic_bit_set

definition needs_dynamic :: "nat \<Rightarrow> bool" where
  "needs_dynamic bit_length \<longleftrightarrow> AUTO_STATIC_BITS < bit_length"

definition Auto_init_empty :: "allocator \<Rightarrow> nat \<Rightarrow> (alloc_error + auto_bit_set) option" where
  "Auto_init_empty alloc bit_length =
     (if bit_length \<le> AUTO_STATIC_BITS then Some (Inr (Static (Array_init_empty AUTO_STATIC_BITS)))
      else map_option (map_sum id Dynamic) (Dynamic_init_empty alloc bit_length))"

definition Auto_is_set :: "auto_bit_set \<Rightarrow> nat \<Rightarrow> bool option" where
  "Auto_is_set a index =
     (case a of Static b \<Rightarrow> Array_is_set b index | Dynamic b \<Rightarrow> Dynamic_is_set b index)"

definition Auto_has_intersection :: "auto_bit_set \<Rightarrow> auto_bit_set \<Rightarrow> bool" where
  "Auto_has_intersection this other =
     (case (this, other) of
        (Static a, Static b) \<Rightarrow> Array_has_intersection a b
      | (Dynamic a, Dynamic b) \<Rightarrow> Dynamic_has_intersection a b
      | _ \<Rightarrow> False)"

definition Auto_clone :: "allocator \<Rightarrow> auto_bit_set \<Rightarrow> (alloc_error + auto_bit_set) option" where
  "Auto_clone alloc a =
     (case a of
        Static s \<Rightarrow> Some (Inr (Static s))
      | Dynamic d \<Rightarrow> map_option (map_sum id Dynamic) (Dynamic_clone alloc d))"

definition Auto_set :: "auto_bit_set \<Rightarrow> nat \<Rightarrow> auto_bit_set option" where
  "Auto_set a index =
     (case a of
        Static b \<Rightarrow> map_option Static (Array_set b index)
      | Dynamic b \<Rightarrow> map_option Dynamic (Dynamic_set b index))"

definition Auto_unset :: "auto_bit_set \<Rightarrow> nat \<Rightarrow> auto_bit_set option" where
  "Auto_unset a index =
     (case a of
        Static b \<Rightarrow> map_option Static (Array_unset b index)
      | Dynamic b \<Rightarrow> map_option Dynamic (Dynamic_unset b index))"

definition Auto_raw_bytes :: "auto_bit_set \<Rightarrow> 8 word list" where
  "Auto_raw_bytes a =
     (case a of Static s \<Rightarrow> concat (map word_bytes s) | Dynamic d \<Rightarrow> Dynamic_bytes d)"

definition Auto_eql :: "auto_bit_set \<Rightarrow> auto_bit_set \<Rightarrow> bool" where
  "Auto_eql a b \<longleftrightarrow> Auto_raw_bytes a = Auto_raw_bytes b"

definition Auto_set_all :: "auto_bit_set \<Rightarrow> bool \<Rightarrow> auto_bit_set option" where
  "Auto_set_all a v =
     (case a of
        Static b \<Rightarrow> map_option Static (Array_set_all AUTO_STATIC_BITS b v)
      | Dynamic b \<Rightarrow> map_option Dynamic (Dynamic_set_all b v))"

definition Auto_count :: "auto_bit_set \<Rightarrow> nat" where
  "Auto_count a = (case a of Static b \<Rightarrow> Array_count b | Dynamic b \<Rightarrow> Dynamic_count b)"

definition Auto_find_first_set :: "auto_bit_set \<Rightarrow> nat option" where
  "Auto_find_first_set a = (case a of Static b \<Rightarrow> Array_find_first_set b | Dynamic b \<Rightarrow> Dynamic_find_first_set b)"

definition Auto_iterator :: "bool \<Rightarrow> bool \<Rightarrow> auto_bit_set \<Rightarrow> bit_set_iterator" where
  "Auto_iterator kind_set dir_fwd a =
     (case a of
        Static b \<Rightarrow> Array_iterator AUTO_STATIC_BITS kind_set dir_fwd b
      | Dynamic b \<Rightarrow> Dynamic_iterator kind_set dir_fwd b)"

definition Auto_for_each :: "auto_bit_set \<Rightarrow> 'c \<Rightarrow> ('c \<Rightarrow> nat \<Rightarrow> 'c) \<Rightarrow> 'c" where
  "Auto_for_each a ctx f = iterate_loop True True f ctx (Auto_iterator True True a)"

section \<open>The invariant\<close>

text \<open>
  A set is either the empty one, or its block has room for its words, more when an allocator refused to
  shrink it, and the padding of its last word is zero.
\<close>

definition dyn_ok :: "dynamic_bit_set \<Rightarrow> bool" where
  "dyn_ok d \<longleftrightarrow>
     (if d_alloc d = 0 then d = Dynamic_default
      else length (d_words d) = d_alloc d - 1 \<and> num_masks (d_bit_length d) \<le> d_alloc d - 1
        \<and> fits (d_bit_length d) (masks_slice d))"

definition elems :: "dynamic_bit_set \<Rightarrow> nat set" where
  "elems d = members (masks_slice d)"

lemma num_masks_eq [simp]: "num_masks = num_masks_for"
  by (auto simp: num_masks_def)

lemma last_item_mask_eq [simp]: "last_item_mask = LAST_ITEM_MASK"
  by (auto simp: last_item_mask_def LAST_ITEM_MASK_def LAST_PAD_BITS_def Let_def mult.commute)

lemma Dynamic_default_fields [simp]:
  "d_bit_length Dynamic_default = 0" "d_alloc Dynamic_default = 0" "d_words Dynamic_default = [0]"
  by (simp_all add: Dynamic_default_def EMPTY_MASKS_DATA_def)

lemma dyn_ok_default [simp]: "dyn_ok Dynamic_default"
  by (simp add: dyn_ok_def)

lemma dyn_ok_default_update [simp]: "dyn_ok (Dynamic_default\<lparr>d_words := [0]\<rparr>)"
proof -
  have "Dynamic_default\<lparr>d_words := [0]\<rparr> = Dynamic_default" by (simp add: Dynamic_default_def EMPTY_MASKS_DATA_def)
  then show ?thesis by (simp only: dyn_ok_default)
qed

lemma elems_default [simp]: "elems Dynamic_default = {}"
  by (simp add: elems_def masks_slice_def)

lemma dyn_okD:
  assumes "dyn_ok d"
  shows "fits (d_bit_length d) (masks_slice d)" "num_masks_for (d_bit_length d) \<le> length (d_words d)"
    "length (masks_slice d) = num_masks_for (d_bit_length d)" "elems d \<subseteq> {..<d_bit_length d}"
proof -
  have f: "fits (d_bit_length d) (masks_slice d) \<and> num_masks_for (d_bit_length d) \<le> length (d_words d)"
  proof (cases "d_alloc d = 0")
    case True
    then have "d = Dynamic_default" using assms by (simp add: dyn_ok_def)
    then show ?thesis by (simp add: masks_slice_def fits_def)
  next
    case False
    then show ?thesis using assms by (simp add: dyn_ok_def)
  qed
  then show "fits (d_bit_length d) (masks_slice d)" "num_masks_for (d_bit_length d) \<le> length (d_words d)" by auto
  then show "length (masks_slice d) = num_masks_for (d_bit_length d)" "elems d \<subseteq> {..<d_bit_length d}"
    by (auto simp: fits_iff elems_def)
qed

section \<open>Resizing\<close>

lemma resize_realloc_spec:
  assumes ok: "dyn_ok d" and n: "0 < n"
  shows "case resize_realloc alloc d n of
      Inl e \<Rightarrow> d_alloc d < n + 1 \<and> alloc (d_alloc d) (n + 1) = None
    | Inr d' \<Rightarrow> d_alloc d' = length (d_words d') + 1 \<and> n \<le> length (d_words d')
        \<and> (\<forall>k. k < n \<and> k < num_masks_for (d_bit_length d) \<longrightarrow> d_words d' ! k = d_words d ! k)"
proof -
  have old: "num_masks_for (d_bit_length d) \<le> d_alloc d - 1"
    using ok by (cases "d_alloc d = 0") (simp_all add: dyn_ok_def)
  have len: "d_alloc d = length (d_words d) + 1" if "0 < d_alloc d" using that ok by (simp add: dyn_ok_def)
  consider "d_alloc d = n + 1" | "d_alloc d \<noteq> n + 1" "alloc (d_alloc d) (n + 1) = None"
    | fresh where "d_alloc d \<noteq> n + 1" "alloc (d_alloc d) (n + 1) = Some fresh" by fastforce
  then show ?thesis
  proof cases
    case 1
    then show ?thesis using len by (simp add: resize_realloc_def)
  next
    case 2
    show ?thesis
    proof (cases "d_alloc d < n + 1")
      case True
      then show ?thesis using 2 by (simp add: resize_realloc_def dyn_realloc_def Let_def)
    next
      case False
      then have "0 < d_alloc d" by simp
      from len [OF this] False 2 show ?thesis by (simp add: resize_realloc_def dyn_realloc_def Let_def)
    qed
  next
    case 3
    have "k + 1 < d_alloc d" if "k < num_masks_for (d_bit_length d)" for k using that old by simp
    then show ?thesis using 3 by (simp add: resize_realloc_def dyn_realloc_def Let_def)
  qed
qed

lemma resize_fill_old_part:
  assumes fits: "fits old_len ms" and len: "num_masks_for old_len \<le> length ws"
    and same: "\<And>k. k < num_masks_for old_len \<Longrightarrow> ws ! k = ms ! k"
  shows "\<exists>ws'. (if fill \<and> 0 < num_masks_for old_len
        then update_mask ws (num_masks_for old_len - 1) (\<lambda>w. w OR NOT (LAST_ITEM_MASK old_len)) else Some ws) = Some ws'
    \<and> length ws' = length ws
    \<and> (\<forall>i. i < 64 * num_masks_for old_len \<longrightarrow> (i \<in> members ws' \<longleftrightarrow> (if i < old_len then i \<in> members ms else fill)))"
proof -
  let ?n = "num_masks_for old_len"
  have ms: "i \<in> members ws \<longleftrightarrow> i \<in> members ms" if "i < 64 * ?n" for i
    using that same [of "i div 64"] len fits by (simp add: in_members fits_def div_64_less)
  show ?thesis
  proof (cases "fill \<and> 0 < ?n")
    case False
    then show ?thesis using ms fitsD(2) [OF fits] by (cases "old_len = 0") auto
  next
    case True
    then have k: "?n - 1 < length ws" using len by linarith
    have pos: "0 < old_len" using True by (cases "old_len = 0") auto
    let ?f = "\<lambda>w. w OR NOT (LAST_ITEM_MASK old_len)"
    obtain ws' where u: "update_mask ws (?n - 1) ?f = Some ws'" "length ws' = length ws"
      "\<And>i. i \<in> members ws' \<longleftrightarrow> (if i div 64 = ?n - 1 then bit (?f (ws ! (?n - 1))) (i mod 64) else i \<in> members ws)"
      using update_mask_members [OF k, of ?f] by blast
    have "i \<in> members ws' \<longleftrightarrow> (if i < old_len then i \<in> members ms else fill)" if "i < 64 * ?n" for i
    proof (cases "i div 64 = ?n - 1")
      case e: True
      have "i \<in> members ws \<longleftrightarrow> bit (ws ! (?n - 1)) (i mod 64)" using e k by (simp only: in_members) simp
      moreover have "bit (?f w) (i mod 64) \<longleftrightarrow> bit w (i mod 64) \<or> \<not> i < old_len" for w
        using bit_LAST_ITEM_MASK [OF e pos] by (simp only: bit_or_iff bit_not_iff) simp
      ultimately show ?thesis using u(3) [of i] e True ms [OF that] by simp
    next
      case ne: False
      then have "i div 64 < ?n - 1" using that [folded div_64_less] by linarith
      then show ?thesis using u(3) [of i] ne ms [OF that] div_less_last [of i old_len] by metis
    qed
    then show ?thesis using True u(1,2) by simp
  qed
qed

lemma resize_fill_spec:
  assumes fits: "fits old_len ms" and len: "num_masks_for new_len \<le> length ws"
    and same: "\<And>k. k < num_masks_for new_len \<Longrightarrow> k < num_masks_for old_len \<Longrightarrow> ws ! k = ms ! k"
  shows "\<exists>ws'. resize_fill ws old_len new_len fill = Some ws' \<and> length ws' = length ws
    \<and> (\<forall>i. i < new_len \<longrightarrow> (i \<in> members ws' \<longleftrightarrow> (if i < old_len then i \<in> members ms else fill)))"
proof (cases "old_len < new_len")
  case False
  have "i \<in> members ws \<longleftrightarrow> i \<in> members ms" if "i < new_len" for i
    using less_num_masks [OF that] less_num_masks [of i old_len] that False same [of "i div 64"] len fits
    by (simp add: in_members fits_def)
  then show ?thesis using False by (auto simp: resize_fill_def)
next
  case True
  have le: "num_masks_for old_len \<le> num_masks_for new_len" using True by (simp add: num_masks_for_def div_le_mono)
  then have "\<And>k. k < num_masks_for old_len \<Longrightarrow> ws ! k = ms ! k" "num_masks_for old_len \<le> length ws"
    using same len by auto
  from resize_fill_old_part [OF fits this(2,1), of fill]
  obtain ws1 where ws1: "(if fill \<and> 0 < num_masks_for old_len
        then update_mask ws (num_masks_for old_len - 1) (\<lambda>w. w OR NOT (LAST_ITEM_MASK old_len)) else Some ws) = Some ws1"
    "length ws1 = length ws"
    "\<And>i. i < 64 * num_masks_for old_len \<Longrightarrow> (i \<in> members ws1 \<longleftrightarrow> (if i < old_len then i \<in> members ms else fill))"
    by auto
  have old: "\<not> i < 64 * num_masks_for old_len \<Longrightarrow> \<not> i < old_len" for i using num_masks_bounds(1) [of old_len] by linarith
  show ?thesis
  proof (cases "num_masks_for old_len < num_masks_for new_len")
    case grow: True
    let ?ws = "copy_at ws1 (num_masks_for old_len)
      (replicate (num_masks_for new_len - num_masks_for old_len) (bool_mask_usize fill))"
    have r: "resize_fill ws old_len new_len fill = Some ?ws"
      using True grow len ws1(2) unfolding resize_fill_def Let_def num_masks_eq last_item_mask_eq ws1(1) by simp
    have b: "num_masks_for old_len + (num_masks_for new_len - num_masks_for old_len) \<le> length ws1"
      using grow len ws1(2) by simp
    have "i \<in> members ?ws \<longleftrightarrow> (if i < old_len then i \<in> members ms else fill)" if "i < new_len" for i
    proof (cases "i div 64 < num_masks_for old_len")
      case True
      then show ?thesis
        using members_copy_at [OF b, of i "bool_mask_usize fill"] ws1(3) [of i, folded div_64_less] by simp
    next
      case False
      then show ?thesis
        using members_copy_at [OF b, of i "bool_mask_usize fill"] less_num_masks [OF that]
          old [of i, folded div_64_less] grow by simp
    qed
    then show ?thesis using r grow b ws1(2) by (simp add: length_copy_at)
  next
    case False
    then have eq: "num_masks_for old_len = num_masks_for new_len" using le by simp
    have r: "resize_fill ws old_len new_len fill = Some ws1"       using True False unfolding resize_fill_def Let_def num_masks_eq last_item_mask_eq ws1(1) by simp
    have "i < 64 * num_masks_for old_len" if "i < new_len" for i using less_num_masks [OF that] eq by (simp add: div_64_less)
    then show ?thesis using r ws1(2,3) by blast
  qed
qed

text \<open>Every branch of \<open>resize\<close>.\<close>

lemma Dynamic_resize_ok:
  assumes ok: "dyn_ok d"
  shows "(\<exists>d'. Dynamic_resize alloc d new_len fill = Some (Inr (), d') \<and> dyn_ok d' \<and> d_bit_length d' = new_len
      \<and> elems d' = (elems d \<inter> {..<new_len}) \<union> (if fill then {d_bit_length d..<new_len} else {}))
    \<or> (Dynamic_resize alloc d new_len fill = Some (Inl AllocError, d)
      \<and> d_alloc d < num_masks_for new_len + 1 \<and> alloc (d_alloc d) (num_masks_for new_len + 1) = None)"
proof (cases "new_len = 0")
  case True
  then show ?thesis by (simp add: Dynamic_resize_def)
next
  case False
  let ?n = "num_masks_for new_len"
  have n: "0 < ?n" using False by simp
  note fits = dyn_okD(1) [OF ok]
  show ?thesis
  proof (cases "resize_realloc alloc d ?n")
    case (Inl e)
    then show ?thesis using resize_realloc_spec [OF ok n, of alloc] n
      by (cases e) (simp add: Dynamic_resize_def)
  next
    case (Inr d1)
    then have d1: "d_alloc d1 = length (d_words d1) + 1" "?n \<le> length (d_words d1)"
      "\<And>k. k < ?n \<Longrightarrow> k < num_masks_for (d_bit_length d) \<Longrightarrow> d_words d1 ! k = masks_slice d ! k"
      using resize_realloc_spec [OF ok n, of alloc] by (simp_all add: masks_slice_def)
    obtain ws where ws: "resize_fill (d_words d1) (d_bit_length d) new_len fill = Some ws" "length ws = length (d_words d1)"
      "\<And>i. i < new_len \<Longrightarrow> (i \<in> members ws \<longleftrightarrow> (if i < d_bit_length d then i \<in> elems d else fill))"
      using resize_fill_spec [OF fits d1(2,3), of fill] unfolding elems_def by blast
    have k: "?n - 1 < length ws" using d1(2) ws(2) n by linarith
    let ?f = "\<lambda>w. w AND LAST_ITEM_MASK new_len"
    obtain ws' where u: "update_mask ws (?n - 1) ?f = Some ws'" "length ws' = length ws"
      using update_mask_members [OF k, of ?f] by blast
    define d2 where "d2 = d1\<lparr>d_words := ws', d_bit_length := new_len\<rparr>"
    have "mask_last (take ?n ws) (LAST_ITEM_MASK new_len) = Some (masks_slice d2)"
      using u(1) k n d1(2) ws(2)
      by (auto simp: mask_last_def update_mask_def d2_def masks_slice_def take_update_swap split: if_splits)
    moreover have "length (take ?n ws) = ?n" using d1(2) ws(2) by simp
    ultimately have s: "fits new_len (masks_slice d2)" "elems d2 = members (take ?n ws) \<inter> {..<new_len}"
      using mask_last_members [of "take ?n ws" new_len] False by (auto simp: elems_def)
    have "i \<in> members (take ?n ws) \<longleftrightarrow> i \<in> members ws" if "i < new_len" for i
      using less_num_masks [OF that] d1(2) ws(2) by (simp add: in_members)
    then have "elems d2 = (elems d \<inter> {..<new_len}) \<union> (if fill then {d_bit_length d..<new_len} else {})"
      using s(2) ws(3) dyn_okD(4) [OF ok] by (auto split: if_splits)
    moreover have "dyn_ok d2" using s(1) d1(1,2) u(2) ws(2) by (simp add: dyn_ok_def d2_def)
    moreover have "Dynamic_resize alloc d new_len fill = Some (Inr (), d2)"
      using n Inr u(1) False by (simp add: Dynamic_resize_def ws(1) Let_def d2_def)
    ultimately show ?thesis by (simp add: d2_def)
  qed
qed

section \<open>Operations keep the invariant\<close>

lemma with_masks_ok:
  assumes ok: "dyn_ok d" and m: "fits (d_bit_length d) m"
  shows "dyn_ok (with_masks d m)" "elems (with_masks d m) = members m" "masks_slice (with_masks d m) = m"
    "d_bit_length (with_masks d m) = d_bit_length d" "d_alloc (with_masks d m) = d_alloc d"
proof -
  have l: "length m = num_masks_for (d_bit_length d)" using m by (simp add: fits_def)
  show bl: "d_bit_length (with_masks d m) = d_bit_length d" "d_alloc (with_masks d m) = d_alloc d"
    by (simp_all add: with_masks_def)
  show ms: "masks_slice (with_masks d m) = m" using l by (simp add: masks_slice_def with_masks_def)
  then show "elems (with_masks d m) = members m" by (simp add: elems_def)
  show "dyn_ok (with_masks d m)"
  proof (cases "d_alloc d = 0")
    case True
    then have "d = Dynamic_default" using ok by (simp add: dyn_ok_def)
    then show ?thesis using l by (simp add: with_masks_def)
  next
    case False
    have "length (d_words (with_masks d m)) = length (d_words d)"
      using l dyn_okD(2) [OF ok] by (simp add: with_masks_def)
    then show ?thesis using False ok ms bl m by (simp add: dyn_ok_def)
  qed
qed

text \<open>An operation on the words of the slice, seen on the set.\<close>

lemma map_with_masks:
  assumes ok: "dyn_ok d"
    and op: "\<exists>masks'. r = Some masks' \<and> length masks' = length (masks_slice d) \<and> members masks' = A"
    and A: "A \<subseteq> {..<d_bit_length d}"
  shows "\<exists>d'. map_option (with_masks d) r = Some d' \<and> dyn_ok d' \<and> d_bit_length d' = d_bit_length d \<and> elems d' = A"
proof -
  obtain masks' where m: "r = Some masks'" "length masks' = length (masks_slice d)" "members masks' = A" using op by blast
  then have "fits (d_bit_length d) masks'" using dyn_okD(3) [OF ok] A by (simp add: fits_iff)
  from with_masks_ok [OF ok this] show ?thesis using m by simp
qed

lemma index_in_slice: "dyn_ok d \<Longrightarrow> index < d_bit_length d \<Longrightarrow> index < 64 * length (masks_slice d)"
  using dyn_okD(3) [of d] num_masks_bounds(1) [of "d_bit_length d"] by simp

lemma Dynamic_point_ops:
  assumes ok: "dyn_ok d" and i: "index < d_bit_length d"
  shows "\<exists>d'. Dynamic_set d index = Some d' \<and> dyn_ok d' \<and> d_bit_length d' = d_bit_length d \<and> elems d' = insert index (elems d)"
    "\<exists>d'. Dynamic_unset d index = Some d' \<and> dyn_ok d' \<and> d_bit_length d' = d_bit_length d \<and> elems d' = elems d - {index}"
    "\<exists>d'. Dynamic_toggle d index = Some d' \<and> dyn_ok d' \<and> d_bit_length d' = d_bit_length d
      \<and> elems d' = (if index \<in> elems d then elems d - {index} else insert index (elems d))"
    "\<exists>d'. Dynamic_set_value d index v = Some d' \<and> dyn_ok d' \<and> d_bit_length d' = d_bit_length d
      \<and> elems d' = (if v then insert index (elems d) else elems d - {index})"
    "Dynamic_is_set d index = Some (index \<in> elems d)"
proof -
  note ops = members_masks_ops [OF index_in_slice [OF assms], folded elems_def] and le = dyn_okD(4) [OF ok]
  show "\<exists>d'. Dynamic_set d index = Some d' \<and> dyn_ok d' \<and> d_bit_length d' = d_bit_length d \<and> elems d' = insert index (elems d)"
    unfolding Dynamic_set_def by (rule map_with_masks [OF ok ops(1)]) (use le i in auto)
  show "\<exists>d'. Dynamic_unset d index = Some d' \<and> dyn_ok d' \<and> d_bit_length d' = d_bit_length d \<and> elems d' = elems d - {index}"
    unfolding Dynamic_unset_def by (rule map_with_masks [OF ok ops(2)]) (use le i in auto)
  show "\<exists>d'. Dynamic_toggle d index = Some d' \<and> dyn_ok d' \<and> d_bit_length d' = d_bit_length d
      \<and> elems d' = (if index \<in> elems d then elems d - {index} else insert index (elems d))"
    unfolding Dynamic_toggle_def by (rule map_with_masks [OF ok ops(3)]) (use le i in auto)
  show "\<exists>d'. Dynamic_set_value d index v = Some d' \<and> dyn_ok d' \<and> d_bit_length d' = d_bit_length d
      \<and> elems d' = (if v then insert index (elems d) else elems d - {index})"
    unfolding Dynamic_set_value_def by (rule map_with_masks [OF ok ops(4)]) (use le i in auto)
  show "Dynamic_is_set d index = Some (index \<in> elems d)"
    unfolding Dynamic_is_set_def by (rule ops(5))
qed

lemma Dynamic_set_range_value_ok:
  assumes ok: "dyn_ok d" and r: "start \<le> stop" "stop \<le> d_bit_length d"
  shows "\<exists>d'. Dynamic_set_range_value d start stop v = Some d' \<and> dyn_ok d' \<and> d_bit_length d' = d_bit_length d
    \<and> elems d' = (if v then elems d \<union> {start..<stop} else elems d - {start..<stop})"
  unfolding Dynamic_set_range_value_def
proof (rule map_with_masks [OF ok])
  have "stop \<le> 64 * length (masks_slice d)"
    using r dyn_okD(3) [OF ok] num_masks_bounds(1) [of "d_bit_length d"] by simp
  from set_range_value_masks_members [OF r(1) this, of v]
  show "\<exists>masks'. set_range_value_masks (masks_slice d) start stop v = Some masks' \<and> length masks' = length (masks_slice d)
    \<and> members masks' = (if v then elems d \<union> {start..<stop} else elems d - {start..<stop})"
    unfolding elems_def .
  show "(if v then elems d \<union> {start..<stop} else elems d - {start..<stop}) \<subseteq> {..<d_bit_length d}"
    using dyn_okD(4) [OF ok] r by auto
qed

lemma mask_padding_ok:
  assumes bl: "0 < d_bit_length d" and alloc: "d_alloc d = length (d_words d) + 1"
    and len: "num_masks_for (d_bit_length d) \<le> length (d_words d)"
  shows "\<exists>d'. mask_padding d = Some d' \<and> dyn_ok d' \<and> d_bit_length d' = d_bit_length d
    \<and> elems d' = members (masks_slice d) \<inter> {..<d_bit_length d}"
proof -
  have l: "length (masks_slice d) = num_masks_for (d_bit_length d)" using len by (simp add: masks_slice_def)
  obtain m where m: "mask_last (masks_slice d) (LAST_ITEM_MASK (d_bit_length d)) = Some m" "fits (d_bit_length d) m"
    "members m = members (masks_slice d) \<inter> {..<d_bit_length d}"
    using mask_last_members [OF l bl] by blast
  have p: "mask_padding d = Some (with_masks d m)"
    using m(1) l by (simp add: mask_padding_def mask_last_def)
  have lm: "length m = num_masks_for (d_bit_length d)" using m(2) by (simp add: fits_def)
  have s: "masks_slice (with_masks d m) = m" using lm by (simp add: masks_slice_def with_masks_def)
  have "dyn_ok (with_masks d m)"
    using s m(2) lm alloc len by (simp add: dyn_ok_def with_masks_def)
  then show ?thesis using p s m(3) by (simp add: elems_def with_masks_def)
qed

lemma zip_masks_raw_ok:
  assumes ok: "dyn_ok d" and e: "num_masks_for (d_bit_length d) \<le> length (d_words e)"
  shows "zip_masks_raw d e f = Some (with_masks d (map2 f (masks_slice d) (take (num_masks_for (d_bit_length d)) (d_words e))))"
  using dyn_okD(2) [OF ok] e by (simp add: zip_masks_raw_def with_masks_def masks_slice_def Let_def)

lemma zip_same_length:
  assumes ok: "dyn_ok d" "dyn_ok e" and bl: "d_bit_length e = d_bit_length d"
    and A: "members (map2 f (masks_slice d) (masks_slice e)) = A" "A \<subseteq> {..<d_bit_length d}"
  shows "\<exists>d'. zip_masks_raw d e f = Some d' \<and> dyn_ok d' \<and> d_bit_length d' = d_bit_length d \<and> elems d' = A"
proof -
  have z: "zip_masks_raw d e f = map_option (with_masks d) (Some (map2 f (masks_slice d) (masks_slice e)))"
    using zip_masks_raw_ok [OF ok(1), of e f] dyn_okD(2) [OF ok(2)] bl by (simp add: masks_slice_def)
  show ?thesis unfolding z
    by (rule map_with_masks [OF ok(1) _ A(2)]) (use dyn_okD(3) [OF ok(1)] dyn_okD(3) [OF ok(2)] bl A(1) in auto)
qed

lemma Dynamic_zip_ops:
  assumes ok: "dyn_ok d" "dyn_ok e" and bl: "d_bit_length e = d_bit_length d"
  shows "\<exists>d'. Dynamic_set_union d e = Some d' \<and> dyn_ok d' \<and> d_bit_length d' = d_bit_length d \<and> elems d' = elems d \<union> elems e"
    "\<exists>d'. Dynamic_set_intersection d e = Some d' \<and> dyn_ok d' \<and> d_bit_length d' = d_bit_length d \<and> elems d' = elems d \<inter> elems e"
    "\<exists>d'. Dynamic_set_exclude d e = Some d' \<and> dyn_ok d' \<and> d_bit_length d' = d_bit_length d \<and> elems d' = elems d - elems e"
proof -
  have l: "length (masks_slice d) = length (masks_slice e)" using dyn_okD(3) [OF ok(1)] dyn_okD(3) [OF ok(2)] bl by simp
  note z = members_zip_ops [OF l, folded elems_def]
  have le: "elems d \<subseteq> {..<d_bit_length d}" "elems e \<subseteq> {..<d_bit_length d}"
    using dyn_okD(4) [OF ok(1)] dyn_okD(4) [OF ok(2)] bl by simp_all
  show "\<exists>d'. Dynamic_set_union d e = Some d' \<and> dyn_ok d' \<and> d_bit_length d' = d_bit_length d \<and> elems d' = elems d \<union> elems e"
    unfolding Dynamic_set_union_def by (rule zip_same_length [OF ok bl z(1)]) (use le in auto)
  show "\<exists>d'. Dynamic_set_intersection d e = Some d' \<and> dyn_ok d' \<and> d_bit_length d' = d_bit_length d \<and> elems d' = elems d \<inter> elems e"
    unfolding Dynamic_set_intersection_def by (rule zip_same_length [OF ok bl z(2)]) (use le in auto)
  show "\<exists>d'. Dynamic_set_exclude d e = Some d' \<and> dyn_ok d' \<and> d_bit_length d' = d_bit_length d \<and> elems d' = elems d - elems e"
    unfolding Dynamic_set_exclude_def by (rule zip_same_length [OF ok bl z(4)]) (use le in auto)
qed

lemma Dynamic_toggle_first_set_ok:
  assumes ok: "dyn_ok d"
  shows "Dynamic_toggle_first_set d = None \<longleftrightarrow> elems d = {}"
    "Dynamic_toggle_first_set d = Some (i, d') \<Longrightarrow>
      i = Min (elems d) \<and> dyn_ok d' \<and> d_bit_length d' = d_bit_length d \<and> elems d' = elems d - {Min (elems d)}"
proof -
  show "Dynamic_toggle_first_set d = None \<longleftrightarrow> elems d = {}"
    by (simp add: Dynamic_toggle_first_set_def toggle_first_loop_Min(1) elems_def)
  assume "Dynamic_toggle_first_set d = Some (i, d')"
  then obtain m where m: "toggle_first_loop (masks_slice d) 0 = Some (i, m)" "d' = with_masks d m"
    by (auto simp: Dynamic_toggle_first_set_def)
  note t = toggle_first_loop_Min(2) [OF m(1), folded elems_def]
  then have "fits (d_bit_length d) m" using dyn_okD(3,4) [OF ok] by (auto simp: fits_iff)
  then show "i = Min (elems d) \<and> dyn_ok d' \<and> d_bit_length d' = d_bit_length d \<and> elems d' = elems d - {Min (elems d)}"
    using with_masks_ok [OF ok] t m(2) by simp
qed

interpretation dynamic: bit_set dyn_ok d_bit_length elems Dynamic_set_value Dynamic_toggle_first_set
proof (unfold_locales, goal_cases)
  case (1 d)
  then show ?case by (rule dyn_okD(4))
next
  case (2 d i v)
  then show ?case using Dynamic_point_ops(4) [OF 2, of v] by auto
next
  case (3 d)
  then show ?case by (rule Dynamic_toggle_first_set_ok(1))
next
  case (4 d i d')
  then show ?case using Dynamic_toggle_first_set_ok(2) [OF 4] by simp
qed

lemma dyn_ok_alloc:
  assumes "dyn_ok d" and "d_bit_length d \<noteq> 0"
  shows "d_alloc d = length (d_words d) + 1"
proof (cases "d_alloc d = 0")
  case True
  then have "d = Dynamic_default" using assms(1) by (simp add: dyn_ok_def)
  then show ?thesis using assms(2) by simp
next
  case False
  then show ?thesis using assms(1) by (simp add: dyn_ok_def)
qed

text \<open>New words for the slice, their padding cut off.\<close>

lemma mask_padding_with_masks:
  assumes ok: "dyn_ok d" and bl: "d_bit_length d \<noteq> 0" and l: "length m = num_masks_for (d_bit_length d)"
  shows "\<exists>d'. mask_padding (with_masks d m) = Some d' \<and> dyn_ok d' \<and> d_bit_length d' = d_bit_length d
    \<and> elems d' = members m \<inter> {..<d_bit_length d}"
proof -
  let ?d = "with_masks d m"
  have s: "masks_slice ?d = m" using l by (simp add: masks_slice_def with_masks_def)
  have w: "length (d_words ?d) = length (d_words d)" using l dyn_okD(2) [OF ok] by (simp add: with_masks_def)
  have f: "d_bit_length ?d = d_bit_length d" "d_alloc ?d = d_alloc d" by (simp_all add: with_masks_def)
  have "0 < d_bit_length ?d" "d_alloc ?d = length (d_words ?d) + 1" "num_masks_for (d_bit_length ?d) \<le> length (d_words ?d)"
    using bl dyn_ok_alloc [OF ok bl] w dyn_okD(2) [OF ok] by (simp_all add: f)
  from mask_padding_ok [OF this] show ?thesis unfolding s f .
qed

lemma Dynamic_set_all_ok:
  assumes ok: "dyn_ok d"
  shows "\<exists>d'. Dynamic_set_all d v = Some d' \<and> dyn_ok d' \<and> d_bit_length d' = d_bit_length d
    \<and> elems d' = (if v then {..<d_bit_length d} else {})"
proof (cases "d_bit_length d = 0")
  case True
  then show ?thesis using dyn_okD(4) [OF ok] ok by (simp add: Dynamic_set_all_def)
next
  case False
  let ?m = "replicate (num_masks_for (d_bit_length d)) (bool_mask_usize v)"
  have e: "Dynamic_set_all d v = mask_padding (with_masks d ?m)"
    using False dyn_okD(3) [OF ok] by (simp add: Dynamic_set_all_def map_replicate_const)
  have cut: "members ?m \<inter> {..<d_bit_length d} = (if v then {..<d_bit_length d} else {})"
    using num_masks_bounds(1) [of "d_bit_length d"] by (auto simp: members_replicate)
  from mask_padding_with_masks [OF ok False, of ?m] show ?thesis unfolding e cut by simp
qed

lemma Dynamic_toggle_all_ok:
  assumes ok: "dyn_ok d"
  shows "\<exists>d'. Dynamic_toggle_all d = Some d' \<and> dyn_ok d' \<and> d_bit_length d' = d_bit_length d
    \<and> elems d' = {..<d_bit_length d} - elems d"
proof (cases "d_bit_length d = 0")
  case True
  then show ?thesis using dyn_okD(4) [OF ok] ok by (simp add: Dynamic_toggle_all_def)
next
  case False
  have cut: "members (map NOT (masks_slice d)) \<inter> {..<d_bit_length d} = {..<d_bit_length d} - elems d"
    using num_masks_bounds(1) [of "d_bit_length d"] dyn_okD(3) [OF ok] by (auto simp: members_map_not elems_def)
  from mask_padding_with_masks [OF ok False, of "map NOT (masks_slice d)"]
  show ?thesis using False dyn_okD(3) [OF ok] unfolding cut by (simp add: Dynamic_toggle_all_def)
qed

text \<open>\<open>copy_into\<close> reads as many words of the source as the destination has.\<close>

lemma Dynamic_copy_into_ok:
  assumes ok: "dyn_ok d" "dyn_ok src" and le: "num_masks_for (d_bit_length d) \<le> num_masks_for (d_bit_length src)"
  shows "\<exists>d'. Dynamic_copy_into d src = Some d' \<and> dyn_ok d' \<and> d_bit_length d' = d_bit_length d
    \<and> elems d' = elems src \<inter> {..<d_bit_length d}"
proof (cases "d_bit_length d = 0")
  case True
  then show ?thesis using dyn_okD(4) [OF ok(1)] ok(1) by (simp add: Dynamic_copy_into_def)
next
  case False
  let ?n = "num_masks_for (d_bit_length d)" and ?m = "take (num_masks_for (d_bit_length d)) (d_words src)"
  have w: "?n \<le> length (d_words src)" using le dyn_okD(2) [OF ok(2)] by simp
  have "map2 (\<lambda>a b. b) (masks_slice d) ?m = ?m"
    using dyn_okD(3) [OF ok(1)] w by (simp add: list_eq_iff_nth_eq)
  then have c: "Dynamic_copy_into d src = mask_padding (with_masks d ?m)"
    using False zip_masks_raw_ok [OF ok(1) w, of "\<lambda>a b. b"] by (simp add: Dynamic_copy_into_def)
  have "members ?m \<inter> {..<d_bit_length d} = elems src \<inter> {..<d_bit_length d}"
  proof -
    have "i \<in> members ?m \<longleftrightarrow> i \<in> elems src" if "i < d_bit_length d" for i
      using less_num_masks [OF that] le w by (simp add: in_members elems_def masks_slice_def min_def)
    then show ?thesis by auto
  qed
  then show ?thesis using mask_padding_with_masks [OF ok(1) False, of ?m] w unfolding c by simp
qed

lemma Dynamic_copy_into_beyond:
  assumes "d_bit_length d \<noteq> 0" and "length (d_words src) < num_masks_for (d_bit_length d)"
  shows "Dynamic_copy_into d src = None"
  using assms by (simp add: Dynamic_copy_into_def zip_masks_raw_def)

section \<open>Sets in one buffer\<close>

definition list_ok :: "dynamic_bit_set_list \<Rightarrow> bool" where
  "list_ok l \<longleftrightarrow> length (dl_buf l) = (num_masks (dl_bit_length l) + 1) * dl_n l"

lemma slot_less: "k < n \<Longrightarrow> q < m \<Longrightarrow> (m + 1) * k + 1 + q < (m + 1) * n" for m :: nat
proof -
  assume "k < n" "q < m"
  then have "(m + 1) * (k + 1) \<le> (m + 1) * n" by (intro mult_le_mono) simp_all
  then show ?thesis using \<open>q < m\<close> by simp
qed

lemma slot_inject:
  fixes m :: nat
  assumes "q < m" and "r < m"
  shows "(m + 1) * k + 1 + q = (m + 1) * i + 1 + r \<longleftrightarrow> k = i \<and> q = r"
proof -
  obtain s where s: "s = m + 1" by simp
  have dm: "(s * k + (p + 1)) div s = k" "(s * k + (p + 1)) mod s = p + 1" if "p < m" for k p
    using that s by (simp_all only: div_mult_self4 mod_mult_self4) simp_all
  show ?thesis
  proof
    assume "(m + 1) * k + 1 + q = (m + 1) * i + 1 + r"
    then have "s * k + (q + 1) = s * i + (r + 1)" unfolding s by linarith
    then show "k = i \<and> q = r" using dm [OF assms(1), of k] dm [OF assms(2), of i] by simp
  qed simp
qed

lemma in_elems_List_at:
  assumes "list_ok l" and "k < dl_n l"
  shows "x \<in> elems (List_at l k) \<longleftrightarrow> x div 64 < num_masks_for (dl_bit_length l)
    \<and> bit (dl_buf l ! ((num_masks_for (dl_bit_length l) + 1) * k + 1 + x div 64)) (x mod 64)"
proof -
  let ?m = "num_masks_for (dl_bit_length l)"
  obtain off where off: "off = (?m + 1) * k + 1" by simp
  have e: "elems (List_at l k) = members (take ?m (drop off (dl_buf l)))"
    by (simp add: elems_def masks_slice_def List_at_def Let_def off)
  have "off + x div 64 < length (dl_buf l)" if "x div 64 < ?m"
    using slot_less [OF assms(2) that] assms(1) unfolding off list_ok_def num_masks_eq by linarith
  then show ?thesis unfolding e off [symmetric] by (auto simp: in_members)
qed

lemma write_word_of_slice:
  assumes "q < num_masks_for (d_bit_length d)" and "num_masks_for (d_bit_length d) \<le> length (d_words d)"
  shows "map_option (with_masks d) (update_mask (masks_slice d) q f) =
    Some (d\<lparr>d_words := (d_words d)[q := f (d_words d ! q)]\<rparr>)"
proof -
  let ?n = "num_masks_for (d_bit_length d)"
  have "(take ?n (d_words d))[q := x] @ drop ?n (d_words d) = (d_words d)[q := x]" for x
    using append_take_drop_id [of ?n "(d_words d)[q := x]"] assms(1) by (simp add: take_update_swap)
  then show ?thesis using assms by (simp add: update_mask_def masks_slice_def with_masks_def min_def)
qed

lemma List_set_eq:
  assumes ok: "list_ok l" and i: "i < dl_n l" and j: "j < dl_bit_length l"
  shows "List_set l i j = Some (let p = (num_masks_for (dl_bit_length l) + 1) * i + 1 + j div 64 in
    l\<lparr>dl_buf := (dl_buf l)[p := dl_buf l ! p OR word_mask_bit j]\<rparr>)"
proof -
  let ?m = "num_masks_for (dl_bit_length l)"
  obtain off where off: "off = (?m + 1) * i + 1" by simp
  have q: "j div 64 < ?m" using less_num_masks [OF j] .
  have len: "off + ?m \<le> length (dl_buf l)"
    using slot_less [OF i, of "?m - 1" ?m] q ok unfolding off list_ok_def num_masks_eq by linarith
  define d where "d = List_at l i"
  have d: "d_bit_length d = dl_bit_length l" "d_words d = drop off (dl_buf l)"
    by (simp_all add: d_def List_at_def Let_def off)
  have "Dynamic_set d j = Some (d\<lparr>d_words := (d_words d)[j div 64 := d_words d ! (j div 64) OR word_mask_bit j]\<rparr>)"
    unfolding Dynamic_set_def masks_set_def word_mask_index_def
    using q len by (intro write_word_of_slice) (simp_all add: d)
  then have "List_set l i j = Some (l\<lparr>dl_buf := take off (dl_buf l) @
      (drop off (dl_buf l))[j div 64 := d_words d ! (j div 64) OR word_mask_bit j]\<rparr>)"
    unfolding List_set_def List_put_def Let_def num_masks_eq off [symmetric] d_def [symmetric] by (simp add: d)
  moreover have "take off (dl_buf l) @ (drop off (dl_buf l))[k := w] = (dl_buf l)[off + k := w]" for k w
    using len list_update_append [of "take off (dl_buf l)" "drop off (dl_buf l)" "off + k" w] by simp
  moreover have "d_words d ! (j div 64) = dl_buf l ! (off + j div 64)" using len by (simp add: d)
  ultimately show ?thesis unfolding Let_def off [symmetric] by simp
qed

lemma List_set_spec:
  assumes ok: "list_ok l" and i: "i < dl_n l" and j: "j < dl_bit_length l"
  obtains l' where "List_set l i j = Some l'" "list_ok l'" "dl_n l' = dl_n l" "dl_bit_length l' = dl_bit_length l"
    "\<And>k. k < dl_n l \<Longrightarrow> elems (List_at l' k) = (if k = i then insert j (elems (List_at l i)) else elems (List_at l k))"
proof -
  let ?m = "num_masks_for (dl_bit_length l)"
  define p where "p = (?m + 1) * i + 1 + j div 64"
  define l' where "l' = l\<lparr>dl_buf := (dl_buf l)[p := dl_buf l ! p OR word_mask_bit j]\<rparr>"
  have q: "j div 64 < ?m" using less_num_masks [OF j] .
  have len: "p < length (dl_buf l)" using slot_less [OF i q] ok unfolding list_ok_def num_masks_eq p_def by linarith
  have s: "List_set l i j = Some l'" using List_set_eq [OF assms] by (simp only: Let_def p_def l'_def)
  have ok': "list_ok l'" "dl_n l' = dl_n l" "dl_bit_length l' = dl_bit_length l" using ok by (simp_all add: l'_def list_ok_def)
  have e: "x = j" if "x div 64 = j div 64" "x mod 64 = j mod 64" for x
    using that by (metis div_mult_mod_eq)
  have "x \<in> elems (List_at l' k) \<longleftrightarrow> (k = i \<and> x = j) \<or> x \<in> elems (List_at l k)" if k: "k < dl_n l" for k x
  proof (cases "x div 64 < ?m")
    case True
    let ?p = "(?m + 1) * k + 1 + x div 64"
    have in': "x \<in> elems (List_at l' k) \<longleftrightarrow> bit (dl_buf l' ! ?p) (x mod 64)"
      using in_elems_List_at [OF ok'(1), of k x] ok'(2,3) k True by simp
    have "x \<in> elems (List_at l k) \<longleftrightarrow> bit (dl_buf l ! ?p) (x mod 64)"
      using in_elems_List_at [OF ok k, of x] True by simp
    moreover have "?p = p \<longleftrightarrow> k = i \<and> x div 64 = j div 64" unfolding p_def by (rule slot_inject [OF True q])
    ultimately show ?thesis
      unfolding in' using len e [of x] by (auto simp: l'_def nth_list_update bit_or_iff)
  next
    case False
    moreover have "x \<noteq> j" using False q by auto
    ultimately show ?thesis
      using in_elems_List_at [OF ok'(1), of k x] in_elems_List_at [OF ok k, of x] ok'(2,3) k by simp
  qed
  then show thesis using that [OF s ok'] by (auto simp: set_eq_iff)
qed

text \<open>The buffer that \<open>init_empty\<close> makes has a header before each set, and no member.\<close>

lemma foldl_headers:
  "length (foldl (\<lambda>buf i. buf[i * s := h]) buf ks) = length buf \<and>
   (\<forall>p. p mod s \<noteq> 0 \<longrightarrow> foldl (\<lambda>buf i. buf[i * s := h]) buf ks ! p = buf ! p)"
proof (induction ks arbitrary: buf)
  case (Cons k ks)
  have "buf[k * s := h] ! p = buf ! p" if "p mod s \<noteq> 0" for p
    using that by (intro nth_list_update_neq) auto
  then show ?case using Cons [of "buf[k * s := h]"] by simp
qed simp

lemma List_init_empty_spec:
  assumes "mem ((num_masks_for bit_length + 1) * n)"
  shows "\<exists>l. List_init_empty mem n bit_length = Inr l \<and> list_ok l \<and> dl_n l = n \<and> dl_bit_length l = bit_length
    \<and> (\<forall>k. k < n \<longrightarrow> elems (List_at l k) = {})"
proof (cases "n = 0")
  case True
  then show ?thesis by (simp add: List_init_empty_def list_ok_def)
next
  case False
  obtain s where s: "s = num_masks_for bit_length + 1" by simp
  define buf where "buf = foldl (\<lambda>buf i. buf[i * s := of_nat s]) (replicate (s * n) (0 :: u64)) [0..<n]"
  define l where "l = \<lparr>dl_buf = buf, dl_n = n, dl_bit_length = bit_length\<rparr>"
  have buf: "length buf = s * n" "\<And>p. p mod s \<noteq> 0 \<Longrightarrow> p < s * n \<Longrightarrow> buf ! p = 0"
    using foldl_headers [of s "of_nat s :: u64" "replicate (s * n) 0" "[0..<n]"] by (simp_all add: buf_def)
  have "s * n \<noteq> 0" "mem (s * n)" using False assms s by simp_all
  then have i: "List_init_empty mem n bit_length = Inr l"
    unfolding List_init_empty_def Let_def num_masks_eq s [symmetric] l_def buf_def by simp
  have ok: "list_ok l" using buf(1) by (simp add: list_ok_def l_def s)
  have "elems (List_at l k) = {}" if k: "k < n" for k
  proof -
    have "x \<notin> elems (List_at l k)" for x
    proof
      assume "x \<in> elems (List_at l k)"
      then have x: "x div 64 < num_masks_for bit_length" "bit (buf ! (s * k + 1 + x div 64)) (x mod 64)"
        using in_elems_List_at [OF ok, of k x] k by (simp_all add: l_def s)
      have "(s * k + (1 + x div 64)) mod s = 1 + x div 64" using x(1) s by (simp only: mod_mult_self4) simp
      then have "buf ! (s * k + 1 + x div 64) = 0"
        using buf(2) [of "s * k + 1 + x div 64"] slot_less [OF k x(1)] s by (simp add: add.assoc del: mult_Suc)
      then show False using x(2) by simp
    qed
    then show ?thesis by auto
  qed
  then show ?thesis using i ok by (simp add: l_def)
qed

section \<open>Comparisons\<close>

lemma word_subset_iff: "a AND b = a \<longleftrightarrow> word_members a \<subseteq> word_members b" for a b :: u64
proof
  assume "a AND b = a"
  then show "word_members a \<subseteq> word_members b" by (metis bit_and_iff in_word_members subsetI)
next
  assume "word_members a \<subseteq> word_members b"
  then have "bit a i \<Longrightarrow> bit b i" for i by auto
  then show "a AND b = a" by (intro bit_eqI) (auto simp: bit_and_iff)
qed

lemma list_all_subset:
  "length xs = length ys \<Longrightarrow> list_all (\<lambda>(a, b). a AND b = a) (zip xs ys) \<longleftrightarrow> members xs \<subseteq> members ys"
proof (induction xs ys rule: list_induct2)
  case (Cons x xs y ys)
  have "members (x # xs) \<subseteq> members (y # ys) \<longleftrightarrow> word_members x \<subseteq> word_members y \<and> members xs \<subseteq> members ys"
  proof -
    have "\<not> 64 + i \<in> word_members w" for i and w :: u64 by simp
    moreover have "word_members w \<inter> (+) 64 ` A = {}" for w :: u64 and A by auto
    ultimately show ?thesis unfolding members_Cons by (auto 0 4)
  qed
  then show ?case using Cons by (simp add: word_subset_iff)
qed simp

lemma Dynamic_comparisons:
  assumes ok: "dyn_ok d" "dyn_ok e" and bl: "d_bit_length e = d_bit_length d"
  shows "Dynamic_eql d e \<longleftrightarrow> elems d = elems e"
    "Dynamic_subset_of d e \<longleftrightarrow> elems d \<subseteq> elems e"
    "Dynamic_superset_of d e \<longleftrightarrow> elems e \<subseteq> elems d"
    "Dynamic_has_intersection d e \<longleftrightarrow> elems d \<inter> elems e \<noteq> {}"
    "Dynamic_count d = card (elems d)"
    "Dynamic_find_first_set d = (if elems d = {} then None else Some (Min (elems d)))"
proof -
  have l: "length (masks_slice d) = length (masks_slice e)" using dyn_okD(3) [OF ok(1)] dyn_okD(3) [OF ok(2)] bl by simp
  show "Dynamic_eql d e \<longleftrightarrow> elems d = elems e"
    using members_inject [OF l] bl by (simp add: Dynamic_eql_def elems_def)
  show "Dynamic_subset_of d e \<longleftrightarrow> elems d \<subseteq> elems e"
    using list_all_subset [OF l] bl by (simp add: Dynamic_subset_of_def elems_def)
  have "list_all (\<lambda>(a, b). a AND b = b) (zip xs ys) = list_all (\<lambda>(a, b). a AND b = a) (zip ys xs)" for xs ys :: "u64 list"
    by (induction xs ys rule: list_induct2') (simp_all add: and.commute)
  then show "Dynamic_superset_of d e \<longleftrightarrow> elems e \<subseteq> elems d"
    using list_all_subset [OF l [symmetric]] bl by (simp add: Dynamic_superset_of_def elems_def)
  show "Dynamic_has_intersection d e \<longleftrightarrow> elems d \<inter> elems e \<noteq> {}"
    using any_intersection_iff [OF l] by (simp add: Dynamic_has_intersection_def elems_def)
  show "Dynamic_count d = card (elems d)" by (simp add: Dynamic_count_def masks_count_card elems_def)
  show "Dynamic_find_first_set d = (if elems d = {} then None else Some (Min (elems d)))"
    by (simp add: Dynamic_find_first_set_def find_first_loop_Min elems_def)
qed

lemma Dynamic_toggle_set_ok:
  assumes ok: "dyn_ok d" "dyn_ok e" and bl: "d_bit_length e = d_bit_length d"
  shows "\<exists>d'. Dynamic_toggle_set d e = Some d' \<and> dyn_ok d' \<and> d_bit_length d' = d_bit_length d
    \<and> elems d' = (elems d - elems e) \<union> (elems e - elems d)"
proof (cases "d_bit_length d = 0")
  case True
  then show ?thesis using dyn_okD(4) [OF ok(1)] dyn_okD(4) [OF ok(2)] ok(1) bl by (simp add: Dynamic_toggle_set_def)
next
  case False
  let ?m = "map2 (XOR) (masks_slice d) (masks_slice e)"
  have l: "length (masks_slice d) = num_masks_for (d_bit_length d)" "length (masks_slice d) = length (masks_slice e)"
    using dyn_okD(3) [OF ok(1)] dyn_okD(3) [OF ok(2)] bl by simp_all
  have z: "zip_masks_raw d e (XOR) = Some (with_masks d ?m)"
    using zip_masks_raw_ok [OF ok(1), of e "(XOR)"] dyn_okD(2) [OF ok(2)] bl by (simp add: masks_slice_def)
  have A: "(members (masks_slice d) - members (masks_slice e) \<union> (members (masks_slice e) - members (masks_slice d)))
      \<inter> {..<d_bit_length d} = (elems d - elems e) \<union> (elems e - elems d)"
    using dyn_okD(4) [OF ok(1)] dyn_okD(4) [OF ok(2)] bl by (auto simp: elems_def)
  from mask_padding_with_masks [OF ok(1) False, of ?m] l
  show ?thesis using False by (simp add: Dynamic_toggle_set_def z members_zip_ops(3) [OF l(2)] A)
qed

text \<open>\<open>clone\<close> makes an equal set, or reports that there is no memory.\<close>

lemma Dynamic_clone_ok:
  assumes ok: "dyn_ok d"
  shows "(\<exists>d'. Dynamic_clone alloc d = Some (Inr d') \<and> dyn_ok d' \<and> d_bit_length d' = d_bit_length d \<and> elems d' = elems d)
    \<or> Dynamic_clone alloc d = Some (Inl AllocError) \<and> alloc 0 (num_masks_for (d_bit_length d) + 1) = None"
  using Dynamic_resize_ok [OF dyn_ok_default, of alloc "d_bit_length d" False]
proof (elim disjE exE conjE)
  fix c
  assume c: "Dynamic_resize alloc Dynamic_default (d_bit_length d) False = Some (Inr (), c)" "dyn_ok c"
    "d_bit_length c = d_bit_length d"
  have f: "fits (d_bit_length c) (masks_slice d)" using dyn_okD(1) [OF ok] c(3) by simp
  have "Dynamic_clone alloc d = Some (Inr (with_masks c (masks_slice d)))"
    using dyn_okD(3) [OF ok] dyn_okD(3) [OF c(2)] c(1,3) by (simp add: Dynamic_clone_def Dynamic_init_def)
  then show ?thesis using with_masks_ok [OF c(2) f] c(3) by (simp add: elems_def)
next
  assume "Dynamic_resize alloc Dynamic_default (d_bit_length d) False = Some (Inl AllocError, Dynamic_default)"
    "alloc (d_alloc Dynamic_default) (num_masks_for (d_bit_length d) + 1) = None"
  then show ?thesis by (simp add: Dynamic_clone_def Dynamic_init_def)
qed

section \<open>AutoBitSet\<close>

definition auto_ok :: "auto_bit_set \<Rightarrow> bool" where
  "auto_ok a = (case a of Static s \<Rightarrow> fits AUTO_STATIC_BITS s | Dynamic d \<Rightarrow> dyn_ok d)"

definition auto_elems :: "auto_bit_set \<Rightarrow> nat set" where
  "auto_elems a = (case a of Static s \<Rightarrow> members s | Dynamic d \<Rightarrow> elems d)"

lemma word_bytes_inject: "word_bytes v = word_bytes w \<longleftrightarrow> v = w"
proof
  assume e: "word_bytes v = word_bytes w"
  show "v = w"
  proof (rule bit_eqI)
    fix n assume "possible_bit TYPE(u64) n"
    then have n: "n < 64" by simp
    then have k: "n div 8 < 8" by (simp add: div_less_iff_less_mult)
    have "(ucast (drop_bit (8 * (n div 8)) v) :: 8 word) = ucast (drop_bit (8 * (n div 8)) w)"
      using e k by (simp add: word_bytes_def list_eq_iff_nth_eq)
    then have "bit (ucast (drop_bit (8 * (n div 8)) v) :: 8 word) (n mod 8) \<longleftrightarrow> bit (ucast (drop_bit (8 * (n div 8)) w) :: 8 word) (n mod 8)"
      by simp
    then show "bit v n \<longleftrightarrow> bit w n" by (simp add: bit_unsigned_iff bit_drop_bit_eq)
  qed
qed simp

lemma words_bytes_inject: "concat (map word_bytes xs) = concat (map word_bytes ys) \<longleftrightarrow> xs = ys"
proof (induction xs arbitrary: ys)
  case Nil
  then show ?case by (cases ys) (auto simp: word_bytes_def)
next
  case (Cons x xs)
  have l: "length (word_bytes w) = 8" for w by (simp add: word_bytes_def)
  show ?case
  proof (cases ys)
    case Nil
    then show ?thesis using l [of x] by auto
  next
    case (Cons y zs)
    then show ?thesis using l Cons.IH word_bytes_inject by (simp add: append_eq_append_conv)
  qed
qed

text \<open>Two static sets, or two on the heap of one length, are equal exactly when they have the same members.\<close>

lemma Auto_eql_static: "length a = length b \<Longrightarrow> Auto_eql (Static a) (Static b) \<longleftrightarrow> members a = members b"
  by (simp add: Auto_eql_def Auto_raw_bytes_def words_bytes_inject members_inject)

lemma Auto_eql_dynamic:
  assumes "dyn_ok a" "dyn_ok b" "d_bit_length b = d_bit_length a"
  shows "Auto_eql (Dynamic a) (Dynamic b) \<longleftrightarrow> elems a = elems b"
  using Dynamic_comparisons(1) [OF assms] assms(3)
  by (simp add: Auto_eql_def Auto_raw_bytes_def Dynamic_bytes_def words_bytes_inject Dynamic_eql_def)

lemma Auto_for_each_ascending:
  assumes "auto_ok a"
  shows "Auto_for_each a ctx f = foldl f ctx (sorted_list_of_set (auto_elems a))"
proof (cases a)
  case (Static s)
  then show ?thesis
    using iterate_loop_visits [of AUTO_STATIC_BITS s True True f ctx] assms
    by (simp add: Auto_for_each_def Auto_iterator_def Array_iterator_def auto_ok_def auto_elems_def in_order_def)
next
  case (Dynamic d)
  then have "dyn_ok d" using assms by (simp add: auto_ok_def)
  then show ?thesis
    using iterate_loop_visits [OF dyn_okD(1), of d True True f ctx] Dynamic
    by (simp add: Auto_for_each_def Auto_iterator_def Dynamic_iterator_def auto_elems_def elems_def in_order_def)
qed

section \<open>Properties\<close>

text \<open>
  C17. \<open>resize\<close> keeps a set well formed: it fails only when the set has to grow and there is no memory,
  and then the set is as before; otherwise the set has the new length, just the words it needs within its
  block, zero padding, the old members below the new length, and the new indices exactly when it fills
  with ones. A shrink succeeds even when the allocator refuses to shrink the block.
\<close>

theorem Dynamic_resize_spec:
  assumes "dyn_ok d"
  shows "(\<exists>d'. Dynamic_resize alloc d new_len fill = Some (Inr (), d') \<and> dyn_ok d' \<and> d_bit_length d' = new_len
      \<and> elems d' = (elems d \<inter> {..<new_len}) \<union> (if fill then {d_bit_length d..<new_len} else {}))
    \<or> (Dynamic_resize alloc d new_len fill = Some (Inl AllocError, d)
      \<and> d_alloc d < num_masks_for new_len + 1 \<and> alloc (d_alloc d) (num_masks_for new_len + 1) = None)"
  by (rule Dynamic_resize_ok [OF assms])

theorem Dynamic_resize_spec_witness:
  "\<exists>d'. Dynamic_resize (\<lambda>m n. Some (\<lambda>i. 7)) Dynamic_default 70 True = Some (Inr (), d') \<and> dyn_ok d'
    \<and> d_bit_length d' = 70 \<and> elems d' = {0..<70}"
  using Dynamic_resize_spec [OF dyn_ok_default, of "\<lambda>m n. Some (\<lambda>i. 7)" 70 True] by simp

text \<open>A set of the given members, for the instances below.\<close>

lemma dyn_ok_example:
  "dyn_ok \<lparr>d_bit_length = 70, d_alloc = 3, d_words = [5, 1]\<rparr>" "dyn_ok \<lparr>d_bit_length = 70, d_alloc = 3, d_words = [4, 2]\<rparr>"
  "dyn_ok \<lparr>d_bit_length = 64, d_alloc = 2, d_words = [5]\<rparr>"
proof -
  have "LAST_ITEM_MASK 70 = 63" "LAST_ITEM_MASK 64 = - 1"
    by (simp_all add: LAST_ITEM_MASK_def LAST_PAD_BITS_def drop_bit_eq_div word_eq_iff_unsigned)
  then show "dyn_ok \<lparr>d_bit_length = 70, d_alloc = 3, d_words = [5, 1]\<rparr>" "dyn_ok \<lparr>d_bit_length = 70, d_alloc = 3, d_words = [4, 2]\<rparr>"
    "dyn_ok \<lparr>d_bit_length = 64, d_alloc = 2, d_words = [5]\<rparr>"
    by (simp_all add: dyn_ok_def fits_def masks_slice_def)
qed

text \<open>
  C18. On sets of one length, the operations that combine whole sets are the operations on the sets of
  their members: union, intersection, difference, symmetric difference and complement succeed and keep
  the invariant, and equality, the subset test, the intersection test, the count and the first member are
  those of the sets.
\<close>

theorem Dynamic_refines_sets:
  assumes "dyn_ok d" and "dyn_ok e" and "d_bit_length e = d_bit_length d"
  shows "(\<exists>r. Dynamic_set_union d e = Some r \<and> dyn_ok r \<and> elems r = elems d \<union> elems e)
    \<and> (\<exists>r. Dynamic_set_intersection d e = Some r \<and> dyn_ok r \<and> elems r = elems d \<inter> elems e)
    \<and> (\<exists>r. Dynamic_set_exclude d e = Some r \<and> dyn_ok r \<and> elems r = elems d - elems e)
    \<and> (\<exists>r. Dynamic_toggle_set d e = Some r \<and> dyn_ok r \<and> elems r = (elems d - elems e) \<union> (elems e - elems d))
    \<and> (\<exists>r. Dynamic_toggle_all d = Some r \<and> dyn_ok r \<and> elems r = {..<d_bit_length d} - elems d)
    \<and> (Dynamic_eql d e \<longleftrightarrow> elems d = elems e) \<and> (Dynamic_subset_of d e \<longleftrightarrow> elems d \<subseteq> elems e)
    \<and> (Dynamic_has_intersection d e \<longleftrightarrow> elems d \<inter> elems e \<noteq> {}) \<and> Dynamic_count d = card (elems d)
    \<and> Dynamic_find_first_set d = (if elems d = {} then None else Some (Min (elems d)))"
proof (intro conjI)
  note z = Dynamic_zip_ops [OF assms]
  show "\<exists>r. Dynamic_set_union d e = Some r \<and> dyn_ok r \<and> elems r = elems d \<union> elems e" using z(1) by metis
  show "\<exists>r. Dynamic_set_intersection d e = Some r \<and> dyn_ok r \<and> elems r = elems d \<inter> elems e" using z(2) by metis
  show "\<exists>r. Dynamic_set_exclude d e = Some r \<and> dyn_ok r \<and> elems r = elems d - elems e" using z(3) by metis
  show "\<exists>r. Dynamic_toggle_set d e = Some r \<and> dyn_ok r \<and> elems r = (elems d - elems e) \<union> (elems e - elems d)"
    using Dynamic_toggle_set_ok [OF assms] by metis
  show "\<exists>r. Dynamic_toggle_all d = Some r \<and> dyn_ok r \<and> elems r = {..<d_bit_length d} - elems d"
    using Dynamic_toggle_all_ok [OF assms(1)] by metis
qed (rule Dynamic_comparisons [OF assms])+

theorem Dynamic_refines_sets_witness:
  "let d = \<lparr>d_bit_length = 70, d_alloc = 3, d_words = [5, 1]\<rparr>; e = \<lparr>d_bit_length = 70, d_alloc = 3, d_words = [4, 2]\<rparr> in
    (\<exists>r. Dynamic_set_union d e = Some r \<and> dyn_ok r \<and> elems r = elems d \<union> elems e) \<and> Dynamic_count d = card (elems d)"
  using Dynamic_refines_sets [OF dyn_ok_example(1,2)] unfolding Let_def by fastforce

text \<open>
  C22. \<open>DynamicBitSet::copy_into\<close> asks for a destination that is at least as long as the source, and then
  reads beyond the source: when the destination has more words than there are in the source's block,
  the words it copies lie outside of it.
\<close>

theorem DynamicBitSet_copy_into_reads_beyond:
  assumes "dyn_ok self" and "d_alloc self = num_masks_for (d_bit_length self) + 1" and "dyn_ok other"
    and "num_masks_for (d_bit_length self) < num_masks_for (d_bit_length other)"
  shows "d_bit_length self \<le> d_bit_length other \<and> DynamicBitSet_copy_into self other = None"
proof
  have "d_bit_length self < d_bit_length other"
    using assms(4) by (metis not_less num_masks_for_def add_le_cancel_right div_le_mono)
  then show "d_bit_length self \<le> d_bit_length other" by simp
  have "length (d_words self) = num_masks_for (d_bit_length self)"
    using assms(1,2) by (simp add: dyn_ok_def)
  moreover have "d_bit_length other \<noteq> 0" using assms(4) by (cases "d_bit_length other = 0") simp_all
  ultimately show "DynamicBitSet_copy_into self other = None"
    using Dynamic_copy_into_beyond [of other self] assms(4) by (simp add: DynamicBitSet_copy_into_def)
qed

theorem DynamicBitSet_copy_into_reads_beyond_witness:
  "64 \<le> (70 :: nat) \<and> DynamicBitSet_copy_into \<lparr>d_bit_length = 64, d_alloc = 2, d_words = [5]\<rparr>
    \<lparr>d_bit_length = 70, d_alloc = 3, d_words = [5, 1]\<rparr> = None"
  using DynamicBitSet_copy_into_reads_beyond [OF dyn_ok_example(3) _ dyn_ok_example(1)] by simp

text \<open>
  C21. The sets of a \<open>DynamicBitSetList\<close> do not disturb each other: they are all empty at first, and
  setting a bit of one adds that index to it and leaves every other set as it was, although all of them
  lie in one buffer and are written through raw pointers into it.
\<close>

theorem List_sets_independent:
  assumes "list_ok l" and "i < dl_n l" and "j < dl_bit_length l" and "k < dl_n l"
  shows "\<exists>l'. List_set l i j = Some l' \<and> list_ok l'
    \<and> elems (List_at l' k) = (if k = i then insert j (elems (List_at l i)) else elems (List_at l k))"
  by (rule List_set_spec [OF assms(1-3)]) (use assms(4) in blast)

theorem List_sets_independent_witness:
  "let l = \<lparr>dl_buf = [3, 0, 0, 3, 0, 0], dl_n = 2, dl_bit_length = 70\<rparr> in
    \<exists>l'. List_set l 0 69 = Some l' \<and> list_ok l'
    \<and> elems (List_at l' 1) = (if (1 :: nat) = 0 then insert 69 (elems (List_at l 0)) else elems (List_at l 1))"
  unfolding Let_def by (rule List_sets_independent) (simp_all add: list_ok_def)

end
