(* ===== verification/Static_Hash_Map.thy ===== *)
theory Static_Hash_Map
  imports Bun_Prelude
begin

text \<open>
  The Robin Hood hash map of \<open>src/src/collections/StaticHashMap.rs\<close>: \<open>StaticHashMap\<close> with a fixed table,
  \<open>HashMap\<close> with a growing one, and \<open>HashMapMixin\<close>, the operations they share. Entries stand in the order
  of their hashes, each at or after the slot that the top bits of its hash name; an empty entry carries the
  largest hash.

  The trait \<open>HashContext\<close> (hash and equality of keys) and the \<open>Default\<close> values of keys and values are a
  parameter. An index out of range and \<open>unreachable!()\<close> are \<open>None\<close>.
\<close>

unbundle bit_operations_syntax

section \<open>The table\<close>

record ('k, 'v) hash_context =
  ctx_hash :: "'k \<Rightarrow> u64"
  ctx_eql :: "'k \<Rightarrow> 'k \<Rightarrow> bool"
  key_default :: 'k
  value_default :: 'v

definition EMPTY_HASH :: u64 where
  "EMPTY_HASH = - 1"

record ('k, 'v) entry =
  e_hash :: u64
  e_key :: 'k
  e_value :: 'v

definition entry_is_empty :: "('k, 'v) entry \<Rightarrow> bool" where
  "entry_is_empty e \<longleftrightarrow> e_hash e = EMPTY_HASH"

definition entry_empty :: "('k, 'v) hash_context \<Rightarrow> ('k, 'v) entry" where
  "entry_empty c = \<lparr>e_hash = EMPTY_HASH, e_key = key_default c, e_value = value_default c\<rparr>"

text \<open>\<open>ilog2\<close> of a positive number, rounded down.\<close>

fun ilog2 :: "nat \<Rightarrow> nat" where
  "ilog2 n = (if n < 2 then 0 else ilog2 (n div 2) + 1)"

declare ilog2.simps [simp del]

definition compute_shift :: "nat \<Rightarrow> nat" where
  "compute_shift capacity = 63 - ilog2 capacity + 1"

definition compute_overflow :: "nat \<Rightarrow> nat \<Rightarrow> nat" where
  "compute_overflow capacity shift = (capacity div 10 + (64 - shift)) * 2"

definition to_idx :: "u64 \<Rightarrow> nat" where
  "to_idx x = unat x"

text \<open>\<open>to_idx(hash >> shift)\<close>; a release build masks a shift by 64.\<close>

definition slot_of :: "nat \<Rightarrow> u64 \<Rightarrow> nat" where
  "slot_of shift hash = to_idx (drop_bit (shift mod 64) hash)"

definition static_slots :: "nat \<Rightarrow> nat" where
  "static_slots capacity =
     (let shift = compute_shift capacity; overflow = compute_overflow capacity shift in capacity + overflow)"

record ('k, 'v) hash_map =
  hm_entries :: "('k, 'v) entry list"
  hm_len :: u64
  hm_shift :: nat

definition static_default :: "('k, 'v) hash_context \<Rightarrow> nat \<Rightarrow> ('k, 'v) hash_map" where
  "static_default c capacity =
     \<lparr>hm_entries = replicate (static_slots capacity) (entry_empty c), hm_len = 0, hm_shift = compute_shift capacity\<rparr>"

definition init_capacity :: "('k, 'v) hash_context \<Rightarrow> nat \<Rightarrow> ('k, 'v) hash_map" where
  "init_capacity c capacity =
     (let shift = compute_shift capacity; overflow = compute_overflow capacity shift; n = capacity + overflow in
      \<lparr>hm_entries = replicate n (entry_empty c), hm_len = 0, hm_shift = shift\<rparr>)"

section \<open>HashMapMixin\<close>

definition clear_retaining_capacity :: "('k, 'v) hash_context \<Rightarrow> ('k, 'v) hash_map \<Rightarrow> ('k, 'v) hash_map" where
  "clear_retaining_capacity c m = m\<lparr>hm_entries := replicate (length (hm_entries m)) (entry_empty c), hm_len := 0\<rparr>"

text \<open>
  The loop of \<open>get_or_put_assume_capacity\<close>: it answers whether the key was there, the index of its value,
  the entries and whether an empty one was taken.
\<close>

function get_or_put_loop :: "('k, 'v) hash_context \<Rightarrow> 'k \<Rightarrow> ('k, 'v) entry \<Rightarrow> nat \<Rightarrow> nat option \<Rightarrow> ('k, 'v) entry list
    \<Rightarrow> (bool \<times> nat \<times> ('k, 'v) entry list \<times> bool) option" where
  "get_or_put_loop c key it i inserted_at es =
     (if i < length es then
        let entry = es ! i in
        if e_hash it \<le> e_hash entry then
          if ctx_eql c (e_key entry) key then Some (True, i, es, False)
          else
            let es = es[i := it] in
            if entry_is_empty entry then
              Some (False, (case inserted_at of None \<Rightarrow> i | Some k \<Rightarrow> k), es, True)
            else
              get_or_put_loop c key entry (i + 1) (if inserted_at = None then Some i else inserted_at) es
        else get_or_put_loop c key it (i + 1) inserted_at es
      else None)"
  by pat_completeness auto
termination
  by (relation "measure (\<lambda>(c, key, it, i, ins, es). length es - i)") auto

declare get_or_put_loop.simps [simp del]

definition get_or_put_assume_capacity :: "('k, 'v) hash_context \<Rightarrow> ('k, 'v) hash_map \<Rightarrow> 'k
    \<Rightarrow> (bool \<times> nat \<times> ('k, 'v) hash_map) option" where
  "get_or_put_assume_capacity c m key =
     (let it = \<lparr>e_hash = ctx_hash c key, e_key = key, e_value = value_default c\<rparr>;
          i = slot_of (hm_shift m) (e_hash it)
      in map_option (\<lambda>(found, p, es, fresh).
           (found, p, m\<lparr>hm_entries := es, hm_len := if fresh then hm_len m + 1 else hm_len m\<rparr>))
           (get_or_put_loop c key it i None (hm_entries m)))"

definition put_assume_capacity :: "('k, 'v) hash_context \<Rightarrow> ('k, 'v) hash_map \<Rightarrow> 'k \<Rightarrow> 'v \<Rightarrow> ('k, 'v) hash_map option" where
  "put_assume_capacity c m key v =
     (case get_or_put_assume_capacity c m key of
        None \<Rightarrow> None
      | Some (found_existing, p, m) \<Rightarrow>
          Some (if found_existing then m
                else m\<lparr>hm_entries := (hm_entries m)[p := (hm_entries m ! p)\<lparr>e_value := v\<rparr>]\<rparr>))"

text \<open>The loops over the slice from the key's slot to the end of the table.\<close>

fun get_loop :: "('k, 'v) hash_context \<Rightarrow> 'k \<Rightarrow> u64 \<Rightarrow> ('k, 'v) entry list \<Rightarrow> 'v option option" where
  "get_loop c key hash [] = None"
| "get_loop c key hash (entry # es) =
     (if hash \<le> e_hash entry then
        if \<not> ctx_eql c (e_key entry) key then Some None else Some (Some (e_value entry))
      else get_loop c key hash es)"

definition suffix_from :: "'a list \<Rightarrow> nat \<Rightarrow> 'a list option" where
  "suffix_from xs i = (if i \<le> length xs then Some (drop i xs) else None)"

definition get :: "('k, 'v) hash_context \<Rightarrow> ('k, 'v) hash_map \<Rightarrow> 'k \<Rightarrow> 'v option option" where
  "get c m key =
     (let hash = ctx_hash c key in
      Option.bind (suffix_from (hm_entries m) (slot_of (hm_shift m) hash)) (get_loop c key hash))"

fun has_with_hash_loop :: "u64 \<Rightarrow> ('k, 'v) entry list \<Rightarrow> bool" where
  "has_with_hash_loop key_hash [] = False"
| "has_with_hash_loop key_hash (entry # es) =
     (if key_hash \<le> e_hash entry then e_hash entry = key_hash else has_with_hash_loop key_hash es)"

definition has_with_hash :: "('k, 'v) hash_map \<Rightarrow> u64 \<Rightarrow> bool option" where
  "has_with_hash m key_hash =
     map_option (has_with_hash_loop key_hash) (suffix_from (hm_entries m) (slot_of (hm_shift m) key_hash))"

fun has_loop :: "('k, 'v) hash_context \<Rightarrow> 'k \<Rightarrow> u64 \<Rightarrow> ('k, 'v) entry list \<Rightarrow> bool option" where
  "has_loop c key hash [] = None"
| "has_loop c key hash (entry # es) =
     (if hash \<le> e_hash entry then Some (ctx_eql c (e_key entry) key) else has_loop c key hash es)"

definition has :: "('k, 'v) hash_context \<Rightarrow> ('k, 'v) hash_map \<Rightarrow> 'k \<Rightarrow> bool option" where
  "has c m key =
     (let hash = ctx_hash c key in
      Option.bind (suffix_from (hm_entries m) (slot_of (hm_shift m) hash)) (has_loop c key hash))"

text \<open>\<open>delete\<close>: find the entry, move the ones behind it back while they are not in their own slot.\<close>

function delete_find :: "('k, 'v) hash_context \<Rightarrow> 'k \<Rightarrow> u64 \<Rightarrow> nat \<Rightarrow> ('k, 'v) entry list \<Rightarrow> nat option option" where
  "delete_find c key hash i es =
     (if i < length es then
        if hash \<le> e_hash (es ! i) then
          (if \<not> ctx_eql c (e_key (es ! i)) key then Some None else Some (Some i))
        else delete_find c key hash (i + 1) es
      else None)"
  by pat_completeness auto
termination
  by (relation "measure (\<lambda>(c, key, hash, i, es). length es - i)") auto

declare delete_find.simps [simp del]

function backshift_loop :: "nat \<Rightarrow> nat \<Rightarrow> ('k, 'v) entry list \<Rightarrow> (nat \<times> ('k, 'v) entry list) option" where
  "backshift_loop shift i es =
     (if i + 1 < length es then
        let nxt = es ! (i + 1); j = slot_of shift (e_hash nxt) in
        if i < j \<or> entry_is_empty nxt then Some (i, es) else backshift_loop shift (i + 1) (es[i := nxt])
      else None)"
  by pat_completeness auto
termination
  by (relation "measure (\<lambda>(shift, i, es). length es - i)") auto

declare backshift_loop.simps [simp del]

definition delete :: "('k, 'v) hash_context \<Rightarrow> ('k, 'v) hash_map \<Rightarrow> 'k \<Rightarrow> ('v option \<times> ('k, 'v) hash_map) option" where
  "delete c m key =
     (let hash = ctx_hash c key; shift = hm_shift m in
      case delete_find c key hash (slot_of shift hash) (hm_entries m) of
        None \<Rightarrow> None
      | Some None \<Rightarrow> Some (None, m)
      | Some (Some i) \<Rightarrow>
          let v = e_value (hm_entries m ! i) in
          map_option (\<lambda>(i, es). (Some v, m\<lparr>hm_entries := es[i := entry_empty c], hm_len := hm_len m - 1\<rparr>))
            (backshift_loop shift i (hm_entries m)))"

section \<open>HashMap\<close>

text \<open>The capacity is \<open>1 << (63 - shift + 1)\<close>; doubling \<open>2 ^ 63\<close> overflows and stops in \<open>ilog2(0)\<close>.\<close>

definition capacity_of :: "nat \<Rightarrow> nat" where
  "capacity_of shift = 2 ^ ((64 - shift) mod 64)"

function grow_loop :: "nat \<Rightarrow> nat \<Rightarrow> nat \<Rightarrow> nat \<Rightarrow> ('k, 'v) entry list \<Rightarrow> ('k, 'v) entry list \<Rightarrow> ('k, 'v) entry list option" where
  "grow_loop map_shift end src dst entries map_entries =
     (if src < end then
        if src < length entries then
          let entry = entries ! src;
              i = (if \<not> entry_is_empty entry then slot_of map_shift (e_hash entry) else 0);
              dst = (if dst \<le> i then i else dst)
          in
          if dst < length map_entries
          then grow_loop map_shift end (src + 1) (dst + 1) entries (map_entries[dst := entry])
          else None
        else None
      else Some map_entries)"
  by pat_completeness auto
termination
  by (relation "measure (\<lambda>(s, end, src, dst, es, ms). end - src)") auto

declare grow_loop.simps [simp del]

definition grow :: "('k, 'v) hash_context \<Rightarrow> ('k, 'v) hash_map \<Rightarrow> ('k, 'v) hash_map option" where
  "grow c m =
     (let capacity = capacity_of (hm_shift m);
          overflow = compute_overflow capacity (hm_shift m);
          end = capacity + overflow
      in
      if 2 ^ 64 \<le> capacity * 2 then None
      else
        let map = init_capacity c (capacity * 2) in
        map_option (\<lambda>es. m\<lparr>hm_entries := es, hm_shift := hm_shift map\<rparr>)
          (grow_loop (hm_shift map) end 0 0 (hm_entries m) (hm_entries map)))"

lemma ilog2_power: "ilog2 (2 ^ k) = k"
proof (induction k)
  case (Suc k)
  then show ?case by (subst ilog2.simps) simp
qed (simp add: ilog2.simps)

lemma compute_shift_power: "k < 64 \<Longrightarrow> compute_shift (2 ^ k) = 64 - k"
  by (simp add: compute_shift_def ilog2_power)

lemma grow_shift:
  assumes "grow c m = Some m'"
  shows "hm_shift m' = 63 - (64 - hm_shift m) mod 64" and "(64 - hm_shift m) mod 64 < 63"
proof -
  let ?k = "(64 - hm_shift m) mod 64"
  have "\<not> (2 :: nat) ^ 64 \<le> capacity_of (hm_shift m) * 2"
    using assms unfolding grow_def Let_def by (auto split: if_splits)
  then have "(2 :: nat) ^ (?k + 1) < 2 ^ 64" by (simp add: capacity_of_def not_le)
  then show k: "?k < 63" using power_less_imp_less_exp [of "2 :: nat" "?k + 1" 64] by simp
  have "hm_shift m' = compute_shift (2 ^ (?k + 1))"
    using assms unfolding grow_def Let_def
    by (auto simp: init_capacity_def Let_def capacity_of_def mult.commute split: if_splits)
  then show "hm_shift m' = 63 - ?k" using compute_shift_power [of "?k + 1"] k by simp
qed

text \<open>Growing until the count is within the load factor; the shift gets smaller in each round.\<close>

function HashMap_ensure_total_capacity :: "('k, 'v) hash_context \<Rightarrow> nat \<Rightarrow> ('k, 'v) hash_map \<Rightarrow> nat \<Rightarrow> ('k, 'v) hash_map option" where
  "HashMap_ensure_total_capacity c max_load m count =
     (let capacity = capacity_of (hm_shift m) in
      if count \<le> capacity * max_load mod 2 ^ 64 div 100 then Some m
      else case grow c m of None \<Rightarrow> None | Some m \<Rightarrow> HashMap_ensure_total_capacity c max_load m count)"
  by pat_completeness auto
termination
proof (relation "measure (\<lambda>(c, l, m, n). if hm_shift m = 0 then 65 else hm_shift m)")
  fix c :: "('k, 'v) hash_context" and max_load count :: nat and m m' :: "('k, 'v) hash_map"
  assume "grow c m = Some m'"
  note g = grow_shift [OF this]
  have "0 < hm_shift m' \<and> hm_shift m' < (if hm_shift m = 0 then 65 else hm_shift m)"
    using g by (cases "hm_shift m = 0"; cases "hm_shift m < 64") (auto simp: mod_if)
  then show "((c, max_load, m', count), c, max_load, m, count)
    \<in> measure (\<lambda>(c, l, m, n). if hm_shift m = 0 then 65 else hm_shift m)" by auto
qed simp

declare HashMap_ensure_total_capacity.simps [simp del]

definition HashMap_ensure_unused_capacity :: "('k, 'v) hash_context \<Rightarrow> nat \<Rightarrow> ('k, 'v) hash_map \<Rightarrow> nat \<Rightarrow> ('k, 'v) hash_map option" where
  "HashMap_ensure_unused_capacity c max_load m count = HashMap_ensure_total_capacity c max_load m (unat (hm_len m + of_nat count))"

definition put :: "('k, 'v) hash_context \<Rightarrow> nat \<Rightarrow> ('k, 'v) hash_map \<Rightarrow> 'k \<Rightarrow> 'v \<Rightarrow> ('k, 'v) hash_map option" where
  "put c max_load m key v =
     (case HashMap_ensure_unused_capacity c max_load m 1 of None \<Rightarrow> None | Some m \<Rightarrow> put_assume_capacity c m key v)"

definition get_or_put :: "('k, 'v) hash_context \<Rightarrow> nat \<Rightarrow> ('k, 'v) hash_map \<Rightarrow> 'k \<Rightarrow> (bool \<times> nat \<times> ('k, 'v) hash_map) option" where
  "get_or_put c max_load m key =
     (case HashMap_ensure_unused_capacity c max_load m 1 of None \<Rightarrow> None | Some m \<Rightarrow> get_or_put_assume_capacity c m key)"

section \<open>The invariant of the table\<close>

text \<open>
  The entries that are not empty ascend strictly by hash, none stands before its slot, there is no empty
  entry between its slot and it, and its hash is that of its key. An empty entry has the default key.
\<close>

definition table_ok :: "('k, 'v) hash_context \<Rightarrow> nat \<Rightarrow> ('k, 'v) entry list \<Rightarrow> bool" where
  "table_ok c shift es \<longleftrightarrow>
     (\<forall>i j. i < j \<and> j < length es \<and> \<not> entry_is_empty (es ! i) \<and> \<not> entry_is_empty (es ! j)
        \<longrightarrow> e_hash (es ! i) < e_hash (es ! j))
   \<and> (\<forall>i < length es. \<not> entry_is_empty (es ! i) \<longrightarrow>
        slot_of shift (e_hash (es ! i)) \<le> i \<and> e_hash (es ! i) = ctx_hash c (e_key (es ! i)))
   \<and> (\<forall>i k. i < length es \<and> \<not> entry_is_empty (es ! i) \<and> slot_of shift (e_hash (es ! i)) \<le> k \<and> k < i
        \<longrightarrow> \<not> entry_is_empty (es ! k))
   \<and> (\<forall>i < length es. entry_is_empty (es ! i) \<longrightarrow> e_key (es ! i) = key_default c)"

definition stored :: "('k, 'v) entry list \<Rightarrow> 'k set" where
  "stored es = {e_key e |e. e \<in> set es \<and> \<not> entry_is_empty e}"

text \<open>
  What the map asks of its context for the keys that are used: equality is equality, no two of them have
  one hash, none has the hash of an empty entry, and none is the default key.
\<close>

definition keys_ok :: "('k, 'v) hash_context \<Rightarrow> 'k set \<Rightarrow> bool" where
  "keys_ok c K \<longleftrightarrow> (\<forall>a b. ctx_eql c a b \<longleftrightarrow> a = b) \<and> inj_on (ctx_hash c) K
     \<and> EMPTY_HASH \<notin> ctx_hash c ` K \<and> key_default c \<notin> K"

definition entries_map :: "('k, 'v) entry list \<Rightarrow> 'k \<Rightarrow> 'v option" where
  "entries_map es = map_of (map (\<lambda>e. (e_key e, e_value e)) (filter (\<lambda>e. \<not> entry_is_empty e) es))"

lemma table_okD:
  assumes "table_ok c shift es" and "i < length es"
  shows "\<not> entry_is_empty (es ! i) \<Longrightarrow> \<not> entry_is_empty (es ! j) \<Longrightarrow> j < i \<Longrightarrow> e_hash (es ! j) < e_hash (es ! i)"
    "\<not> entry_is_empty (es ! i) \<Longrightarrow> slot_of shift (e_hash (es ! i)) \<le> i"
    "\<not> entry_is_empty (es ! i) \<Longrightarrow> e_hash (es ! i) = ctx_hash c (e_key (es ! i))"
    "\<not> entry_is_empty (es ! i) \<Longrightarrow> slot_of shift (e_hash (es ! i)) \<le> k \<Longrightarrow> k < i \<Longrightarrow> \<not> entry_is_empty (es ! k)"
    "entry_is_empty (es ! i) \<Longrightarrow> e_key (es ! i) = key_default c"
  using assms unfolding table_ok_def by blast+

lemma keys_okD:
  assumes "keys_ok c K"
  shows "ctx_eql c a b \<longleftrightarrow> a = b" "k \<in> K \<Longrightarrow> l \<in> K \<Longrightarrow> ctx_hash c k = ctx_hash c l \<longleftrightarrow> k = l"
    "k \<in> K \<Longrightarrow> ctx_hash c k \<noteq> EMPTY_HASH" "k \<in> K \<Longrightarrow> k \<noteq> key_default c"
  using assms unfolding keys_ok_def inj_on_def by (blast, blast, force, blast)

lemma le_EMPTY_HASH [simp]: "h \<le> EMPTY_HASH"
  by (simp add: EMPTY_HASH_def)

lemma in_stored: "k \<in> stored es \<longleftrightarrow> (\<exists>i < length es. \<not> entry_is_empty (es ! i) \<and> e_key (es ! i) = k)"
  unfolding stored_def in_set_conv_nth by blast

lemma storedI: "i < length es \<Longrightarrow> \<not> entry_is_empty (es ! i) \<Longrightarrow> e_key (es ! i) \<in> stored es"
  by (auto simp: in_stored)

lemma slot_of_div: "slot_of shift h = unat h div 2 ^ (shift mod 64)"
proof -
  have "slot_of shift h = drop_bit (shift mod 64) (unat h)" by (simp only: slot_of_def to_idx_def unat_drop_bit_eq)
  then show ?thesis by (simp only: drop_bit_eq_div)
qed

lemma slot_mono: "g \<le> h \<Longrightarrow> slot_of shift g \<le> slot_of shift h"
  unfolding slot_of_div word_le_nat_alt by (rule div_le_mono)

lemma slot_of_less: "slot_of shift g < slot_of shift h \<Longrightarrow> g < h"
  using slot_mono [of h g shift] by (meson not_le)

text \<open>The map that the entries stand for, by position.\<close>

lemma entries_map_None: "entries_map es k = None \<longleftrightarrow> k \<notin> stored es"
  unfolding entries_map_def map_of_eq_None_iff stored_def by force

lemma entries_map_at:
  assumes ok: "table_ok c shift es" and K: "keys_ok c K" "stored es \<subseteq> K"
    and i: "i < length es" "\<not> entry_is_empty (es ! i)"
  shows "entries_map es (e_key (es ! i)) = Some (e_value (es ! i))"
proof -
  let ?f = "filter (\<lambda>e. \<not> entry_is_empty e) es"
  have inj: "a = b" if a: "a \<in> set ?f" and b: "b \<in> set ?f" and k: "e_key a = e_key b" for a b
  proof -
    obtain x y where x: "x < length es" "es ! x = a" and y: "y < length es" "es ! y = b"
      using a b by (auto simp: in_set_conv_nth)
    have e: "\<not> entry_is_empty (es ! x)" "\<not> entry_is_empty (es ! y)" using a b x y by auto
    have "e_hash (es ! x) = e_hash (es ! y)"
      using table_okD(3) [OF ok x(1) e(1)] table_okD(3) [OF ok y(1) e(2)] k x y by simp
    then have "x = y"
      using table_okD(1) [OF ok x(1) e] table_okD(1) [OF ok y(1) e(2,1)] by (cases x y rule: linorder_cases) auto
    then show ?thesis using x y by simp
  qed
  have "es ! i \<in> set ?f" using i by simp
  moreover obtain v where v: "entries_map es (e_key (es ! i)) = Some v"
    using entries_map_None [of es "e_key (es ! i)"] i by (auto simp: in_stored)
  then obtain e where e: "e \<in> set ?f" "e_key e = e_key (es ! i)" "e_value e = v"
    unfolding entries_map_def by (auto dest!: map_of_SomeD)
  ultimately show ?thesis using inj [of e "es ! i"] v by simp
qed

section \<open>The first entry at or above a hash\<close>

definition first_at :: "('k, 'v) entry list \<Rightarrow> u64 \<Rightarrow> nat \<Rightarrow> nat \<Rightarrow> bool" where
  "first_at es h s p \<longleftrightarrow> s \<le> p \<and> p < length es \<and> h \<le> e_hash (es ! p) \<and> (\<forall>j. s \<le> j \<and> j < p \<longrightarrow> e_hash (es ! j) < h)"

lemma first_atD:
  assumes "first_at es h s p"
  shows "s \<le> p" "p < length es" "h \<le> e_hash (es ! p)" "s \<le> j \<Longrightarrow> j < p \<Longrightarrow> e_hash (es ! j) < h"
  using assms unfolding first_at_def by blast+

lemma first_at_exists:
  assumes "s \<le> q" and "q < length es" and "entry_is_empty (es ! q)"
  obtains p where "first_at es h s p" "p \<le> q"
proof -
  let ?P = "\<lambda>p. s \<le> p \<and> h \<le> e_hash (es ! p)"
  have q: "?P q" using assms by (simp add: entry_is_empty_def)
  have "e_hash (es ! j) < h" if "s \<le> j" "j < (LEAST p. ?P p)" for j
    using not_less_Least [OF that(2)] that(1) by (simp add: not_le)
  then have "first_at es h s (LEAST p. ?P p)"
    unfolding first_at_def using LeastI [of ?P, OF q] Least_le [of ?P, OF q] assms(2) by simp
  then show thesis using that Least_le [of ?P, OF q] by blast
qed

lemma first_at_induct [consumes 1, case_names here later]:
  assumes "first_at es h s p" and "P p"
    and "\<And>s. s < p \<Longrightarrow> s < length es \<Longrightarrow> \<not> h \<le> e_hash (es ! s) \<Longrightarrow> P (Suc s) \<Longrightarrow> P s"
  shows "P s"
  using assms(1)
proof (induction "p - s" arbitrary: s)
  case 0
  then have "s = p" by (simp add: first_at_def)
  then show ?case using assms(2) by simp
next
  case (Suc n)
  then have "s < p" "first_at es h (Suc s) p" "s < length es" "\<not> h \<le> e_hash (es ! s)"
    by (auto simp: first_at_def not_le)
  then show ?case using Suc assms(3) [of s] by simp
qed

text \<open>
  The entry found there is the one with the key, if any is: an entry with the key would come first among
  those at or above its hash, and one that does not have the key tells that there is none.
\<close>

lemma first_at_key:
  assumes ok: "table_ok c shift es" and K: "keys_ok c K" "stored es \<subseteq> K" "key \<in> K"
    and p: "first_at es (ctx_hash c key) (slot_of shift (ctx_hash c key)) p"
  shows "e_key (es ! p) = key \<longleftrightarrow> key \<in> stored es"
    and "e_key (es ! p) = key \<Longrightarrow> \<not> entry_is_empty (es ! p)"
proof -
  show ne: "\<not> entry_is_empty (es ! p)" if "e_key (es ! p) = key"
    using that table_okD(5) [OF ok first_atD(2) [OF p]] keys_okD(4) [OF K(1,3)] by auto
  show "e_key (es ! p) = key \<longleftrightarrow> key \<in> stored es"
  proof
    assume "e_key (es ! p) = key"
    then show "key \<in> stored es" using ne first_atD(2) [OF p] by (auto simp: in_stored)
  next
    assume "key \<in> stored es"
    then obtain j where j: "j < length es" "\<not> entry_is_empty (es ! j)" "e_key (es ! j) = key" by (auto simp: in_stored)
    have h: "e_hash (es ! j) = ctx_hash c key" using table_okD(3) [OF ok j(1,2)] j(3) by simp
    have s: "slot_of shift (ctx_hash c key) \<le> j" using table_okD(2) [OF ok j(1,2)] h by simp
    have "\<not> j < p" using first_atD(4) [OF p s] h by auto
    moreover have "\<not> p < j"
    proof
      assume "p < j"
      moreover have "\<not> entry_is_empty (es ! p)"
        using table_okD(4) [OF ok j(1,2), of p] first_atD(1) [OF p] h \<open>p < j\<close> by simp
      ultimately have "e_hash (es ! p) < e_hash (es ! j)" using table_okD(1) [OF ok j(1,2)] by blast
      then show False using first_atD(3) [OF p] h by simp
    qed
    ultimately show "e_key (es ! p) = key" using j(3) by (metis linorder_neqE_nat)
  qed
qed

text \<open>Before it all hashes are below, behind it above.\<close>

lemma first_at_order:
  assumes ok: "table_ok c shift es" and p: "first_at es h (slot_of shift h) p" and j: "j < length es" "\<not> entry_is_empty (es ! j)"
  shows "j < p \<Longrightarrow> e_hash (es ! j) < h" and "p < j \<Longrightarrow> h < e_hash (es ! j)"
proof -
  assume "j < p"
  show "e_hash (es ! j) < h"
  proof (cases "slot_of shift h \<le> j")
    case True
    then show ?thesis using first_atD(4) [OF p] \<open>j < p\<close> by blast
  next
    case False
    then have "slot_of shift (e_hash (es ! j)) < slot_of shift h" using table_okD(2) [OF ok j] by simp
    then show ?thesis by (rule slot_of_less)
  qed
next
  assume "p < j"
  show "h < e_hash (es ! j)"
  proof (cases "entry_is_empty (es ! p)")
    case True
    then have "\<not> slot_of shift (e_hash (es ! j)) \<le> p" using table_okD(4) [OF ok j, of p] \<open>p < j\<close> by blast
    then have "slot_of shift h < slot_of shift (e_hash (es ! j))" using first_atD(1) [OF p] by simp
    then show ?thesis by (rule slot_of_less)
  next
    case False
    then show ?thesis using table_okD(1) [OF ok j False \<open>p < j\<close>] first_atD(3) [OF p] by simp
  qed
qed

section \<open>Lookups\<close>

lemma suffix_from_step: "s < length es \<Longrightarrow> drop s es = es ! s # drop (Suc s) es"
  by (simp add: Cons_nth_drop_Suc)

lemma get_loop_first:
  assumes "first_at es h s p"
  shows "get_loop c key h (drop s es) = Some (if ctx_eql c (e_key (es ! p)) key then Some (e_value (es ! p)) else None)"
  using assms by (induction rule: first_at_induct) (use first_atD [OF assms] in \<open>simp_all add: suffix_from_step\<close>)

lemma has_loop_first:
  assumes "first_at es h s p"
  shows "has_loop c key h (drop s es) = Some (ctx_eql c (e_key (es ! p)) key)"
  using assms by (induction rule: first_at_induct) (use first_atD [OF assms] in \<open>simp_all add: suffix_from_step\<close>)

lemma has_with_hash_loop_first:
  assumes "first_at es h s p"
  shows "has_with_hash_loop h (drop s es) \<longleftrightarrow> e_hash (es ! p) = h"
  using assms by (induction rule: first_at_induct) (use first_atD [OF assms] in \<open>simp_all add: suffix_from_step\<close>)

lemma delete_find_first:
  assumes "first_at es h s p"
  shows "delete_find c key h s es = Some (if ctx_eql c (e_key (es ! p)) key then Some p else None)"
  using assms
proof (induction rule: first_at_induct)
  case here
  then show ?case using first_atD [OF assms] by (simp add: delete_find.simps [of c key h p es])
next
  case (later s)
  then show ?case by (simp add: delete_find.simps [of c key h s es])
qed

lemma get_or_put_loop_first:
  assumes "first_at es (e_hash it) s p"
  shows "get_or_put_loop c key it s ins es = get_or_put_loop c key it p ins es"
  using assms
proof (induction rule: first_at_induct)
  case (later s)
  then show ?case by (simp add: get_or_put_loop.simps [of c key it s ins es])
qed simp

section \<open>Insertion\<close>

text \<open>The entries from \<open>p\<close> to before the empty one at \<open>q\<close> move one slot on.\<close>

definition insert_shift :: "nat \<Rightarrow> nat \<Rightarrow> 'a \<Rightarrow> 'a list \<Rightarrow> 'a list" where
  "insert_shift p q x xs = take p xs @ x # take (q - p) (drop p xs) @ drop (Suc q) xs"

lemma length_insert_shift [simp]: "p \<le> q \<Longrightarrow> q < length xs \<Longrightarrow> length (insert_shift p q x xs) = length xs"
  by (simp add: insert_shift_def)

lemma nth_insert_shift:
  assumes "p \<le> q" and "q < length xs" and "j < length xs"
  shows "insert_shift p q x xs ! j = (if j < p then xs ! j else if j = p then x else if j \<le> q then xs ! (j - 1) else xs ! j)"
proof -
  have a: "insert_shift p q x xs ! j = (x # take (q - p) (drop p xs) @ drop (Suc q) xs) ! (j - p)" if "\<not> j < p"
    using that assms by (simp add: insert_shift_def nth_append)
  consider "j < p" | "j = p" | "p < j" "j \<le> q" | "q < j" by linarith
  then show ?thesis
  proof cases
    case 1
    then show ?thesis using assms by (simp add: insert_shift_def nth_append)
  next
    case 2
    then show ?thesis using a by simp
  next
    case 3
    then have "(x # take (q - p) (drop p xs) @ drop (Suc q) xs) ! (j - p) = take (q - p) (drop p xs) ! (j - p - 1)"
    proof -
      have "j - p - 1 < q - p" "j - p \<noteq> 0" using 3 by linarith+
      then show ?thesis using assms by (simp add: nth_Cons' nth_append)
    qed
    also have "\<dots> = xs ! (j - 1)"
    proof -
      have "j - p - 1 < q - p" "p + (j - p - 1) = j - 1" using 3 by linarith+
      then show ?thesis using assms by (simp only: nth_take nth_drop less_imp_le le_trans)
    qed
    finally show ?thesis using 3 a by simp
  next
    case 4
    have "(x # take (q - p) (drop p xs) @ drop (Suc q) xs) ! (j - p) = drop (Suc q) xs ! (j - p - 1 - (q - p))"
    proof -
      have "\<not> j - p - 1 < q - p" "j - p \<noteq> 0" "min (length xs - p) (q - p) = q - p" using 4 assms by linarith+
      then show ?thesis by (simp add: nth_Cons' nth_append)
    qed
    also have "\<dots> = xs ! j"
    proof -
      have "Suc q + (j - p - 1 - (q - p)) = j" using 4 assms by linarith
      then show ?thesis using assms 4 by (simp only: nth_drop Suc_leI)
    qed
    finally show ?thesis using 4 a assms by simp
  qed
qed

lemma insert_shift_update:
  assumes "i < q" and "q < length xs"
  shows "insert_shift (Suc i) q (xs ! i) (xs[i := x]) = insert_shift i q x xs"
  using assms by (intro nth_equalityI) (simp_all add: nth_insert_shift nth_list_update)

lemma get_or_put_loop_shift:
  assumes "i \<le> q" and "q < length es" and "entry_is_empty (es ! q)" and "e_hash it \<le> e_hash (es ! i)"
    and "\<And>j. i \<le> j \<Longrightarrow> j < q \<Longrightarrow> \<not> entry_is_empty (es ! j) \<and> e_hash (es ! j) \<le> e_hash (es ! Suc j)"
    and "\<And>j. i \<le> j \<Longrightarrow> j \<le> q \<Longrightarrow> \<not> ctx_eql c (e_key (es ! j)) key"
  shows "get_or_put_loop c key it i ins es =
    Some (False, (case ins of None \<Rightarrow> i | Some k \<Rightarrow> k), insert_shift i q it es, True)"
  using assms
proof (induction "q - i" arbitrary: i it ins es)
  case 0
  then have "i = q" by simp
  moreover have "es[q := it] = insert_shift q q it es"
    using 0 by (simp add: insert_shift_def upd_conv_take_nth_drop)
  ultimately show ?case
    using 0 by (cases ins) (simp_all add: get_or_put_loop.simps [of c key it q _ es])
next
  case (Suc n)
  then have i: "i < q" by simp
  have "get_or_put_loop c key (es ! i) (Suc i) (if ins = None then Some i else ins) (es[i := it]) =
    Some (False, (case (if ins = None then Some i else ins) of None \<Rightarrow> Suc i | Some k \<Rightarrow> k),
      insert_shift (Suc i) q (es ! i) (es[i := it]), True)"
    using Suc.hyps(2) i Suc.prems by (intro Suc.hyps(1)) simp_all
  then show ?case
    using i Suc.prems(2,4) Suc.prems(5) [of i] Suc.prems(6) [of i] insert_shift_update [OF i Suc.prems(2), of it]
    by (cases ins) (simp_all add: get_or_put_loop.simps [of c key it i _ es])
qed

text \<open>The table with the new entry.\<close>

lemma insert_shift_ok:
  fixes new :: "('k, 'v) entry" and es :: "('k, 'v) entry list"
  assumes ok: "table_ok c shift es" and p: "first_at es (e_hash new) (slot_of shift (e_hash new)) p"
    and q: "p \<le> q" "q < length es" "entry_is_empty (es ! q)"
    and full: "\<And>j. p \<le> j \<Longrightarrow> j < q \<Longrightarrow> \<not> entry_is_empty (es ! j)"
    and new: "\<not> entry_is_empty new" "e_hash new = ctx_hash c (e_key new)"
    and absent: "\<not> entry_is_empty (es ! p) \<Longrightarrow> e_hash new < e_hash (es ! p)"
  shows "table_ok c shift (insert_shift p q new es)"
proof -
  let ?r = "insert_shift p q new es" and ?s = "slot_of shift (e_hash new)"
  define old where "old j = (if j \<le> p then j else if j \<le> q then j - 1 else j)" for j
  have len: "length ?r = length es" using q by simp
  have nth: "?r ! j = (if j = p then new else es ! old j)" if "j < length es" for j
    using nth_insert_shift [OF q(1,2) that, of new] by (auto simp: old_def)
  have old: "old j < length es" if "j < length es" for j using that q by (auto simp: old_def)
  have ne: "\<not> entry_is_empty (?r ! j)" if "j < length es" "\<not> entry_is_empty (es ! j)" for j
    using nth [OF that(1)] new(1) that full [of "j - 1"] by (auto simp: old_def)
  have order: "j < p \<Longrightarrow> e_hash (es ! j) < e_hash new" "p \<le> j \<Longrightarrow> e_hash new < e_hash (es ! j)"
    if "j < length es" "\<not> entry_is_empty (es ! j)" for j
  proof -
    show "j < p \<Longrightarrow> e_hash (es ! j) < e_hash new" by (rule first_at_order(1) [OF ok p that])
    show "p \<le> j \<Longrightarrow> e_hash new < e_hash (es ! j)"
      using first_at_order(2) [OF ok p that] absent that by (cases "j = p") simp_all
  qed
  show ?thesis unfolding table_ok_def len
  proof (intro conjI allI impI)
    fix i j assume a: "i < j \<and> j < length es \<and> \<not> entry_is_empty (?r ! i) \<and> \<not> entry_is_empty (?r ! j)"
    then have i: "i < length es" and j: "j < length es" by auto
    show "e_hash (?r ! i) < e_hash (?r ! j)"
    proof (cases "i = p \<or> j = p")
      case False
      then have "old i < old j" using a by (auto simp: old_def)
      then show ?thesis using table_okD(1) [OF ok old [OF j]] a nth [OF i] nth [OF j] False by simp
    next
      case True
      then show ?thesis
        using a order [of "old i"] order [of "old j"] nth [OF i] nth [OF j] old [OF i] old [OF j] by (auto simp: old_def)
    qed
  next
    fix j assume j: "j < length es" "\<not> entry_is_empty (?r ! j)"
    show "slot_of shift (e_hash (?r ! j)) \<le> j"
    proof (cases "j = p")
      case True
      then show ?thesis using nth [OF j(1)] first_atD(1) [OF p] by simp
    next
      case False
      then have "slot_of shift (e_hash (es ! old j)) \<le> old j"
        using table_okD(2) [OF ok old [OF j(1)]] j nth [OF j(1)] by simp
      moreover have "old j \<le> j" by (simp add: old_def)
      ultimately show ?thesis using nth [OF j(1)] False by simp
    qed
    show "e_hash (?r ! j) = ctx_hash c (e_key (?r ! j))"
      using nth [OF j(1)] new(2) table_okD(3) [OF ok old [OF j(1)]] j by auto
  next
    fix j k assume a: "j < length es \<and> \<not> entry_is_empty (?r ! j) \<and> slot_of shift (e_hash (?r ! j)) \<le> k \<and> k < j"
    show "\<not> entry_is_empty (?r ! k)"
    proof (cases "k = p")
      case True
      then show ?thesis using nth [of p] q new(1) by simp
    next
      case False
      have kl: "k < length es" using a by simp
      have "\<not> entry_is_empty (es ! k) \<or> k = q"
      proof (cases "j = p")
        case True
        then have "e_hash (es ! k) < e_hash new" using a nth [of j] first_atD(4) [OF p, of k] by auto
        then show ?thesis by (metis entry_is_empty_def le_EMPTY_HASH not_le)
      next
        case jp: False
        then have o: "\<not> entry_is_empty (es ! old j)" "slot_of shift (e_hash (es ! old j)) \<le> k"
          using a nth [of j] by auto
        show ?thesis
        proof (cases "k < old j")
          case True
          then show ?thesis using table_okD(4) [OF ok old o] a by simp
        next
          case False
          then have "k = old j" using a by (auto simp: old_def split: if_splits)
          then show ?thesis using o by simp
        qed
      qed
      then show ?thesis
      proof
        assume "k = q"
        then have "?r ! k = es ! (q - 1)" "p \<le> q - 1" "q - 1 < q" using False nth [OF kl] q(1) by (auto simp: old_def)
        then show ?thesis using full [of "q - 1"] by simp
      qed (rule ne [OF kl])
    qed
  next
    fix j assume j: "j < length es" "entry_is_empty (?r ! j)"
    then show "e_key (?r ! j) = key_default c"
      using nth [OF j(1)] new(1) table_okD(5) [OF ok old [OF j(1)]] by (auto split: if_splits)
  qed
qed

section \<open>Get, put and delete on the map\<close>

text \<open>There is an empty entry at or after the slot of a key, and so for the key's operations.\<close>

definition room_for :: "nat \<Rightarrow> ('k, 'v) entry list \<Rightarrow> u64 \<Rightarrow> bool" where
  "room_for shift es h \<longleftrightarrow> (\<exists>q < length es. slot_of shift h \<le> q \<and> entry_is_empty (es ! q))"

definition map_ok :: "('k, 'v) hash_context \<Rightarrow> 'k set \<Rightarrow> ('k, 'v) hash_map \<Rightarrow> bool" where
  "map_ok c K m \<longleftrightarrow> keys_ok c K \<and> table_ok c (hm_shift m) (hm_entries m) \<and> stored (hm_entries m) \<subseteq> K"

definition map_of_table :: "('k, 'v) hash_map \<Rightarrow> 'k \<Rightarrow> 'v option" where
  "map_of_table m = entries_map (hm_entries m)"

lemma room_first:
  assumes "room_for shift es h"
  obtains p where "first_at es h (slot_of shift h) p"
  using assms first_at_exists unfolding room_for_def by metis

lemma room_suffix: "room_for shift es h \<Longrightarrow> suffix_from es (slot_of shift h) = Some (drop (slot_of shift h) es)"
  by (auto simp: room_for_def suffix_from_def)

lemma first_at_lookup:
  assumes ok: "table_ok c shift es" and K: "keys_ok c K" "stored es \<subseteq> K" "key \<in> K"
    and p: "first_at es (ctx_hash c key) (slot_of shift (ctx_hash c key)) p"
  shows "entries_map es key = (if e_key (es ! p) = key then Some (e_value (es ! p)) else None)"
  using first_at_key [OF ok K p] entries_map_at [OF ok K(1,2) first_atD(2) [OF p]] entries_map_None [of es key] by auto

lemma get_ok:
  assumes "map_ok c K m" and "key \<in> K" and "room_for (hm_shift m) (hm_entries m) (ctx_hash c key)"
  shows "get c m key = Some (map_of_table m key)" and "has c m key = Some (map_of_table m key \<noteq> None)"
proof -
  let ?es = "hm_entries m" and ?h = "ctx_hash c key"
  obtain p where p: "first_at ?es ?h (slot_of (hm_shift m) ?h) p" using room_first [OF assms(3)] by blast
  have K: "keys_ok c K" "stored ?es \<subseteq> K" and ok: "table_ok c (hm_shift m) ?es" using assms(1) by (simp_all add: map_ok_def)
  note l = first_at_lookup [OF ok K assms(2) p]
  show "get c m key = Some (map_of_table m key)" "has c m key = Some (map_of_table m key \<noteq> None)"
    using l by (simp_all add: get_def has_def room_suffix [OF assms(3)] get_loop_first [OF p] has_loop_first [OF p]
        keys_okD(1) [OF K(1)] map_of_table_def)
qed

text \<open>The entries after an insertion, as a set, and as a map.\<close>

lemma set_insert_shift:
  assumes "p \<le> q" and "q < length xs"
  shows "set (insert_shift p q x xs) = insert x {xs ! j |j. j < length xs \<and> j \<noteq> q}"
proof -
  let ?r = "insert_shift p q x xs"
  have "y \<in> set ?r \<longleftrightarrow> y = x \<or> (\<exists>j. y = xs ! j \<and> j < length xs \<and> j \<noteq> q)" for y
  proof
    assume "y \<in> set ?r"
    then obtain j where j: "j < length xs" "y = ?r ! j" using assms by (auto simp: in_set_conv_nth)
    consider "j < p" | "j = p" | "p < j" "j \<le> q" | "q < j" by linarith
    then show "y = x \<or> (\<exists>j. y = xs ! j \<and> j < length xs \<and> j \<noteq> q)"
    proof cases
      case 3
      then have "y = xs ! (j - 1)" "j - 1 < length xs" "j - 1 \<noteq> q" using j assms nth_insert_shift [OF assms j(1)] by auto
      then show ?thesis by blast
    next
      case 1
      then have "y = xs ! j" "j \<noteq> q" using j assms nth_insert_shift [OF assms j(1), of x] by simp_all
      then show ?thesis using j(1) by blast
    next
      case 2
      then show ?thesis using j nth_insert_shift [OF assms j(1), of x] by simp
    next
      case 4
      then have "y = xs ! j" "j \<noteq> q" using j assms nth_insert_shift [OF assms j(1), of x] by simp_all
      then show ?thesis using j(1) by blast
    qed
  next
    assume "y = x \<or> (\<exists>j. y = xs ! j \<and> j < length xs \<and> j \<noteq> q)"
    then consider "y = x" | j where "y = xs ! j" "j < length xs" "j \<noteq> q" by blast
    then show "y \<in> set ?r"
    proof cases
      case 1
      then have "y = ?r ! p" using assms nth_insert_shift [OF assms, of p x] by simp
      then show ?thesis using assms by (metis length_insert_shift nth_mem le_less_trans)
    next
      case 2
      define k where "k = (if p \<le> j \<and> j < q then Suc j else j)"
      have k: "k < length xs" using 2 assms by (auto simp: k_def)
      have "y = ?r ! k" using 2 assms nth_insert_shift [OF assms k, of x] by (auto simp: k_def)
      then show ?thesis using assms k by (metis length_insert_shift nth_mem)
    qed
  qed
  then show ?thesis by auto
qed

lemma entries_map_eqI:
  assumes ok: "table_ok c shift es" "table_ok c shift' es'" and K: "keys_ok c K" "stored es \<subseteq> K" "stored es' \<subseteq> K"
    and e: "\<And>e. e \<in> set es \<Longrightarrow> \<not> entry_is_empty e \<Longrightarrow> e_key e = k \<Longrightarrow> \<exists>e' \<in> set es'. \<not> entry_is_empty e' \<and> e_key e' = k \<and> e_value e' = e_value e"
    and n: "k \<in> stored es' \<Longrightarrow> k \<in> stored es"
  shows "entries_map es' k = entries_map es k"
proof (cases "k \<in> stored es")
  case False
  then show ?thesis using n entries_map_None [of es k] entries_map_None [of es' k] by metis
next
  case True
  then obtain i where i: "i < length es" "\<not> entry_is_empty (es ! i)" "e_key (es ! i) = k" by (auto simp: in_stored)
  then obtain e' where e': "e' \<in> set es'" "\<not> entry_is_empty e'" "e_key e' = k" "e_value e' = e_value (es ! i)"
    using e [of "es ! i"] by auto
  then obtain j where "j < length es'" "es' ! j = e'" by (auto simp: in_set_conv_nth)
  then show ?thesis
    using entries_map_at [OF ok(1) K(1,2) i(1,2)] entries_map_at [OF ok(2) K(1,3), of j] i e' by simp
qed

text \<open>
  \<open>get_or_put\<close> finds the key or makes room for it in front of the entries with larger hashes; the entry
  it answers is then the one of the key, whose value the caller writes.
\<close>

lemma stored_insert_shift:
  assumes "p \<le> q" and "q < length es" and "entry_is_empty (es ! q)" and "\<not> entry_is_empty new"
  shows "stored (insert_shift p q new es) = insert (e_key new) (stored es)"
  unfolding stored_def set_insert_shift [OF assms(1,2)] using assms(3,4) by (auto simp: in_set_conv_nth)

lemma get_or_put_absent:
  assumes m: "map_ok c K m" and key: "key \<in> K" "map_of_table m key = None"
    and room: "room_for (hm_shift m) (hm_entries m) (ctx_hash c key)"
  obtains p q where "p \<le> q" "q < length (hm_entries m)" "entry_is_empty (hm_entries m ! q)"
    "\<And>new. e_hash new = ctx_hash c key \<Longrightarrow> e_key new = key \<Longrightarrow>
      table_ok c (hm_shift m) (insert_shift p q new (hm_entries m))"
    "get_or_put_assume_capacity c m key = Some (False, p,
      m\<lparr>hm_entries := insert_shift p q \<lparr>e_hash = ctx_hash c key, e_key = key, e_value = value_default c\<rparr> (hm_entries m),
        hm_len := hm_len m + 1\<rparr>)"
proof -
  let ?es = "hm_entries m" and ?h = "ctx_hash c key" and ?s = "hm_shift m"
  let ?it = "\<lparr>e_hash = ?h, e_key = key, e_value = value_default c\<rparr>"
  have K: "keys_ok c K" "stored ?es \<subseteq> K" and ok: "table_ok c ?s ?es" using m by (simp_all add: map_ok_def)
  have h: "?h \<noteq> EMPTY_HASH" using keys_okD(3) [OF K(1) key(1)] .
  obtain p where p: "first_at ?es ?h (slot_of ?s ?h) p" using room_first [OF room] by blast
  have absent: "key \<notin> stored ?es" using key(2) entries_map_None by (metis map_of_table_def)
  have "\<exists>q < length ?es. p \<le> q \<and> entry_is_empty (?es ! q)"
  proof -
    obtain q where q: "q < length ?es" "slot_of ?s ?h \<le> q" "entry_is_empty (?es ! q)" using room by (auto simp: room_for_def)
    have "\<not> q < p" using first_atD(4) [OF p q(2)] q(3) by (metis entry_is_empty_def le_EMPTY_HASH not_le)
    then show ?thesis using q by (meson not_less)
  qed
  then obtain q where q': "q < length ?es \<and> p \<le> q \<and> entry_is_empty (?es ! q)"
    and least': "\<forall>j < q. \<not> (j < length ?es \<and> p \<le> j \<and> entry_is_empty (?es ! j))"
    using exists_least_iff [of "\<lambda>q. q < length ?es \<and> p \<le> q \<and> entry_is_empty (?es ! q)"] by blast
  then have q: "p \<le> q" "q < length ?es" "entry_is_empty (?es ! q)"
    and least: "\<And>j. p \<le> j \<Longrightarrow> j < q \<Longrightarrow> \<not> entry_is_empty (?es ! j)"
    by (simp_all add: order.strict_trans)
  have key': "e_key (?es ! j) \<noteq> key" if "j < length ?es" for j
  proof (cases "entry_is_empty (?es ! j)")
    case True
    then show ?thesis using table_okD(5) [OF ok that] keys_okD(4) [OF K(1) key(1)] by simp
  next
    case False
    then have "e_key (?es ! j) \<in> stored ?es" by (rule storedI [OF that])
    then show ?thesis using absent by metis
  qed
  have strict: "?h < e_hash (?es ! p)" if "\<not> entry_is_empty (?es ! p)"
  proof -
    have "e_key (?es ! p) \<in> stored ?es" by (rule storedI [OF first_atD(2) [OF p] that])
    then have "e_key (?es ! p) \<in> K" using K(2) by blast
    moreover have "e_hash (?es ! p) = ctx_hash c (e_key (?es ! p))" using table_okD(3) [OF ok first_atD(2) [OF p] that] .
    ultimately have "e_hash (?es ! p) \<noteq> ?h"
      using keys_okD(2) [OF K(1), of "e_key (?es ! p)" key] key(1) key' [OF first_atD(2) [OF p]] by simp
    then show ?thesis using first_atD(3) [OF p] by simp
  qed
  have chain: "e_hash (?es ! j) \<le> e_hash (?es ! Suc j)" if "p \<le> j" "j < q" for j
  proof (cases "entry_is_empty (?es ! Suc j)")
    case False
    then show ?thesis using table_okD(1) [OF ok _ False least [OF that]] q(2) that by (simp add: less_imp_le)
  qed (simp add: entry_is_empty_def)
  have "get_or_put_loop c key ?it (slot_of ?s ?h) None ?es = Some (False, p, insert_shift p q ?it ?es, True)"
  proof -
    have "get_or_put_loop c key ?it p None ?es = Some (False, (case None of None \<Rightarrow> p | Some k \<Rightarrow> k), insert_shift p q ?it ?es, True)"
      using q first_atD(3) [OF p] least chain key' keys_okD(1) [OF K(1)] by (intro get_or_put_loop_shift) auto
    moreover have "get_or_put_loop c key ?it (slot_of ?s ?h) None ?es = get_or_put_loop c key ?it p None ?es"
      using p by (intro get_or_put_loop_first) simp
    ultimately show ?thesis by simp
  qed
  then have g: "get_or_put_assume_capacity c m key = Some (False, p, m\<lparr>hm_entries := insert_shift p q ?it ?es, hm_len := hm_len m + 1\<rparr>)"
    by (simp add: get_or_put_assume_capacity_def Let_def)
  have "table_ok c ?s (insert_shift p q new ?es)" if "e_hash new = ?h" "e_key new = key" for new
    using that p h strict by (intro insert_shift_ok [OF ok _ q least]) (auto simp: entry_is_empty_def)
  then show thesis using that [OF q _ g] by blast
qed

lemma get_or_put_present:
  assumes m: "map_ok c K m" and key: "key \<in> K" "map_of_table m key = Some v"
    and room: "room_for (hm_shift m) (hm_entries m) (ctx_hash c key)"
  obtains p where "get_or_put_assume_capacity c m key = Some (True, p, m)" "p < length (hm_entries m)"
    "e_key (hm_entries m ! p) = key" "e_value (hm_entries m ! p) = v"
proof -
  let ?es = "hm_entries m" and ?h = "ctx_hash c key" and ?s = "hm_shift m"
  let ?it = "\<lparr>e_hash = ?h, e_key = key, e_value = value_default c\<rparr>"
  have K: "keys_ok c K" "stored ?es \<subseteq> K" and ok: "table_ok c ?s ?es" using m by (simp_all add: map_ok_def)
  obtain p where p: "first_at ?es ?h (slot_of ?s ?h) p" using room_first [OF room] by blast
  have k: "e_key (?es ! p) = key" "e_value (?es ! p) = v"
    using first_at_lookup [OF ok K key(1) p] key(2) by (auto simp: map_of_table_def split: if_splits)
  have "get_or_put_loop c key ?it (slot_of ?s ?h) None ?es = get_or_put_loop c key ?it p None ?es"
    using p by (intro get_or_put_loop_first) simp
  also have "\<dots> = Some (True, p, ?es, False)"
    using first_atD(2,3) [OF p] k(1) keys_okD(1) [OF K(1)] by (simp add: get_or_put_loop.simps [of c key ?it p None ?es])
  finally show thesis using that [OF _ first_atD(2) [OF p] k] by (simp add: get_or_put_assume_capacity_def Let_def)
qed

lemma insert_shift_value:
  assumes "p \<le> q" and "q < length xs"
  shows "(insert_shift p q x xs)[p := y] = insert_shift p q y xs"
  using assms by (simp add: insert_shift_def list_update_append)

lemma put_assume_capacity_ok:
  assumes m: "map_ok c K m" and key: "key \<in> K" and room: "room_for (hm_shift m) (hm_entries m) (ctx_hash c key)"
  shows "\<exists>m'. put_assume_capacity c m key v = Some m' \<and> map_ok c K m' \<and> hm_shift m' = hm_shift m
    \<and> length (hm_entries m') = length (hm_entries m)
    \<and> map_of_table m' = (case map_of_table m key of None \<Rightarrow> (map_of_table m)(key \<mapsto> v) | Some w \<Rightarrow> map_of_table m)
    \<and> hm_len m' = (case map_of_table m key of None \<Rightarrow> hm_len m + 1 | Some w \<Rightarrow> hm_len m)"
proof (cases "map_of_table m key")
  case (Some w)
  then obtain p where "get_or_put_assume_capacity c m key = Some (True, p, m)"
    using get_or_put_present [OF m key Some room] by blast
  then show ?thesis using m Some by (simp add: put_assume_capacity_def)
next
  case None
  let ?es = "hm_entries m"
  let ?new = "\<lparr>e_hash = ctx_hash c key, e_key = key, e_value = v\<rparr>"
  have K: "keys_ok c K" "stored ?es \<subseteq> K" and ok: "table_ok c (hm_shift m) ?es" using m by (simp_all add: map_ok_def)
  obtain p q where q: "p \<le> q" "q < length ?es" "entry_is_empty (?es ! q)"
    and ok': "\<And>new. e_hash new = ctx_hash c key \<Longrightarrow> e_key new = key \<Longrightarrow> table_ok c (hm_shift m) (insert_shift p q new ?es)"
    and g: "get_or_put_assume_capacity c m key = Some (False, p,
      m\<lparr>hm_entries := insert_shift p q \<lparr>e_hash = ctx_hash c key, e_key = key, e_value = value_default c\<rparr> ?es,
        hm_len := hm_len m + 1\<rparr>)"
    using get_or_put_absent [OF m key None room] by metis
  let ?es' = "insert_shift p q ?new ?es"
  have n: "insert_shift p q x ?es ! p = x" for x
    using q nth_insert_shift [OF q(1,2), of p x] by simp
  have put: "put_assume_capacity c m key v = Some (m\<lparr>hm_entries := ?es', hm_len := hm_len m + 1\<rparr>)"
    using q by (simp add: put_assume_capacity_def g n insert_shift_value)
  have tok: "table_ok c (hm_shift m) ?es'" by (rule ok') simp_all
  have ne: "\<not> entry_is_empty ?new" using keys_okD(3) [OF K(1) key] by (simp add: entry_is_empty_def)
  have st: "stored ?es' = insert key (stored ?es)" using stored_insert_shift [OF q ne] by simp
  have K': "stored ?es' \<subseteq> K" using st K(2) key by simp
  have p: "p < length ?es'" using q by simp
  have "entries_map ?es' key = Some v"
    using entries_map_at [OF tok K(1) K' p] ne by (simp add: n)
  moreover have "entries_map ?es' k = entries_map ?es k" if "k \<noteq> key" for k
  proof (rule entries_map_eqI [OF ok tok K K'])
    fix e assume e: "e \<in> set ?es" "\<not> entry_is_empty e" "e_key e = k"
    then obtain j where "j < length ?es" "?es ! j = e" "j \<noteq> q" using q(3) by (auto simp: in_set_conv_nth)
    then have "e \<in> set ?es'" unfolding set_insert_shift [OF q(1,2)] by blast
    then show "\<exists>e' \<in> set ?es'. \<not> entry_is_empty e' \<and> e_key e' = k \<and> e_value e' = e_value e" using e by blast
  qed (use st that in auto)
  ultimately have "entries_map ?es' = (entries_map ?es)(key \<mapsto> v)" by auto
  then show ?thesis
    using put tok K(1) K' None q by (simp add: map_ok_def map_of_table_def)
qed

section \<open>Deletion\<close>

lemma backshift_loop_spec:
  assumes "q < length es" and "i < q" and "entry_is_empty (es ! q)"
  shows "\<exists>r es'. backshift_loop shift i es = Some (r, es') \<and> i \<le> r \<and> r < q \<and> length es' = length es
    \<and> (\<forall>k. i \<le> k \<and> k < r \<longrightarrow> \<not> entry_is_empty (es ! Suc k) \<and> slot_of shift (e_hash (es ! Suc k)) \<le> k)
    \<and> (r < slot_of shift (e_hash (es ! Suc r)) \<or> entry_is_empty (es ! Suc r))
    \<and> (\<forall>j < length es. es' ! j = (if i \<le> j \<and> j < r then es ! Suc j else es ! j))"
  using assms
proof (induction "q - i" arbitrary: i es)
  case (Suc n)
  let ?nxt = "es ! Suc i"
  have i: "Suc i < length es" using Suc.prems by simp
  show ?case
  proof (cases "i < slot_of shift (e_hash ?nxt) \<or> entry_is_empty ?nxt")
    case True
    then have "backshift_loop shift i es = Some (i, es)"
      using i by (simp add: backshift_loop.simps [of shift i es] Let_def)
    then show ?thesis using True Suc.prems by auto
  next
    case False
    then have "Suc i \<noteq> q" using Suc.prems(3) by auto
    then have q: "Suc i < q" using Suc.prems(2) by simp
    have step: "backshift_loop shift i es = backshift_loop shift (Suc i) (es[i := ?nxt])"
      using False i by (simp add: backshift_loop.simps [of shift i es] Let_def)
    have "n = q - Suc i" using Suc.hyps(2) by simp
    from Suc.hyps(1) [OF this, of "es[i := ?nxt]"] q Suc.prems
    obtain r es' where r: "backshift_loop shift (Suc i) (es[i := ?nxt]) = Some (r, es')" "Suc i \<le> r" "r < q"
      "length es' = length es"
      "\<And>k. Suc i \<le> k \<Longrightarrow> k < r \<Longrightarrow> \<not> entry_is_empty (es ! Suc k) \<and> slot_of shift (e_hash (es ! Suc k)) \<le> k"
      "r < slot_of shift (e_hash (es ! Suc r)) \<or> entry_is_empty (es ! Suc r)"
      "\<And>j. j < length es \<Longrightarrow> es' ! j = (if Suc i \<le> j \<and> j < r then es ! Suc j else es[i := ?nxt] ! j)"
      by auto
    have "\<not> entry_is_empty (es ! Suc k) \<and> slot_of shift (e_hash (es ! Suc k)) \<le> k" if "i \<le> k" "k < r" for k
      using r(5) [of k] that False by (cases "k = i") auto
    moreover have "es' ! j = (if i \<le> j \<and> j < r then es ! Suc j else es ! j)" if "j < length es" for j
      using r(2) r(7) [OF that] that by (cases "j = i") auto
    moreover have "i \<le> r" using r(2) by simp
    ultimately show ?thesis unfolding step using r(1,3,4,6) by blast
  qed
qed simp

text \<open>The table without the entry at \<open>p\<close>, the entries behind it moved back up to \<open>r\<close>.\<close>

lemma remove_shift_ok:
  assumes ok: "table_ok c shift es" and p: "p \<le> r" "Suc r < length es"
    and moved: "\<And>k. p \<le> k \<Longrightarrow> k < r \<Longrightarrow> \<not> entry_is_empty (es ! Suc k) \<and> slot_of shift (e_hash (es ! Suc k)) \<le> k"
    and stop: "r < slot_of shift (e_hash (es ! Suc r)) \<or> entry_is_empty (es ! Suc r)"
    and len: "length D = length es"
    and D: "\<And>j. j < length es \<Longrightarrow> D ! j = (if j = r then entry_empty c else if p \<le> j \<and> j < r then es ! Suc j else es ! j)"
  shows "table_ok c shift D"
proof -
  define old where "old j = (if p \<le> j \<and> j < r then Suc j else j)" for j
  have e: "entry_is_empty (entry_empty c)" by (simp add: entry_is_empty_def entry_empty_def)
  have nth: "D ! j = (if j = r then entry_empty c else es ! old j)" if "j < length es" for j
    using D [OF that] by (auto simp: old_def)
  have old: "old j < length es" if "j < length es" for j using that p by (auto simp: old_def)
  have mono: "old k < old j" if "k < j" "j \<noteq> r" for k j using that by (auto simp: old_def)
  have ne: "j \<noteq> r \<and> \<not> entry_is_empty (es ! old j)" if "j < length es" "\<not> entry_is_empty (D ! j)" for j
    using that nth [OF that(1)] e by (auto split: if_splits)
  have slot: "slot_of shift (e_hash (es ! old j)) \<le> j" if "j < length es" "\<not> entry_is_empty (D ! j)" for j
  proof (cases "p \<le> j \<and> j < r")
    case True
    then show ?thesis using moved [of j] by (simp add: old_def)
  next
    case False
    then have "old j = j" by (auto simp: old_def)
    then show ?thesis using table_okD(2) [OF ok old [OF that(1)]] ne [OF that] by simp
  qed
  show ?thesis unfolding table_ok_def len
  proof (intro conjI allI impI)
    fix i j assume a: "i < j \<and> j < length es \<and> \<not> entry_is_empty (D ! i) \<and> \<not> entry_is_empty (D ! j)"
    then have i: "i < length es" and j: "j < length es" by auto
    have n: "i \<noteq> r" "\<not> entry_is_empty (es ! old i)" "j \<noteq> r" "\<not> entry_is_empty (es ! old j)"
      using ne [OF i] ne [OF j] a by blast+
    have "old i < old j" using mono [of i j] a n(3) by blast
    from table_okD(1) [OF ok old [OF j] n(4,2) this]
    show "e_hash (D ! i) < e_hash (D ! j)" using n nth [OF i] nth [OF j] by simp
  next
    fix j assume j: "j < length es" "\<not> entry_is_empty (D ! j)"
    show "slot_of shift (e_hash (D ! j)) \<le> j" using slot [OF j] ne [OF j] nth [OF j(1)] by simp
    show "e_hash (D ! j) = ctx_hash c (e_key (D ! j))"
      using table_okD(3) [OF ok old [OF j(1)]] ne [OF j] nth [OF j(1)] by simp
  next
    fix j k assume a: "j < length es \<and> \<not> entry_is_empty (D ! j) \<and> slot_of shift (e_hash (D ! j)) \<le> k \<and> k < j"
    then have j: "j < length es" "\<not> entry_is_empty (D ! j)" and k: "k < length es" by auto
    have oj: "\<not> entry_is_empty (es ! old j)" "slot_of shift (e_hash (es ! old j)) \<le> k" "j \<noteq> r"
      using ne [OF j] nth [OF j(1)] a by simp_all
    have "k \<noteq> r"
    proof
      assume "k = r"
      then have jr: "r < j" "old j = j" using a by (auto simp: old_def)
      have "\<not> entry_is_empty (es ! Suc r) \<and> slot_of shift (e_hash (es ! Suc r)) \<le> r"
      proof (cases "j = Suc r")
        case True
        then show ?thesis using oj jr \<open>k = r\<close> by simp
      next
        case False
        then have "Suc r < j" using jr by simp
        then have n: "\<not> entry_is_empty (es ! Suc r)"
          using table_okD(4) [OF ok j(1), of "Suc r"] oj jr \<open>k = r\<close> by simp
        have "e_hash (es ! Suc r) < e_hash (es ! j)"
          using table_okD(1) [OF ok j(1) _ n \<open>Suc r < j\<close>] oj jr by simp
        then have "slot_of shift (e_hash (es ! Suc r)) \<le> slot_of shift (e_hash (es ! j))" by (intro slot_mono) simp
        then show ?thesis using n oj jr \<open>k = r\<close> by simp
      qed
      then show False using stop by simp
    qed
    moreover have "\<not> entry_is_empty (es ! old k)"
    proof (rule table_okD(4) [OF ok old [OF j(1)] oj(1)])
      show "slot_of shift (e_hash (es ! old j)) \<le> old k" using oj(2) by (simp add: old_def)
      show "old k < old j" using mono [of k j] a oj(3) by simp
    qed
    ultimately show "\<not> entry_is_empty (D ! k)" using nth [OF k] by simp
  next
    fix j assume j: "j < length es" "entry_is_empty (D ! j)"
    then show "e_key (D ! j) = key_default c"
      using nth [OF j(1)] table_okD(5) [OF ok old [OF j(1)]] by (auto simp: entry_empty_def split: if_splits)
  qed
qed

lemma remove_shift_entries:
  fixes es D :: "('k, 'v) entry list"
  assumes p: "p \<le> r" "Suc r < length es" and len: "length D = length es"
    and D: "\<And>j. j < length es \<Longrightarrow> D ! j = (if j = r then entry_empty c else if p \<le> j \<and> j < r then es ! Suc j else es ! j)"
  shows "e \<in> set D \<and> \<not> entry_is_empty e \<longleftrightarrow> (\<exists>j < length es. j \<noteq> p \<and> es ! j = e) \<and> \<not> entry_is_empty e"
proof (intro iffI conjI; elim conjE)
  assume "e \<in> set D" and ne: "\<not> entry_is_empty e"
  then obtain j where j: "j < length es" "D ! j = e" using len by (auto simp: in_set_conv_nth)
  then have "j \<noteq> r" using D [of r] p(2) ne by (auto simp: entry_is_empty_def entry_empty_def)
  then show "\<exists>j < length es. j \<noteq> p \<and> es ! j = e"
    using j D [OF j(1)] p by (cases "p \<le> j \<and> j < r") (auto intro: exI [of _ "Suc j"] exI [of _ j])
next
  assume "\<exists>j < length es. j \<noteq> p \<and> es ! j = e"
  then obtain j where j: "j < length es" "j \<noteq> p" "es ! j = e" by blast
  define k where "k = (if p < j \<and> j \<le> r then j - 1 else j)"
  have k: "k < length es" "k \<noteq> r" using j p by (auto simp: k_def)
  then have "D ! k = e" using D [OF k(1)] j by (auto simp: k_def)
  then show "e \<in> set D" using k len by (metis nth_mem)
qed

text \<open>The empty entry that stops the search stands behind an entry that was found.\<close>

lemma first_at_before_empty:
  assumes ok: "table_ok c shift es" and p: "first_at es h (slot_of shift h) p" and ne: "\<not> entry_is_empty (es ! p)"
    and q: "q < length es" "slot_of shift h \<le> q" "entry_is_empty (es ! q)"
  shows "p < q"
proof -
  have "\<not> q < p" using first_atD(4) [OF p q(2)] q(3) by (metis entry_is_empty_def le_EMPTY_HASH not_le)
  moreover have "q \<noteq> p" using ne q(3) by auto
  ultimately show ?thesis by simp
qed

lemma delete_ok:
  assumes m: "map_ok c K m" and key: "key \<in> K" and room: "room_for (hm_shift m) (hm_entries m) (ctx_hash c key)"
  shows "\<exists>m'. delete c m key = Some (map_of_table m key, m') \<and> map_ok c K m' \<and> hm_shift m' = hm_shift m
    \<and> length (hm_entries m') = length (hm_entries m) \<and> map_of_table m' = (map_of_table m)(key := None)
    \<and> hm_len m' = (if map_of_table m key = None then hm_len m else hm_len m - 1)"
proof -
  let ?es = "hm_entries m" and ?h = "ctx_hash c key" and ?s = "hm_shift m"
  have K: "keys_ok c K" "stored ?es \<subseteq> K" and ok: "table_ok c ?s ?es" using m by (simp_all add: map_ok_def)
  obtain p where p: "first_at ?es ?h (slot_of ?s ?h) p" using room_first [OF room] by blast
  note l = first_at_lookup [OF ok K key p, folded map_of_table_def]
  show ?thesis
  proof (cases "e_key (?es ! p) = key")
    case False
    then have "delete c m key = Some (None, m)"
      by (simp add: delete_def Let_def delete_find_first [OF p] keys_okD(1) [OF K(1)])
    moreover have "map_of_table m key = None" using l False by simp
    ultimately show ?thesis using m by auto
  next
    case True
    then have ne: "\<not> entry_is_empty (?es ! p)" by (rule first_at_key(2) [OF ok K key p])
    obtain q where q: "q < length ?es" "slot_of ?s ?h \<le> q" "entry_is_empty (?es ! q)" using room by (auto simp: room_for_def)
    note pq = first_at_before_empty [OF ok p ne q]
    obtain r es' where r: "backshift_loop ?s p ?es = Some (r, es')" "p \<le> r" "r < q" "length es' = length ?es"
      "\<And>k. p \<le> k \<Longrightarrow> k < r \<Longrightarrow> \<not> entry_is_empty (?es ! Suc k) \<and> slot_of ?s (e_hash (?es ! Suc k)) \<le> k"
      "r < slot_of ?s (e_hash (?es ! Suc r)) \<or> entry_is_empty (?es ! Suc r)"
      "\<And>j. j < length ?es \<Longrightarrow> es' ! j = (if p \<le> j \<and> j < r then ?es ! Suc j else ?es ! j)"
      using backshift_loop_spec [OF q(1) pq q(3), of ?s] by blast
    define D where "D = es'[r := entry_empty c]"
    have D: "length D = length ?es" "Suc r < length ?es"
      "\<And>j. j < length ?es \<Longrightarrow> D ! j = (if j = r then entry_empty c else if p \<le> j \<and> j < r then ?es ! Suc j else ?es ! j)"
      using r(3,4,7) q(1) by (auto simp: D_def)
    have ok': "table_ok c ?s D" using remove_shift_ok [OF ok r(2) D(2) r(5,6) D(1,3)] .
    note entries = remove_shift_entries [OF r(2) D(2,1,3)]
    have unique: "j = p" if "j < length ?es" "\<not> entry_is_empty (?es ! j)" "e_key (?es ! j) = key" for j
    proof -
      have "e_hash (?es ! j) = e_hash (?es ! p)"
        using table_okD(3) [OF ok that(1,2)] table_okD(3) [OF ok first_atD(2) [OF p] ne] that True by simp
      then show ?thesis
        using table_okD(1) [OF ok that(1) that(2) ne] table_okD(1) [OF ok first_atD(2) [OF p] ne that(2)]
        by (cases j p rule: linorder_cases) auto
    qed
    have st: "k \<in> stored D \<longleftrightarrow> k \<in> stored ?es \<and> k \<noteq> key" for k
    proof -
      have "k \<in> stored D \<longleftrightarrow> (\<exists>e. (e \<in> set D \<and> \<not> entry_is_empty e) \<and> e_key e = k)" by (auto simp: stored_def)
      also have "\<dots> \<longleftrightarrow> (\<exists>j < length ?es. j \<noteq> p \<and> \<not> entry_is_empty (?es ! j) \<and> e_key (?es ! j) = k)"
      proof
        assume "\<exists>e. (e \<in> set D \<and> \<not> entry_is_empty e) \<and> e_key e = k"
        then show "\<exists>j < length ?es. j \<noteq> p \<and> \<not> entry_is_empty (?es ! j) \<and> e_key (?es ! j) = k" using entries by metis
      next
        assume "\<exists>j < length ?es. j \<noteq> p \<and> \<not> entry_is_empty (?es ! j) \<and> e_key (?es ! j) = k"
        then show "\<exists>e. (e \<in> set D \<and> \<not> entry_is_empty e) \<and> e_key e = k" using entries by metis
      qed
      also have "\<dots> \<longleftrightarrow> k \<in> stored ?es \<and> k \<noteq> key" using unique True by (auto simp: in_stored)
      finally show ?thesis .
    qed
    then have K': "stored D \<subseteq> K" using K(2) by auto
    have "entries_map D k = (if k = key then None else entries_map ?es k)" for k
    proof (cases "k = key")
      case True
      then show ?thesis using st [of k] entries_map_None [of D k] by simp
    next
      case False
      have "entries_map D k = entries_map ?es k"
      proof (rule entries_map_eqI [OF ok ok' K K'])
        fix e assume e: "e \<in> set ?es" "\<not> entry_is_empty e" "e_key e = k"
        then obtain j where "j < length ?es" "?es ! j = e" by (auto simp: in_set_conv_nth)
        then have "e \<in> set D" using entries [of e] e False True by auto
        then show "\<exists>e' \<in> set D. \<not> entry_is_empty e' \<and> e_key e' = k \<and> e_value e' = e_value e" using e by blast
      qed (use st [of k] in auto)
      then show ?thesis using False by simp
    qed
    then have "entries_map D = (entries_map ?es)(key := None)" by auto
    moreover have "delete c m key = Some (Some (e_value (?es ! p)), m\<lparr>hm_entries := D, hm_len := hm_len m - 1\<rparr>)"
      using True by (simp add: delete_def Let_def delete_find_first [OF p] keys_okD(1) [OF K(1)] r(1) D_def)
    ultimately show ?thesis
      using l True ok' K(1) K' D(1) by (simp add: map_ok_def map_of_table_def)
  qed
qed

section \<open>Growing\<close>

text \<open>Where the loop has got to after \<open>k\<close> entries, and where it puts entry \<open>k\<close>.\<close>

definition wanted :: "nat \<Rightarrow> ('k, 'v) entry \<Rightarrow> nat" where
  "wanted s e = (if entry_is_empty e then 0 else slot_of s (e_hash e))"

fun grow_dst :: "nat \<Rightarrow> ('k, 'v) entry list \<Rightarrow> nat \<Rightarrow> nat" where
  "grow_dst s es 0 = 0"
| "grow_dst s es (Suc k) = max (grow_dst s es k) (wanted s (es ! k)) + 1"

definition grow_pos :: "nat \<Rightarrow> ('k, 'v) entry list \<Rightarrow> nat \<Rightarrow> nat" where
  "grow_pos s es k = max (grow_dst s es k) (wanted s (es ! k))"

lemma grow_dst_Suc: "grow_dst s es (Suc k) = grow_pos s es k + 1"
  by (simp add: grow_pos_def)

lemma grow_pos_Suc: "grow_pos s es k < grow_pos s es (Suc k)"
  unfolding grow_pos_def [of _ _ "Suc k"] grow_dst_Suc by (simp add: less_max_iff_disj)

lemma grow_pos_mono: "j < k \<Longrightarrow> grow_pos s es j < grow_pos s es k"
  using lift_Suc_mono_less [of "grow_pos s es"] grow_pos_Suc by blast

lemma grow_pos_inject [simp]: "grow_pos s es j = grow_pos s es k \<longleftrightarrow> j = k"
  using grow_pos_mono [of j k s es] grow_pos_mono [of k j s es] by (cases j k rule: linorder_cases) auto

declare grow_dst.simps(2) [simp del]

lemma grow_loop_done: "\<not> src < end \<Longrightarrow> grow_loop s end src dst es ms = Some ms"
  by (simp add: grow_loop.simps [of s "end" src dst es ms])

lemma grow_loop_step:
  assumes "src < end" and "end \<le> length es" and "grow_pos s es src < length ms"
  shows "grow_loop s end src (grow_dst s es src) es ms =
    grow_loop s end (src + 1) (grow_pos s es src + 1) es (ms[grow_pos s es src := es ! src])"
proof -
  have w: "(if \<not> entry_is_empty (es ! src) then slot_of s (e_hash (es ! src)) else 0) = wanted s (es ! src)"
    by (simp add: wanted_def)
  have d: "(if grow_dst s es src \<le> wanted s (es ! src) then wanted s (es ! src) else grow_dst s es src) = grow_pos s es src"
    by (simp add: grow_pos_def max_def)
  show ?thesis
    unfolding grow_loop.simps [of s "end" src "grow_dst s es src" es ms] Let_def w d using assms by simp
qed

lemma grow_loop_spec:
  assumes "src \<le> end" and "end \<le> length es" and "\<And>k. src \<le> k \<Longrightarrow> k < end \<Longrightarrow> grow_pos s es k < length ms"
  shows "\<exists>ms'. grow_loop s end src (grow_dst s es src) es ms = Some ms' \<and> length ms' = length ms
    \<and> (\<forall>k. src \<le> k \<and> k < end \<longrightarrow> ms' ! grow_pos s es k = es ! k)
    \<and> (\<forall>x < length ms. (\<forall>k. src \<le> k \<and> k < end \<longrightarrow> grow_pos s es k \<noteq> x) \<longrightarrow> ms' ! x = ms ! x)"
  using assms
proof (induction "end - src" arbitrary: src ms)
  case 0
  then show ?case by (auto simp: grow_loop_done)
next
  case (Suc n)
  then have src: "src < end" "n = end - Suc src" by simp_all
  let ?p = "grow_pos s es src" and ?ms = "ms[grow_pos s es src := es ! src]"
  have p: "?p < length ms" using Suc.prems(3) src by simp
  have step: "grow_loop s end src (grow_dst s es src) es ms = grow_loop s end (Suc src) (grow_dst s es (Suc src)) es ?ms"
    using grow_loop_step [OF src(1) Suc.prems(2) p] by (simp add: grow_dst_Suc)
  obtain ms' where ms': "grow_loop s end (Suc src) (grow_dst s es (Suc src)) es ?ms = Some ms'" "length ms' = length ms"
    "\<And>k. Suc src \<le> k \<Longrightarrow> k < end \<Longrightarrow> ms' ! grow_pos s es k = es ! k"
    "\<And>x. x < length ms \<Longrightarrow> (\<And>k. Suc src \<le> k \<Longrightarrow> k < end \<Longrightarrow> grow_pos s es k \<noteq> x) \<Longrightarrow> ms' ! x = ?ms ! x"
    using Suc.hyps(1) [OF src(2), of ?ms] src Suc.prems by auto
  have "ms' ! ?p = es ! src" using ms'(4) [OF p] p by auto
  then have "ms' ! grow_pos s es k = es ! k" if "src \<le> k" "k < end" for k
    using that ms'(3) [of k] by (cases "k = src") auto
  moreover have "ms' ! x = ms ! x" if "x < length ms" "\<And>k. src \<le> k \<Longrightarrow> k < end \<Longrightarrow> grow_pos s es k \<noteq> x" for x
    using ms'(4) [OF that(1)] that(2) [of src] that(2) src by auto
  ultimately show ?case unfolding step using ms'(1,2) by blast
qed

text \<open>The slots in a table of twice the capacity.\<close>

lemma slot_double:
  assumes "0 < s" and "s < 64"
  shows "2 * slot_of s h \<le> slot_of (s - 1) h" and "slot_of (s - 1) h \<le> 2 * slot_of s h + 1"
proof -
  obtain k where k: "s = Suc k" using assms(1) by (cases s) auto
  have "s mod 64 = Suc k" "(s - 1) mod 64 = k" using assms k by simp_all
  then have "slot_of s h = unat h div 2 ^ k div 2" "slot_of (s - 1) h = unat h div 2 ^ k"
    by (simp_all only: slot_of_div power_Suc2 div_mult2_eq)
  then show "2 * slot_of s h \<le> slot_of (s - 1) h" "slot_of (s - 1) h \<le> 2 * slot_of s h + 1" by simp_all
qed

lemma slot_less_capacity:
  assumes "0 < s" and "s < 64"
  shows "slot_of s h < capacity_of s"
proof -
  have "unat h < 2 ^ (64 - s) * 2 ^ s" using unsigned_less [of h] assms by (simp flip: power_add)
  then show ?thesis using assms by (simp add: slot_of_div capacity_of_def less_mult_imp_div_less)
qed

lemma wanted_le:
  assumes "table_ok c s es" and "1 < s" "s < 64" and "k < length es"
  shows "wanted (s - 1) (es ! k) \<le> 2 * k + 1" and "wanted (s - 1) (es ! k) < 2 * capacity_of s"
  using slot_double [of s "e_hash (es ! k)"] table_okD(2) [OF assms(1,4)] slot_less_capacity [of s "e_hash (es ! k)"] assms(2,3)
  by (auto simp: wanted_def capacity_of_def)

lemma grow_pos_le:
  assumes "table_ok c s es" and "1 < s" "s < 64" and "k < length es"
  shows "grow_pos (s - 1) es k \<le> 2 * k + 1 \<and> grow_pos (s - 1) es k \<le> capacity_of s + k"
  using assms(4)
proof (induction k)
  case 0
  have "0 < capacity_of s" by (simp add: capacity_of_def)
  then show ?case using wanted_le [OF assms(1-3) 0] by (simp add: grow_pos_def)
next
  case (Suc k)
  have "w \<le> 2 * a + 1 \<Longrightarrow> w < 2 * b \<Longrightarrow> w \<le> b + a" for w a b :: nat by presburger
  from this [OF wanted_le [OF assms(1-3) Suc.prems]]
  have "wanted (s - 1) (es ! Suc k) \<le> capacity_of s + Suc k" .
  then show ?case
    using Suc wanted_le(1) [OF assms(1-3) Suc.prems] unfolding grow_pos_def [of _ _ "Suc k"] grow_dst_Suc by simp
qed

text \<open>Between the slot of an entry and its place in the new table there are entries.\<close>

lemma grow_no_gap:
  assumes ok: "table_ok c s es" and s: "1 < s" "s < 64" and k: "k < length es" "\<not> entry_is_empty (es ! k)"
    and y: "slot_of (s - 1) (e_hash (es ! k)) \<le> y" "y < grow_pos (s - 1) es k"
  shows "\<exists>j < k. y = grow_pos (s - 1) es j \<and> \<not> entry_is_empty (es ! j)"
  using k y
proof (induction k)
  case 0
  then show ?case by (simp add: grow_pos_def wanted_def)
next
  case (Suc k)
  let ?w = "slot_of (s - 1) (e_hash (es ! Suc k))"
  have w: "wanted (s - 1) (es ! Suc k) = ?w" using Suc.prems(2) by (simp add: wanted_def)
  have gp: "grow_pos (s - 1) es (Suc k) = Suc (grow_pos (s - 1) es k)" "?w \<le> grow_pos (s - 1) es k"
    using Suc.prems(3,4) unfolding grow_pos_def [of _ _ "Suc k"] grow_dst_Suc w by simp_all
  have ne: "\<not> entry_is_empty (es ! k)"
  proof
    assume e: "entry_is_empty (es ! k)"
    then have "slot_of s (e_hash (es ! Suc k)) = Suc k"
      using table_okD(2) [OF ok Suc.prems(1,2)] table_okD(4) [OF ok Suc.prems(1,2), of k] by (cases "slot_of s (e_hash (es ! Suc k)) \<le> k") auto
    then have "2 * Suc k \<le> ?w" using slot_double(1) [of s "e_hash (es ! Suc k)"] s by simp
    then show False using grow_pos_le [OF ok s, of k] gp(2) Suc.prems(1) by simp
  qed
  show ?case
  proof (cases "y = grow_pos (s - 1) es k")
    case True
    then show ?thesis using ne by blast
  next
    case False
    have "e_hash (es ! k) < e_hash (es ! Suc k)" using table_okD(1) [OF ok Suc.prems(1,2) ne] by simp
    then have "slot_of (s - 1) (e_hash (es ! k)) \<le> ?w" by (intro slot_mono) simp
    then have "\<exists>j < k. y = grow_pos (s - 1) es j \<and> \<not> entry_is_empty (es ! j)"
      using Suc.IH ne Suc.prems False gp(1) by simp
    then show ?thesis using less_Suc_eq by blast
  qed
qed

text \<open>The table has the size that its shift says.\<close>

definition sized :: "('k, 'v) hash_map \<Rightarrow> bool" where
  "sized m \<longleftrightarrow> 0 < hm_shift m \<and> hm_shift m < 64
     \<and> length (hm_entries m) = capacity_of (hm_shift m) + compute_overflow (capacity_of (hm_shift m)) (hm_shift m)"

lemma capacity_double: "1 < s \<Longrightarrow> s < 64 \<Longrightarrow> capacity_of s * 2 = capacity_of (s - 1)"
proof -
  assume "1 < s" "s < 64"
  then have "64 - s < 63" "64 - (s - 1) = Suc (64 - s)" by simp_all
  then show ?thesis by (simp add: capacity_of_def)
qed

lemma init_capacity_fields:
  assumes "0 < s" and "s < 64"
  shows "hm_shift (init_capacity c (capacity_of s)) = s"
    "hm_entries (init_capacity c (capacity_of s)) = replicate (capacity_of s + compute_overflow (capacity_of s) s) (entry_empty c)"
    "hm_len (init_capacity c (capacity_of s)) = 0"
  using assms compute_shift_power [of "64 - s"] by (simp_all add: init_capacity_def Let_def capacity_of_def)

lemma grow_ok:
  assumes m: "map_ok c K m" "sized m" and s: "1 < hm_shift m"
  shows "\<exists>m'. grow c m = Some m' \<and> map_ok c K m' \<and> sized m' \<and> hm_shift m' = hm_shift m - 1
    \<and> map_of_table m' = map_of_table m \<and> hm_len m' = hm_len m"
proof -
  let ?s = "hm_shift m" and ?es = "hm_entries m"
  have K: "keys_ok c K" "stored ?es \<subseteq> K" and ok: "table_ok c ?s ?es" using m by (simp_all add: map_ok_def)
  have s64: "?s < 64" using m(2) by (simp add: sized_def)
  let ?n = "capacity_of ?s + compute_overflow (capacity_of ?s) ?s"
  have len: "length ?es = ?n" using m(2) by (simp add: sized_def)
  have map: "init_capacity c (capacity_of ?s * 2) = init_capacity c (capacity_of (?s - 1))"
    using capacity_double [OF s s64] by simp
  have "0 < ?s - 1" "?s - 1 < 64" using s s64 by simp_all
  note init = init_capacity_fields [OF this, of c]
  let ?n' = "capacity_of (?s - 1) + compute_overflow (capacity_of (?s - 1)) (?s - 1)"
  let ?ms = "replicate ?n' (entry_empty c)"
  have wide: "capacity_of ?s + ?n \<le> ?n'"
    using capacity_double [OF s s64] s by (simp add: compute_overflow_def)
  have pos: "grow_pos (?s - 1) ?es k < length ?ms" if "k < ?n" for k
    using grow_pos_le [OF ok s s64, of k] that len wide by simp
  obtain R where R: "grow_loop (?s - 1) ?n 0 (grow_dst (?s - 1) ?es 0) ?es ?ms = Some R" "length R = ?n'"
    "\<And>k. k < ?n \<Longrightarrow> R ! grow_pos (?s - 1) ?es k = ?es ! k"
    "\<And>x. x < ?n' \<Longrightarrow> (\<And>k. k < ?n \<Longrightarrow> grow_pos (?s - 1) ?es k \<noteq> x) \<Longrightarrow> R ! x = entry_empty c"
    using grow_loop_spec [of 0 ?n ?es "?s - 1" ?ms] len pos by auto
  have e: "entry_is_empty (entry_empty c)" by (simp add: entry_is_empty_def entry_empty_def)
  have at: "\<exists>k < ?n. x = grow_pos (?s - 1) ?es k \<and> \<not> entry_is_empty (?es ! k)" if "x < ?n'" "\<not> entry_is_empty (R ! x)" for x
    using R(3) R(4) [OF that(1)] that(2) e by metis
  have ok': "table_ok c (?s - 1) R" unfolding table_ok_def R(2)
  proof (intro conjI allI impI)
    fix i j assume a: "i < j \<and> j < ?n' \<and> \<not> entry_is_empty (R ! i) \<and> \<not> entry_is_empty (R ! j)"
    then have "i < ?n'" by simp
    with a at obtain k l where k: "k < ?n" "i = grow_pos (?s - 1) ?es k" "\<not> entry_is_empty (?es ! k)"
      and l: "l < ?n" "j = grow_pos (?s - 1) ?es l" "\<not> entry_is_empty (?es ! l)" by metis
    have "k < l"
      using a k(2) l(2) grow_pos_mono [of l k "?s - 1" ?es] by (cases k l rule: linorder_cases) auto
    from table_okD(1) [OF ok _ l(3) k(3) this] l(1) len
    show "e_hash (R ! i) < e_hash (R ! j)" using R(3) k l by simp
  next
    fix j assume j: "j < ?n'" "\<not> entry_is_empty (R ! j)"
    then obtain k where k: "k < ?n" "j = grow_pos (?s - 1) ?es k" "\<not> entry_is_empty (?es ! k)" using at by blast
    show "slot_of (?s - 1) (e_hash (R ! j)) \<le> j"
      using R(3) [OF k(1)] k(2,3) by (simp add: grow_pos_def wanted_def)
    show "e_hash (R ! j) = ctx_hash c (e_key (R ! j))"
      using R(3) [OF k(1)] k table_okD(3) [OF ok _ k(3)] len by simp
  next
    fix j y assume a: "j < ?n' \<and> \<not> entry_is_empty (R ! j) \<and> slot_of (?s - 1) (e_hash (R ! j)) \<le> y \<and> y < j"
    then obtain k where k: "k < ?n" "j = grow_pos (?s - 1) ?es k" "\<not> entry_is_empty (?es ! k)" using at by blast
    have "\<exists>i < k. y = grow_pos (?s - 1) ?es i \<and> \<not> entry_is_empty (?es ! i)"
      using a k R(3) [OF k(1)] len by (intro grow_no_gap [OF ok s s64]) simp_all
    then show "\<not> entry_is_empty (R ! y)" using R(3) k(1) by auto
  next
    fix j assume j: "j < ?n'" "entry_is_empty (R ! j)"
    show "e_key (R ! j) = key_default c"
    proof (cases "\<exists>k < ?n. grow_pos (?s - 1) ?es k = j")
      case True
      then obtain k where "k < ?n" "grow_pos (?s - 1) ?es k = j" by blast
      then show ?thesis using R(3) [of k] j table_okD(5) [OF ok, of k] len by simp
    next
      case False
      then have "R ! j = entry_empty c" using R(4) [OF j(1)] by blast
      then show ?thesis by (simp add: entry_empty_def)
    qed
  qed
  have same: "x \<in> set R \<and> \<not> entry_is_empty x \<longleftrightarrow> x \<in> set ?es \<and> \<not> entry_is_empty x" for x
  proof (intro iffI conjI; elim conjE)
    assume "x \<in> set R" "\<not> entry_is_empty x"
    then obtain i where "i < ?n'" "R ! i = x" "\<not> entry_is_empty (R ! i)" using R(2) by (auto simp: in_set_conv_nth)
    then obtain k where "k < ?n" "i = grow_pos (?s - 1) ?es k" using at by blast
    then show "x \<in> set ?es" using R(3) [of k] \<open>R ! i = x\<close> len by (metis nth_mem)
  next
    assume "x \<in> set ?es"
    then obtain k where "k < ?n" "?es ! k = x" using len by (auto simp: in_set_conv_nth)
    then show "x \<in> set R" using R(2,3) pos [of k] by (metis length_replicate nth_mem)
  qed
  have st: "stored R = stored ?es" using same unfolding stored_def by blast
  then have K': "stored R \<subseteq> K" using K(2) by simp
  have "entries_map R k = entries_map ?es k" for k
    by (rule entries_map_eqI [OF ok ok' K K']) (use same st in auto)
  then have em: "entries_map R = entries_map ?es" by auto
  have "(2 :: nat) ^ ((64 - (?s - 1)) mod 64) < 2 ^ 64" by (rule power_strict_increasing) (use s in simp_all)
  moreover have "capacity_of ?s * 2 = 2 ^ ((64 - (?s - 1)) mod 64)"
    using capacity_double [OF s s64] unfolding capacity_of_def [of "?s - 1"] .
  ultimately have "\<not> 2 ^ 64 \<le> capacity_of ?s * 2" by (simp only: not_le)
  then have "grow c m = Some (m\<lparr>hm_entries := R, hm_shift := ?s - 1\<rparr>)"
    using R(1) unfolding grow_def Let_def map init by simp
  moreover have "sized (m\<lparr>hm_entries := R, hm_shift := ?s - 1\<rparr>)" using R(2) s s64 by (simp add: sized_def)
  ultimately show ?thesis using ok' K(1) K' em by (simp add: map_ok_def map_of_table_def)
qed

lemma ensure_total_capacity_ok:
  assumes "map_ok c K m" and "sized m" and "8 \<le> hm_shift m" and "max_load \<le> 100" and "count \<le> 2 ^ 56 * max_load div 100"
  shows "\<exists>m'. HashMap_ensure_total_capacity c max_load m count = Some m' \<and> map_ok c K m' \<and> sized m'
    \<and> hm_shift m' \<le> hm_shift m \<and> 8 \<le> hm_shift m' \<and> map_of_table m' = map_of_table m \<and> hm_len m' = hm_len m
    \<and> count \<le> capacity_of (hm_shift m') * max_load div 100"
  using assms(1-3)
proof (induction "hm_shift m" arbitrary: m rule: less_induct)
  case less
  have s: "8 \<le> hm_shift m" "hm_shift m < 64" using less.prems by (simp_all add: sized_def)
  have "capacity_of (hm_shift m) \<le> 2 ^ 56" unfolding capacity_of_def using s by (intro power_increasing) simp_all
  then have "capacity_of (hm_shift m) * max_load \<le> 2 ^ 56 * 100" using assms(4) by (intro mult_le_mono)
  then have w: "capacity_of (hm_shift m) * max_load mod 2 ^ 64 = capacity_of (hm_shift m) * max_load" by simp
  show ?case
  proof (cases "count \<le> capacity_of (hm_shift m) * max_load div 100")
    case True
    then show ?thesis using less.prems w by (simp add: HashMap_ensure_total_capacity.simps [of c max_load m count] Let_def)
  next
    case False
    have "hm_shift m \<noteq> 8"
    proof
      assume "hm_shift m = 8"
      then have "capacity_of (hm_shift m) = 2 ^ 56" by (simp add: capacity_of_def)
      then show False using False assms(5) by simp
    qed
    then have s': "8 < hm_shift m" using s by simp
    obtain m1 where m1: "grow c m = Some m1" "map_ok c K m1" "sized m1" "hm_shift m1 = hm_shift m - 1"
      "map_of_table m1 = map_of_table m" "hm_len m1 = hm_len m"
      using grow_ok [OF less.prems(1,2)] s' by auto
    have "HashMap_ensure_total_capacity c max_load m count = HashMap_ensure_total_capacity c max_load m1 count"
      using False w m1(1) by (simp add: HashMap_ensure_total_capacity.simps [of c max_load m count] Let_def)
    moreover have "hm_shift m1 < hm_shift m" "8 \<le> hm_shift m1" using m1(4) s' by simp_all
    from less.hyps [OF this(1) m1(2,3) this(2)]
    obtain m' where "HashMap_ensure_total_capacity c max_load m1 count = Some m'" "map_ok c K m'" "sized m'"
      "hm_shift m' \<le> hm_shift m1" "8 \<le> hm_shift m'" "map_of_table m' = map_of_table m1" "hm_len m' = hm_len m1"
      "count \<le> capacity_of (hm_shift m') * max_load div 100"
      by blast
    ultimately show ?thesis using m1(4-6) by simp
  qed
qed

text \<open>As many entries as the overflow holds always leave room, whatever their hashes are.\<close>

lemma room_by_count:
  assumes "sized m" and ok: "table_ok c (hm_shift m) (hm_entries m)"
    and card: "card (stored (hm_entries m)) \<le> compute_overflow (capacity_of (hm_shift m)) (hm_shift m)"
  shows "room_for (hm_shift m) (hm_entries m) h"
proof (rule ccontr)
  let ?es = "hm_entries m" and ?cap = "capacity_of (hm_shift m)"
  assume no: "\<not> room_for (hm_shift m) ?es h"
  have s: "0 < hm_shift m" "hm_shift m < 64" using assms(1) by (simp_all add: sized_def)
  have full: "\<not> entry_is_empty (?es ! q)" if "?cap - 1 \<le> q" "q < length ?es" for q
    using no that slot_less_capacity [OF s, of h] by (auto simp: room_for_def)
  let ?Q = "{?cap - 1..<length ?es}"
  have "inj_on (\<lambda>q. e_key (?es ! q)) ?Q"
  proof (rule inj_onI)
    fix x y assume a: "x \<in> ?Q" "y \<in> ?Q" "e_key (?es ! x) = e_key (?es ! y)"
    then have ne: "\<not> entry_is_empty (?es ! x)" "\<not> entry_is_empty (?es ! y)" and l: "x < length ?es" "y < length ?es"
      using full by auto
    have "e_hash (?es ! x) = e_hash (?es ! y)"
      using table_okD(3) [OF ok l(1) ne(1)] table_okD(3) [OF ok l(2) ne(2)] a(3) by simp
    then show "x = y"
      using table_okD(1) [OF ok l(1) ne] table_okD(1) [OF ok l(2) ne(2,1)] by (cases x y rule: linorder_cases) auto
  qed
  then have "card ?Q = card ((\<lambda>q. e_key (?es ! q)) ` ?Q)" by (simp add: card_image)
  also have "\<dots> \<le> card (stored ?es)"
  proof (rule card_mono)
    have "stored ?es \<subseteq> e_key ` set ?es" by (auto simp: stored_def)
    then show "finite (stored ?es)" by (rule finite_subset) simp
    show "(\<lambda>q. e_key (?es ! q)) ` ?Q \<subseteq> stored ?es" using full by (auto intro: storedI)
  qed
  finally have "length ?es - (?cap - 1) \<le> compute_overflow ?cap (hm_shift m)" using card by simp
  moreover have "length ?es = ?cap + compute_overflow ?cap (hm_shift m)" "0 < ?cap"
    using assms(1) by (simp_all add: sized_def capacity_of_def)
  ultimately show False by simp
qed

lemma init_ok:
  assumes "0 < s" and "s < 64" and "keys_ok c K"
  shows "map_ok c K (init_capacity c (capacity_of s))" "sized (init_capacity c (capacity_of s))"
    "map_of_table (init_capacity c (capacity_of s)) = (\<lambda>k. None)"
    "stored (hm_entries (init_capacity c (capacity_of s))) = {}"
proof -
  note f = init_capacity_fields [OF assms(1,2), of c]
  have e: "entry_is_empty (entry_empty c)" "e_key (entry_empty c) = key_default c"
    by (simp_all add: entry_is_empty_def entry_empty_def)
  show st: "stored (hm_entries (init_capacity c (capacity_of s))) = {}" unfolding f stored_def using e by auto
  show "map_ok c K (init_capacity c (capacity_of s))"
    using assms(3) st e unfolding map_ok_def f by (auto simp: table_ok_def)
  show "sized (init_capacity c (capacity_of s))" using assms by (simp add: sized_def f)
  show "map_of_table (init_capacity c (capacity_of s)) = (\<lambda>k. None)"
    using st entries_map_None unfolding map_of_table_def by (metis empty_iff)
qed

section \<open>Properties\<close>

text \<open>
  C14. For keys whose hashes differ, that do not hash to the mark of an empty entry and are not the default
  key, the Robin Hood table is a map, as long as an empty slot is left for the key: \<open>get\<close> and \<open>has\<close>
  answer what the map has, \<open>put_assume_capacity\<close> adds a new key and keeps the value of one that is there,
  \<open>delete\<close> answers the value and takes the key out; entries stay in the order of their hashes with no gap
  before their slots.
\<close>

theorem hash_map_refines:
  assumes "map_ok c K m" and "key \<in> K" and "room_for (hm_shift m) (hm_entries m) (ctx_hash c key)"
  shows "get c m key = Some (map_of_table m key) \<and> has c m key = Some (map_of_table m key \<noteq> None)
    \<and> (\<exists>m'. put_assume_capacity c m key v = Some m' \<and> map_ok c K m'
        \<and> map_of_table m' = (case map_of_table m key of None \<Rightarrow> (map_of_table m)(key \<mapsto> v) | Some w \<Rightarrow> map_of_table m))
    \<and> (\<exists>m'. delete c m key = Some (map_of_table m key, m') \<and> map_ok c K m'
        \<and> map_of_table m' = (map_of_table m)(key := None))"
proof (intro conjI)
  show "get c m key = Some (map_of_table m key)" "has c m key = Some (map_of_table m key \<noteq> None)"
    using get_ok [OF assms] by simp_all
  show "\<exists>m'. put_assume_capacity c m key v = Some m' \<and> map_ok c K m'
      \<and> map_of_table m' = (case map_of_table m key of None \<Rightarrow> (map_of_table m)(key \<mapsto> v) | Some w \<Rightarrow> map_of_table m)"
    using put_assume_capacity_ok [OF assms, of v] by blast
  show "\<exists>m'. delete c m key = Some (map_of_table m key, m') \<and> map_ok c K m' \<and> map_of_table m' = (map_of_table m)(key := None)"
    using delete_ok [OF assms] by blast
qed

definition number_context :: "(nat, nat) hash_context" where
  "number_context = \<lparr>ctx_hash = of_nat, ctx_eql = (=), key_default = 0, value_default = 0\<rparr>"

lemma number_keys_ok: "keys_ok number_context {1, 2, 3}"
  by (simp add: keys_ok_def number_context_def EMPTY_HASH_def)

theorem hash_map_refines_witness:
  "\<exists>m'. put_assume_capacity number_context (init_capacity number_context (capacity_of 62)) 3 30 = Some m'
    \<and> map_ok number_context {1, 2, 3} m' \<and> map_of_table m' = [3 \<mapsto> 30]"
proof -
  let ?m = "init_capacity number_context (capacity_of 62)"
  note i = init_ok [of 62, OF _ _ number_keys_ok]
  have ok: "map_ok number_context {1, 2, 3} ?m" "sized ?m" using i by simp_all
  have "room_for (hm_shift ?m) (hm_entries ?m) (ctx_hash number_context 3)"
    by (rule room_by_count [OF ok(2), of number_context]) (use ok(1) i(4) in \<open>simp_all add: map_ok_def\<close>)
  from hash_map_refines [OF ok(1) _ this, of 30] i(3) show ?thesis by auto
qed

text \<open>
  C15. \<open>ensure_total_capacity\<close> returns, for counts within the load factor of \<open>2 ^ 56\<close> slots: it doubles the
  table until the count fits, the loop that moves the sorted entries into the larger table never runs past
  its end, and the map is the same afterwards, in a well-formed table.
\<close>

theorem ensure_total_capacity_keeps_map:
  assumes "map_ok c K m" and "sized m" and "8 \<le> hm_shift m" and "max_load \<le> 100" and "count \<le> 2 ^ 56 * max_load div 100"
  shows "\<exists>m'. HashMap_ensure_total_capacity c max_load m count = Some m' \<and> map_ok c K m' \<and> sized m'
    \<and> map_of_table m' = map_of_table m \<and> count \<le> capacity_of (hm_shift m') * max_load div 100"
  using ensure_total_capacity_ok [OF assms] by blast

theorem ensure_total_capacity_keeps_map_witness:
  "\<exists>m'. HashMap_ensure_total_capacity number_context 50 (init_capacity number_context (capacity_of 60)) 512 = Some m'
    \<and> map_ok number_context {1, 2, 3} m' \<and> sized m' \<and> map_of_table m' = Map.empty
    \<and> 512 \<le> capacity_of (hm_shift m') * 50 div 100"
proof -
  note i = init_ok [of 60, OF _ _ number_keys_ok]
  have s: "hm_shift (init_capacity number_context (capacity_of 60)) = 60" by (simp add: init_capacity_fields)
  have m: "map_ok number_context {1, 2, 3} (init_capacity number_context (capacity_of 60))"
    "sized (init_capacity number_context (capacity_of 60))" using i by simp_all
  from ensure_total_capacity_keeps_map [OF m, of 50 512] i(3) s show ?thesis by simp
qed

text \<open>
  C16. The key of an empty entry is read after all: in a fresh map, \<open>get\<close> of the default key answers the
  default value, \<open>put\<close> of it stores nothing, and \<open>delete\<close> of it makes the length wrap around.
\<close>

theorem default_key_found_in_empty_map:
  assumes "0 < s" and "s < 64" and "ctx_eql c (key_default c) (key_default c)"
  defines "m \<equiv> init_capacity c (capacity_of s)"
  shows "get c m (key_default c) = Some (Some (value_default c))
    \<and> put_assume_capacity c m (key_default c) v = Some m
    \<and> (\<exists>m'. delete c m (key_default c) = Some (Some (value_default c), m') \<and> hm_len m' = - 1)"
proof -
  let ?d = "key_default c" and ?h = "ctx_hash c (key_default c)"
  let ?n = "capacity_of s + compute_overflow (capacity_of s) s"
  note f = init_capacity_fields [OF assms(1,2), of c, folded m_def]
  have slot: "slot_of s ?h + 1 < ?n"
    using slot_less_capacity [OF assms(1,2), of ?h] assms(2) by (simp add: compute_overflow_def)
  have e: "e_key (entry_empty c) = ?d" "e_value (entry_empty c) = value_default c" "entry_is_empty (entry_empty c)"
    by (simp_all add: entry_empty_def entry_is_empty_def)
  have p: "first_at (hm_entries m) ?h (slot_of s ?h) (slot_of s ?h)"
    using slot by (auto simp: first_at_def f entry_empty_def)
  have at: "hm_entries m ! slot_of s ?h = entry_empty c" "hm_entries m ! (slot_of s ?h + 1) = entry_empty c"
    using slot by (simp_all add: f)
  have "get c m ?d = Some (Some (value_default c))"
  proof -
    have "suffix_from (hm_entries m) (slot_of s ?h) = Some (drop (slot_of s ?h) (hm_entries m))"
      using slot by (simp add: suffix_from_def f)
    then show ?thesis using at e assms(3) by (simp add: get_def Let_def f(1) get_loop_first [OF p])
  qed
  moreover have "put_assume_capacity c m ?d v = Some m"
    using slot at e assms(3)
    by (simp add: put_assume_capacity_def get_or_put_assume_capacity_def get_or_put_loop.simps Let_def f entry_empty_def)
  moreover have "\<exists>m'. delete c m ?d = Some (Some (value_default c), m') \<and> hm_len m' = - 1"
  proof -
    have "backshift_loop s (slot_of s ?h) (hm_entries m) = Some (slot_of s ?h, hm_entries m)"
      using slot at(2) e(3) by (simp add: backshift_loop.simps [of s "slot_of s ?h"] f Let_def)
    then show ?thesis using at e assms(3) by (simp add: delete_def Let_def f(1,3) delete_find_first [OF p])
  qed
  ultimately show ?thesis by blast
qed

theorem default_key_found_in_empty_map_witness:
  "get number_context (init_capacity number_context (capacity_of 60)) 0 = Some (Some 0)"
  using default_key_found_in_empty_map [of 60 number_context 5] by (simp add: number_context_def)

end
