(* ===== verification/Base64.thy ===== *)
theory Base64
  imports Bun_Prelude
begin

unbundle bit_operations_syntax

text \<open>
  \<open>src/src/base64/lib.rs\<close>: the scalar base64 codec (module \<open>zig_base64\<close>), the decoder that skips
  ignored characters, and the sizes of the buffers their callers allocate. The vectorised codec the
  crate calls first belongs to another library and is not modelled.

  A destination buffer is a list that is updated in place. A write outside of it is \<open>None\<close>: the encoder
  panics there, the decoder would write past its slice. The accumulators are 16-bit words, as in the
  code. The proofs read an accumulator of \<open>n\<close> pending bits as the bit list \<open>bits n\<close>: encoding and
  decoding regroup one bit string into sixes and eights.
\<close>

section \<open>Codecs\<close>

datatype base64_error = InvalidCharacter | InvalidPadding | NoSpaceLeft

definition STANDARD_ALPHABET_CHARS :: bytes where
  "STANDARD_ALPHABET_CHARS = ''ABCDEFGHIJKLMNOPQRSTUVWXYZabcdefghijklmnopqrstuvwxyz0123456789+/''"

definition URL_SAFE_ALPHABET_CHARS :: bytes where
  "URL_SAFE_ALPHABET_CHARS = ''ABCDEFGHIJKLMNOPQRSTUVWXYZabcdefghijklmnopqrstuvwxyz0123456789-_''"

definition div_ceil :: "nat \<Rightarrow> nat \<Rightarrow> nat" where
  "div_ceil a b = (a + b - 1) div b"

section \<open>Encoding\<close>

record base64_encoder =
  en_alphabet_chars :: bytes
  en_pad_char :: "byte option"

definition Base64Encoder_init :: "bytes \<Rightarrow> byte option \<Rightarrow> base64_encoder" where
  "Base64Encoder_init alphabet_chars pad_char =
     \<lparr>en_alphabet_chars = alphabet_chars, en_pad_char = pad_char\<rparr>"

definition calc_size :: "base64_encoder \<Rightarrow> nat \<Rightarrow> nat" where
  "calc_size e source_len =
     (if en_pad_char e \<noteq> None then div_ceil source_len 3 * 4
      else let leftover = source_len mod 3 in source_len div 3 * 4 + div_ceil (leftover * 4) 3)"

text \<open>The inner loop: all complete groups of six bits.\<close>

function emit_digits :: "bytes \<Rightarrow> 16 word \<Rightarrow> nat \<Rightarrow> bytes \<Rightarrow> nat \<Rightarrow> (nat \<times> bytes \<times> nat) option" where
  "emit_digits alphabet acc acc_len dest out_idx =
     (if 6 \<le> acc_len then
        let acc_len = acc_len - 6 in
        if out_idx < length dest then
          emit_digits alphabet acc acc_len
            (dest[out_idx := alphabet ! unat (drop_bit acc_len acc AND 0x3F)]) (out_idx + 1)
        else None
      else Some (acc_len, dest, out_idx))"
  by pat_completeness auto
termination
  by (relation "measure (\<lambda>(al, acc, acc_len, dest, i). acc_len)") auto

declare emit_digits.simps [simp del]

fun encode_loop ::
  "bytes \<Rightarrow> bytes \<Rightarrow> 16 word \<Rightarrow> nat \<Rightarrow> bytes \<Rightarrow> nat \<Rightarrow> (16 word \<times> nat \<times> bytes \<times> nat) option" where
  "encode_loop alphabet [] acc acc_len dest out_idx = Some (acc, acc_len, dest, out_idx)"
| "encode_loop alphabet (v # source) acc acc_len dest out_idx =
     (let acc = push_bit 8 acc + of_nat (of_char v) in
      case emit_digits alphabet acc (acc_len + 8) dest out_idx of
        None \<Rightarrow> None
      | Some (acc_len, dest, out_idx) \<Rightarrow> encode_loop alphabet source acc acc_len dest out_idx)"

definition encode_without_size_check :: "base64_encoder \<Rightarrow> bytes \<Rightarrow> bytes \<Rightarrow> (bytes \<times> nat) option" where
  "encode_without_size_check e dest source =
     (case encode_loop (en_alphabet_chars e) source 0 0 dest 0 of
        None \<Rightarrow> None
      | Some (acc, acc_len, dest, out_idx) \<Rightarrow>
          (if 0 < acc_len then
             if out_idx < length dest then
               Some (dest[out_idx := en_alphabet_chars e ! unat (push_bit (6 - acc_len) acc AND 0x3F)],
                     out_idx + 1)
             else None
           else Some (dest, out_idx)))"

definition base64_encode :: "base64_encoder \<Rightarrow> bytes \<Rightarrow> bytes \<Rightarrow> bytes option" where
  "base64_encode e dest source =
     (let out_len = calc_size e (length source) in
      case encode_without_size_check e dest source of
        None \<Rightarrow> None
      | Some (dest, out_idx) \<Rightarrow>
          (case en_pad_char e of
             None \<Rightarrow> if out_len \<le> length dest then Some (take out_len dest) else None
           | Some pad_char \<Rightarrow>
               if out_idx \<le> out_len \<and> out_len \<le> length dest then
                 Some (take out_len (copy_at dest out_idx (replicate (out_len - out_idx) pad_char)))
               else None))"

section \<open>Decoding\<close>

definition INVALID_CHAR :: nat where
  "INVALID_CHAR = 0xFF"

record base64_decoder =
  de_char_to_index :: "nat list"
  de_pad_char :: "byte option"

definition Base64Decoder_init :: "bytes \<Rightarrow> byte option \<Rightarrow> base64_decoder" where
  "Base64Decoder_init alphabet_chars pad_char =
     \<lparr>de_char_to_index =
        foldl (\<lambda>table i. table[of_char (alphabet_chars ! i) := i]) (replicate 256 INVALID_CHAR) [0..<64],
      de_pad_char = pad_char\<rparr>"

definition calc_size_upper_bound :: "base64_decoder \<Rightarrow> nat \<Rightarrow> base64_error + nat" where
  "calc_size_upper_bound d source_len =
     (let result = source_len div 4 * 3; leftover = source_len mod 4 in
      if de_pad_char d \<noteq> None then
        if leftover mod 4 \<noteq> 0 then Inl InvalidPadding else Inr result
      else if leftover mod 4 = 1 then Inl InvalidPadding
      else Inr (result + leftover * 3 div 4))"

definition calc_size_for_slice :: "base64_decoder \<Rightarrow> bytes \<Rightarrow> base64_error + nat" where
  "calc_size_for_slice d source =
     (let n = length source in
      case calc_size_upper_bound d n of
        Inl e \<Rightarrow> Inl e
      | Inr result \<Rightarrow>
          (case de_pad_char d of
             None \<Rightarrow> Inr result
           | Some pad \<Rightarrow>
               Inr (result - of_bool (1 \<le> n \<and> source ! (n - 1) = pad)
                           - of_bool (2 \<le> n \<and> source ! (n - 2) = pad))))"

text \<open>
  The loop over the source from index \<open>i\<close>. The result has the accumulator, the number of its pending
  bits, the destination, the number of bytes written and the index of the first padding character.
\<close>

function decode_loop ::
  "base64_decoder \<Rightarrow> bytes \<Rightarrow> nat \<Rightarrow> 16 word \<Rightarrow> nat \<Rightarrow> bytes \<Rightarrow> nat \<Rightarrow>
     (base64_error + 16 word \<times> nat \<times> bytes \<times> nat \<times> nat option) option" where
  "decode_loop d source i acc acc_len dest dest_idx =
     (if i < length source then
        let c = source ! i; x = de_char_to_index d ! of_char c in
        if x = INVALID_CHAR then
          if de_pad_char d \<noteq> Some c then Some (Inl InvalidCharacter)
          else Some (Inr (acc, acc_len, dest, dest_idx, Some i))
        else
          let acc = push_bit 6 acc + of_nat x; acc_len = acc_len + 6 in
          if 8 \<le> acc_len then
            let acc_len = acc_len - 8 in
            if dest_idx < length dest then
              decode_loop d source (i + 1) acc acc_len
                (dest[dest_idx := char_of (unat (drop_bit acc_len acc) mod 256)]) (dest_idx + 1)
            else None
          else decode_loop d source (i + 1) acc acc_len dest dest_idx
      else Some (Inr (acc, acc_len, dest, dest_idx, None)))"
  by pat_completeness auto
termination
  by (relation "measure (\<lambda>(d, source, i, _). length source - i)") auto

declare decode_loop.simps [simp del]

fun count_padding :: "byte \<Rightarrow> bytes \<Rightarrow> base64_error + nat" where
  "count_padding pad [] = Inr 0"
| "count_padding pad (c # cs) =
     (if c \<noteq> pad then Inl (if of_char c = INVALID_CHAR then InvalidCharacter else InvalidPadding)
      else case count_padding pad cs of Inl e \<Rightarrow> Inl e | Inr n \<Rightarrow> Inr (n + 1))"

text \<open>\<open>acc & ((1 << acc_len) - 1)\<close>, the pending bits.\<close>

definition pending_bits :: "16 word \<Rightarrow> nat \<Rightarrow> 16 word" where
  "pending_bits acc acc_len = acc AND (push_bit acc_len 1 - 1)"

definition base64_decode :: "base64_decoder \<Rightarrow> bytes \<Rightarrow> bytes \<Rightarrow> (base64_error + bytes) option" where
  "base64_decode d dest source =
     (if de_pad_char d \<noteq> None \<and> length source mod 4 \<noteq> 0 then Some (Inl InvalidPadding)
      else case decode_loop d source 0 0 0 dest 0 of
        None \<Rightarrow> None
      | Some (Inl e) \<Rightarrow> Some (Inl e)
      | Some (Inr (acc, acc_len, dest, dest_idx, leftover_idx)) \<Rightarrow>
          (if 4 < acc_len \<or> pending_bits acc acc_len \<noteq> 0 then Some (Inl InvalidPadding)
           else case leftover_idx of
             None \<Rightarrow> Some (Inr dest)
           | Some idx \<Rightarrow>
               (case de_pad_char d of
                  None \<Rightarrow> Some (Inr dest)
                | Some pad \<Rightarrow>
                    (case count_padding pad (drop idx source) of
                       Inl e \<Rightarrow> Some (Inl e)
                     | Inr n \<Rightarrow>
                         if n \<noteq> acc_len div 2 then Some (Inl InvalidPadding) else Some (Inr dest)))))"

section \<open>Decoding with ignored characters\<close>

record ignore_decoder =
  ig_decoder :: base64_decoder
  ig_char_is_ignored :: "bool list"

definition Base64DecoderWithIgnore_init :: "bytes \<Rightarrow> byte option \<Rightarrow> bytes \<Rightarrow> ignore_decoder" where
  "Base64DecoderWithIgnore_init alphabet_chars pad_char ignore_chars =
     \<lparr>ig_decoder = Base64Decoder_init alphabet_chars pad_char,
      ig_char_is_ignored = foldl (\<lambda>table c. table[of_char c := True]) (replicate 256 False) ignore_chars\<rparr>"

text \<open>
  The result, the destination and \<open>wrote\<close>, which are up to date on every return. The pending bits and
  the index of the first padding character are only of use after the loop.
\<close>

function ignore_loop ::
  "ignore_decoder \<Rightarrow> bytes \<Rightarrow> nat \<Rightarrow> 16 word \<Rightarrow> nat \<Rightarrow> bytes \<Rightarrow> nat \<Rightarrow>
     (base64_error + 16 word \<times> nat \<times> nat option) \<times> bytes \<times> nat" where
  "ignore_loop g source i acc acc_len dest wrote =
     (if i < length source then
        let c = source ! i; d = ig_decoder g; x = de_char_to_index d ! of_char c in
        if ig_char_is_ignored g ! of_char c then ignore_loop g source (i + 1) acc acc_len dest wrote
        else if x = INVALID_CHAR then
          if de_pad_char d = Some c then (Inr (acc, acc_len, Some i), dest, wrote)
          else if ig_char_is_ignored g ! INVALID_CHAR then
            ignore_loop g source (i + 1) acc acc_len dest wrote
          else (Inl InvalidCharacter, dest, wrote)
        else
          let acc = push_bit 6 acc + of_nat x; acc_len = acc_len + 6 in
          if 8 \<le> acc_len then
            if wrote = length dest then (Inl NoSpaceLeft, dest, wrote)
            else
              let acc_len = acc_len - 8 in
              ignore_loop g source (i + 1) acc acc_len
                (dest[wrote := char_of (unat (drop_bit acc_len acc) mod 256)]) (wrote + 1)
          else ignore_loop g source (i + 1) acc acc_len dest wrote
      else (Inr (acc, acc_len, None), dest, wrote))"
  by pat_completeness auto
termination
  by (relation "measure (\<lambda>(g, source, i, _). length source - i)") auto

declare ignore_loop.simps [simp del]

fun count_padding_ignore :: "ignore_decoder \<Rightarrow> byte \<Rightarrow> bytes \<Rightarrow> base64_error + nat" where
  "count_padding_ignore g pad [] = Inr 0"
| "count_padding_ignore g pad (c # cs) =
     (if ig_char_is_ignored g ! of_char c then count_padding_ignore g pad cs
      else if c \<noteq> pad then Inl (if of_char c = INVALID_CHAR then InvalidCharacter else InvalidPadding)
      else case count_padding_ignore g pad cs of Inl e \<Rightarrow> Inl e | Inr n \<Rightarrow> Inr (n + 1))"

definition decode_ignore :: "ignore_decoder \<Rightarrow> bytes \<Rightarrow> bytes \<Rightarrow> (base64_error + unit) \<times> bytes \<times> nat" where
  "decode_ignore g dest source =
     (case ignore_loop g source 0 0 0 dest 0 of
        (Inl e, dest, wrote) \<Rightarrow> (Inl e, dest, wrote)
      | (Inr (acc, acc_len, leftover_idx), dest, wrote) \<Rightarrow>
          (if 4 < acc_len \<or> pending_bits acc acc_len \<noteq> 0 then Inl InvalidPadding
           else case de_pad_char (ig_decoder g) of
             None \<Rightarrow> Inr ()
           | Some pad \<Rightarrow>
               (case leftover_idx of
                  Some idx \<Rightarrow>
                    (case count_padding_ignore g pad (drop idx source) of
                       Inl e \<Rightarrow> Inl e
                     | Inr n \<Rightarrow> if n \<noteq> acc_len div 2 then Inl InvalidPadding else Inr ())
                | None \<Rightarrow> if 0 < acc_len div 2 then Inl InvalidPadding else Inr ()),
           dest, wrote))"

definition MIXED_DECODER :: ignore_decoder where
  "MIXED_DECODER =
     (let g = Base64DecoderWithIgnore_init STANDARD_ALPHABET_CHARS (Some CHR ''='')
                [CHR 0xFF, CHR '' '', CHR 0x09, CHR 0x0D, CHR 0x0A, CHR 0x0B, CHR 0x0C]
      in g\<lparr>ig_decoder := (ig_decoder g)\<lparr>de_char_to_index :=
           foldl (\<lambda>table i. table[of_char (URL_SAFE_ALPHABET_CHARS ! i) := i])
             (de_char_to_index (ig_decoder g)) [62..<64]\<rparr>\<rparr>)"

section \<open>Buffer sizes\<close>

definition decode_lenient_len :: "nat \<Rightarrow> nat" where
  "decode_lenient_len source_len = div_ceil source_len 4 * 3"

definition STANDARD_decoder :: base64_decoder where
  "STANDARD_decoder = Base64Decoder_init STANDARD_ALPHABET_CHARS (Some CHR ''='')"

definition STANDARD_encoder :: base64_encoder where
  "STANDARD_encoder = Base64Encoder_init STANDARD_ALPHABET_CHARS (Some CHR ''='')"

definition STANDARD_NO_PAD_decoder :: base64_decoder where
  "STANDARD_NO_PAD_decoder = Base64Decoder_init STANDARD_ALPHABET_CHARS None"

definition STANDARD_NO_PAD_encoder :: base64_encoder where
  "STANDARD_NO_PAD_encoder = Base64Encoder_init STANDARD_ALPHABET_CHARS None"

definition decode_len_upper_bound :: "nat \<Rightarrow> nat" where
  "decode_len_upper_bound n =
     (case calc_size_upper_bound STANDARD_decoder n of Inr v \<Rightarrow> v | Inl _ \<Rightarrow> n div 4 * 3)"

definition decode_len :: "bytes \<Rightarrow> nat" where
  "decode_len source =
     (case calc_size_for_slice STANDARD_decoder source of
        Inr v \<Rightarrow> v | Inl _ \<Rightarrow> length source div 4 * 3 + 2)"

definition url_safe_encode_len_from_size :: "nat \<Rightarrow> nat" where
  "url_safe_encode_len_from_size n =
     (let full_chunks = n div 3; leftover = n mod 3 in full_chunks * 4 + div_ceil (leftover * 4) 3)"

section \<open>Bit strings\<close>

text \<open>The lowest \<open>n\<close> bits of a number, the most significant one first.\<close>

fun bits :: "nat \<Rightarrow> nat \<Rightarrow> bool list" where
  "bits 0 v = []"
| "bits (Suc n) v = bits n (v div 2) @ [odd v]"

lemma length_bits [simp]: "length (bits n v) = n"
  by (induction n arbitrary: v) auto

lemma bits_append: "bits (n + m) v = bits n (v div 2 ^ m) @ bits m v"
  by (induction m arbitrary: v) (simp_all add: div_mult2_eq)

lemma bits_mod: "n \<le> m \<Longrightarrow> bits n (v mod 2 ^ m) = bits n v"
proof (induction n arbitrary: v m)
  case (Suc n)
  then obtain k where m: "m = Suc k" "n \<le> k" by (cases m) auto
  have e: "v mod 2 ^ m = 2 * (v div 2 mod 2 ^ k) + v mod 2"
    using mod_mult2_eq [of v 2 "2 ^ k"] by (simp add: m(1))
  then have "v mod 2 ^ m div 2 = v div 2 mod 2 ^ k" by simp
  moreover have "odd (v mod 2 ^ m) = odd v" by (simp add: e)
  ultimately show ?case using Suc.IH [OF m(2)] by simp
qed simp

lemma bits_inj: "bits n v = bits n w \<Longrightarrow> v < 2 ^ n \<Longrightarrow> w < 2 ^ n \<Longrightarrow> v = w"
proof (induction n arbitrary: v w)
  case (Suc n)
  then have "v div 2 = w div 2" by (simp add: less_mult_imp_div_less)
  moreover have "odd v = odd w" using Suc.prems(1) by simp
  ultimately show ?case by (metis bit_eq_rec)
qed simp

lemma bits_zero [simp]: "bits n 0 = replicate n False"
  by (induction n) (simp_all add: replicate_append_same)

lemma bits_shift_add:
  assumes "v < 2 ^ k" and "l + k \<le> 16"
  shows "bits (l + k) (unat (push_bit k acc + of_nat v :: 16 word)) = bits l (unat acc) @ bits k v"
proof -
  have "unat (push_bit k acc) = unat acc * 2 ^ k mod 2 ^ 16"
    using unsigned_push_bit_eq [of k acc, where 'a = nat] by (simp add: push_bit_eq_mult [of k "unat acc"] take_bit_eq_mod)
  then have "unat (push_bit k acc + of_nat v :: 16 word) = (unat acc * 2 ^ k + v) mod 2 ^ 16"
    by (simp add: unat_word_ariths unat_of_nat mod_add_eq)
  moreover have "bits k (unat acc * 2 ^ k + v) = bits k v"
    using bits_mod [of k k "unat acc * 2 ^ k + v"] bits_mod [of k k v] by simp
  ultimately show ?thesis
    using assms bits_mod [of "l + k" 16 "unat acc * 2 ^ k + v"] bits_append [of l k "unat acc * 2 ^ k + v"] by simp
qed

lemma unat_low_six: "unat (w AND 0x3F :: 16 word) = unat w mod 64"
proof -
  have "w AND 0x3F = take_bit 6 w" by (simp add: take_bit_eq_mask mask_eq_exp_minus_1)
  then have "unat (w AND 0x3F) = take_bit 6 (unat w)" by (simp only: unsigned_take_bit_eq)
  then show ?thesis by (simp add: take_bit_eq_mod)
qed

lemma bits_digit: "bits 6 (unat (drop_bit l acc AND 0x3F :: 16 word)) = bits 6 (unat acc div 2 ^ l)"
proof -
  have "unat (drop_bit l acc) = unat acc div 2 ^ l"
    by (simp only: unat_drop_bit_eq drop_bit_eq_div [of l "unat acc"])
  then show ?thesis
    using bits_mod [of 6 6 "unat acc div 2 ^ l"] by (simp add: unat_low_six)
qed

definition bits6 :: "nat list \<Rightarrow> bool list" where
  "bits6 ds = concat (map (bits 6) ds)"

definition bits8 :: "bytes \<Rightarrow> bool list" where
  "bits8 bs = concat (map (\<lambda>b. bits 8 (of_char b)) bs)"

lemma bits6_simps [simp]: "bits6 [] = []" "bits6 (d # ds) = bits 6 d @ bits6 ds" "bits6 (ds @ es) = bits6 ds @ bits6 es"
  by (simp_all add: bits6_def)

lemma bits8_simps [simp]: "bits8 [] = []" "bits8 (b # bs) = bits 8 (of_char b) @ bits8 bs" "bits8 (bs @ cs) = bits8 bs @ bits8 cs"
  by (simp_all add: bits8_def)

lemma length_bits6 [simp]: "length (bits6 ds) = 6 * length ds"
  by (induction ds) auto

lemma length_bits8 [simp]: "length (bits8 bs) = 8 * length bs"
  by (induction bs) auto

lemma bits8_Nil [simp]: "bits8 bs = [] \<longleftrightarrow> bs = []"
  by (simp flip: length_0_conv)

lemma bits8_inj: "bits8 bs = bits8 cs \<Longrightarrow> bs = cs"
proof (induction bs arbitrary: cs)
  case Nil
  then show ?case by (metis bits8_Nil bits8_simps(1))
next
  case (Cons b bs)
  then have "cs \<noteq> []" by (metis bits8_Nil list.distinct(1))
  then obtain c cs' where cs: "cs = c # cs'" by (cases cs) auto
  then have e: "bits 8 (of_char b) = bits 8 (of_char c)" "bits8 bs = bits8 cs'" using Cons.prems by auto
  have "(of_char b :: nat) = of_char c"
    by (rule bits_inj [OF e(1)]) (use char_code_lt [of b] char_code_lt [of c] in simp_all)
  then have "b = c" using char_eq_code [of b c] by blast
  then show ?case using Cons.IH [OF e(2)] cs by simp
qed

text \<open>A bit string that is both bytes followed by less than a byte and bytes followed by less than a byte.\<close>

lemma bits8_split:
  assumes "bits8 bs @ p = bits8 cs @ q" and "length p < 8" and "length q < 8"
  shows "bs = cs \<and> p = q"
proof -
  have "8 * length bs + length p = 8 * length cs + length q"
    using arg_cong [OF assms(1), of length] by simp
  then have "length bs = length cs" using assms(2,3) by linarith
  then have "bits8 bs = bits8 cs \<and> p = q" using assms(1) by simp
  then show ?thesis using bits8_inj by blast
qed

section \<open>The encoder writes the bits in sixes\<close>

lemma take_update_next: "i < length dest \<Longrightarrow> take (i + 1) (dest[i := c]) = take i dest @ [c]"
  by (simp add: take_Suc_conv_app_nth)

lemma emit_digits_spec:
  assumes "out_idx + L div 6 \<le> length dest"
  shows "\<exists>dest' ds. emit_digits alphabet acc L dest out_idx = Some (L mod 6, dest', out_idx + L div 6)
    \<and> length dest' = length dest \<and> take (out_idx + L div 6) dest' = take out_idx dest @ map ((!) alphabet) ds
    \<and> length ds = L div 6 \<and> (\<forall>d\<in>set ds. d < 64) \<and> bits6 ds @ bits (L mod 6) (unat acc) = bits L (unat acc)"
  using assms
proof (induction L arbitrary: dest out_idx rule: less_induct)
  case (less L)
  show ?case
  proof (cases "6 \<le> L")
    case True
    let ?l = "L - 6"
    let ?d = "unat (drop_bit ?l acc AND 0x3F)"
    let ?dest = "dest[out_idx := alphabet ! ?d]"
    have q: "L div 6 = Suc (?l div 6)" "L mod 6 = ?l mod 6"
      using True by (simp_all add: le_div_geq le_mod_geq)
    have i: "out_idx < length dest" using less.prems q(1) by simp
    obtain dest' ds where ih: "emit_digits alphabet acc ?l ?dest (out_idx + 1) = Some (?l mod 6, dest', out_idx + 1 + ?l div 6)"
      "length dest' = length dest" "take (out_idx + 1 + ?l div 6) dest' = take (out_idx + 1) ?dest @ map ((!) alphabet) ds"
      "length ds = ?l div 6" "\<forall>d\<in>set ds. d < 64" "bits6 ds @ bits (?l mod 6) (unat acc) = bits ?l (unat acc)"
      using less.IH [of ?l "out_idx + 1" ?dest] less.prems True q(1) by auto
    have "bits L (unat acc) = bits 6 ?d @ bits ?l (unat acc)"
      using bits_append [of 6 ?l "unat acc"] True by (simp add: bits_digit)
    moreover have "?d < 64" by (simp add: unat_low_six)
    moreover have "emit_digits alphabet acc L dest out_idx = emit_digits alphabet acc ?l ?dest (out_idx + 1)"
      using True i by (subst emit_digits.simps) (simp add: Let_def)
    ultimately show ?thesis
      using ih q take_update_next [OF i] by (intro exI [of _ dest'] exI [of _ "?d # ds"]) auto
  qed (simp add: emit_digits.simps)
qed

lemma div_add_split: "(a + b) div n = a div n + (a mod n + b) div n" if "0 < n" for a b n :: nat
proof -
  have "a + b = a div n * n + (a mod n + b)" by simp
  then show ?thesis using that by (metis div_mult_self3 less_numeral_extra(3))
qed

lemma encode_loop_spec:
  assumes "acc_len < 6" and "out_idx + (acc_len + 8 * length source) div 6 \<le> length dest"
  shows "\<exists>acc' l' dest' ds. encode_loop alphabet source acc acc_len dest out_idx = Some (acc', l', dest', out_idx + length ds)
    \<and> length dest' = length dest \<and> take (out_idx + length ds) dest' = take out_idx dest @ map ((!) alphabet) ds
    \<and> l' < 6 \<and> (\<forall>d\<in>set ds. d < 64) \<and> bits6 ds @ bits l' (unat acc') = bits acc_len (unat acc) @ bits8 source"
  using assms
proof (induction source arbitrary: acc acc_len dest out_idx)
  case (Cons v source)
  let ?acc = "push_bit 8 acc + of_nat (of_char v) :: 16 word" and ?L = "acc_len + 8"
  have b: "bits ?L (unat ?acc) = bits acc_len (unat acc) @ bits 8 (of_char v)"
    using bits_shift_add [of "of_char v" 8 acc_len acc] char_code_lt [of v] Cons.prems(1) by simp
  have q: "?L div 6 + (?L mod 6 + 8 * length source) div 6 = (acc_len + 8 * length (v # source)) div 6"
    using div_add_split [where a = ?L and b = "8 * length source" and n = 6] by (simp add: algebra_simps)
  then have r: "out_idx + ?L div 6 \<le> length dest" using Cons.prems(2) by linarith
  obtain dest1 ds1 where e: "emit_digits alphabet ?acc ?L dest out_idx = Some (?L mod 6, dest1, out_idx + ?L div 6)"
    "length dest1 = length dest" "take (out_idx + ?L div 6) dest1 = take out_idx dest @ map ((!) alphabet) ds1"
    "length ds1 = ?L div 6" "\<forall>d\<in>set ds1. d < 64" "bits6 ds1 @ bits (?L mod 6) (unat ?acc) = bits ?L (unat ?acc)"
    using emit_digits_spec [OF r] by blast
  obtain acc' l' dest' ds where i: "encode_loop alphabet source ?acc (?L mod 6) dest1 (out_idx + ?L div 6)
      = Some (acc', l', dest', out_idx + ?L div 6 + length ds)"
    "length dest' = length dest1" "take (out_idx + ?L div 6 + length ds) dest' = take (out_idx + ?L div 6) dest1 @ map ((!) alphabet) ds"
    "l' < 6" "\<forall>d\<in>set ds. d < 64" "bits6 ds @ bits l' (unat acc') = bits (?L mod 6) (unat ?acc) @ bits8 source"
    using Cons.IH [of "?L mod 6" "out_idx + ?L div 6" dest1 ?acc] Cons.prems(2) q e(2) by auto
  have "encode_loop alphabet (v # source) acc acc_len dest out_idx = Some (acc', l', dest', out_idx + length (ds1 @ ds))"
    using e(1,4) i(1) by (simp add: Let_def add.assoc)
  moreover have "take (out_idx + length (ds1 @ ds)) dest' = take out_idx dest @ map ((!) alphabet) (ds1 @ ds)"
    using i(3) e(3,4) by (simp add: add.assoc)
  moreover have "bits6 (ds1 @ ds) @ bits l' (unat acc') = bits acc_len (unat acc) @ bits8 (v # source)"
    using i(6) e(6) b by simp
  ultimately show ?case using i(2,4,5) e(2,5) by (metis Un_iff set_append)
qed (auto intro!: exI [of _ "[]"])

text \<open>The number of digits of \<open>n\<close> bytes.\<close>

definition digit_count :: "nat \<Rightarrow> nat" where
  "digit_count n = (8 * n + 5) div 6"

lemma encode_without_size_check_spec:
  assumes "digit_count (length source) \<le> length dest"
  shows "\<exists>dest' ds. encode_without_size_check e dest source = Some (dest', length ds)
    \<and> length dest' = length dest \<and> take (length ds) dest' = map ((!) (en_alphabet_chars e)) ds
    \<and> length ds = digit_count (length source) \<and> (\<forall>d\<in>set ds. d < 64)
    \<and> bits6 ds = bits8 source @ replicate (6 * length ds - 8 * length source) False"
proof -
  let ?al = "en_alphabet_chars e" and ?n = "length source"
  have "8 * ?n div 6 \<le> length dest" using assms by (simp add: digit_count_def)
  then obtain acc l dest1 ds where i: "encode_loop ?al source 0 0 dest 0 = Some (acc, l, dest1, length ds)"
    "length dest1 = length dest" "take (length ds) dest1 = map ((!) ?al) ds" "l < 6" "\<forall>d\<in>set ds. d < 64"
    "bits6 ds @ bits l (unat acc) = bits8 source"
    using encode_loop_spec [of 0 0 source dest ?al 0] by auto
  have len: "6 * length ds + l = 8 * ?n" using arg_cong [OF i(6), of length] by simp
  show ?thesis
  proof (cases "l = 0")
    case True
    then have "length ds = digit_count ?n" using len by (simp add: digit_count_def)
    then show ?thesis
      using True i len by (intro exI [of _ dest1] exI [of _ ds]) (simp add: encode_without_size_check_def)
  next
    case False
    let ?d = "unat (push_bit (6 - l) acc AND 0x3F)"
    have dc: "digit_count ?n = length ds + 1" using len False i(4) by (simp add: digit_count_def)
    have "bits 6 ?d = bits 6 (unat (push_bit (6 - l) acc))"
      using bits_digit [of 0 "push_bit (6 - l) acc"] by simp
    also have "\<dots> = bits l (unat acc) @ replicate (6 - l) False"
      using bits_shift_add [of 0 "6 - l" l acc] i(4) by simp
    finally have "bits6 (ds @ [?d]) = bits8 source @ replicate (6 - l) False"
      using i(6) by (simp flip: append_assoc)
    moreover have "6 * length (ds @ [?d]) - 8 * ?n = 6 - l" using len i(4) by simp
    moreover have "?d < 64" by (simp add: unat_low_six)
    moreover have "length ds < length dest1" using dc assms i(2) by simp
    ultimately show ?thesis
      using i(1,2,3,5) False dc take_update_next [of "length ds" dest1 "?al ! ?d"]
      by (intro exI [of _ "dest1[length ds := ?al ! ?d]"] exI [of _ "ds @ [?d]"])
        (simp add: encode_without_size_check_def)
  qed
qed

lemma digit_count_parts:
  "digit_count (3 * q) = 4 * q" "digit_count (3 * q + 1) = 4 * q + 2" "digit_count (3 * q + 2) = 4 * q + 3"
  unfolding digit_count_def by presburger+

lemma thirds:
  fixes n :: nat
  obtains q where "n = 3 * q" | q where "n = 3 * q + 1" | q where "n = 3 * q + 2"
proof -
  have "n = 3 * (n div 3) \<or> n = 3 * (n div 3) + 1 \<or> n = 3 * (n div 3) + 2" by presburger
  then show thesis using that by blast
qed

lemma digit_count_calc_size:
  "calc_size e n = digit_count n + (if en_pad_char e = None then 0 else (if n mod 3 = 0 then 0 else 3 - n mod 3))"
proof (cases n rule: thirds)
  case (1 q)
  have "(3 * q + 2) div 3 = q" by simp
  then show ?thesis using 1 digit_count_parts(1) [of q] by (simp add: calc_size_def div_ceil_def)
next
  case (2 q)
  have "(3 * q + 1) div 3 = q" by simp
  then show ?thesis using 2 digit_count_parts(2) [of q] by (simp add: calc_size_def div_ceil_def mod_Suc)
next
  case (3 q)
  have "(3 * q + 2) div 3 = q" by simp
  then show ?thesis using 3 digit_count_parts(3) [of q] by (simp add: calc_size_def div_ceil_def mod_Suc)
qed

lemma base64_encode_spec:
  assumes "calc_size e (length source) \<le> length dest"
  shows "\<exists>ds. base64_encode e dest source = Some (map ((!) (en_alphabet_chars e)) ds @
      (case en_pad_char e of None \<Rightarrow> [] | Some pad \<Rightarrow> replicate (calc_size e (length source) - length ds) pad))
    \<and> length ds = digit_count (length source) \<and> (\<forall>d\<in>set ds. d < 64)
    \<and> bits6 ds = bits8 source @ replicate (6 * length ds - 8 * length source) False"
proof -
  have "digit_count (length source) \<le> calc_size e (length source)" by (simp add: digit_count_calc_size)
  then obtain dest' ds where i: "encode_without_size_check e dest source = Some (dest', length ds)"
    "length dest' = length dest" "take (length ds) dest' = map ((!) (en_alphabet_chars e)) ds"
    "length ds = digit_count (length source)" "\<forall>d\<in>set ds. d < 64"
    "bits6 ds = bits8 source @ replicate (6 * length ds - 8 * length source) False"
    using encode_without_size_check_spec [of source dest e] assms by auto
  have "calc_size e (length source) = length ds" if "en_pad_char e = None"
    using that i(4) by (simp add: digit_count_calc_size)
  moreover have "length ds \<le> calc_size e (length source)" using i(4) by (simp add: digit_count_calc_size)
  ultimately show ?thesis
    using i assms by (intro exI [of _ ds]) (auto simp: base64_encode_def Let_def copy_at_def split: option.splits)
qed

section \<open>The decoder reads them back in eights\<close>

text \<open>What \<open>init\<close> asserts of an alphabet and a padding character.\<close>

definition valid_alphabet :: "bytes \<Rightarrow> byte option \<Rightarrow> bool" where
  "valid_alphabet alphabet pad \<longleftrightarrow>
     length alphabet = 64 \<and> distinct alphabet \<and> (case pad of None \<Rightarrow> True | Some p \<Rightarrow> p \<notin> set alphabet)"

lemma index_table:
  fixes none :: nat
  assumes "distinct alphabet" and "k \<le> length alphabet" and "\<forall>c\<in>set alphabet. of_char c < table_size"
  defines "t \<equiv> foldl (\<lambda>table i. table[of_char (alphabet ! i) := i]) (replicate table_size none) [0..<k]"
  shows "length t = table_size \<and> (\<forall>j<k. t ! of_char (alphabet ! j) = j)
    \<and> (\<forall>c. c \<notin> set (take k alphabet) \<and> of_char c < table_size \<longrightarrow> t ! of_char c = none)"
  unfolding t_def using assms(2)
proof (induction k)
  case (Suc k)
  let ?t = "foldl (\<lambda>table i. table[of_char (alphabet ! i) := i]) (replicate table_size none) [0..<k]"
  have ih: "length ?t = table_size" "\<forall>j<k. ?t ! of_char (alphabet ! j) = j"
    "\<forall>c. c \<notin> set (take k alphabet) \<and> of_char c < table_size \<longrightarrow> ?t ! of_char c = none"
    using Suc by auto
  have k: "k < length alphabet" "of_char (alphabet ! k) < table_size" using Suc.prems assms(3) by simp_all
  have ne: "(of_char (alphabet ! j) :: nat) \<noteq> of_char (alphabet ! k)" if "j < k" for j
    using that k assms(1) char_eq_code nth_eq_iff_index_eq by fastforce
  have "(?t[of_char (alphabet ! k) := k]) ! of_char (alphabet ! j) = j" if "j < Suc k" for j
    using that ne [THEN not_sym] ih(1,2) k(2) by (cases "j = k") (auto simp: less_Suc_eq)
  moreover have "(?t[of_char (alphabet ! k) := k]) ! of_char c = none"
    if "c \<notin> set (take (Suc k) alphabet)" "of_char c < table_size" for c
  proof -
    have "alphabet ! k \<noteq> c" "c \<notin> set (take k alphabet)" using that(1) k(1) by (auto simp: take_Suc_conv_app_nth)
    then show ?thesis using ih(3) that(2) by simp
  qed
  ultimately show ?case using ih(1) by simp
qed simp

lemma decoder_index:
  assumes "valid_alphabet alphabet pad"
  shows "j < 64 \<Longrightarrow> de_char_to_index (Base64Decoder_init alphabet pad') ! of_char (alphabet ! j) = j"
    and "c \<notin> set alphabet \<Longrightarrow> de_char_to_index (Base64Decoder_init alphabet pad') ! of_char c = INVALID_CHAR"
  using index_table [of alphabet 64 256 INVALID_CHAR] assms char_code_lt by (simp_all add: valid_alphabet_def Base64Decoder_init_def)

lemma decode_step:
  assumes "l < 8" and "x < 64"
  shows "bits (l + 6) (unat (push_bit 6 acc + of_nat x :: 16 word)) = bits l (unat acc) @ bits 6 x"
  using bits_shift_add [of x 6 l acc] assms by simp

lemma bits_byte:
  assumes "8 \<le> L"
  shows "bits L (unat (acc :: 16 word)) = bits 8 (of_char (char_of (unat (drop_bit (L - 8) acc) mod 256) :: char))
    @ bits (L - 8) (unat acc)"
proof -
  have "unat (drop_bit (L - 8) acc) = unat acc div 2 ^ (L - 8)"
    by (simp only: unat_drop_bit_eq drop_bit_eq_div [of _ "unat acc"])
  then have "bits 8 (of_char (char_of (unat (drop_bit (L - 8) acc) mod 256) :: char)) = bits 8 (unat acc div 2 ^ (L - 8))"
    using bits_mod [of 8 8 "unat acc div 2 ^ (L - 8)"] by (simp add: of_char_of)
  then show ?thesis using bits_append [of 8 "L - 8" "unat acc"] assms by simp
qed

lemma decode_loop_spec:
  assumes "valid_alphabet alphabet pad" and d: "d = Base64Decoder_init alphabet pad"
    and "source = pre @ map ((!) alphabet) ds @ suf" and "\<forall>x\<in>set ds. x < 64" and "acc_len < 8"
    and "suf = [] \<or> pad = Some (hd suf)" and "dest_idx + (acc_len + 6 * length ds) div 8 \<le> length dest"
  shows "\<exists>acc' l' dest' bs. decode_loop d source (length pre) acc acc_len dest dest_idx
      = Some (Inr (acc', l', dest', dest_idx + length bs, if suf = [] then None else Some (length pre + length ds)))
    \<and> length dest' = length dest \<and> take (dest_idx + length bs) dest' = take dest_idx dest @ bs \<and> l' < 8
    \<and> bits8 bs @ bits l' (unat acc') = bits acc_len (unat acc) @ bits6 ds"
  using assms(3-)
proof (induction ds arbitrary: pre acc acc_len dest dest_idx)
  case Nil
  show ?case
  proof (cases suf)
    case Nil
    with Nil.prems show ?thesis by (intro exI [of _ acc] exI [of _ acc_len] exI [of _ dest] exI [of _ "[]"]) (simp add: decode_loop.simps)
  next
    case (Cons c cs)
    then have "pad = Some c" using Nil.prems(4) by simp
    moreover have "de_char_to_index d ! of_char c = INVALID_CHAR"
      using decoder_index(2) [OF assms(1)] assms(1) \<open>pad = Some c\<close> d by (simp add: valid_alphabet_def)
    moreover have "de_pad_char d = pad" using d by (simp add: Base64Decoder_init_def)
    ultimately show ?thesis
      using Nil.prems Cons
      by (intro exI [of _ acc] exI [of _ acc_len] exI [of _ dest] exI [of _ "[]"])
        (simp add: decode_loop.simps nth_append)
  qed
next
  case (Cons x ds)
  let ?acc = "push_bit 6 acc + of_nat x :: 16 word" and ?L = "acc_len + 6"
  have x: "x < 64" using Cons.prems(2) by simp
  have ix: "de_char_to_index d ! of_char (source ! length pre) = x" "length pre < length source"
    using decoder_index(1) [OF assms(1) x] Cons.prems(1) d by (simp_all add: nth_append)
  have nv: "x \<noteq> INVALID_CHAR" using x by (simp add: INVALID_CHAR_def)
  have src: "source = (pre @ [alphabet ! x]) @ map ((!) alphabet) ds @ suf" using Cons.prems(1) by simp
  note b = decode_step [OF Cons.prems(3) x, of acc]
  have "\<forall>y\<in>set ds. y < 64" using Cons.prems(2) by simp
  note ih = Cons.IH [OF src this _ Cons.prems(4)]
  show ?case
  proof (cases "8 \<le> ?L")
    case True
    let ?c = "char_of (unat (drop_bit (?L - 8) ?acc) mod 256) :: char"
    have q: "(acc_len + 6 * length (x # ds)) div 8 = Suc ((?L - 8 + 6 * length ds) div 8)"
      using True by (simp add: le_div_geq)
    then have i: "dest_idx < length dest" using Cons.prems(5) by simp
    have "dest_idx + 1 + (?L - 8 + 6 * length ds) div 8 \<le> length (dest[dest_idx := ?c])"
      using Cons.prems(5) q by simp
    then obtain acc' l' dest' bs where r: "decode_loop d source (length (pre @ [alphabet ! x])) ?acc (?L - 8) (dest[dest_idx := ?c]) (dest_idx + 1)
      = Some (Inr (acc', l', dest', dest_idx + 1 + length bs, if suf = [] then None else Some (length (pre @ [alphabet ! x]) + length ds)))"
      "length dest' = length dest" "take (dest_idx + 1 + length bs) dest' = take (dest_idx + 1) (dest[dest_idx := ?c]) @ bs" "l' < 8"
      "bits8 bs @ bits l' (unat acc') = bits (?L - 8) (unat ?acc) @ bits6 ds"
      using ih [of "?L - 8" "dest_idx + 1" "dest[dest_idx := ?c]" ?acc] Cons.prems(3)
      unfolding length_list_update by fastforce
    have "decode_loop d source (length pre) acc acc_len dest dest_idx
        = decode_loop d source (length (pre @ [alphabet ! x])) ?acc (?L - 8) (dest[dest_idx := ?c]) (dest_idx + 1)"
      using ix nv True i by (subst decode_loop.simps) (simp add: Let_def)
    moreover have "bits8 (?c # bs) @ bits l' (unat acc') = bits acc_len (unat acc) @ bits6 (x # ds)"
      using r(5) b bits_byte [OF True, of ?acc] by simp
    ultimately show ?thesis
      using r take_update_next [OF i, of ?c]
      by (intro exI [of _ acc'] exI [of _ l'] exI [of _ dest'] exI [of _ "?c # bs"]) simp
  next
    case False
    have "dest_idx + (?L + 6 * length ds) div 8 \<le> length dest"
      using Cons.prems(5) by (simp add: algebra_simps)
    then obtain acc' l' dest' bs where r: "decode_loop d source (length (pre @ [alphabet ! x])) ?acc ?L dest dest_idx
      = Some (Inr (acc', l', dest', dest_idx + length bs, if suf = [] then None else Some (length (pre @ [alphabet ! x]) + length ds)))"
      "length dest' = length dest" "take (dest_idx + length bs) dest' = take dest_idx dest @ bs" "l' < 8"
      "bits8 bs @ bits l' (unat acc') = bits ?L (unat ?acc) @ bits6 ds"
      using ih [of ?L dest_idx dest ?acc] False by fastforce
    have "decode_loop d source (length pre) acc acc_len dest dest_idx
        = decode_loop d source (length (pre @ [alphabet ! x])) ?acc ?L dest dest_idx"
      using ix nv False by (subst decode_loop.simps) (simp add: Let_def)
    then show ?thesis
      using r b by (intro exI [of _ acc'] exI [of _ l'] exI [of _ dest'] exI [of _ bs]) simp
  qed
qed

section \<open>Round trip\<close>

lemma pending_bits_zero:
  assumes "bits l (unat acc) = replicate l False"
  shows "pending_bits acc l = 0"
proof -
  have "bits l (unat acc mod 2 ^ l) = bits l 0" using assms bits_mod [of l l "unat acc"] by simp
  then have "unat acc mod 2 ^ l = 0" by (rule bits_inj) simp_all
  moreover have "unat (take_bit l acc) = unat acc mod 2 ^ l"
    by (simp only: unsigned_take_bit_eq take_bit_eq_mod [of l "unat acc"])
  moreover have "pending_bits acc l = take_bit l acc"
    by (simp add: pending_bits_def take_bit_eq_mask mask_eq_exp_minus_1 push_bit_of_1)
  ultimately show ?thesis by (metis unsigned_0 word_unat_eq_iff)
qed

lemma count_padding_replicate: "count_padding pad (replicate k pad) = Inr k"
  by (induction k) auto

text \<open>The padding of \<open>n\<close> bytes, and the zero bits that fill up their last digit.\<close>

definition pad_count :: "nat \<Rightarrow> nat" where
  "pad_count n = (if n mod 3 = 0 then 0 else 3 - n mod 3)"

lemma pad_count_fill:
  "6 * digit_count n = 8 * n + 2 * pad_count n" "pad_count n \<le> 2" "4 dvd digit_count n + pad_count n"
  "(digit_count n + pad_count n) div 4 * 3 = n + pad_count n"
proof -
  have "\<exists>c. digit_count n + pad_count n = 4 * c \<and> n + pad_count n = 3 * c \<and> pad_count n \<le> 2
    \<and> 6 * digit_count n = 8 * n + 2 * pad_count n"
  proof (cases n rule: thirds)
    case (1 q)
    then show ?thesis using digit_count_parts(1) [of q] by (intro exI [of _ q]) (simp add: pad_count_def)
  next
    case (2 q)
    then show ?thesis using digit_count_parts(2) [of q] by (intro exI [of _ "q + 1"]) (simp add: pad_count_def mod_Suc)
  next
    case (3 q)
    then show ?thesis using digit_count_parts(3) [of q] by (intro exI [of _ "q + 1"]) (simp add: pad_count_def mod_Suc)
  qed
  then obtain c where "digit_count n + pad_count n = 4 * c" "n + pad_count n = 3 * c" "pad_count n \<le> 2"
    "6 * digit_count n = 8 * n + 2 * pad_count n" by blast
  then show "6 * digit_count n = 8 * n + 2 * pad_count n" "pad_count n \<le> 2" "4 dvd digit_count n + pad_count n"
    "(digit_count n + pad_count n) div 4 * 3 = n + pad_count n" by (simp_all only: dvd_triv_left) simp_all
qed

lemma calc_size_pad: "calc_size e n = digit_count n + (if en_pad_char e = None then 0 else pad_count n)"
  by (simp add: digit_count_calc_size pad_count_def)

lemma unpadded_size:
  "digit_count n mod 4 \<noteq> 1" "digit_count n div 4 * 3 + digit_count n mod 4 * 3 div 4 = n"
proof -
  have "digit_count n mod 4 \<noteq> 1 \<and> digit_count n div 4 * 3 + digit_count n mod 4 * 3 div 4 = n"
  proof (cases n rule: thirds)
    case (1 q)
    then show ?thesis using digit_count_parts(1) [of q] by simp
  next
    case (2 q)
    have "(4 * q + 2) div 4 = q" "(4 * q + 2) mod 4 = 2" by presburger+
    then show ?thesis using 2 digit_count_parts(2) [of q] by simp
  next
    case (3 q)
    have "(4 * q + 3) div 4 = q" "(4 * q + 3) mod 4 = 3" by presburger+
    then show ?thesis using 3 digit_count_parts(3) [of q] by simp
  qed
  then show "digit_count n mod 4 \<noteq> 1" "digit_count n div 4 * 3 + digit_count n mod 4 * 3 div 4 = n" by auto
qed

text \<open>What the encoder produces: the digits of the bytes and their padding.\<close>

definition encoded_text :: "bytes \<Rightarrow> byte option \<Rightarrow> nat list \<Rightarrow> nat \<Rightarrow> bytes" where
  "encoded_text alphabet pad ds n =
     map ((!) alphabet) ds @ (case pad of None \<Rightarrow> [] | Some p \<Rightarrow> replicate (pad_count n) p)"

lemma decoded_size:
  assumes "valid_alphabet alphabet pad" and "length ds = digit_count n" and "\<forall>x\<in>set ds. x < 64"
  shows "calc_size_for_slice (Base64Decoder_init alphabet pad) (encoded_text alphabet pad ds n) = Inr n"
proof (cases pad)
  case None
  then show ?thesis
    using unpadded_size [of n] assms(2)
    by (simp add: calc_size_for_slice_def calc_size_upper_bound_def Base64Decoder_init_def encoded_text_def Let_def)
next
  case (Some p)
  let ?t = "encoded_text alphabet pad ds n" and ?k = "pad_count n" and ?m = "digit_count n"
  have len: "length ?t = ?m + ?k" using assms(2) Some by (simp add: encoded_text_def)
  have nth: "?t ! i = (if i < ?m then alphabet ! (ds ! i) else p)" if "i < ?m + ?k" for i
    using that assms(2) Some by (simp add: encoded_text_def nth_append)
  have np: "alphabet ! (ds ! i) \<noteq> p" if "i < ?m" for i
    using that assms Some by (metis case_optionE nth_mem option.simps(5) valid_alphabet_def)
  have last: "(j \<le> ?m + ?k \<and> ?t ! (?m + ?k - j) = p) = (j \<le> ?k)" if "0 < j" for j
    using that nth [of "?m + ?k - j"] np [of "?m + ?k - j"] by (cases "j \<le> ?k") auto
  have "of_bool (1 \<le> ?k) + of_bool (2 \<le> ?k) = ?k" using pad_count_fill(2) [of n] by auto
  then show ?thesis
    using pad_count_fill(3,4) [of n] Some len last [of 1] last [of 2]
    by (simp add: calc_size_for_slice_def calc_size_upper_bound_def Base64Decoder_init_def Let_def mod_eq_0_iff_dvd)
qed

lemma decode_encoded_text:
  assumes "valid_alphabet alphabet pad" and "length ds = digit_count (length source)" and "\<forall>x\<in>set ds. x < 64"
    and "bits6 ds = bits8 source @ replicate (6 * length ds - 8 * length source) False"
    and "length dest = length source"
  shows "base64_decode (Base64Decoder_init alphabet pad) dest (encoded_text alphabet pad ds (length source)) = Some (Inr source)"
proof -
  let ?n = "length source" and ?d = "Base64Decoder_init alphabet pad"
  let ?suf = "case pad of None \<Rightarrow> [] | Some p \<Rightarrow> replicate (pad_count ?n) p"
  let ?t = "encoded_text alphabet pad ds ?n"
  have z: "6 * length ds = 8 * ?n + 2 * pad_count ?n" "pad_count ?n \<le> 2" using pad_count_fill(1,2) assms(2) by simp_all
  have t: "?t = [] @ map ((!) alphabet) ds @ ?suf" by (simp add: encoded_text_def)
  have s: "?suf = [] \<or> pad = Some (hd ?suf)" by (cases pad; cases "pad_count ?n") auto
  have r: "0 + (0 + 6 * length ds) div 8 \<le> length dest" using z assms(5) by simp
  obtain acc l dest' bs where i: "decode_loop ?d ?t (length ([] :: bytes)) 0 0 dest 0
      = Some (Inr (acc, l, dest', 0 + length bs, if ?suf = [] then None else Some (length ([] :: bytes) + length ds)))"
    "length dest' = length dest" "take (0 + length bs) dest' = take 0 dest @ bs" "l < 8"
    "bits8 bs @ bits l (unat acc) = bits 0 (unat (0 :: 16 word)) @ bits6 ds"
    using decode_loop_spec [OF assms(1) refl t assms(3) _ s r] by fastforce
  then have "bits8 bs @ bits l (unat acc) = bits8 source @ replicate (2 * pad_count ?n) False"
    using assms(4) z by simp
  then have eq: "bs = source \<and> bits l (unat acc) = replicate (2 * pad_count ?n) False"
    by (rule bits8_split) (use i(4) z(2) in simp_all)
  then have l: "l = 2 * pad_count ?n" by (metis length_bits length_replicate)
  have "dest' = source" using i(2,3) eq assms(5) by simp
  moreover have "pending_bits acc l = 0" using eq l by (intro pending_bits_zero) simp
  moreover have "drop (length ds) ?t = ?suf" by (simp add: encoded_text_def)
  moreover have "length ?t mod 4 = 0" if "pad \<noteq> None"
    using that pad_count_fill(3) [of ?n] assms(2) by (auto simp: encoded_text_def)
  ultimately show ?thesis
    using i(1) l z(2)
    by (cases pad) (auto simp: base64_decode_def Base64Decoder_init_def count_padding_replicate split: if_splits)
qed

section \<open>The sizes of decoded text\<close>

lemma ignore_loop_space:
  assumes "de_pad_char (ig_decoder g) = Some pad" and "\<not> ig_char_is_ignored g ! of_char pad"
    and "de_char_to_index (ig_decoder g) ! of_char pad = INVALID_CHAR"
    and "fst (ignore_loop g source i acc acc_len dest wrote) = Inl NoSpaceLeft"
    and "8 * wrote + acc_len \<le> 6 * k"
  shows "8 * (length dest + 1) \<le> 6 * (k + length (takeWhile ((\<noteq>) pad) (drop i source)))"
  using assms(4,5)
proof (induction "length source - i" arbitrary: i acc acc_len dest wrote k rule: less_induct)
  case less
  let ?c = "source ! i" and ?T = "\<lambda>i. length (takeWhile ((\<noteq>) pad) (drop i source))"
  let ?x = "de_char_to_index (ig_decoder g) ! of_char ?c" and ?L = "acc_len + 6"
  let ?acc = "push_bit 6 acc + of_nat ?x :: 16 word"
  note eq = less.prems(1) [unfolded ignore_loop.simps [of g source i]]
  have i: "i < length source" using eq by (auto split: if_splits)
  have c: "?c \<noteq> pad" using eq assms(1-3) i by (auto simp: Let_def split: if_splits)
  have T: "?T i = Suc (?T (i + 1))" using c i by (simp add: Cons_nth_drop_Suc [symmetric])
  have "length source - (i + 1) < length source - i" using i by simp
  note IH = less.hyps [OF this]
  consider (skip) "fst (ignore_loop g source (i + 1) acc acc_len dest wrote) = Inl NoSpaceLeft"
    | (full) "wrote = length dest" "8 \<le> ?L"
    | (byte) a d where "8 \<le> ?L" "fst (ignore_loop g source (i + 1) a (?L - 8) d (wrote + 1)) = Inl NoSpaceLeft"
        "length d = length dest"
    | (bits) "fst (ignore_loop g source (i + 1) ?acc ?L dest wrote) = Inl NoSpaceLeft"
    using eq i by (fastforce simp: Let_def split: if_splits)
  then show ?case
  proof cases
    case skip
    from IH [OF skip less.prems(2)] show ?thesis unfolding T by (simp add: algebra_simps)
  next
    case full
    then show ?thesis using less.prems(2) T by simp
  next
    case byte
    have "8 * (wrote + 1) + (?L - 8) \<le> 6 * (k + 1)" using less.prems(2) byte(1) by simp
    from IH [OF byte(2) this] show ?thesis unfolding T byte(3) by (simp add: algebra_simps)
  next
    case bits
    have "8 * wrote + ?L \<le> 6 * (k + 1)" using less.prems(2) by simp
    from IH [OF bits this] show ?thesis unfolding T by (simp add: algebra_simps)
  qed
qed

lemma count_padding_ignore_space: "count_padding_ignore g pad cs \<noteq> Inl NoSpaceLeft"
  by (induction cs) (auto split: sum.splits)

lemma standard_alphabet: "valid_alphabet STANDARD_ALPHABET_CHARS (Some CHR ''='')"
  by (simp add: valid_alphabet_def STANDARD_ALPHABET_CHARS_def)

lemma mixed_decoder_pad:
  "de_pad_char (ig_decoder MIXED_DECODER) = Some CHR ''=''"
  "\<not> ig_char_is_ignored MIXED_DECODER ! of_char CHR ''=''"
  "de_char_to_index (ig_decoder MIXED_DECODER) ! of_char CHR ''='' = INVALID_CHAR"
proof -
  show "de_pad_char (ig_decoder MIXED_DECODER) = Some CHR ''=''"
    by (simp add: MIXED_DECODER_def Base64DecoderWithIgnore_init_def Base64Decoder_init_def Let_def)
  show "\<not> ig_char_is_ignored MIXED_DECODER ! of_char CHR ''=''"
    by (simp add: MIXED_DECODER_def Base64DecoderWithIgnore_init_def Let_def)
  have "de_char_to_index (Base64Decoder_init STANDARD_ALPHABET_CHARS (Some CHR ''='')) ! of_char CHR ''='' = INVALID_CHAR"
    using standard_alphabet by (rule decoder_index(2)) (simp add: STANDARD_ALPHABET_CHARS_def)
  moreover have "[62..<64] = [62, 63]" "URL_SAFE_ALPHABET_CHARS ! 62 = CHR ''-''" "URL_SAFE_ALPHABET_CHARS ! 63 = CHR ''_''"
    by (simp_all add: upt_rec URL_SAFE_ALPHABET_CHARS_def)
  ultimately show "de_char_to_index (ig_decoder MIXED_DECODER) ! of_char CHR ''='' = INVALID_CHAR"
    by (simp add: MIXED_DECODER_def Base64DecoderWithIgnore_init_def Let_def)
qed

lemma takeWhile_before: "j < length xs \<Longrightarrow> \<not> P (xs ! j) \<Longrightarrow> length (takeWhile P xs) \<le> j"
  by (metis length_takeWhile_le not_le nth_mem set_takeWhileD takeWhile_nth)

lemma decode_len_space: "6 * length (takeWhile ((\<noteq>) CHR ''='') source) < 8 * (decode_len source + 1)"
proof -
  let ?n = "length source" and ?m = "length (takeWhile ((\<noteq>) CHR ''='') source)"
  let ?b1 = "1 \<le> ?n \<and> source ! (?n - 1) = CHR ''=''" and ?b2 = "2 \<le> ?n \<and> source ! (?n - 2) = CHR ''=''"
  have m: "?m \<le> ?n" "?b1 \<Longrightarrow> ?m \<le> ?n - 1" "?b2 \<Longrightarrow> ?m \<le> ?n - 2"
    using length_takeWhile_le takeWhile_before [of "?n - 1" source] takeWhile_before [of "?n - 2" source] by auto
  have p: "de_pad_char STANDARD_decoder = Some CHR ''=''" by (simp add: STANDARD_decoder_def Base64Decoder_init_def)
  have q: "?n = 4 * (?n div 4) + ?n mod 4" "?n mod 4 < 4" by simp_all
  show ?thesis
  proof (cases "?n mod 4 = 0")
    case True
    then have "decode_len source = ?n div 4 * 3 - of_bool ?b1 - of_bool ?b2"
      using p by (simp add: decode_len_def calc_size_for_slice_def calc_size_upper_bound_def Let_def)
    then show ?thesis using m q True by (cases ?b1; cases ?b2) auto
  next
    case False
    then have "decode_len source = ?n div 4 * 3 + 2"
      using p by (simp add: decode_len_def calc_size_for_slice_def calc_size_upper_bound_def Let_def)
    then show ?thesis using m(1) q by simp
  qed
qed

section \<open>Properties\<close>

text \<open>
  C38. For every alphabet and padding character that \<open>init\<close> accepts, encoding any bytes into a
  destination of at least \<open>calc_size\<close> does not panic, gives a text of exactly that size, of which
  \<open>calc_size_for_slice\<close> computes the decoded size, and decoding into a destination of that size gives
  the bytes back.
\<close>

theorem base64_roundtrip:
  assumes "valid_alphabet alphabet pad" and "calc_size (Base64Encoder_init alphabet pad) (length source) \<le> length dest"
  shows "\<exists>encoded. base64_encode (Base64Encoder_init alphabet pad) dest source = Some encoded
    \<and> length encoded = calc_size (Base64Encoder_init alphabet pad) (length source)
    \<and> calc_size_for_slice (Base64Decoder_init alphabet pad) encoded = Inr (length source)
    \<and> base64_decode (Base64Decoder_init alphabet pad) (replicate (length source) b) encoded = Some (Inr source)"
proof -
  let ?e = "Base64Encoder_init alphabet pad" and ?n = "length source"
  have e: "en_alphabet_chars (Base64Encoder_init alphabet p) = alphabet" "en_pad_char (Base64Encoder_init alphabet p) = p" for p
    by (simp_all add: Base64Encoder_init_def)
  obtain ds where ds: "base64_encode ?e dest source = Some (map ((!) alphabet) ds @
      (case pad of None \<Rightarrow> [] | Some p \<Rightarrow> replicate (calc_size ?e ?n - length ds) p))"
    "length ds = digit_count ?n" "\<forall>d\<in>set ds. d < 64"
    "bits6 ds = bits8 source @ replicate (6 * length ds - 8 * ?n) False"
    using base64_encode_spec [OF assms(2)] by (auto simp: e)
  then have t: "base64_encode ?e dest source = Some (encoded_text alphabet pad ds ?n)"
    by (simp add: encoded_text_def calc_size_pad e split: option.splits)
  have "length (encoded_text alphabet pad ds ?n) = calc_size ?e ?n"
    using ds(2) by (simp add: encoded_text_def calc_size_pad e split: option.splits)
  then show ?thesis
    using t decoded_size [OF assms(1) ds(2,3)] decode_encoded_text [OF assms(1) ds(2,3,4), of "replicate ?n b"] by simp
qed

theorem base64_roundtrip_witness:
  "\<exists>encoded. base64_encode STANDARD_encoder (replicate 8 CHR ''?'') ''Hello'' = Some encoded
     \<and> base64_decode STANDARD_decoder ''?????'' encoded = Some (Inr ''Hello'')"
  using base64_roundtrip [OF standard_alphabet, of "''Hello''" "replicate 8 CHR ''?''" "CHR ''?''"]
  by (auto simp: STANDARD_encoder_def STANDARD_decoder_def calc_size_def div_ceil_def Base64Encoder_init_def)

text \<open>
  A destination of \<open>decode_len\<close> bytes, which \<open>decode_alloc\<close> allocates, is always large enough for
  the fallback decoder: whatever the input, it never runs out of space.
\<close>

theorem decode_len_suffices:
  assumes "length dest = decode_len source"
  shows "fst (decode_ignore MIXED_DECODER dest source) \<noteq> Inl NoSpaceLeft"
proof
  assume "fst (decode_ignore MIXED_DECODER dest source) = Inl NoSpaceLeft"
  then have "fst (ignore_loop MIXED_DECODER source 0 0 0 dest 0) = Inl NoSpaceLeft"
    using count_padding_ignore_space [of MIXED_DECODER]
    by (auto simp: decode_ignore_def split: prod.splits sum.splits if_splits option.splits)
  from ignore_loop_space [OF mixed_decoder_pad this, of 0] decode_len_space [of source] assms show False by simp
qed

theorem decode_len_suffices_witness:
  "fst (decode_ignore MIXED_DECODER ''??????'' ''SGVs bG8'') \<noteq> Inl NoSpaceLeft"
  using decode_len_suffices [of "''??????''" "''SGVs bG8''"]
  by (simp add: decode_len_def calc_size_for_slice_def calc_size_upper_bound_def STANDARD_decoder_def
      Base64Decoder_init_def Let_def)

end
