(* ===== verification/Vlq.thy ===== *)
theory Vlq
  imports Base64
begin

unbundle bit_operations_syntax

text \<open>
  Module \<open>vlq\<close> of \<open>src/src/base64/lib.rs\<close>: the variable-length integers of source maps, up to seven
  base64 digits of five bits each, least significant first, with the sign in the lowest bit and a
  continuation bit per digit. An \<open>i32\<close> is a 32-bit word read with \<open>sint\<close>.

  The digits of a number are the reference \<open>vlq_digits\<close>; the encoder's fixed buffer and the decoder's
  shifts and masks are shown to compute it and its inverse.
\<close>

section \<open>Encoding\<close>

definition VLQ_MAX_IN_BYTES :: nat where
  "VLQ_MAX_IN_BYTES = 7"

record vlq =
  vlq_bytes :: bytes
  vlq_len :: nat

definition VLQ_slice :: "vlq \<Rightarrow> bytes" where
  "VLQ_slice v = subslice (vlq_bytes v) 0 (vlq_len v)"

function encode_iter :: "u32 \<Rightarrow> bytes \<Rightarrow> nat \<Rightarrow> nat \<Rightarrow> vlq" where
  "encode_iter v bs len iter =
     (if iter < VLQ_MAX_IN_BYTES then
        let digit = v AND 31;
            v = drop_bit 5 v;
            digit = (if v \<noteq> 0 then digit OR 32 else digit);
            bs = bs[len := STANDARD_ALPHABET_CHARS ! unat digit];
            len = len + 1
        in if v = 0 then \<lparr>vlq_bytes = bs, vlq_len = len\<rparr> else encode_iter v bs len (iter + 1)
      else \<lparr>vlq_bytes = bs, vlq_len = 0\<rparr>)"
  by pat_completeness auto
termination
  by (relation "measure (\<lambda>(v, bs, len, iter). VLQ_MAX_IN_BYTES - iter)") auto

declare encode_iter.simps [simp del]

definition encode_slow_path :: "32 word \<Rightarrow> vlq" where
  "encode_slow_path num =
     encode_iter (if 0 \<le> sint num then push_bit 1 num else push_bit 1 (- num) OR 1)
       (replicate VLQ_MAX_IN_BYTES (CHR 0x00)) 0 0"

definition VLQ_LOOKUP_TABLE :: "vlq list" where
  "VLQ_LOOKUP_TABLE = map (\<lambda>j. encode_slow_path (of_nat j)) [0..<256]"

definition VLQ_encode :: "32 word \<Rightarrow> vlq" where
  "VLQ_encode num =
     (if 0 \<le> sint num \<and> sint num \<le> 255 then VLQ_LOOKUP_TABLE ! nat (sint num)
      else encode_slow_path num)"

section \<open>Decoding\<close>

record vlq_result =
  vr_value :: "32 word"
  vr_start :: nat

definition U7_MAX :: nat where
  "U7_MAX = 127"

definition BASE64_LUT :: "nat list" where
  "BASE64_LUT =
     foldl (\<lambda>table i. table[of_char (STANDARD_ALPHABET_CHARS ! i) := i]) (replicate (U7_MAX + 1) U7_MAX)
       [0..<length STANDARD_ALPHABET_CHARS]"

fun decode_iter :: "bytes \<Rightarrow> nat \<Rightarrow> nat \<Rightarrow> nat \<Rightarrow> u32 \<Rightarrow> vlq_result option" where
  "decode_iter [] start i shift v = None"
| "decode_iter (c # cs) start i shift v =
     (let index = of_nat (BASE64_LUT ! (of_char c mod 128)) :: u32;
          v = v OR push_bit (shift mod 32) (index AND 31);
          shift = shift + 5
      in if index AND 32 = 0 then
           Some \<lparr>vr_value = (if v AND 1 = 0 then drop_bit 1 v else - drop_bit 1 v), vr_start = start + i + 1\<rparr>
         else decode_iter cs start (i + 1) shift v)"

text \<open>\<open>None\<close>: \<open>start\<close> is outside the slice. A number that does not end decodes to nothing, at \<open>start\<close>.\<close>

definition decode_impl :: "bytes \<Rightarrow> nat \<Rightarrow> vlq_result option" where
  "decode_impl encoded start =
     (if length encoded < start then None
      else
        let window = take (min (length encoded - start) (VLQ_MAX_IN_BYTES + 1)) (drop start encoded)
        in case decode_iter window start 0 0 0 of
             Some r \<Rightarrow> Some r
           | None \<Rightarrow> Some \<lparr>vr_value = 0, vr_start = start\<rparr>)"

definition vlq_decode :: "bytes \<Rightarrow> nat \<Rightarrow> vlq_result option" where
  "vlq_decode encoded start = decode_impl encoded start"

section \<open>The digits of a number\<close>

fun vlq_digits :: "nat \<Rightarrow> nat list" where
  "vlq_digits n = (if n < 32 then [n] else (n mod 32 + 32) # vlq_digits (n div 32))"

declare vlq_digits.simps [simp del]

lemma vlq_digits_bounds: "\<forall>d\<in>set (vlq_digits n). d < 64"
  by (induction n rule: vlq_digits.induct) (subst vlq_digits.simps, auto simp: add.commute)

lemma length_vlq_digits: "n < 32 ^ k \<Longrightarrow> 0 < k \<Longrightarrow> length (vlq_digits n) \<le> k"
proof (induction n arbitrary: k rule: vlq_digits.induct)
  case (1 n)
  show ?case
  proof (cases "n < 32")
    case False
    then obtain j where k: "k = Suc j" "0 < j" using "1.prems" by (cases k; cases "k - 1") auto
    have "length (vlq_digits (n div 32)) \<le> j"
      using "1.IH" [OF False, of j] "1.prems"(1) k by (simp add: less_mult_imp_div_less mult.commute)
    then show ?thesis using False k by (subst vlq_digits.simps) simp
  qed (use "1.prems" in \<open>simp add: vlq_digits.simps\<close>)
qed

lemma or_disjoint: "a OR push_bit s b = a + b * 2 ^ s" if "a < 2 ^ s" for a b :: nat
proof -
  have "a AND push_bit s b = 0"
  proof (rule bit_eqI)
    fix i
    have "take_bit s a = a" using that by (simp add: take_bit_eq_mod)
    then have "bit a i \<Longrightarrow> i < s" by (metis bit_take_bit_iff)
    then show "bit (a AND push_bit s b) i \<longleftrightarrow> bit (0 :: nat) i"
      by (auto simp: bit_and_iff bit_push_bit_iff)
  qed
  then show ?thesis by (simp add: disjunctive_add_eq_or push_bit_eq_mult)
qed

lemma unat_low_five: "unat (w AND 31 :: u32) = unat w mod 32"
proof -
  have "w AND 31 = take_bit 5 w" by (simp add: take_bit_eq_mask mask_eq_exp_minus_1)
  then have "unat (w AND 31) = take_bit 5 (unat w)" by (simp only: unsigned_take_bit_eq)
  then show ?thesis by (simp add: take_bit_eq_mod)
qed

lemma unat_high_five: "unat (drop_bit 5 w :: u32) = unat w div 32"
proof -
  have "unat (drop_bit 5 w) = drop_bit 5 (unat w)" by (simp only: unat_drop_bit_eq)
  then show ?thesis by (simp add: drop_bit_eq_div)
qed

lemma unat_continued: "unat ((w AND 31) OR 32 :: u32) = unat w mod 32 + 32"
  using or_disjoint [of "unat w mod 32" 5 1] by (simp add: unsigned_or_eq unat_low_five push_bit_of_1)

lemma encode_iter_spec:
  assumes "unat v < 32 ^ (7 - iter)" and "len = iter" and "iter < 7" and "length bs = 7"
  shows "VLQ_slice (encode_iter v bs len iter) = take len bs @ map ((!) STANDARD_ALPHABET_CHARS) (vlq_digits (unat v))
    \<and> vlq_len (encode_iter v bs len iter) = len + length (vlq_digits (unat v))"
  using assms
proof (induction "7 - iter" arbitrary: v bs len iter rule: less_induct)
  case less
  have i: "iter < VLQ_MAX_IN_BYTES" "len < length bs" using less.prems by (simp_all add: VLQ_MAX_IN_BYTES_def)
  have z: "drop_bit 5 v = 0 \<longleftrightarrow> unat v < 32"
    using unat_high_five [of v] by (metis div_eq_0_iff unat_eq_zero zero_neq_numeral)
  show ?case
  proof (cases "unat v < 32")
    case True
    then have "encode_iter v bs len iter = \<lparr>vlq_bytes = bs[len := STANDARD_ALPHABET_CHARS ! unat v], vlq_len = len + 1\<rparr>"
      using i z by (subst encode_iter.simps) (simp add: Let_def unat_low_five)
    then show ?thesis
      using True i take_update_next [of len bs] by (simp add: VLQ_slice_def subslice_def vlq_digits.simps)
  next
    case False
    let ?bs = "bs[len := STANDARD_ALPHABET_CHARS ! (unat v mod 32 + 32)]"
    have s: "encode_iter v bs len iter = encode_iter (drop_bit 5 v) ?bs (len + 1) (iter + 1)"
      using i z False by (subst encode_iter.simps) (simp add: Let_def unat_continued)
    have "7 - iter = Suc (7 - (iter + 1))" using less.prems(3) by simp
    then have b: "unat (drop_bit 5 v) < 32 ^ (7 - (iter + 1))"
      using less.prems(1) by (simp add: unat_high_five less_mult_imp_div_less mult.commute del: diff_Suc_Suc)
    then have "iter + 1 < 7" using False less.prems(3) unat_high_five [of v] z
      by (cases "iter + 1 = 7") (auto simp: unat_eq_zero)
    then show ?thesis
      using less.hyps [of "iter + 1" "drop_bit 5 v" "len + 1" ?bs] b less.prems(2,4) False s take_update_next [OF i(2)]
      by (simp add: unat_high_five vlq_digits.simps [of "unat v"])
  qed
qed

section \<open>Round trip\<close>

lemma lut_index:
  assumes "d < 64"
  shows "BASE64_LUT ! (of_char (STANDARD_ALPHABET_CHARS ! d) mod 128) = d"
proof -
  have a: "distinct STANDARD_ALPHABET_CHARS" "length STANDARD_ALPHABET_CHARS = 64"
    using standard_alphabet by (simp_all add: valid_alphabet_def)
  have c: "\<forall>c\<in>set STANDARD_ALPHABET_CHARS. of_char c < (128 :: nat)" by (simp add: STANDARD_ALPHABET_CHARS_def)
  have "of_char (STANDARD_ALPHABET_CHARS ! d) < (128 :: nat)" using c a(2) assms by simp
  then show ?thesis
    using index_table [of STANDARD_ALPHABET_CHARS 64 128 U7_MAX] a c assms by (simp add: BASE64_LUT_def U7_MAX_def)
qed

lemma unat_bit_five: "d < 64 \<Longrightarrow> (of_nat d AND 32 = (0 :: u32)) \<longleftrightarrow> d < 32"
proof -
  assume d: "d < 64"
  have "list_all (\<lambda>d. (of_nat d AND 32 = (0 :: u32)) = (d < 32)) [0..<64]" by code_simp
  then show ?thesis using d by (simp add: list_all_iff)
qed

text \<open>One round of the decoder adds five bits above those it has.\<close>

lemma decode_or:
  assumes "unat v < 2 ^ s" and "s < 32" and "unat v + d mod 32 * 2 ^ s < 2 ^ 32" and "d < 64"
  shows "unat (v OR push_bit (s mod 32) (of_nat d AND 31 :: u32)) = unat v + d mod 32 * 2 ^ s"
proof -
  have d: "unat (of_nat d AND 31 :: u32) = d mod 32" using assms(4) by (simp add: unat_low_five unat_of_nat)
  have "unat (push_bit s (of_nat d AND 31 :: u32)) = take_bit 32 (push_bit s (d mod 32))"
    using unsigned_push_bit_eq [of s "of_nat d AND 31 :: u32", where 'a = nat] d by simp
  also have "\<dots> = push_bit s (d mod 32)"
    using assms(3) by (simp add: take_bit_eq_mod push_bit_eq_mult)
  finally show ?thesis
    using or_disjoint [OF assms(1)] assms(2) by (simp add: unsigned_or_eq)
qed

definition vlq_value :: "u32 \<Rightarrow> 32 word" where
  "vlq_value v = (if v AND 1 = 0 then drop_bit 1 v else - drop_bit 1 v)"

lemma decode_iter_spec:
  assumes "unat v < 2 ^ shift" and "unat v + n * 2 ^ shift < 2 ^ 32" and "5 dvd shift" and "shift \<le> 30"
  shows "decode_iter (map ((!) STANDARD_ALPHABET_CHARS) (vlq_digits n) @ suf) start i shift v
    = Some \<lparr>vr_value = vlq_value (of_nat (unat v + n * 2 ^ shift)), vr_start = start + i + length (vlq_digits n)\<rparr>"
  using assms
proof (induction n arbitrary: v shift i rule: vlq_digits.induct)
  case (1 n)
  let ?d = "if n < 32 then n else n mod 32 + 32"
  let ?v = "v OR push_bit (shift mod 32) (of_nat ?d AND 31) :: u32"
  have d: "?d < 64" "?d mod 32 = n mod 32" by (auto simp: add.commute)
  have le: "unat v + n mod 32 * 2 ^ shift \<le> unat v + n * 2 ^ shift" by simp
  have "shift < 32" "unat v + ?d mod 32 * 2 ^ shift < 2 ^ 32"
    unfolding d(2) using le_less_trans [OF le "1.prems"(2)] "1.prems"(4) by simp_all
  note v = decode_or [OF "1.prems"(1) this d(1), unfolded d(2)]
  show ?case
  proof (cases "n < 32")
    case True
    have "of_nat (unat ?v) = ?v" by simp
    then have "of_nat (unat v + n * 2 ^ shift) = ?v" using v True by (metis mod_less)
    then show ?thesis
      using True d(1) lut_index [OF d(1)] unat_bit_five [OF d(1)]
      by (simp add: vlq_digits.simps [of n] vlq_value_def Let_def)
  next
    case False
    have split: "unat v + n * 2 ^ shift = unat ?v + n div 32 * 2 ^ (shift + 5)"
    proof -
      have "n * 2 ^ shift = (n mod 32 + n div 32 * 32) * 2 ^ shift" by simp
      also have "\<dots> = n mod 32 * 2 ^ shift + n div 32 * 2 ^ (shift + 5)"
        by (simp only: add_mult_distrib power_add mult.assoc) simp
      finally show ?thesis using v by simp
    qed
    have b: "unat ?v < 2 ^ (shift + 5)"
    proof -
      have "n mod 32 * 2 ^ shift \<le> 31 * 2 ^ shift" by (intro mult_right_mono) auto
      then have "unat v + n mod 32 * 2 ^ shift < 32 * 2 ^ shift" using "1.prems"(1) by linarith
      then show ?thesis unfolding v by (simp add: power_add mult.commute)
    qed
    have "(1 :: nat) * 2 ^ (shift + 5) \<le> n div 32 * 2 ^ (shift + 5)" using False by (intro mult_right_mono) auto
    then have "(2 :: nat) ^ (shift + 5) < 2 ^ 32" using split "1.prems"(2) by linarith
    then have "shift + 5 < 32" by (rule power_less_imp_less_exp [rotated]) simp
    then have s: "shift + 5 \<le> 30" using "1.prems"(3) by (auto elim!: dvdE)
    have ih: "decode_iter (map ((!) STANDARD_ALPHABET_CHARS) (vlq_digits (n div 32)) @ suf) start (i + 1) (shift + 5) ?v
      = Some \<lparr>vr_value = vlq_value (of_nat (unat ?v + n div 32 * 2 ^ (shift + 5))),
              vr_start = start + (i + 1) + length (vlq_digits (n div 32))\<rparr>"
      using "1.IH" [OF False b _ _ s, of "i + 1"] split "1.prems"(2,3) by simp
    have "decode_iter (map ((!) STANDARD_ALPHABET_CHARS) (vlq_digits n) @ suf) start i shift v
      = decode_iter (map ((!) STANDARD_ALPHABET_CHARS) (vlq_digits (n div 32)) @ suf) start (i + 1) (shift + 5) ?v"
      using False lut_index [OF d(1)] unat_bit_five [OF d(1)]
      by (subst vlq_digits.simps) (simp add: Let_def del: of_nat_add of_nat_numeral)
    then show ?thesis using ih split False by (simp add: vlq_digits.simps [of n])
  qed
qed

lemma vlq_value_unat:
  "vlq_value w = (if even (unat w) then of_nat (unat w div 2) else - of_nat (unat w div 2))"
proof -
  have "unat (w AND 1) = take_bit 1 (unat w)"
    using unsigned_take_bit_eq [of 1 w, where 'a = nat] by (simp add: and_one_eq take_bit_eq_mod mod_2_eq_odd)
  then have "w AND 1 = 0 \<longleftrightarrow> even (unat w)" by (simp add: take_bit_eq_mod even_iff_mod_2_eq_zero flip: unat_eq_zero)
  moreover have "drop_bit 1 w = of_nat (unat w div 2)"
  proof -
    have "unat (drop_bit 1 w) = unat w div 2" by (simp only: unat_drop_bit_eq drop_bit_eq_div [of 1 "unat w"]) simp
    then show ?thesis by (metis word_of_nat_eq_iff unat_of_nat word_unat_eq_iff take_bit_eq_mod unsigned_less mod_less)
  qed
  ultimately show ?thesis by (simp add: vlq_value_def)
qed

lemma sint_nonneg_iff: "0 \<le> sint (w :: 32 word) \<longleftrightarrow> unat w < 2 ^ 31"
proof -
  have "bit w 31 \<longleftrightarrow> bit (unat w) 31" by (simp add: bit_unsigned_iff)
  also have "\<dots> \<longleftrightarrow> 2 ^ 31 \<le> unat w"
  proof -
    have "unat w div 2 ^ 31 < 2" using unat_u32_less [of w] by (simp add: less_mult_imp_div_less)
    then have "odd (unat w div 2 ^ 31) \<longleftrightarrow> unat w div 2 ^ 31 = 1" by (auto simp: less_Suc_eq numeral_2_eq_2)
    also have "\<dots> \<longleftrightarrow> 2 ^ 31 \<le> unat w" using \<open>unat w div 2 ^ 31 < 2\<close> by (auto simp: div_eq_0_iff intro!: antisym)
    finally show ?thesis by (simp add: bit_iff_odd)
  qed
  finally show ?thesis using bit_last_iff [of w] by (simp add: not_less) linarith
qed
lemma unat_double: "unat w < 2 ^ 31 \<Longrightarrow> unat (push_bit 1 w :: u32) = 2 * unat w"
proof -
  assume w: "unat w < 2 ^ 31"
  have "unat (push_bit 1 w) = take_bit 32 (push_bit 1 (unat w))"
    using unsigned_push_bit_eq [of 1 w, where 'a = nat] by simp
  then show ?thesis using w by (simp add: take_bit_eq_mod push_bit_eq_mult)
qed

text \<open>The number whose digits are written, and what it decodes to.\<close>

definition vlq_number :: "32 word \<Rightarrow> u32" where
  "vlq_number num = (if 0 \<le> sint num then push_bit 1 num else push_bit 1 (- num) OR 1)"

lemma vlq_value_number:
  assumes "num \<noteq> 0x80000000"
  shows "vlq_value (vlq_number num) = num"
proof (cases "unat num < 2 ^ 31")
  case True
  then have "unat (vlq_number num) = 2 * unat num"
    using unat_double [OF True] by (simp only: vlq_number_def sint_nonneg_iff) simp
  then show ?thesis by (simp add: vlq_value_unat)
next
  case False
  have "unat num \<noteq> 2 ^ 31" using assms by (simp add: word_unat_eq_iff)
  have "(unat (- num) + unat num) mod 2 ^ 32 = 0" using unat_word_ariths(1) [of "- num" num] by simp
  then have "2 ^ 32 dvd unat (- num) + unat num" by (simp add: mod_eq_0_iff_dvd)
  then have "unat (- num) + unat num = 2 ^ 32"
    using unat_u32_less [of num] unat_u32_less [of "- num"] False by (auto elim!: dvdE)
  then have m: "unat (- num) < 2 ^ 31" using False \<open>unat num \<noteq> 2 ^ 31\<close> by simp
  have "unat (push_bit 1 (- num) OR 1) = 2 * unat (- num) + 1"
  proof -
    have "unat (push_bit 1 (- num) OR 1) = 2 * unat (- num) OR 1"
      by (simp only: unsigned_or_eq unat_double [OF m] unsigned_1)
    also have "\<dots> = 1 OR push_bit 1 (unat (- num))" by (simp add: or.commute push_bit_eq_mult mult.commute)
    finally show ?thesis using or_disjoint [of 1 1 "unat (- num)"] by simp
  qed
  then have "unat (vlq_number num) = 2 * unat (- num) + 1"
    using False by (simp add: vlq_number_def sint_nonneg_iff)
  then show ?thesis by (simp add: vlq_value_unat)
qed

lemma VLQ_encode_eq: "VLQ_encode num = encode_slow_path num"
proof -
  have "VLQ_LOOKUP_TABLE ! nat (sint num) = encode_slow_path num" if "0 \<le> sint num" "sint num \<le> 255"
  proof -
    have "of_nat (nat (sint num)) = num" using that(1) by (simp add: of_nat_nat)
    then show ?thesis using that by (simp add: VLQ_LOOKUP_TABLE_def)
  qed
  then show ?thesis by (simp add: VLQ_encode_def)
qed

lemma VLQ_encode_spec:
  "VLQ_slice (VLQ_encode num) = map ((!) STANDARD_ALPHABET_CHARS) (vlq_digits (unat (vlq_number num)))
    \<and> vlq_len (VLQ_encode num) = length (vlq_digits (unat (vlq_number num)))"
proof -
  have "unat (vlq_number num) < 32 ^ 7" using unat_u32_less [of "vlq_number num"] by simp
  then show ?thesis
    using encode_iter_spec [of "vlq_number num" 0 0 "replicate 7 (CHR 0x00)"]
    by (simp add: VLQ_encode_eq encode_slow_path_def vlq_number_def VLQ_MAX_IN_BYTES_def)
qed

lemma decode_window:
  "length xs \<le> 8 \<Longrightarrow> take (min (length (pre @ xs @ suf) - length pre) 8) (drop (length pre) (pre @ xs @ suf))
     = xs @ take (8 - length xs) suf"
  by (simp add: min_def)

section \<open>Properties\<close>

text \<open>
  C39. Every \<open>i32\<close> but the smallest is read back: decoding at the start of its encoding, in any text,
  gives the number and the position after it. An encoding has one to seven characters.
\<close>

theorem vlq_roundtrip:
  assumes "num \<noteq> 0x80000000"
  shows "vlq_decode (pre @ VLQ_slice (VLQ_encode num) @ suf) (length pre)
      = Some \<lparr>vr_value = num, vr_start = length pre + vlq_len (VLQ_encode num)\<rparr>
    \<and> vlq_len (VLQ_encode num) \<in> {1..7} \<and> length (VLQ_slice (VLQ_encode num)) = vlq_len (VLQ_encode num)"
proof -
  let ?n = "unat (vlq_number num)"
  let ?ds = "vlq_digits ?n" and ?xs = "VLQ_slice (VLQ_encode num)"
  have len: "length ?ds \<le> 7" using length_vlq_digits [of ?n 7] unat_u32_less [of "vlq_number num"] by simp
  have pos: "0 < length ?ds" by (simp add: vlq_digits.simps)
  have "decode_iter (?xs @ take (8 - length ?xs) suf) (length pre) 0 0 0
      = Some \<lparr>vr_value = num, vr_start = length pre + length ?ds\<rparr>"
    using decode_iter_spec [of 0 0 ?n "take (8 - length ?xs) suf" "length pre" 0] VLQ_encode_spec [of num]
      vlq_value_number [OF assms] unat_u32_less [of "vlq_number num"] by simp
  then have "vlq_decode (pre @ ?xs @ suf) (length pre) = Some \<lparr>vr_value = num, vr_start = length pre + length ?ds\<rparr>"
    using decode_window [of ?xs pre suf] len VLQ_encode_spec [of num]
    by (simp add: vlq_decode_def decode_impl_def VLQ_MAX_IN_BYTES_def Let_def)
  then show ?thesis using VLQ_encode_spec [of num] len pos by (simp add: Suc_le_eq)
qed

theorem vlq_roundtrip_witness:
  "vlq_decode (''AA'' @ VLQ_slice (VLQ_encode (- 1000)) @ '',x'') (length ''AA'')
     = Some \<lparr>vr_value = - 1000, vr_start = length ''AA'' + vlq_len (VLQ_encode (- 1000))\<rparr>"
proof -
  have "(- 1000 :: 32 word) \<noteq> 0x80000000" by simp
  from vlq_roundtrip [OF this, of "''AA''" "'',x''"] show ?thesis by blast
qed

end
