(* ===== verification/Futex_Mutex.thy ===== *)
theory Futex_Mutex
  imports Bun_Prelude
begin

unbundle bit_operations_syntax

text \<open>
  \<open>FutexImpl\<close> of \<open>src/src/threading/Mutex.rs\<close>, the mutex of the Linux builds: one 32-bit word with the
  values unlocked, locked and contended, and a futex on its address. The model is the x86 path, where
  \<open>try_lock\<close> is an atomic or.

  Every atomic access of the word is one step, and the threads' steps interleave in any order. The
  futex enters by the documentation of \<open>src/src/threading/Futex.rs\<close>: \<open>wait\<close> compares the word and puts
  the thread to sleep in one atomic step, \<open>wake\<close> wakes one sleeping thread if there is one, and a
  thread may also wake up on its own. A thread's place between two steps is its \<open>place\<close>.
\<close>

section \<open>Steps\<close>

definition UNLOCKED :: u32 where
  "UNLOCKED = 0"

definition LOCKED :: u32 where
  "LOCKED = 1"

definition CONTENDED :: u32 where
  "CONTENDED = 3"

datatype place =
    Outside
  | SlowLoad
  | FutexWait
  | SlowSwap
  | Asleep
  | Critical
  | FutexWake

text \<open>The result of \<open>try_lock\<close> and the word after it.\<close>

definition mutex_try_lock :: "u32 \<Rightarrow> bool \<times> u32" where
  "mutex_try_lock st = (st AND LOCKED = 0, st OR LOCKED)"

definition mutex_lock :: "u32 \<Rightarrow> u32 \<times> place" where
  "mutex_lock st = (case mutex_try_lock st of (ok, st') \<Rightarrow> (st', if ok then Critical else SlowLoad))"

text \<open>
  The three accesses of \<open>lock_slow\<close>: the load, the comparison inside the futex wait, the swap. The load is
  relaxed; it is modelled as reading the current word, as x86 gives it for a word that is only written by
  locked instructions.
\<close>

fun lock_slow :: "place \<Rightarrow> u32 \<Rightarrow> u32 \<times> place" where
  "lock_slow SlowLoad st = (st, if st = CONTENDED then FutexWait else SlowSwap)"
| "lock_slow FutexWait st = (st, if st = CONTENDED then Asleep else SlowSwap)"
| "lock_slow SlowSwap st = (CONTENDED, if st \<noteq> UNLOCKED then FutexWait else Critical)"
| "lock_slow p st = (st, p)"

definition mutex_unlock :: "u32 \<Rightarrow> u32 \<times> place" where
  "mutex_unlock st = (UNLOCKED, if st = CONTENDED then FutexWake else Outside)"

record mutex_state =
  mx_word :: u32
  mx_threads :: "place list"

inductive mutex_step :: "mutex_state \<Rightarrow> mutex_state \<Rightarrow> bool" where
  lock: "i < length (mx_threads s) \<Longrightarrow> mx_threads s ! i = Outside \<Longrightarrow> mutex_lock (mx_word s) = (w, p) \<Longrightarrow>
    mutex_step s (s\<lparr>mx_word := w, mx_threads := (mx_threads s)[i := p]\<rparr>)"
| try_lock: "i < length (mx_threads s) \<Longrightarrow> mx_threads s ! i = Outside \<Longrightarrow> mutex_try_lock (mx_word s) = (ok, w) \<Longrightarrow>
    mutex_step s (s\<lparr>mx_word := w, mx_threads := (mx_threads s)[i := if ok then Critical else Outside]\<rparr>)"
| slow: "i < length (mx_threads s) \<Longrightarrow> mx_threads s ! i \<in> {SlowLoad, FutexWait, SlowSwap} \<Longrightarrow>
    lock_slow (mx_threads s ! i) (mx_word s) = (w, p) \<Longrightarrow>
    mutex_step s (s\<lparr>mx_word := w, mx_threads := (mx_threads s)[i := p]\<rparr>)"
| unlock: "i < length (mx_threads s) \<Longrightarrow> mx_threads s ! i = Critical \<Longrightarrow> mutex_unlock (mx_word s) = (w, p) \<Longrightarrow>
    mutex_step s (s\<lparr>mx_word := w, mx_threads := (mx_threads s)[i := p]\<rparr>)"
| wake_one: "i < length (mx_threads s) \<Longrightarrow> mx_threads s ! i = FutexWake \<Longrightarrow>
    j < length (mx_threads s) \<Longrightarrow> mx_threads s ! j = Asleep \<Longrightarrow>
    mutex_step s (s\<lparr>mx_threads := (mx_threads s)[j := SlowSwap, i := Outside]\<rparr>)"
| wake_none: "i < length (mx_threads s) \<Longrightarrow> mx_threads s ! i = FutexWake \<Longrightarrow> Asleep \<notin> set (mx_threads s) \<Longrightarrow>
    mutex_step s (s\<lparr>mx_threads := (mx_threads s)[i := Outside]\<rparr>)"
| spurious: "i < length (mx_threads s) \<Longrightarrow> mx_threads s ! i = Asleep \<Longrightarrow>
    mutex_step s (s\<lparr>mx_threads := (mx_threads s)[i := SlowSwap]\<rparr>)"

definition mutex_init :: "nat \<Rightarrow> mutex_state" where
  "mutex_init n = \<lparr>mx_word = UNLOCKED, mx_threads = replicate n Outside\<rparr>"

section \<open>Invariant\<close>

text \<open>
  The word is unlocked exactly when no thread is in the critical section, otherwise one is. While a
  thread sleeps, the word says so, or a thread is about to wake it, or a thread is about to swap
  \<open>contended\<close> into the word.
\<close>

definition mutex_inv :: "mutex_state \<Rightarrow> bool" where
  "mutex_inv s \<longleftrightarrow>
     mx_word s \<in> {UNLOCKED, LOCKED, CONTENDED}
     \<and> number ((=) Critical) (mx_threads s) = (if mx_word s = UNLOCKED then 0 else 1)
     \<and> (0 < number ((=) Asleep) (mx_threads s) \<longrightarrow> mx_word s = CONTENDED
          \<or> 0 < number ((=) FutexWake) (mx_threads s) \<or> 0 < number ((=) SlowSwap) (mx_threads s))"

lemmas mutex_words = UNLOCKED_def LOCKED_def CONTENDED_def

lemma mutex_bits:
  "UNLOCKED AND LOCKED = 0" "LOCKED AND LOCKED \<noteq> 0" "CONTENDED AND LOCKED \<noteq> 0"
  "UNLOCKED OR LOCKED = LOCKED" "LOCKED OR LOCKED = LOCKED" "CONTENDED OR LOCKED = CONTENDED"
  "UNLOCKED \<noteq> LOCKED" "UNLOCKED \<noteq> CONTENDED" "LOCKED \<noteq> CONTENDED" "LOCKED \<noteq> UNLOCKED" "CONTENDED \<noteq> UNLOCKED"
  "CONTENDED \<noteq> LOCKED" "LOCKED \<noteq> 0"
  by (simp_all add: mutex_words)

text \<open>One thread moves from \<open>mx_threads s ! i\<close> to \<open>p\<close> and the word becomes \<open>w\<close>.\<close>

lemma mutex_inv_move:
  assumes "mutex_inv s" and i: "i < length (mx_threads s)" and "w \<in> {UNLOCKED, LOCKED, CONTENDED}"
    and crit: "(if w = UNLOCKED then 0 else 1) + of_bool (mx_threads s ! i = Critical)
      = (if mx_word s = UNLOCKED then 0 else 1) + (of_bool (p = Critical) :: nat)"
    and sleep: "p = Asleep \<Longrightarrow> w = CONTENDED" "mx_word s = CONTENDED \<Longrightarrow> w = CONTENDED \<or> p = FutexWake"
      "mx_threads s ! i = SlowSwap \<Longrightarrow> w = CONTENDED" "mx_threads s ! i = FutexWake \<Longrightarrow> Asleep \<notin> set (mx_threads s) \<or> SlowSwap \<in> set (mx_threads s)"
  shows "mutex_inv (s\<lparr>mx_word := w, mx_threads := (mx_threads s)[i := p]\<rparr>)"
proof -
  let ?ts = "mx_threads s" and ?ts' = "(mx_threads s)[i := p]"
  have inv: "number ((=) Critical) ?ts = (if mx_word s = UNLOCKED then 0 else 1)"
    "0 < number ((=) Asleep) ?ts \<Longrightarrow> mx_word s = CONTENDED \<or> 0 < number ((=) FutexWake) ?ts \<or> 0 < number ((=) SlowSwap) ?ts"
    using assms(1) by (auto simp: mutex_inv_def)
  have up: "number ((=) q) ?ts' + of_bool (?ts ! i = q) = number ((=) q) ?ts + of_bool (p = q)" for q
    using number_update [OF i, of "(=) q" p] by (simp add: eq_commute)
  have "number ((=) Critical) ?ts' = (if w = UNLOCKED then 0 else 1)"
    using up [of Critical] inv(1) crit by linarith
  moreover have "w = CONTENDED \<or> 0 < number ((=) FutexWake) ?ts' \<or> 0 < number ((=) SlowSwap) ?ts'"
    if a: "0 < number ((=) Asleep) ?ts'"
  proof (cases "p = Asleep")
    case False
    then have a: "0 < number ((=) Asleep) ?ts" using a up [of Asleep] by simp
    then have nw: "0 < number ((=) SlowSwap) ?ts" if "?ts ! i = FutexWake"
      using sleep(4) [OF that] unfolding number_exists by auto
    consider "mx_word s = CONTENDED" | "0 < number ((=) FutexWake) ?ts" "?ts ! i \<noteq> FutexWake" | "0 < number ((=) SlowSwap) ?ts"
      using inv(2) [OF a] nw by metis
    then show ?thesis
    proof cases
      case 1
      then show ?thesis using sleep(2) number_pos [of i ?ts' "(=) FutexWake"] i by auto
    next
      case 2
      then show ?thesis using up [of FutexWake] by simp
    next
      case 3
      then show ?thesis using sleep(3) up [of SlowSwap] by (cases "?ts ! i = SlowSwap") auto
    qed
  qed (use sleep(1) in simp)
  ultimately show ?thesis using assms(3) by (simp add: mutex_inv_def)
qed

lemma mutex_step_inv:
  assumes "mutex_step s s'" and "mutex_inv s"
  shows "mutex_inv s'"
proof -
  have w: "mx_word s \<in> {UNLOCKED, LOCKED, CONTENDED}" using assms(2) by (simp add: mutex_inv_def)
  show ?thesis
    using assms(1)
  proof (cases rule: mutex_step.cases)
    case (lock i v p)
    then show ?thesis
      using w unfolding lock(1)
      by (intro mutex_inv_move [OF assms(2)]) (auto simp: mutex_lock_def mutex_try_lock_def mutex_bits)
  next
    case (try_lock i ok v)
    then show ?thesis
      using w unfolding try_lock(1)
      by (intro mutex_inv_move [OF assms(2)]) (auto simp: mutex_try_lock_def mutex_bits)
  next
    case (slow i v p)
    then show ?thesis
      using w unfolding slow(1)
      by (intro mutex_inv_move [OF assms(2)]) (auto simp: mutex_bits split: if_splits)
  next
    case (unlock i v p)
    have "0 < number ((=) Critical) (mx_threads s)"
      using number_pos [OF unlock(2), of "(=) Critical"] unlock(3) by simp
    then have "mx_word s \<noteq> UNLOCKED" using assms(2) by (auto simp: mutex_inv_def)
    then show ?thesis
      using unlock w unfolding unlock(1)
      by (intro mutex_inv_move [OF assms(2)]) (auto simp: mutex_unlock_def mutex_bits split: if_splits)
  next
    case (wake_one i j)
    let ?s1 = "s\<lparr>mx_word := mx_word s, mx_threads := (mx_threads s)[j := SlowSwap]\<rparr>"
    have s1: "mutex_inv ?s1"
      using wake_one(5) w by (intro mutex_inv_move [OF assms(2) wake_one(4)]) auto
    have ij: "(mx_threads s)[j := SlowSwap] ! i = FutexWake" "SlowSwap \<in> set ((mx_threads s)[j := SlowSwap])"
      using wake_one(2-5) by (auto simp: nth_list_update set_update_memI)
    have "mutex_inv (?s1\<lparr>mx_word := mx_word s, mx_threads := (mx_threads ?s1)[i := Outside]\<rparr>)"
      using wake_one(2) ij w by (intro mutex_inv_move [OF s1]) auto
    then show ?thesis using wake_one(1) by simp
  next
    case (wake_none i)
    then show ?thesis
      using mutex_inv_move [OF assms(2) wake_none(2) w, of Outside] by (auto split: if_splits)
  next
    case (spurious i)
    then show ?thesis
      using mutex_inv_move [OF assms(2) spurious(2) w, of SlowSwap] by (auto split: if_splits)
  qed
qed

lemma mutex_init_inv: "mutex_inv (mutex_init n)"
  by (simp add: mutex_inv_def mutex_init_def number_def)

interpretation futex_mutex: safe_steps "\<lambda>s. s = mutex_init n" mutex_step "\<lambda>s. mutex_inv s \<and> length (mx_threads s) = n"
  for n
proof unfold_locales
  show "s = mutex_init n \<Longrightarrow> mutex_inv s \<and> length (mx_threads s) = n" for s
    by (simp add: mutex_init_inv) (simp add: mutex_init_def)
next
  fix s t assume "mutex_step s t" and "mutex_inv s \<and> length (mx_threads s) = n"
  then show "mutex_inv t \<and> length (mx_threads t) = n"
    using mutex_step_inv [of s t] by (auto elim: mutex_step.cases)
qed

lemma mutex_reachable_inv: "mutex_step\<^sup>*\<^sup>* (mutex_init n) s \<Longrightarrow> mutex_inv s"
  using futex_mutex.reachable_inv [of "mutex_init n" s n] by simp

lemma mutex_reachable_length: "mutex_step\<^sup>*\<^sup>* (mutex_init n) s \<Longrightarrow> length (mx_threads s) = n"
  using futex_mutex.reachable_inv [of "mutex_init n" s n] by simp

section \<open>Properties\<close>

text \<open>
  C34. Mutual exclusion: in every interleaving of \<open>lock\<close>, \<open>try_lock\<close> and \<open>unlock\<close>, with any futex
  wake-ups, at most one thread is in the critical section, and the word is unlocked exactly when none
  is.
\<close>

theorem mutex_exclusion:
  assumes "mutex_step\<^sup>*\<^sup>* (mutex_init n) s"
  shows "(\<forall>i<n. \<forall>j<n. mx_threads s ! i = Critical \<and> mx_threads s ! j = Critical \<longrightarrow> i = j)
    \<and> (mx_word s = UNLOCKED \<longleftrightarrow> Critical \<notin> set (mx_threads s))"
proof -
  have c: "number ((=) Critical) (mx_threads s) = (if mx_word s = UNLOCKED then 0 else 1)"
    using mutex_reachable_inv [OF assms] by (simp add: mutex_inv_def)
  then have "number ((=) Critical) (mx_threads s) \<le> 1" by simp
  then have "\<forall>i<n. \<forall>j<n. mx_threads s ! i = Critical \<and> mx_threads s ! j = Critical \<longrightarrow> i = j"
    using number_le_one [of "(=) Critical" "mx_threads s"] mutex_reachable_length [OF assms] by metis
  then show ?thesis
    using c number_exists [of "(=) Critical" "mx_threads s"] by (auto split: if_splits)
qed

text \<open>Two threads: the first holds the mutex, the second finds it locked and goes to sleep.\<close>

definition two_threads :: "u32 \<Rightarrow> place \<Rightarrow> place \<Rightarrow> mutex_state" where
  "two_threads w p q = \<lparr>mx_word = w, mx_threads = [p, q]\<rparr>"

lemma sleeper_run: "mutex_step\<^sup>*\<^sup>* (mutex_init 2) (two_threads UNLOCKED FutexWake Asleep)"
proof -
  have i: "mutex_init 2 = two_threads UNLOCKED Outside Outside" by (simp add: mutex_init_def two_threads_def numeral_2_eq_2)
  have "mutex_step (two_threads UNLOCKED Outside Outside) (two_threads LOCKED Critical Outside)"
    using mutex_step.lock [of 0 "two_threads UNLOCKED Outside Outside"]
    by (simp add: two_threads_def mutex_lock_def mutex_try_lock_def mutex_bits)
  moreover have "mutex_step (two_threads LOCKED Critical Outside) (two_threads LOCKED Critical SlowLoad)"
    using mutex_step.lock [of 1 "two_threads LOCKED Critical Outside"]
    by (simp add: two_threads_def mutex_lock_def mutex_try_lock_def mutex_bits)
  moreover have "mutex_step (two_threads LOCKED Critical SlowLoad) (two_threads LOCKED Critical SlowSwap)"
    using mutex_step.slow [of 1 "two_threads LOCKED Critical SlowLoad"] by (simp add: two_threads_def mutex_bits)
  moreover have "mutex_step (two_threads LOCKED Critical SlowSwap) (two_threads CONTENDED Critical FutexWait)"
    using mutex_step.slow [of 1 "two_threads LOCKED Critical SlowSwap"] by (simp add: two_threads_def mutex_bits)
  moreover have "mutex_step (two_threads CONTENDED Critical FutexWait) (two_threads CONTENDED Critical Asleep)"
    using mutex_step.slow [of 1 "two_threads CONTENDED Critical FutexWait"] by (simp add: two_threads_def mutex_bits)
  moreover have "mutex_step (two_threads CONTENDED Critical Asleep) (two_threads UNLOCKED FutexWake Asleep)"
    using mutex_step.unlock [of 0 "two_threads CONTENDED Critical Asleep"]
    by (simp add: two_threads_def mutex_unlock_def mutex_bits)
  ultimately show ?thesis unfolding i by (meson rtranclp.rtrancl_refl rtranclp.rtrancl_into_rtrancl)
qed

theorem mutex_exclusion_witness:
  "\<not> (mx_threads (two_threads UNLOCKED FutexWake Asleep) ! 0 = Critical
      \<and> mx_threads (two_threads UNLOCKED FutexWake Asleep) ! 1 = Critical)
    \<and> Critical \<notin> set (mx_threads (two_threads UNLOCKED FutexWake Asleep))"
proof -
  have "(0::nat) < 2" "(1::nat) < 2" "(0::nat) \<noteq> 1" by simp_all
  then show ?thesis using mutex_exclusion [OF sleeper_run] by (auto simp: two_threads_def)
qed

text \<open>
  C35. No sleeper is stranded: whenever a thread sleeps on the futex, the word is contended (so that the
  holder's \<open>unlock\<close> will wake a thread), or a thread is about to call the futex wake, or a thread is
  about to swap \<open>contended\<close> in; in particular one of the latter two when the mutex is free.
\<close>

theorem mutex_no_stranded_sleeper:
  assumes "mutex_step\<^sup>*\<^sup>* (mutex_init n) s" and "Asleep \<in> set (mx_threads s)"
  shows "mx_word s = CONTENDED \<and> Critical \<in> set (mx_threads s)
    \<or> FutexWake \<in> set (mx_threads s) \<or> SlowSwap \<in> set (mx_threads s)"
proof -
  have inv: "mutex_inv s" by (rule mutex_reachable_inv [OF assms(1)])
  have "0 < number ((=) Asleep) (mx_threads s)" using assms(2) number_exists [of "(=) Asleep"] by blast
  then have "mx_word s = CONTENDED \<or> FutexWake \<in> set (mx_threads s) \<or> SlowSwap \<in> set (mx_threads s)"
    using inv number_exists [of "(=) FutexWake" "mx_threads s"] number_exists [of "(=) SlowSwap" "mx_threads s"]
    by (auto simp: mutex_inv_def)
  moreover have "Critical \<in> set (mx_threads s)" if "mx_word s = CONTENDED"
  proof -
    have "number ((=) Critical) (mx_threads s) = 1" using inv that by (simp add: mutex_inv_def mutex_bits)
    then show ?thesis using number_exists [of "(=) Critical" "mx_threads s"] by simp
  qed
  ultimately show ?thesis by blast
qed

theorem mutex_no_stranded_sleeper_witness:
  "FutexWake \<in> set (mx_threads (two_threads UNLOCKED FutexWake Asleep))"
proof -
  have "Asleep \<in> set (mx_threads (two_threads UNLOCKED FutexWake Asleep))" by (simp add: two_threads_def)
  from mutex_no_stranded_sleeper [OF sleeper_run this] show ?thesis by (simp add: two_threads_def)
qed

end
