(* ===== verification/Rw_Lock.thy ===== *)
theory Rw_Lock
  imports Bun_Prelude
begin

unbundle bit_operations_syntax

text \<open>
  \<open>RawRwLock\<close> of \<open>src/src/threading/RwLock.rs\<close>: a readers-writer lock over one 64-bit word (the
  writing flag, the number of waiting writers, the number of readers), a mutex and a semaphore.

  Every atomic access of the word and every operation on the mutex and the semaphore is one step, and
  the threads' steps interleave in any order; all accesses of the word are sequentially consistent in
  the code. The mutex is a flag, as mutual exclusion of \<open>Mutex\<close> allows, and the semaphore is its number
  of permits. An operation is a function from a thread's place and the shared memory to the next place
  and memory; \<open>None\<close> means that it does not continue from there, or has to wait.
\<close>

section \<open>The lock\<close>

definition COUNT_BITS :: nat where
  "COUNT_BITS = (64 - 1) div 2"

definition COUNT_MAX :: u64 where
  "COUNT_MAX = push_bit COUNT_BITS 1 - 1"

definition IS_WRITING :: u64 where
  "IS_WRITING = 1"

definition WRITER :: u64 where
  "WRITER = push_bit 1 1"

definition READER :: u64 where
  "READER = push_bit (1 + COUNT_BITS) 1"

definition WRITER_MASK :: u64 where
  "WRITER_MASK = push_bit 1 COUNT_MAX"

definition READER_MASK :: u64 where
  "READER_MASK = push_bit (1 + COUNT_BITS) COUNT_MAX"

record rw_memory =
  rw_word :: u64
  rw_mutex :: bool
  rw_permits :: nat

datatype rw_place =
    Idle
  | LockMutex | LockAdd | LockSemaphore | Writing | UnlockMutex
  | TryLoad | TrySet | TryUnlock
  | SharedCheck u64 | SharedMutex | SharedAdd | SharedUnlock | Reading | SharedPost
  | TrySharedCheck u64 | TrySharedMutex

fun raw_try_lock :: "rw_place \<Rightarrow> rw_memory \<Rightarrow> (rw_memory \<times> rw_place) option" where
  "raw_try_lock Idle m = Some (if rw_mutex m then (m, Idle) else (m\<lparr>rw_mutex := True\<rparr>, TryLoad))"
| "raw_try_lock TryLoad m = Some (m, if rw_word m AND READER_MASK = 0 then TrySet else TryUnlock)"
| "raw_try_lock TrySet m = Some (m\<lparr>rw_word := rw_word m OR IS_WRITING\<rparr>, Writing)"
| "raw_try_lock TryUnlock m = Some (m\<lparr>rw_mutex := False\<rparr>, Idle)"
| "raw_try_lock _ m = None"

fun raw_lock :: "rw_place \<Rightarrow> rw_memory \<Rightarrow> (rw_memory \<times> rw_place) option" where
  "raw_lock Idle m = Some (m\<lparr>rw_word := rw_word m + WRITER\<rparr>, LockMutex)"
| "raw_lock LockMutex m = (if rw_mutex m then None else Some (m\<lparr>rw_mutex := True\<rparr>, LockAdd))"
| "raw_lock LockAdd m =
     Some (m\<lparr>rw_word := rw_word m + (IS_WRITING - WRITER)\<rparr>,
           if rw_word m AND READER_MASK \<noteq> 0 then LockSemaphore else Writing)"
| "raw_lock LockSemaphore m =
     (if rw_permits m = 0 then None else Some (m\<lparr>rw_permits := rw_permits m - 1\<rparr>, Writing))"
| "raw_lock _ m = None"

fun raw_unlock :: "rw_place \<Rightarrow> rw_memory \<Rightarrow> (rw_memory \<times> rw_place) option" where
  "raw_unlock Writing m = Some (m\<lparr>rw_word := rw_word m AND NOT IS_WRITING\<rparr>, UnlockMutex)"
| "raw_unlock UnlockMutex m = Some (m\<lparr>rw_mutex := False\<rparr>, Idle)"
| "raw_unlock _ m = None"

text \<open>The compare-and-exchange of \<open>lock_shared\<close> may fail for no reason, see \<open>weak_failure\<close> below.\<close>

fun raw_lock_shared :: "rw_place \<Rightarrow> rw_memory \<Rightarrow> (rw_memory \<times> rw_place) option" where
  "raw_lock_shared Idle m = Some (m, SharedCheck (rw_word m))"
| "raw_lock_shared (SharedCheck st) m =
     (if st AND (IS_WRITING OR WRITER_MASK) = 0 then
        if rw_word m = st then Some (m\<lparr>rw_word := st + READER\<rparr>, Reading)
        else Some (m, SharedCheck (rw_word m))
      else Some (m, SharedMutex))"
| "raw_lock_shared SharedMutex m = (if rw_mutex m then None else Some (m\<lparr>rw_mutex := True\<rparr>, SharedAdd))"
| "raw_lock_shared SharedAdd m = Some (m\<lparr>rw_word := rw_word m + READER\<rparr>, SharedUnlock)"
| "raw_lock_shared SharedUnlock m = Some (m\<lparr>rw_mutex := False\<rparr>, Reading)"
| "raw_lock_shared _ m = None"

fun raw_try_lock_shared :: "rw_place \<Rightarrow> rw_memory \<Rightarrow> (rw_memory \<times> rw_place) option" where
  "raw_try_lock_shared Idle m = Some (m, TrySharedCheck (rw_word m))"
| "raw_try_lock_shared (TrySharedCheck st) m =
     (if st AND (IS_WRITING OR WRITER_MASK) = 0 \<and> rw_word m = st
      then Some (m\<lparr>rw_word := st + READER\<rparr>, Reading)
      else Some (m, TrySharedMutex))"
| "raw_try_lock_shared TrySharedMutex m =
     Some (if rw_mutex m then (m, Idle) else (m\<lparr>rw_mutex := True\<rparr>, SharedAdd))"
| "raw_try_lock_shared SharedAdd m = Some (m\<lparr>rw_word := rw_word m + READER\<rparr>, SharedUnlock)"
| "raw_try_lock_shared SharedUnlock m = Some (m\<lparr>rw_mutex := False\<rparr>, Reading)"
| "raw_try_lock_shared _ m = None"

fun raw_unlock_shared :: "rw_place \<Rightarrow> rw_memory \<Rightarrow> (rw_memory \<times> rw_place) option" where
  "raw_unlock_shared Reading m =
     Some (m\<lparr>rw_word := rw_word m - READER\<rparr>,
           if rw_word m AND READER_MASK = READER \<and> rw_word m AND IS_WRITING \<noteq> 0 then SharedPost else Idle)"
| "raw_unlock_shared SharedPost m = Some (m\<lparr>rw_permits := rw_permits m + 1\<rparr>, Idle)"
| "raw_unlock_shared _ m = None"

section \<open>Interleaving\<close>

record rw_state =
  rs_memory :: rw_memory
  rs_threads :: "rw_place list"

datatype rw_call = TryLock | Lock | Unlock | LockShared | TryLockShared | UnlockShared

fun rw_call_step :: "rw_call \<Rightarrow> rw_place \<Rightarrow> rw_memory \<Rightarrow> (rw_memory \<times> rw_place) option" where
  "rw_call_step TryLock = raw_try_lock"
| "rw_call_step Lock = raw_lock"
| "rw_call_step Unlock = raw_unlock"
| "rw_call_step LockShared = raw_lock_shared"
| "rw_call_step TryLockShared = raw_try_lock_shared"
| "rw_call_step UnlockShared = raw_unlock_shared"

text \<open>Steps of programs that make the calls in \<open>calls\<close> only.\<close>

inductive rw_step :: "rw_call set \<Rightarrow> rw_state \<Rightarrow> rw_state \<Rightarrow> bool" for calls where
  step: "i < length (rs_threads s) \<Longrightarrow> c \<in> calls \<Longrightarrow>
    rw_call_step c (rs_threads s ! i) (rs_memory s) = Some (m, p) \<Longrightarrow>
    rw_step calls s (s\<lparr>rs_memory := m, rs_threads := (rs_threads s)[i := p]\<rparr>)"
| weak_failure: "i < length (rs_threads s) \<Longrightarrow> rs_threads s ! i = SharedCheck st \<Longrightarrow>
    rw_step calls s (s\<lparr>rs_threads := (rs_threads s)[i := SharedCheck (rw_word (rs_memory s))]\<rparr>)"

definition rw_init :: "nat \<Rightarrow> rw_state" where
  "rw_init n =
     \<lparr>rs_memory = \<lparr>rw_word = 0, rw_mutex = False, rw_permits = 0\<rparr>, rs_threads = replicate n Idle\<rparr>"

section \<open>The word as three numbers\<close>

definition rw_fields :: "nat \<Rightarrow> nat \<Rightarrow> nat \<Rightarrow> u64" where
  "rw_fields f w r = of_nat (f + 2 * w + 2 ^ 32 * r)"

lemmas rw_consts = COUNT_BITS_def COUNT_MAX_def IS_WRITING_def WRITER_def READER_def WRITER_MASK_def READER_MASK_def

lemma rw_fields_add:
  "rw_fields f w r + WRITER = rw_fields f (w + 1) r"
  "rw_fields f w r + READER = rw_fields f w (r + 1)"
  "0 < w \<Longrightarrow> rw_fields f w r + (IS_WRITING - WRITER) = rw_fields (f + 1) (w - 1) r"
  "0 < r \<Longrightarrow> rw_fields f w r - READER = rw_fields f w (r - 1)"
proof -
  show "rw_fields f w r + WRITER = rw_fields f (w + 1) r" by (simp add: rw_fields_def rw_consts algebra_simps)
  show "rw_fields f w r + READER = rw_fields f w (r + 1)" by (simp add: rw_fields_def rw_consts algebra_simps)
  show "rw_fields f w r + (IS_WRITING - WRITER) = rw_fields (f + 1) (w - 1) r" if "0 < w"
    using that by (cases w) (simp_all add: rw_fields_def rw_consts algebra_simps)
  show "rw_fields f w r - READER = rw_fields f w (r - 1)" if "0 < r"
    using that by (cases r) (simp_all add: rw_fields_def rw_consts algebra_simps)
qed

lemma unat_rw_fields: "f \<le> 1 \<Longrightarrow> w < 2 ^ 31 \<Longrightarrow> r < 2 ^ 31 \<Longrightarrow> unat (rw_fields f w r) = f + 2 * w + 2 ^ 32 * r"
  unfolding rw_fields_def by (subst unat_of_nat) simp

lemma unat_take_bit_u64: "unat (take_bit n w :: u64) = unat w mod 2 ^ n"
proof -
  have "unat (take_bit n w) = take_bit n (unat w)" by (simp only: unsigned_take_bit_eq)
  then show ?thesis by (simp add: take_bit_eq_mod)
qed

lemma rw_flag: "f \<le> 1 \<Longrightarrow> w < 2 ^ 31 \<Longrightarrow> r < 2 ^ 31 \<Longrightarrow> rw_fields f w r AND IS_WRITING = 0 \<longleftrightarrow> f = 0"
proof -
  assume b: "f \<le> 1" "w < 2 ^ 31" "r < 2 ^ 31"
  have "x AND IS_WRITING = take_bit 1 x" for x by (simp add: IS_WRITING_def take_bit_eq_mask mask_eq_exp_minus_1)
  then have "unat (rw_fields f w r AND IS_WRITING) = (f + 2 * (w + 2 ^ 31 * r)) mod 2"
    using unat_take_bit_u64 [of 1 "rw_fields f w r"] unat_rw_fields [OF b] by (simp add: add.assoc)
  also have "\<dots> = f" unfolding mod_mult_self2 using b(1) by simp
  finally show ?thesis by (metis unat_eq_zero)
qed

lemma rw_no_writer:
  "f \<le> 1 \<Longrightarrow> w < 2 ^ 31 \<Longrightarrow> r < 2 ^ 31 \<Longrightarrow>
    rw_fields f w r AND (IS_WRITING OR WRITER_MASK) = 0 \<longleftrightarrow> f = 0 \<and> w = 0"
proof -
  assume b: "f \<le> 1" "w < 2 ^ 31" "r < 2 ^ 31"
  have m: "IS_WRITING OR WRITER_MASK = mask 32" by (simp add: rw_consts mask_eq_exp_minus_1)
  have "x AND (IS_WRITING OR WRITER_MASK) = take_bit 32 x" for x unfolding m by (simp add: take_bit_eq_mask)
  then have "unat (rw_fields f w r AND (IS_WRITING OR WRITER_MASK)) = (f + 2 * w + 2 ^ 32 * r) mod 2 ^ 32"
    using unat_take_bit_u64 [of 32 "rw_fields f w r"] unat_rw_fields [OF b] by simp
  also have "\<dots> = f + 2 * w" using b by simp
  finally show ?thesis by (metis add_is_0 mult_is_0 unat_eq_zero zero_neq_numeral)
qed

lemma rw_readers:
  assumes b: "f \<le> 1" "w < 2 ^ 31" "r < 2 ^ 31"
  shows "rw_fields f w r AND READER_MASK = 0 \<longleftrightarrow> r = 0" and "rw_fields f w r AND READER_MASK = READER \<longleftrightarrow> r = 1"
proof -
  have m: "READER_MASK = push_bit 32 (mask 31)" by (simp add: rw_consts mask_eq_exp_minus_1)
  have "x AND READER_MASK = push_bit 32 (take_bit 31 (drop_bit 32 x))" for x
    unfolding m by (simp add: bit_eq_iff bit_simps) auto
  moreover have "unat (take_bit 31 (drop_bit 32 (rw_fields f w r))) = r"
  proof -
    have "unat (drop_bit 32 (rw_fields f w r)) = drop_bit 32 (unat (rw_fields f w r))" by (simp only: unat_drop_bit_eq)
    also have "\<dots> = r" using b by (simp add: unat_rw_fields [OF b] drop_bit_eq_div)
    finally show ?thesis using b(3) by (simp add: unat_take_bit_u64)
  qed
  then have "take_bit 31 (drop_bit 32 (rw_fields f w r)) = of_nat r"
    by (metis word_unat_eq_iff unat_of_nat mod_less unsigned_less)
  ultimately have e: "rw_fields f w r AND READER_MASK = push_bit 32 (of_nat r)" by simp
  have "unat (push_bit 32 (of_nat r :: u64)) = r * 2 ^ 32"
  proof -
    have "unat (of_nat r :: u64) = r" using b(3) by (simp add: unat_of_nat)
    then have "unat (push_bit 32 (of_nat r :: u64)) = take_bit 64 (push_bit 32 r)"
      using unsigned_push_bit_eq [of 32 "of_nat r :: u64", where 'a = nat] by simp
    then show ?thesis using b(3) by (simp add: take_bit_eq_mod push_bit_eq_mult)
  qed
  then have u: "unat (rw_fields f w r AND READER_MASK) = r * 2 ^ 32" using e by simp
  show "rw_fields f w r AND READER_MASK = 0 \<longleftrightarrow> r = 0" using u by (metis mult_is_0 unat_eq_zero zero_neq_numeral power_not_zero)
  have "unat READER = 2 ^ 32" by (simp add: rw_consts)
  then show "rw_fields f w r AND READER_MASK = READER \<longleftrightarrow> r = 1" using u by (simp add: word_unat_eq_iff)
qed

lemma rw_clear_flag:
  assumes "w < 2 ^ 31" and "r < 2 ^ 31"
  shows "rw_fields 1 w r AND NOT IS_WRITING = rw_fields 0 w r"
proof -
  let ?u = "rw_fields 1 w r"
  have "?u AND IS_WRITING = 1"
    using rw_flag [OF _ assms, of 1] by (simp add: IS_WRITING_def and_one_eq)
  moreover have "(?u AND IS_WRITING) + (?u AND NOT IS_WRITING) = ?u"
    by (subst disjunctive_add_eq_or) (simp_all add: bit_eq_iff bit_simps, auto)
  ultimately have "?u AND NOT IS_WRITING = ?u - 1" by (simp add: algebra_simps)
  then show ?thesis by (simp add: rw_fields_def)
qed

section \<open>Invariant\<close>

definition waiting_writer :: "rw_place \<Rightarrow> bool" where
  "waiting_writer p \<longleftrightarrow> p = LockMutex \<or> p = LockAdd"

definition flag_writer :: "rw_place \<Rightarrow> bool" where
  "flag_writer p \<longleftrightarrow> p = LockSemaphore \<or> p = Writing"

definition counted_reader :: "rw_place \<Rightarrow> bool" where
  "counted_reader p \<longleftrightarrow> p = SharedUnlock \<or> p = Reading"

definition mutex_holder :: "rw_place \<Rightarrow> bool" where
  "mutex_holder p \<longleftrightarrow> p \<in> {LockAdd, LockSemaphore, Writing, UnlockMutex, SharedAdd, SharedUnlock}"

definition try_place :: "rw_place \<Rightarrow> bool" where
  "try_place p \<longleftrightarrow> p \<in> {TryLoad, TrySet, TryUnlock}"

lemmas place_defs = waiting_writer_def flag_writer_def counted_reader_def mutex_holder_def try_place_def

text \<open>
  The word counts the threads at the places it should, the mutex is held by one thread at most, there
  are permits or readers about to post only for a writer that waits at the semaphore, exactly one when
  the last reader has gone, and there is no reader while a writer writes.
\<close>

definition posts_ok :: "nat \<Rightarrow> nat \<Rightarrow> nat \<Rightarrow> bool" where
  "posts_ok waiting readers posts \<longleftrightarrow>
     (if 0 < waiting then 0 < readers \<and> posts = 0 \<or> readers = 0 \<and> posts = 1 else posts = 0)"

definition rw_inv :: "rw_state \<Rightarrow> bool" where
  "rw_inv s \<longleftrightarrow>
     (let ts = rs_threads s; m = rs_memory s;
          r = number counted_reader ts; posts = rw_permits m + number ((=) SharedPost) ts
      in length ts < 2 ^ 31
       \<and> number try_place ts = 0
       \<and> rw_word m = rw_fields (number flag_writer ts) (number waiting_writer ts) r
       \<and> number mutex_holder ts = of_bool (rw_mutex m)
       \<and> posts_ok (number ((=) LockSemaphore) ts) r posts
       \<and> (0 < number ((=) Writing) ts \<longrightarrow> r = 0))"

lemma number_mono: "(\<And>t. P t \<Longrightarrow> Q t) \<Longrightarrow> number P ts \<le> number Q ts"
  by (induction ts) (auto simp: number_def)

lemma number_le_length: "number P ts \<le> length ts"
  by (simp add: number_def)

lemma flag_number: "number flag_writer ts = number ((=) LockSemaphore) ts + number ((=) Writing) ts"
  by (induction ts) (auto simp: number_def flag_writer_def)

text \<open>Another thread's place excludes the writers' places, when both hold the mutex.\<close>

lemma only_holder:
  assumes "number mutex_holder ts \<le> 1" and "i < length ts" and "mutex_holder (ts ! i)"
    and "\<not> P (ts ! i)" and "\<And>p. P p \<Longrightarrow> mutex_holder p"
  shows "number P ts = 0"
proof (rule number_zero)
  fix t assume "t \<in> set ts"
  then obtain j where "j < length ts" "t = ts ! j" by (metis in_set_conv_nth)
  then show "\<not> P t" using number_le_one [OF assms(1,2) _ assms(3)] assms(4,5) by metis
qed

text \<open>Places that no part of the invariant counts.\<close>

definition uncounted :: "rw_place \<Rightarrow> bool" where
  "uncounted p \<longleftrightarrow> \<not> mutex_holder p \<and> p \<notin> {LockMutex, SharedPost, Reading}"

lemma uncountedD:
  assumes "uncounted p"
  shows "\<not> flag_writer p" "\<not> waiting_writer p" "\<not> counted_reader p" "\<not> mutex_holder p"
    "LockSemaphore \<noteq> p" "Writing \<noteq> p" "SharedPost \<noteq> p"
  using assms by (auto simp: uncounted_def place_defs)

text \<open>What the invariant says of the numbers, and of the tests that the operations make on the word.\<close>

abbreviation flags :: "rw_state \<Rightarrow> nat" where
  "flags s \<equiv> number flag_writer (rs_threads s)"

abbreviation waiting :: "rw_state \<Rightarrow> nat" where
  "waiting s \<equiv> number waiting_writer (rs_threads s)"

abbreviation readers :: "rw_state \<Rightarrow> nat" where
  "readers s \<equiv> number counted_reader (rs_threads s)"

abbreviation holders :: "rw_state \<Rightarrow> nat" where
  "holders s \<equiv> number mutex_holder (rs_threads s)"

abbreviation at :: "rw_state \<Rightarrow> rw_place \<Rightarrow> nat" where
  "at s p \<equiv> number ((=) p) (rs_threads s)"

abbreviation word :: "rw_state \<Rightarrow> u64" where
  "word s \<equiv> rw_word (rs_memory s)"

lemma rw_invD:
  assumes "rw_inv s"
  shows "length (rs_threads s) < 2 ^ 31" "number try_place (rs_threads s) = 0"
    "word s = rw_fields (flags s) (waiting s) (readers s)"
    "holders s = of_bool (rw_mutex (rs_memory s))"
    "posts_ok (at s LockSemaphore) (readers s) (rw_permits (rs_memory s) + at s SharedPost)"
    "0 < at s Writing \<longrightarrow> readers s = 0"
  using assms by (simp_all add: rw_inv_def Let_def)

lemma rw_inv_bounds:
  assumes "rw_inv s"
  shows "holders s \<le> 1" "flags s \<le> 1" "waiting s < 2 ^ 31" "readers s < 2 ^ 31"
    "flags s = at s LockSemaphore + at s Writing"
proof -
  show h: "holders s \<le> 1" using rw_invD(4) [OF assms] by simp
  have "flags s \<le> holders s" by (rule number_mono) (auto simp: place_defs)
  then show "flags s \<le> 1" using h by simp
  show "waiting s < 2 ^ 31" "readers s < 2 ^ 31"
    using rw_invD(1) [OF assms] number_le_length [of waiting_writer "rs_threads s"]
      number_le_length [of counted_reader "rs_threads s"] by simp_all
  show "flags s = at s LockSemaphore + at s Writing" by (rule flag_number)
qed

lemma rw_inv_tests:
  assumes "rw_inv s"
  shows "word s AND IS_WRITING = 0 \<longleftrightarrow> flags s = 0"
    "word s AND (IS_WRITING OR WRITER_MASK) = 0 \<longleftrightarrow> flags s = 0 \<and> waiting s = 0"
    "word s AND READER_MASK = 0 \<longleftrightarrow> readers s = 0"
    "word s AND READER_MASK = READER \<longleftrightarrow> readers s = 1"
  using rw_invD(3) [OF assms] rw_inv_bounds [OF assms] by (simp_all only: rw_flag rw_no_writer rw_readers)

lemma holder_alone:
  assumes "rw_inv s" and "i < length (rs_threads s)" and "mutex_holder (rs_threads s ! i)" and "\<not> flag_writer (rs_threads s ! i)"
  shows "flags s = 0" "at s LockSemaphore = 0" "at s Writing = 0"
proof -
  show "flags s = 0"
    using only_holder [of "rs_threads s" i flag_writer] rw_inv_bounds(1) [OF assms(1)] assms(2-4) by (auto simp: place_defs)
  then show "at s LockSemaphore = 0" "at s Writing = 0" using rw_inv_bounds(5) [OF assms(1)] by simp_all
qed

lemma number_set: "i < length ts \<Longrightarrow> number Q (ts[i := p]) = number Q ts + of_bool (Q p) - of_bool (Q (ts ! i))"
  using number_update [of i ts Q p] by simp

text \<open>To keep the invariant, a move has to keep its parts, with the numbers changed by the two places.\<close>

lemma rw_inv_set:
  assumes "rw_inv s" and "i < length (rs_threads s)" and "rs_threads s ! i = q" and "\<not> try_place p"
    and "rw_word m = rw_fields (flags s + of_bool (flag_writer p) - of_bool (flag_writer q))
      (waiting s + of_bool (waiting_writer p) - of_bool (waiting_writer q))
      (readers s + of_bool (counted_reader p) - of_bool (counted_reader q))"
    and "holders s + of_bool (mutex_holder p) - of_bool (mutex_holder q) = of_bool (rw_mutex m)"
    and "posts_ok (at s LockSemaphore + of_bool (LockSemaphore = p) - of_bool (LockSemaphore = q))
      (readers s + of_bool (counted_reader p) - of_bool (counted_reader q))
      (rw_permits m + (at s SharedPost + of_bool (SharedPost = p) - of_bool (SharedPost = q)))"
    and "0 < at s Writing + of_bool (Writing = p) - of_bool (Writing = q) \<longrightarrow>
      readers s + of_bool (counted_reader p) - of_bool (counted_reader q) = 0"
  shows "rw_inv (s\<lparr>rs_memory := m, rs_threads := (rs_threads s)[i := p]\<rparr>)"
  using assms rw_invD(1,2) [OF assms(1)] unfolding rw_inv_def Let_def by (simp add: number_set)

lemma raw_lock_inv:
  assumes inv: "rw_inv s" and i: "i < length (rs_threads s)"
    and step: "raw_lock (rs_threads s ! i) (rs_memory s) = Some (m, p)"
  shows "rw_inv (s\<lparr>rs_memory := m, rs_threads := (rs_threads s)[i := p]\<rparr>)"
proof (cases "rs_threads s ! i")
  case Idle
  then have "m = rs_memory s\<lparr>rw_word := word s + WRITER\<rparr>" "p = LockMutex" using step by auto
  then show ?thesis using rw_invD [OF inv]
    by (intro rw_inv_set [OF inv i Idle]) (simp_all add: place_defs rw_fields_add)
next
  case LockMutex
  then have "m = rs_memory s\<lparr>rw_mutex := True\<rparr>" "p = LockAdd" "\<not> rw_mutex (rs_memory s)"
    using step by (auto split: if_splits)
  then show ?thesis using rw_invD [OF inv]
    by (intro rw_inv_set [OF inv i LockMutex]) (simp_all add: place_defs)
next
  case LockAdd
  have W: "0 < waiting s" using number_pos [OF i, of waiting_writer] LockAdd by (simp add: place_defs)
  have H: "0 < holders s" using number_pos [OF i, of mutex_holder] LockAdd by (simp add: place_defs)
  have z: "flags s = 0" "at s LockSemaphore = 0" "at s Writing = 0"
    using holder_alone [OF inv i] LockAdd by (simp_all add: place_defs)
  have "m = rs_memory s\<lparr>rw_word := word s + (IS_WRITING - WRITER)\<rparr>" "p = (if readers s = 0 then Writing else LockSemaphore)"
    using step LockAdd by (auto simp: rw_inv_tests [OF inv])
  then show ?thesis using rw_invD [OF inv] z W H
    by (cases "readers s = 0"; intro rw_inv_set [OF inv i LockAdd]; simp add: place_defs rw_fields_add posts_ok_def)
next
  case LockSemaphore
  have "0 < at s LockSemaphore" using number_pos [OF i, of "(=) LockSemaphore"] LockSemaphore by simp
  then have "at s LockSemaphore = 1" "at s Writing = 0" "flags s = 1" using rw_inv_bounds(2,5) [OF inv] by simp_all
  moreover have "0 < holders s" using number_pos [OF i, of mutex_holder] LockSemaphore by (simp add: place_defs)
  moreover have "m = rs_memory s\<lparr>rw_permits := rw_permits (rs_memory s) - 1\<rparr>" "p = Writing" "0 < rw_permits (rs_memory s)"
    using step LockSemaphore by (auto split: if_splits)
  ultimately show ?thesis using rw_invD [OF inv]
    by (intro rw_inv_set [OF inv i LockSemaphore]) (simp_all add: place_defs posts_ok_def)
qed (use step in simp_all)

lemma raw_unlock_inv:
  assumes inv: "rw_inv s" and i: "i < length (rs_threads s)"
    and step: "raw_unlock (rs_threads s ! i) (rs_memory s) = Some (m, p)"
  shows "rw_inv (s\<lparr>rs_memory := m, rs_threads := (rs_threads s)[i := p]\<rparr>)"
proof (cases "rs_threads s ! i")
  case Writing
  have "0 < at s Writing" using number_pos [OF i, of "(=) Writing"] Writing by simp
  then have n: "at s LockSemaphore = 0" "at s Writing = 1" "flags s = 1" "readers s = 0"
    using rw_inv_bounds(2,5) [OF inv] rw_invD(6) [OF inv] by simp_all
  have "0 < holders s" using number_pos [OF i, of mutex_holder] Writing by (simp add: place_defs)
  moreover have "word s AND NOT IS_WRITING = rw_fields 0 (waiting s) (readers s)"
    using rw_clear_flag [OF rw_inv_bounds(3,4) [OF inv]] rw_invD(3) [OF inv] n(3) by simp
  moreover have "m = rs_memory s\<lparr>rw_word := word s AND NOT IS_WRITING\<rparr>" "p = UnlockMutex" using step Writing by auto
  ultimately show ?thesis using rw_invD(4,5) [OF inv] n
    by (intro rw_inv_set [OF inv i Writing]) (simp_all add: place_defs)
next
  case UnlockMutex
  then have "m = rs_memory s\<lparr>rw_mutex := False\<rparr>" "p = Idle" using step by auto
  then show ?thesis using rw_invD(3-6) [OF inv] rw_inv_bounds(1) [OF inv]
    by (intro rw_inv_set [OF inv i UnlockMutex]) (simp_all add: place_defs)
qed (use step in simp_all)

lemma raw_unlock_shared_inv:
  assumes inv: "rw_inv s" and i: "i < length (rs_threads s)"
    and step: "raw_unlock_shared (rs_threads s ! i) (rs_memory s) = Some (m, p)"
  shows "rw_inv (s\<lparr>rs_memory := m, rs_threads := (rs_threads s)[i := p]\<rparr>)"
proof (cases "rs_threads s ! i")
  case Reading
  have R: "0 < readers s" using number_pos [OF i, of counted_reader] Reading by (simp add: place_defs)
  then have n: "at s Writing = 0" "flags s = at s LockSemaphore" using rw_invD(6) [OF inv] rw_inv_bounds(5) [OF inv] by simp_all
  have mp: "m = rs_memory s\<lparr>rw_word := word s - READER\<rparr>"
    "p = (if readers s = 1 \<and> flags s \<noteq> 0 then SharedPost else Idle)"
    using step Reading by (auto simp: rw_inv_tests [OF inv])
  show ?thesis
  proof (cases "readers s = 1 \<and> flags s \<noteq> 0")
    case True
    then show ?thesis using mp rw_invD(3-5) [OF inv] n
      by (intro rw_inv_set [OF inv i Reading]) (simp_all add: place_defs rw_fields_add posts_ok_def)
  next
    case False
    then show ?thesis using mp rw_invD(3-5) [OF inv] n R
      by (intro rw_inv_set [OF inv i Reading]) (auto simp: place_defs rw_fields_add posts_ok_def)
  qed
next
  case SharedPost
  have "0 < at s SharedPost" using number_pos [OF i, of "(=) SharedPost"] SharedPost by simp
  moreover have "m = rs_memory s\<lparr>rw_permits := rw_permits (rs_memory s) + 1\<rparr>" "p = Idle" using SharedPost step by auto
  ultimately show ?thesis using rw_invD(3-6) [OF inv]
    by (intro rw_inv_set [OF inv i SharedPost]) (simp_all add: place_defs)
qed (use step in simp_all)

text \<open>The steps that the shared locks have in common.\<close>

lemma shared_wait_inv:
  assumes inv: "rw_inv s" and i: "i < length (rs_threads s)"
    and "uncounted (rs_threads s ! i)" and "uncounted p" and "\<not> try_place p"
  shows "rw_inv (s\<lparr>rs_memory := rs_memory s, rs_threads := (rs_threads s)[i := p]\<rparr>)"
  using rw_invD(3-6) [OF inv] uncountedD [OF assms(3)] uncountedD [OF assms(4)] assms(5)
  by (intro rw_inv_set [OF inv i refl]) simp_all

lemma shared_read_inv:
  assumes inv: "rw_inv s" and i: "i < length (rs_threads s)"
    and "uncounted (rs_threads s ! i)" and "word s AND (IS_WRITING OR WRITER_MASK) = 0"
  shows "rw_inv (s\<lparr>rs_memory := rs_memory s\<lparr>rw_word := word s + READER\<rparr>, rs_threads := (rs_threads s)[i := Reading]\<rparr>)"
proof -
  have "flags s = 0" using assms(4) rw_inv_tests(2) [OF inv] by simp
  then show ?thesis using rw_invD(3-6) [OF inv] rw_inv_bounds(5) [OF inv] uncountedD [OF assms(3)]
    by (intro rw_inv_set [OF inv i refl]) (simp_all add: place_defs rw_fields_add posts_ok_def)
qed

lemma shared_mutex_inv:
  assumes inv: "rw_inv s" and i: "i < length (rs_threads s)"
    and "uncounted (rs_threads s ! i)" and "\<not> rw_mutex (rs_memory s)"
  shows "rw_inv (s\<lparr>rs_memory := rs_memory s\<lparr>rw_mutex := True\<rparr>, rs_threads := (rs_threads s)[i := SharedAdd]\<rparr>)"
  using rw_invD(3-6) [OF inv] uncountedD [OF assms(3)] assms(4)
  by (intro rw_inv_set [OF inv i refl]) (simp_all add: place_defs)

lemma shared_add_inv:
  assumes inv: "rw_inv s" and i: "i < length (rs_threads s)" and q: "rs_threads s ! i = SharedAdd"
  shows "rw_inv (s\<lparr>rs_memory := rs_memory s\<lparr>rw_word := word s + READER\<rparr>, rs_threads := (rs_threads s)[i := SharedUnlock]\<rparr>)"
proof -
  have "flags s = 0" "at s LockSemaphore = 0" "at s Writing = 0"
    using holder_alone [OF inv i] q by (simp_all add: place_defs)
  then show ?thesis using rw_invD(3-6) [OF inv]
    by (intro rw_inv_set [OF inv i q]) (simp_all add: place_defs rw_fields_add posts_ok_def)
qed

lemma shared_unlock_inv:
  assumes inv: "rw_inv s" and i: "i < length (rs_threads s)" and q: "rs_threads s ! i = SharedUnlock"
  shows "rw_inv (s\<lparr>rs_memory := rs_memory s\<lparr>rw_mutex := False\<rparr>, rs_threads := (rs_threads s)[i := Reading]\<rparr>)"
  using rw_invD(3-6) [OF inv] rw_inv_bounds(1) [OF inv]
  by (intro rw_inv_set [OF inv i q]) (simp_all add: place_defs)

lemma uncounted_places [simp]:
  "uncounted Idle" "uncounted (SharedCheck st)" "uncounted SharedMutex" "uncounted (TrySharedCheck st)" "uncounted TrySharedMutex"
  "\<not> try_place Idle" "\<not> try_place (SharedCheck st)" "\<not> try_place SharedMutex" "\<not> try_place (TrySharedCheck st)"
  "\<not> try_place TrySharedMutex"
  by (simp_all add: uncounted_def place_defs)

lemma raw_lock_shared_inv:
  assumes inv: "rw_inv s" and i: "i < length (rs_threads s)"
    and step: "raw_lock_shared (rs_threads s ! i) (rs_memory s) = Some (m, p)"
  shows "rw_inv (s\<lparr>rs_memory := m, rs_threads := (rs_threads s)[i := p]\<rparr>)"
proof (cases "rs_threads s ! i")
  case Idle
  then show ?thesis using step shared_wait_inv [OF inv i, of "SharedCheck (word s)"] by auto
next
  case (SharedCheck st)
  then show ?thesis using step shared_read_inv [OF inv i] shared_wait_inv [OF inv i, of SharedMutex]
      shared_wait_inv [OF inv i, of "SharedCheck (word s)"]
    by (auto split: if_splits)
next
  case SharedMutex
  then show ?thesis using step shared_mutex_inv [OF inv i] by (auto split: if_splits)
next
  case SharedAdd
  then show ?thesis using step shared_add_inv [OF inv i] by auto
next
  case SharedUnlock
  then show ?thesis using step shared_unlock_inv [OF inv i] by auto
qed (use step in simp_all)

lemma raw_try_lock_shared_inv:
  assumes inv: "rw_inv s" and i: "i < length (rs_threads s)"
    and step: "raw_try_lock_shared (rs_threads s ! i) (rs_memory s) = Some (m, p)"
  shows "rw_inv (s\<lparr>rs_memory := m, rs_threads := (rs_threads s)[i := p]\<rparr>)"
proof (cases "rs_threads s ! i")
  case Idle
  then show ?thesis using step shared_wait_inv [OF inv i, of "TrySharedCheck (word s)"] by auto
next
  case (TrySharedCheck st)
  then show ?thesis using step shared_read_inv [OF inv i] shared_wait_inv [OF inv i, of TrySharedMutex]
    by (auto split: if_splits)
next
  case TrySharedMutex
  then show ?thesis using step shared_mutex_inv [OF inv i] shared_wait_inv [OF inv i, of Idle]
    by (auto split: if_splits)
next
  case SharedAdd
  then show ?thesis using step shared_add_inv [OF inv i] by auto
next
  case SharedUnlock
  then show ?thesis using step shared_unlock_inv [OF inv i] by auto
qed (use step in simp_all)

lemma rw_step_inv:
  assumes "rw_step calls s t" and "TryLock \<notin> calls" and inv: "rw_inv s"
  shows "rw_inv t"
  using assms(1)
proof cases
  case (step i c m p)
  have "c \<noteq> TryLock" using step(3) assms(2) by auto
  then show ?thesis unfolding step(1) using step(4)
      raw_lock_inv [OF inv step(2)] raw_unlock_inv [OF inv step(2)] raw_lock_shared_inv [OF inv step(2)]
      raw_try_lock_shared_inv [OF inv step(2)] raw_unlock_shared_inv [OF inv step(2)]
    by (cases c) simp_all
next
  case (weak_failure i st)
  then show ?thesis using shared_wait_inv [OF inv weak_failure(2), of "SharedCheck (word s)"] by simp
qed

lemma rw_init_inv: "n < 2 ^ 31 \<Longrightarrow> rw_inv (rw_init n)"
  by (simp add: rw_inv_def rw_init_def Let_def number_def place_defs posts_ok_def rw_fields_def)

interpretation rw_lock: safe_steps "\<lambda>s. \<exists>n < 2 ^ 31. s = rw_init n" "rw_step (UNIV - {TryLock})" rw_inv
  by unfold_locales (auto intro: rw_init_inv rw_step_inv)

lemma rw_exclusive:
  assumes inv: "rw_inv s" and "i < length (rs_threads s)" and "j < length (rs_threads s)" and "i \<noteq> j"
    and "rs_threads s ! i = Writing"
  shows "rs_threads s ! j \<notin> {Writing, Reading}"
proof -
  have "0 < at s Writing" using number_pos [OF assms(2), of "(=) Writing"] assms(5) by simp
  then have "readers s = 0" using rw_invD(6) [OF inv] by simp
  then have "rs_threads s ! j \<noteq> Reading" using number_pos [OF assms(3), of counted_reader] by (auto simp: place_defs)
  moreover have "rs_threads s ! j \<noteq> Writing"
    using number_le_one [OF rw_inv_bounds(1) [OF inv] assms(2,3)] assms(4,5) by (auto simp: place_defs)
  ultimately show ?thesis by simp
qed

section \<open>Runs\<close>

text \<open>A run given by the calls that the threads take their next step in.\<close>

fun rw_run :: "(nat \<times> rw_call) list \<Rightarrow> rw_state \<Rightarrow> rw_state option" where
  "rw_run [] s = Some s"
| "rw_run ((i, c) # cs) s =
     (if i < length (rs_threads s) then
        case rw_call_step c (rs_threads s ! i) (rs_memory s) of
          None \<Rightarrow> None
        | Some (m, p) \<Rightarrow> rw_run cs (s\<lparr>rs_memory := m, rs_threads := (rs_threads s)[i := p]\<rparr>)
      else None)"

lemma rw_run_steps: "rw_run cs s = Some t \<Longrightarrow> snd ` set cs \<subseteq> calls \<Longrightarrow> (rw_step calls)\<^sup>*\<^sup>* s t"
proof (induction cs s rule: rw_run.induct)
  case (2 i c cs s)
  then obtain m p where s: "i < length (rs_threads s)" "rw_call_step c (rs_threads s ! i) (rs_memory s) = Some (m, p)"
    and r: "rw_run cs (s\<lparr>rs_memory := m, rs_threads := (rs_threads s)[i := p]\<rparr>) = Some t"
    by (auto split: if_splits option.splits)
  have "rw_step calls s (s\<lparr>rs_memory := m, rs_threads := (rs_threads s)[i := p]\<rparr>)"
    using rw_step.step [OF s(1) _ s(2)] 2(3) by simp
  then show ?case using 2(1) [OF s(1,2) refl r] 2(3) by (simp add: converse_rtranclp_into_rtranclp)
qed simp

text \<open>
  C36. In every run of fewer than 2^31 threads that lock, unlock, lock shared, try to lock shared and
  unlock shared in any order and interleaving, a thread that holds the lock for writing excludes every
  other thread that holds it for writing or for reading.
\<close>

theorem rw_exclusion:
  assumes "(rw_step (UNIV - {TryLock}))\<^sup>*\<^sup>* (rw_init n) s" and "n < 2 ^ 31"
    and "i < length (rs_threads s)" and "j < length (rs_threads s)" and "i \<noteq> j"
    and "rs_threads s ! i = Writing"
  shows "rs_threads s ! j \<notin> {Writing, Reading}"
proof -
  have "rw_inv s" using rw_lock.reachable_inv [OF assms(1)] assms(2) by blast
  then show ?thesis using rw_exclusive assms(3-6) by blast
qed

text \<open>A writer that waits for a reader, and then for the semaphore, before it writes.\<close>

definition writer_after_reader :: "(nat \<times> rw_call) list" where
  "writer_after_reader =
     [(0, LockShared), (0, LockShared), (1, Lock), (1, Lock), (1, Lock), (2, TryLockShared),
      (0, UnlockShared), (0, UnlockShared), (1, Lock)]"

lemma rw_exclusion_witness:
  "\<exists>s. (rw_step (UNIV - {TryLock}))\<^sup>*\<^sup>* (rw_init 3) s \<and> rs_threads s ! 1 = Writing \<and>
    rs_threads s ! 2 = TrySharedCheck (READER + IS_WRITING) \<and> rs_threads s ! 2 \<notin> {Writing, Reading}"
proof -
  have "map_option rs_threads (rw_run writer_after_reader (rw_init 3)) = Some [Idle, Writing, TrySharedCheck (READER + IS_WRITING)]"
    by code_simp
  then obtain s where s: "rw_run writer_after_reader (rw_init 3) = Some s"
      "rs_threads s = [Idle, Writing, TrySharedCheck (READER + IS_WRITING)]"
    by blast
  have "(rw_step (UNIV - {TryLock}))\<^sup>*\<^sup>* (rw_init 3) s"
    by (rule rw_run_steps [OF s(1)]) (simp add: writer_after_reader_def)
  then show ?thesis using rw_exclusion [of 3 s 1 2] s(2) by auto
qed

text \<open>
  C37. The exclusion does not extend to \<open>try_lock\<close>: it reads the word and sets the writing flag in two
  steps, and a reader that counts itself in between them reads while the caller writes.
\<close>

theorem rw_try_lock_race:
  "\<exists>s. (rw_step {TryLock, LockShared})\<^sup>*\<^sup>* (rw_init 2) s \<and> rs_threads s = [Writing, Reading]"
proof -
  let ?cs = "[(0, TryLock), (0, TryLock), (1, LockShared), (1, LockShared), (0, TryLock)]"
  have "map_option rs_threads (rw_run ?cs (rw_init 2)) = Some [Writing, Reading]"
    by code_simp
  then obtain s where s: "rw_run ?cs (rw_init 2) = Some s" "rs_threads s = [Writing, Reading]"
    by blast
  have "(rw_step {TryLock, LockShared})\<^sup>*\<^sup>* (rw_init 2) s" by (rule rw_run_steps [OF s(1)]) simp
  then show ?thesis using s(2) by blast
qed

end
