(* ===== verification/Glob.thy ===== *)
theory Glob
  imports Bun_Prelude
begin

unbundle bit_operations_syntax

text \<open>
  The glob matcher of \<open>src/src/glob/matcher.rs\<close>: \<open>match\<close> of a pattern and a path, with wildcards,
  globstars, character classes, escapes, negation and brace alternatives.

  The matcher keeps two saved positions, the last wildcard and the last globstar, and goes back to the
  wildcard when the rest of the pattern fails. One iteration of its main loop is \<open>glob_next\<close> here. Byte
  positions are natural numbers: patterns and paths are shorter than 4 GiB, the range of the code's
  \<open>u32\<close>. Whether \<open>\\\<close> separates directories depends on the target: the argument \<open>windows\<close>.
\<close>

section \<open>Code points\<close>

definition byte32 :: "byte \<Rightarrow> u32" where
  "byte32 c = of_nat (of_char c)"

definition is_sep_native :: "bool \<Rightarrow> byte \<Rightarrow> bool" where
  "is_sep_native windows c \<longleftrightarrow> c = CHR ''/'' \<or> windows \<and> c = CHR 0x5C"

definition wtf8_byte_sequence_length :: "byte \<Rightarrow> nat" where
  "wtf8_byte_sequence_length first_byte =
     (let b = of_char first_byte :: nat in
      if b \<le> 0x7F then 1
      else if 0xC0 \<le> b \<and> b \<le> 0xDF then 2
      else if 0xE0 \<le> b \<and> b \<le> 0xEF then 3
      else if 0xF0 \<le> b \<and> b \<le> 0xF7 then 4
      else 1)"

definition decode_wtf8_rune_t_multibyte :: "bytes \<Rightarrow> nat \<Rightarrow> u32 \<Rightarrow> u32" where
  "decode_wtf8_rune_t_multibyte p len zero =
     (let s0 = byte32 (p ! 0); s1 = byte32 (p ! 1); s2 = byte32 (p ! 2); s3 = byte32 (p ! 3) in
      if s1 AND 0xC0 \<noteq> 0x80 then zero
      else if len = 2 then
        let cp = push_bit 6 (s0 AND 0x1F) OR (s1 AND 0x3F) in if cp < 0x80 then zero else cp
      else if s2 AND 0xC0 \<noteq> 0x80 then zero
      else if len = 3 then
        let cp = push_bit 12 (s0 AND 0x0F) OR push_bit 6 (s1 AND 0x3F) OR (s2 AND 0x3F) in
        if cp < 0x800 then zero else cp
      else if s3 AND 0xC0 \<noteq> 0x80 then zero
      else
        let cp = push_bit 18 (s0 AND 0x07) OR push_bit 12 (s1 AND 0x3F) OR push_bit 6 (s2 AND 0x3F)
              OR (s3 AND 0x3F) in
        if cp < 0x10000 \<or> 0x10FFFF < cp then zero else cp)"

definition decode_wtf8_rune_t :: "bytes \<Rightarrow> nat \<Rightarrow> u32 \<Rightarrow> u32" where
  "decode_wtf8_rune_t p len zero =
     (if len = 0 then zero else if len = 1 then byte32 (p ! 0) else decode_wtf8_rune_t_multibyte p len zero)"

definition decode_wtf8_rune_at :: "bytes \<Rightarrow> nat \<Rightarrow> u32 \<times> nat" where
  "decode_wtf8_rune_at bs idx =
     (let len = wtf8_byte_sequence_length (bs ! idx);
          n = min (length bs - idx) 4;
          buf = copy_at (replicate 4 (CHR 0x00)) 0 (subslice bs idx (idx + n))
      in (decode_wtf8_rune_t buf len 0xFFFD, len))"

section \<open>Escapes\<close>

definition escaped :: "byte \<Rightarrow> byte option" where
  "escaped c =
     (if c = CHR ''a'' then Some (CHR 0x61) else if c = CHR ''b'' then Some (CHR 0x08)
      else if c = CHR ''n'' then Some (CHR 0x0A) else if c = CHR ''r'' then Some (CHR 0x0D)
      else if c = CHR ''t'' then Some (CHR 0x09) else None)"

text \<open>The byte and its index, or \<open>None\<close> for a pattern that ends after the backslash.\<close>

definition unescape :: "byte \<Rightarrow> bytes \<Rightarrow> nat \<Rightarrow> (byte \<times> nat) option" where
  "unescape c glob glob_index =
     (if c = CHR 0x5C then
        let glob_index = glob_index + 1 in
        if length glob \<le> glob_index then None
        else Some (case escaped (glob ! glob_index) of Some cc \<Rightarrow> cc | None \<Rightarrow> glob ! glob_index, glob_index)
      else Some (c, glob_index))"

text \<open>The code point, its length in the pattern and the index after the backslash.\<close>

definition get_unicode :: "bytes \<Rightarrow> nat \<Rightarrow> (u32 \<times> nat \<times> nat) option" where
  "get_unicode glob glob_index =
     (let c = glob ! glob_index in
      if (of_char c :: nat) \<le> 0x7F \<and> c \<noteq> CHR 0x5C then Some (byte32 c, 1, glob_index)
      else if c = CHR 0x5C then
        let glob_index = glob_index + 1 in
        if length glob \<le> glob_index then None
        else
          (case escaped (glob ! glob_index) of
             Some cc \<Rightarrow> Some (byte32 cc, 1, glob_index)
           | None \<Rightarrow> (case decode_wtf8_rune_at glob glob_index of (cp, len) \<Rightarrow> Some (cp, len, glob_index)))
      else (case decode_wtf8_rune_at glob glob_index of (cp, len) \<Rightarrow> Some (cp, len, glob_index)))"

lemma wtf8_byte_sequence_length_pos [simp]: "0 < wtf8_byte_sequence_length c"
  by (simp add: wtf8_byte_sequence_length_def Let_def)

lemma get_unicode_advances: "get_unicode glob i = Some (c, len, j) \<Longrightarrow> i < j + len"
  by (auto simp: get_unicode_def decode_wtf8_rune_at_def Let_def trans_less_add1 split: if_splits option.splits)

section \<open>State\<close>

record wildcard =
  wc_glob_index :: nat
  wc_path_index :: nat
  wc_brace_depth :: "8 word"

record glob_state =
  gs_path_index :: nat
  gs_glob_index :: nat
  gs_wildcard :: wildcard
  gs_globstar :: wildcard
  gs_brace_depth :: "8 word"

definition wildcard_default :: wildcard where
  "wildcard_default = \<lparr>wc_glob_index = 0, wc_path_index = 0, wc_brace_depth = 0\<rparr>"

definition state_default :: glob_state where
  "state_default = \<lparr>gs_path_index = 0, gs_glob_index = 0, gs_wildcard = wildcard_default,
     gs_globstar = wildcard_default, gs_brace_depth = 0\<rparr>"

definition backtrack :: "glob_state \<Rightarrow> glob_state" where
  "backtrack st = st\<lparr>gs_path_index := wc_path_index (gs_wildcard st),
     gs_glob_index := wc_glob_index (gs_wildcard st), gs_brace_depth := wc_brace_depth (gs_wildcard st)\<rparr>"

definition skip_to_separator :: "bool \<Rightarrow> bytes \<Rightarrow> bool \<Rightarrow> glob_state \<Rightarrow> glob_state" where
  "skip_to_separator windows path is_end_invalid st =
     (if gs_path_index st = length path then
        st\<lparr>gs_wildcard := (gs_wildcard st)\<lparr>wc_path_index := wc_path_index (gs_wildcard st) + 1\<rparr>\<rparr>
      else
        let path_index = skip_while (\<lambda>c. \<not> is_sep_native windows c) path (gs_path_index st);
            path_index = (if is_end_invalid \<or> path_index \<noteq> length path then path_index + 1 else path_index);
            w = (gs_wildcard st)\<lparr>wc_path_index := path_index\<rparr>
        in st\<lparr>gs_wildcard := w, gs_globstar := w\<rparr>)"

section \<open>The arms of the main loop\<close>

function skip_globstars_loop :: "bytes \<Rightarrow> nat \<Rightarrow> nat" where
  "skip_globstars_loop glob i =
     (if i + 4 \<le> length glob \<and> subslice glob i (i + 4) = ''/**/'' then skip_globstars_loop glob (i + 3) else i)"
  by pat_completeness auto
termination
  by (relation "measure (\<lambda>(glob, i). length glob - i)") auto

declare skip_globstars_loop.simps [simp del]

definition skip_globstars :: "bytes \<Rightarrow> nat \<Rightarrow> nat" where
  "skip_globstars glob glob_index =
     (let i = skip_globstars_loop glob (glob_index + 2);
          i = (if i + 3 = length glob \<and> subslice glob i (i + 3) = ''/**'' then i + 3 else i)
      in i - 2)"

text \<open>A wildcard at a separator cannot be extended: the saved position falls back to the globstar.\<close>

definition wildcard_at_separator :: "bool \<Rightarrow> bytes \<Rightarrow> glob_state \<Rightarrow> glob_state" where
  "wildcard_at_separator windows path st =
     (if gs_path_index st < length path \<and> is_sep_native windows (path ! gs_path_index st)
      then st\<lparr>gs_wildcard := gs_globstar st\<rparr> else st)"

definition star_arm :: "bool \<Rightarrow> bytes \<Rightarrow> nat \<Rightarrow> bytes \<Rightarrow> glob_state \<Rightarrow> glob_state" where
  "star_arm windows glob glob_start path st =
     (let gi = gs_glob_index st; pi = gs_path_index st;
          is_globstar = gi + 1 < length glob \<and> glob ! (gi + 1) = CHR ''*'';
          gi = (if is_globstar then skip_globstars glob gi else gi);
          st = st\<lparr>gs_glob_index := gi,
                  gs_wildcard := \<lparr>wc_glob_index = gi,
                    wc_path_index = pi + (if pi < length path then wtf8_byte_sequence_length (path ! pi) else 1),
                    wc_brace_depth = gs_brace_depth st\<rparr>\<rparr>
      in
      if is_globstar then
        let gi = gi + 2; is_end_invalid = gi < length glob in
        if is_end_invalid \<and> pi = length path \<and> length glob - gi = 2 \<and> is_sep_native windows (glob ! gi)
            \<and> glob ! (gi + 1) = CHR ''*''
        then st\<lparr>gs_glob_index := gi\<rparr>
        else if (gi - glob_start < 3 \<or> glob ! (gi - 3) = CHR ''/'') \<and> (\<not> is_end_invalid \<or> glob ! gi = CHR ''/'')
        then skip_to_separator windows path is_end_invalid
               (st\<lparr>gs_glob_index := if is_end_invalid then gi + 1 else gi\<rparr>)
        else wildcard_at_separator windows path (st\<lparr>gs_glob_index := gi\<rparr>)
      else wildcard_at_separator windows path (st\<lparr>gs_glob_index := gi + 1\<rparr>))"

text \<open>The upper end of a range in a character class, or the lower end when it is a single character.\<close>

definition class_high :: "bytes \<Rightarrow> u32 \<Rightarrow> nat \<Rightarrow> (u32 \<times> nat) option" where
  "class_high glob low gi =
     (if gi + 1 < length glob \<and> glob ! gi = CHR ''-'' \<and> glob ! (gi + 1) \<noteq> CHR '']'' then
        (case get_unicode glob (gi + 1) of
           None \<Rightarrow> None
         | Some (high, high_len, gi) \<Rightarrow> Some (high, gi + high_len))
      else Some (low, gi))"

lemma class_high_advances: "class_high glob low i = Some (h, j) \<Longrightarrow> i \<le> j"
  by (auto simp: class_high_def split: if_splits option.splits dest!: get_unicode_advances)

function class_loop :: "bytes \<Rightarrow> u32 \<Rightarrow> nat \<Rightarrow> bool \<Rightarrow> bool \<Rightarrow> (nat \<times> bool) option" where
  "class_loop glob c gi first is_match =
     (if gi < length glob \<and> (first \<or> glob ! gi \<noteq> CHR '']'') then
        (case get_unicode glob gi of
           None \<Rightarrow> None
         | Some (low, low_len, i) \<Rightarrow>
             (case class_high glob low (i + low_len) of
                None \<Rightarrow> None
              | Some (high, j) \<Rightarrow> class_loop glob c j False (is_match \<or> low \<le> c \<and> c \<le> high)))
      else Some (gi, is_match))"
  by pat_completeness auto
termination
  by (relation "measure (\<lambda>(glob, c, gi, first, m). length glob - gi)")
    (auto dest!: get_unicode_advances class_high_advances)

declare class_loop.simps [simp del]

datatype step =
    Continue glob_state
  | Fallthrough glob_state
  | Invalid
  | MatchBrace glob_state

definition class_arm :: "bytes \<Rightarrow> bytes \<Rightarrow> glob_state \<Rightarrow> step" where
  "class_arm glob path st =
     (let gi = gs_glob_index st + 1;
          negated = (gi < length glob \<and> (glob ! gi = CHR ''^'' \<or> glob ! gi = CHR ''!''));
          gi = (if negated then gi + 1 else gi)
      in
      (case decode_wtf8_rune_at path (gs_path_index st) of (c, len) \<Rightarrow>
         (case class_loop glob c gi True False of
            None \<Rightarrow> Invalid
          | Some (gi, is_match) \<Rightarrow>
              if length glob \<le> gi then Invalid
              else if is_match \<noteq> negated
              then Continue (st\<lparr>gs_glob_index := gi + 1, gs_path_index := gs_path_index st + len\<rparr>)
              else Fallthrough (st\<lparr>gs_glob_index := gi + 1\<rparr>))))"

definition literal_arm :: "bool \<Rightarrow> bytes \<Rightarrow> bytes \<Rightarrow> glob_state \<Rightarrow> step" where
  "literal_arm windows glob path st =
     (let pi = gs_path_index st in
      if pi < length path then
        (case unescape (glob ! gs_glob_index st) glob (gs_glob_index st) of
           None \<Rightarrow> Invalid
         | Some (cc, gi) \<Rightarrow>
             let cc_len = wtf8_byte_sequence_length cc;
                 is_match =
                   (if cc = CHR ''/'' then is_sep_native windows (path ! pi)
                    else if 1 < cc_len then
                      pi + cc_len \<le> length path \<and> gi + cc_len \<le> length glob
                      \<and> subslice path pi (pi + cc_len) = subslice glob gi (gi + cc_len)
                    else path ! pi = cc)
             in
             if is_match then
               let st = st\<lparr>gs_glob_index := gi + cc_len, gs_path_index := pi + cc_len\<rparr> in
               Continue (if cc = CHR ''/'' then st\<lparr>gs_wildcard := gs_globstar st\<rparr> else st)
             else Fallthrough (st\<lparr>gs_glob_index := gi\<rparr>))
      else Fallthrough st)"

function skip_branch_loop :: "bytes \<Rightarrow> 8 word \<Rightarrow> nat \<Rightarrow> 8 word \<Rightarrow> bool \<Rightarrow> nat \<times> 8 word" where
  "skip_branch_loop glob end_brace_depth gi depth in_brackets =
     (if gi < length glob then
        let c = glob ! gi in
        if c = CHR ''{'' then
          skip_branch_loop glob end_brace_depth (gi + 1) (if in_brackets then depth else depth + 1) in_brackets
        else if c = CHR ''}'' then
          if in_brackets then skip_branch_loop glob end_brace_depth (gi + 1) depth in_brackets
          else if depth - 1 = end_brace_depth then (gi + 1, depth - 1)
          else skip_branch_loop glob end_brace_depth (gi + 1) (depth - 1) in_brackets
        else if c = CHR ''['' then skip_branch_loop glob end_brace_depth (gi + 1) depth True
        else if c = CHR '']'' then skip_branch_loop glob end_brace_depth (gi + 1) depth False
        else if c = CHR 0x5C then skip_branch_loop glob end_brace_depth (gi + 2) depth in_brackets
        else skip_branch_loop glob end_brace_depth (gi + 1) depth in_brackets
      else (gi, depth))"
  by pat_completeness auto
termination
  by (relation "measure (\<lambda>(glob, e, gi, d, b). length glob - gi)") auto

declare skip_branch_loop.simps [simp del]

definition skip_branch :: "bytes \<Rightarrow> glob_state \<Rightarrow> glob_state" where
  "skip_branch glob st =
     (case skip_branch_loop glob (gs_brace_depth st - 1) (gs_glob_index st) (gs_brace_depth st) False of
        (gi, depth) \<Rightarrow> st\<lparr>gs_glob_index := gi, gs_brace_depth := depth\<rparr>)"

section \<open>The main loop\<close>

record brace =
  open_brace_idx :: nat
  branch_idx :: nat

definition BRACE_STACK_SIZE :: nat where
  "BRACE_STACK_SIZE = 10"

definition BRACE_BRANCH_BUDGET :: nat where
  "BRACE_BRANCH_BUDGET = 10000"

text \<open>A brace that a caller is inside of continues with the branch that the caller tries.\<close>

definition brace_arm :: "brace list \<Rightarrow> glob_state \<Rightarrow> step" where
  "brace_arm brace_stack st =
     (case find (\<lambda>b. open_brace_idx b = gs_glob_index st) brace_stack of
        Some b \<Rightarrow> Continue (st\<lparr>gs_glob_index := branch_idx b, gs_brace_depth := gs_brace_depth st + 1\<rparr>)
      | None \<Rightarrow> MatchBrace st)"

definition glob_arm :: "bool \<Rightarrow> bytes \<Rightarrow> nat \<Rightarrow> bytes \<Rightarrow> brace list \<Rightarrow> glob_state \<Rightarrow> step" where
  "glob_arm windows glob glob_start path brace_stack st =
     (let ch = glob ! gs_glob_index st; pi = gs_path_index st in
      if ch = CHR ''*'' then Continue (star_arm windows glob glob_start path st)
      else if ch = CHR ''?'' \<and> pi < length path then
        if \<not> is_sep_native windows (path ! pi)
        then Continue (st\<lparr>gs_glob_index := gs_glob_index st + 1,
                         gs_path_index := pi + wtf8_byte_sequence_length (path ! pi)\<rparr>)
        else Fallthrough st
      else if ch = CHR ''['' \<and> pi < length path then class_arm glob path st
      else if ch = CHR ''{'' then brace_arm brace_stack st
      else if (ch = CHR '','' \<or> ch = CHR ''}'') \<and> 0 < gs_brace_depth st then Continue (skip_branch glob st)
      else literal_arm windows glob path st)"

text \<open>One iteration: an arm, or, when no arm continues, the way back to the wildcard.\<close>

definition glob_next :: "bool \<Rightarrow> bytes \<Rightarrow> nat \<Rightarrow> bytes \<Rightarrow> brace list \<Rightarrow> glob_state \<Rightarrow> step" where
  "glob_next windows glob glob_start path brace_stack st =
     (case (if gs_glob_index st < length glob then glob_arm windows glob glob_start path brace_stack st
            else Fallthrough st) of
        Fallthrough st \<Rightarrow>
          (if 0 < wc_path_index (gs_wildcard st) \<and> wc_path_index (gs_wildcard st) \<le> length path
           then Continue (backtrack st) else Invalid)
      | r \<Rightarrow> r)"

text \<open>
  \<open>impl\<close> is the matcher that the brace routines call for a branch: from the start of the pattern, the
  brace stack, the budget and the state to the answer and the rest of the budget.
\<close>

type_synonym matcher = "nat \<Rightarrow> brace list \<Rightarrow> nat \<Rightarrow> glob_state \<Rightarrow> (bool \<times> nat) option"

definition match_brace_branch :: "matcher \<Rightarrow> nat \<Rightarrow> nat \<Rightarrow> brace list \<Rightarrow> nat \<Rightarrow> glob_state \<Rightarrow> (bool \<times> nat) option" where
  "match_brace_branch impl open_brace_index branch_index brace_stack budget st =
     (if budget = 0 then Some (False, budget)
      else if BRACE_STACK_SIZE \<le> length brace_stack then Some (False, budget - 1)
      else
        let stack = brace_stack @ [\<lparr>open_brace_idx = open_brace_index, branch_idx = branch_index\<rparr>] in
        impl branch_index stack (budget - 1)
          (st\<lparr>gs_glob_index := branch_index, gs_brace_depth := of_nat (length stack)\<rparr>))"

function match_brace_loop ::
  "matcher \<Rightarrow> bytes \<Rightarrow> brace list \<Rightarrow> nat \<Rightarrow> 16 word \<Rightarrow> bool \<Rightarrow> nat \<Rightarrow> nat \<Rightarrow> glob_state \<Rightarrow> (bool \<times> nat) option" where
  "match_brace_loop impl glob brace_stack open_brace_index depth in_brackets branch_index budget st =
     (let gi = gs_glob_index st in
      if gi < length glob then
        let c = glob ! gi; next_st = st\<lparr>gs_glob_index := gi + 1\<rparr> in
        if c = CHR ''{'' \<and> \<not> in_brackets then
          match_brace_loop impl glob brace_stack open_brace_index (depth + 1) in_brackets
            (if depth + 1 = 1 then gi + 1 else branch_index) budget next_st
        else if c = CHR ''}'' \<and> \<not> in_brackets then
          if depth - 1 = 0 then match_brace_branch impl open_brace_index branch_index brace_stack budget st
          else match_brace_loop impl glob brace_stack open_brace_index (depth - 1) in_brackets branch_index budget next_st
        else if c = CHR '','' \<and> depth = 1 \<and> \<not> in_brackets then
          (case match_brace_branch impl open_brace_index branch_index brace_stack budget st of
             Some (False, budget) \<Rightarrow>
               match_brace_loop impl glob brace_stack open_brace_index depth in_brackets (gi + 1) budget next_st
           | r \<Rightarrow> r)
        else
          match_brace_loop impl glob brace_stack open_brace_index depth
            (if c = CHR ''['' then True else if c = CHR '']'' then False else in_brackets) branch_index budget
            (if c = CHR 0x5C then st\<lparr>gs_glob_index := gi + 2\<rparr> else next_st)
      else Some (False, budget))"
  by pat_completeness auto
termination
  by (relation "measure (\<lambda>(impl, glob, bs, oi, d, b, bi, bu, st). length glob - gs_glob_index st)") auto

declare match_brace_loop.simps [simp del]

definition match_brace :: "matcher \<Rightarrow> bytes \<Rightarrow> brace list \<Rightarrow> nat \<Rightarrow> glob_state \<Rightarrow> (bool \<times> nat) option" where
  "match_brace impl glob brace_stack budget st =
     match_brace_loop impl glob brace_stack (gs_glob_index st) 0 False 0 budget st"

text \<open>
  The first argument bounds the number of iterations of the main loop, of one call and of the calls that
  it is nested in; \<open>None\<close> means that it did not suffice.
\<close>

primrec glob_match_impl :: "nat \<Rightarrow> bool \<Rightarrow> bytes \<Rightarrow> bytes \<Rightarrow> matcher" where
  "glob_match_impl 0 windows glob path = (\<lambda>glob_start brace_stack budget st. None)"
| "glob_match_impl (Suc n) windows glob path = (\<lambda>glob_start brace_stack budget st.
     if gs_glob_index st < length glob \<or> gs_path_index st < length path then
       (case glob_next windows glob glob_start path brace_stack st of
          Continue st \<Rightarrow> glob_match_impl n windows glob path glob_start brace_stack budget st
        | MatchBrace st \<Rightarrow> match_brace (glob_match_impl n windows glob path) glob brace_stack budget st
        | _ \<Rightarrow> Some (False, budget))
     else Some (True, budget))"

datatype match_result = NoMatch | Match | NegateNoMatch | NegateMatch

definition matches :: "match_result \<Rightarrow> bool" where
  "matches r \<longleftrightarrow> r = Match \<or> r = NegateMatch"

text \<open>\<open>match\<close>, with the leading exclamation marks counted.\<close>

definition glob_match :: "nat \<Rightarrow> bool \<Rightarrow> bytes \<Rightarrow> bytes \<Rightarrow> match_result option" where
  "glob_match fuel windows glob path =
     (let gi = skip_while ((=) (CHR ''!'')) glob 0;
          negated = odd gi
      in
      (case glob_match_impl fuel windows glob path 0 [] BRACE_BRANCH_BUDGET (state_default\<lparr>gs_glob_index := gi\<rparr>) of
         None \<Rightarrow> None
       | Some (matched, budget) \<Rightarrow>
           Some (if negated then if matched then NegateNoMatch else NegateMatch
                 else if matched then Match else NoMatch)))"

section \<open>More fuel gives the same answer\<close>

definition extends :: "matcher \<Rightarrow> matcher \<Rightarrow> bool" where
  "extends impl' impl \<longleftrightarrow> (\<forall>start stack budget st r. impl start stack budget st = Some r \<longrightarrow> impl' start stack budget st = Some r)"

lemma match_brace_branch_extends:
  "extends impl' impl \<Longrightarrow> match_brace_branch impl oi bi stack budget st = Some r \<Longrightarrow>
    match_brace_branch impl' oi bi stack budget st = Some r"
  unfolding match_brace_branch_def extends_def Let_def by (cases r) (simp split: if_splits)

lemma match_brace_loop_extends:
  "extends impl' impl \<Longrightarrow> match_brace_loop impl glob stack oi depth inb bi budget st = Some r \<Longrightarrow>
    match_brace_loop impl' glob stack oi depth inb bi budget st = Some r"
proof (induction impl glob stack oi depth inb bi budget st rule: match_brace_loop.induct)
  case (1 impl glob stack oi depth inb bi budget st)
  note branch = match_brace_branch_extends [OF "1.prems"(1)]
  show ?case
    using 1 branch unfolding match_brace_loop.simps [of impl glob stack oi depth inb bi budget st]
      match_brace_loop.simps [of impl' glob stack oi depth inb bi budget st]
    by (auto simp: Let_def split: if_splits option.splits prod.splits bool.splits)
qed

lemma glob_match_impl_Suc: "extends (glob_match_impl (Suc n) windows glob path) (glob_match_impl n windows glob path)"
proof (induction n)
  case (Suc n)
  then show ?case
    using match_brace_loop_extends [OF Suc]
    by (auto simp: extends_def match_brace_def split: step.splits if_splits)
qed (simp add: extends_def)

lemma glob_match_impl_mono:
  "n \<le> m \<Longrightarrow> extends (glob_match_impl m windows glob path) (glob_match_impl n windows glob path)"
proof (induction m rule: dec_induct)
  case (step m)
  then show ?case using glob_match_impl_Suc [of m windows glob path] unfolding extends_def by blast
qed (simp add: extends_def)

section \<open>The arms advance\<close>

text \<open>
  The pattern position moves on, the path position does not move back, and the wildcard stays or, within
  the path, falls back to the globstar.
\<close>

definition advances :: "bytes \<Rightarrow> glob_state \<Rightarrow> glob_state \<Rightarrow> bool" where
  "advances path st st' \<longleftrightarrow>
     gs_glob_index st < gs_glob_index st' \<and> gs_path_index st \<le> gs_path_index st'
     \<and> gs_globstar st' = gs_globstar st
     \<and> (gs_wildcard st' = gs_wildcard st \<or> gs_wildcard st' = gs_globstar st \<and> gs_path_index st < length path)"

lemma class_loop_ge: "class_loop glob c gi first m = Some (j, m') \<Longrightarrow> gi \<le> j"
proof (induction glob c gi first m rule: class_loop.induct)
  case (1 glob c gi first m)
  show ?case
  proof (cases "gi < length glob \<and> (first \<or> glob ! gi \<noteq> CHR '']'')")
    case True
    then obtain low low_len i high j' where r: "get_unicode glob gi = Some (low, low_len, i)"
        "class_high glob low (i + low_len) = Some (high, j')"
        "class_loop glob c j' False (m \<or> low \<le> c \<and> c \<le> high) = Some (j, m')"
      using 1(2) by (subst (asm) class_loop.simps) (auto split: option.splits)
    have "j' \<le> j" using 1(1) [OF True r(1) refl refl r(2) refl r(3)] .
    then show ?thesis using get_unicode_advances [OF r(1)] class_high_advances [OF r(2)] by simp
  next
    case False
    then show ?thesis using 1(2) by (subst (asm) class_loop.simps) auto
  qed
qed

lemma skip_branch_loop_ge: "gi \<le> fst (skip_branch_loop glob e gi depth inb)"
proof (induction "length glob - gi" arbitrary: gi depth inb rule: less_induct)
  case less
  have "gi \<le> fst (skip_branch_loop glob e (gi + 1) d b)" "gi \<le> fst (skip_branch_loop glob e (gi + 2) d b)"
    if "gi < length glob" for d b
    using less [of "gi + 1" d b] less [of "gi + 2" d b] diff_less_mono2 [of gi "gi + 1" "length glob"]
      diff_less_mono2 [of gi "gi + 2" "length glob"] that by linarith+
  then show ?case
    unfolding skip_branch_loop.simps [of glob e gi depth inb] Let_def by simp
qed

lemma skip_branch_loop_gt:
  assumes "gi < length glob"
  shows "gi < fst (skip_branch_loop glob e gi depth inb)"
proof -
  have "gi < fst (skip_branch_loop glob e (gi + 1) d b)" "gi < fst (skip_branch_loop glob e (gi + 2) d b)" for d b
    using skip_branch_loop_ge [of "gi + 1" glob e d b] skip_branch_loop_ge [of "gi + 2" glob e d b] by simp_all
  then show ?thesis
    unfolding skip_branch_loop.simps [of glob e gi depth inb] Let_def using assms by simp
qed

lemma skip_branch_advances: "gs_glob_index st < length glob \<Longrightarrow> advances path st (skip_branch glob st)"
  using skip_branch_loop_gt [of "gs_glob_index st" glob]
  by (auto simp: skip_branch_def advances_def split: prod.split) (metis fst_conv)

lemma class_arm_advances: "class_arm glob path st = Continue st' \<Longrightarrow> advances path st st'"
  by (auto simp: class_arm_def advances_def Let_def split: prod.splits option.splits if_splits dest!: class_loop_ge)

lemma unescape_ge: "unescape c glob gi = Some (cc, j) \<Longrightarrow> gi \<le> j"
  by (auto simp: unescape_def Let_def split: if_splits)

lemma less_add_pos: "(a::nat) \<le> b \<Longrightarrow> a < b + wtf8_byte_sequence_length c"
  using wtf8_byte_sequence_length_pos [of c] by linarith

lemma literal_arm_advances: "literal_arm windows glob path st = Continue st' \<Longrightarrow> advances path st st'"
  by (auto simp: literal_arm_def advances_def Let_def less_add_pos split: option.splits if_splits dest!: unescape_ge)

definition stack_ok :: "brace list \<Rightarrow> bool" where
  "stack_ok stack \<longleftrightarrow> length stack \<le> BRACE_STACK_SIZE \<and> (\<forall>b\<in>set stack. open_brace_idx b < branch_idx b)"

lemma brace_arm_advances: "brace_arm stack st = Continue st' \<Longrightarrow> stack_ok stack \<Longrightarrow> advances path st st'"
  by (auto simp: brace_arm_def advances_def stack_ok_def find_Some_iff split: option.splits) (metis nth_mem)

lemma glob_arm_advances:
  assumes "glob_arm windows glob start path stack st = Continue st'" and "gs_glob_index st < length glob"
    and "glob ! gs_glob_index st \<noteq> CHR ''*''" and "stack_ok stack"
  shows "advances path st st'"
  using assms
  by (auto simp: glob_arm_def Let_def advances_def [of path st "_ \<lparr>gs_glob_index := _\<rparr>"] advances_def [of path st "gs_path_index_update _ _"]
      intro: class_arm_advances literal_arm_advances brace_arm_advances skip_branch_advances split: if_splits)

section \<open>The star arm\<close>

definition two_stars :: "bytes \<Rightarrow> nat \<Rightarrow> bool" where
  "two_stars glob i \<longleftrightarrow> i + 1 < length glob \<and> glob ! i = CHR ''*'' \<and> glob ! (i + 1) = CHR ''*''"

lemma subslice_nth: "subslice xs a b = ys \<Longrightarrow> b \<le> length xs \<Longrightarrow> k < b - a \<Longrightarrow> xs ! (a + k) = ys ! k"
  unfolding subslice_def by auto

lemma skip_globstars_loop:
  "two_stars glob (i - 2) \<Longrightarrow> 2 \<le> i \<Longrightarrow>
    i \<le> skip_globstars_loop glob i \<and> two_stars glob (skip_globstars_loop glob i - 2)
    \<and> skip_globstars_loop glob (skip_globstars_loop glob i) = skip_globstars_loop glob i"
proof (induction glob i rule: skip_globstars_loop.induct)
  case (1 glob i)
  show ?case
  proof (cases "i + 4 \<le> length glob \<and> subslice glob i (i + 4) = ''/**/''")
    case True
    then have "glob ! (i + 1) = CHR ''*''" "glob ! (i + 2) = CHR ''*''"
      using subslice_nth [of glob i "i + 4" "''/**/''" 1] subslice_nth [of glob i "i + 4" "''/**/''" 2] by auto
    then have "two_stars glob (i + 3 - 2)" using True by (simp add: two_stars_def add.commute)
    then have "i + 3 \<le> skip_globstars_loop glob (i + 3) \<and> two_stars glob (skip_globstars_loop glob (i + 3) - 2)
      \<and> skip_globstars_loop glob (skip_globstars_loop glob (i + 3)) = skip_globstars_loop glob (i + 3)"
      using 1(1) [OF True] 1(3) by simp
    moreover have "skip_globstars_loop glob i = skip_globstars_loop glob (i + 3)"
      using True by (subst skip_globstars_loop.simps) simp
    ultimately show ?thesis by simp
  next
    case False
    then have "skip_globstars_loop glob i = i" by (subst skip_globstars_loop.simps) auto
    then show ?thesis using 1(2) by simp
  qed
qed

lemma skip_globstars:
  assumes "two_stars glob i"
  shows "i \<le> skip_globstars glob i" "two_stars glob (skip_globstars glob i)"
    "skip_globstars glob (skip_globstars glob i) = skip_globstars glob i"
proof -
  define e where "e = skip_globstars_loop glob (i + 2)"
  have e: "i + 2 \<le> e" "two_stars glob (e - 2)" "skip_globstars_loop glob e = e"
    using skip_globstars_loop [of glob "i + 2"] assms by (simp_all add: e_def)
  have skip: "skip_globstars glob j = (let e = skip_globstars_loop glob (j + 2) in
      if e + 3 = length glob \<and> subslice glob e (e + 3) = ''/**'' then e + 3 - 2 else e - 2)" for j
    unfolding skip_globstars_def Let_def by (simp only: if_distrib [of "\<lambda>k. k - 2"])
  consider (tail) "e + 3 = length glob" "subslice glob e (e + 3) = ''/**''" "skip_globstars glob i = length glob - 2"
    | (no_end) "\<not> (e + 3 = length glob \<and> subslice glob e (e + 3) = ''/**'')" "skip_globstars glob i = e - 2"
    using skip [of i] unfolding e_def [symmetric] Let_def by (auto split: if_splits)
  then have "i \<le> skip_globstars glob i \<and> two_stars glob (skip_globstars glob i)
    \<and> skip_globstars glob (skip_globstars glob i) = skip_globstars glob i"
  proof cases
    case tail
    have "glob ! (e + 1) = CHR ''*''" "glob ! (e + 2) = CHR ''*''"
      using tail subslice_nth [of glob e "e + 3" "''/**''" 1] subslice_nth [of glob e "e + 3" "''/**''" 2] by auto
    moreover have "length glob - 2 = e + 1" using tail(1) by simp
    moreover have "skip_globstars_loop glob (length glob) = length glob" by (subst skip_globstars_loop.simps) simp
    ultimately show ?thesis using tail(1,3) e(1) skip [of "e + 1"] by (simp add: two_stars_def numeral_3_eq_3)
  next
    case no_end
    have "e - 2 + 2 = e" using e(1) by simp
    then have "skip_globstars glob (e - 2) = e - 2" using skip [of "e - 2"] no_end(1) e(3) by simp
    then show ?thesis using no_end(2) e(1,2) by simp
  qed
  then show "i \<le> skip_globstars glob i" "two_stars glob (skip_globstars glob i)"
    "skip_globstars glob (skip_globstars glob i) = skip_globstars glob i" by blast+
qed

text \<open>A globstar that the matcher can go back to: two stars, with nothing to skip, that are a path segment.\<close>

definition is_segment :: "bytes \<Rightarrow> nat \<Rightarrow> nat \<Rightarrow> bool" where
  "is_segment glob start g \<longleftrightarrow>
     (g + 2 - start < 3 \<or> glob ! (g - 1) = CHR ''/'') \<and> (length glob \<le> g + 2 \<or> glob ! (g + 2) = CHR ''/'')"

definition restarts :: "bytes \<Rightarrow> nat \<Rightarrow> nat \<Rightarrow> bool" where
  "restarts glob start g \<longleftrightarrow> two_stars glob g \<and> skip_globstars glob g = g \<and> is_segment glob start g"

lemma restarts_before: "restarts glob start g \<Longrightarrow> g \<le> start' \<Longrightarrow> restarts glob start' g"
  by (auto simp: restarts_def is_segment_def)

text \<open>Outside the path, the star arm leaves a wildcard that cannot be gone back to.\<close>

lemma star_arm_advances:
  assumes "glob ! gs_glob_index st = CHR ''*''"
  shows "gs_path_index (star_arm windows glob start path st) = gs_path_index st"
    and "gs_glob_index st < gs_glob_index (star_arm windows glob start path st)"
proof -
  have "i \<le> skip_globstars glob i" if "Suc i < length glob" "glob ! Suc i = CHR ''*''" "i = gs_glob_index st" for i
    using skip_globstars(1) [of glob i] assms that by (simp add: two_stars_def)
  then show "gs_path_index (star_arm windows glob start path st) = gs_path_index st"
    "gs_glob_index st < gs_glob_index (star_arm windows glob start path st)"
    by (auto simp: star_arm_def Let_def skip_to_separator_def wildcard_at_separator_def less_Suc_eq_le le_SucI)
qed

lemma star_arm_outside:
  assumes "length path \<le> gs_path_index st"
  shows "length path < wc_path_index (gs_wildcard (star_arm windows glob start path st))"
  using assms by (auto simp: star_arm_def Let_def skip_to_separator_def wildcard_at_separator_def skip_while_def)

text \<open>Within the path, it leaves a new globstar, a new wildcard, or, at a separator, the globstar.\<close>

lemma star_arm_inside:
  assumes "gs_path_index st < length path" and "glob ! gs_glob_index st = CHR ''*''" and "gs_glob_index st < length glob"
    and st': "st' = star_arm windows glob start path st"
  obtains (globstar) g where "gs_glob_index st \<le> g" "g < gs_glob_index st'" "restarts glob start g"
      "gs_wildcard st' = gs_globstar st'" "wc_glob_index (gs_globstar st') = g"
      "gs_path_index st < wc_path_index (gs_globstar st')" "wc_path_index (gs_globstar st') \<le> length path + 1"
    | (wildcard) g where "gs_glob_index st \<le> g" "g < gs_glob_index st'" "g < length glob" "glob ! g = CHR ''*''"
      "gs_globstar st' = gs_globstar st" "wc_glob_index (gs_wildcard st') = g"
      "gs_path_index st < wc_path_index (gs_wildcard st')" "\<not> restarts glob start (gs_glob_index st)"
    | (separator) "gs_globstar st' = gs_globstar st" "gs_wildcard st' = gs_globstar st"
      "\<not> restarts glob start (gs_glob_index st)"
proof -
  let ?gi = "gs_glob_index st" and ?pi = "gs_path_index st"
  let ?two = "Suc ?gi < length glob \<and> glob ! Suc ?gi = CHR ''*''"
  let ?g = "if ?two then skip_globstars glob ?gi else ?gi"
  let ?seg = "?two \<and> is_segment glob start ?g"
  have two: "two_stars glob ?gi" if ?two using that assms(2) by (simp add: two_stars_def)
  have g: "?gi \<le> ?g" "?g < length glob" "glob ! ?g = CHR ''*''"
    using assms(2,3) skip_globstars(1,2) [OF two] by (auto simp: two_stars_def)
  show thesis
  proof (cases ?seg)
    case True
    define p where "p = skip_while (\<lambda>c. \<not> is_sep_native windows c) path ?pi"
    have p: "?pi \<le> p" "p \<le> length path" using assms(1) skip_while_le [of ?pi path] by (simp_all add: p_def)
    have st': "st' = skip_to_separator windows path (?g + 2 < length glob)
        (st\<lparr>gs_wildcard := \<lparr>wc_glob_index = ?g, wc_path_index = ?pi + wtf8_byte_sequence_length (path ! ?pi),
              wc_brace_depth = gs_brace_depth st\<rparr>,
            gs_glob_index := if ?g + 2 < length glob then ?g + 2 + 1 else ?g + 2\<rparr>)"
      using True assms(1) unfolding st' star_arm_def Let_def is_segment_def by auto
    have "restarts glob start ?g"
      using True skip_globstars(2,3) [OF two] by (auto simp: restarts_def)
    moreover have "?g < gs_glob_index st'" "gs_wildcard st' = gs_globstar st'"
        "wc_glob_index (gs_globstar st') = ?g" "wc_path_index (gs_globstar st') \<in> {p, p + 1}"
        "wc_path_index (gs_globstar st') = p \<Longrightarrow> p = length path" "wc_path_index (gs_globstar st') \<le> length path + 1"
      using p assms(1) unfolding st' skip_to_separator_def Let_def by (simp_all add: p_def [symmetric] split: if_splits)
    ultimately show thesis
      using p assms(1) g(1) by (intro globstar [of ?g]) auto
  next
    case False
    then have r: "\<not> restarts glob start ?gi" by (auto simp: restarts_def two_stars_def)
    have st': "st' = wildcard_at_separator windows path
        (st\<lparr>gs_wildcard := \<lparr>wc_glob_index = ?g, wc_path_index = ?pi + wtf8_byte_sequence_length (path ! ?pi),
              wc_brace_depth = gs_brace_depth st\<rparr>,
            gs_glob_index := if ?two then ?g + 2 else ?g + 1\<rparr>)"
      using False assms(1) unfolding st' star_arm_def Let_def is_segment_def by auto
    show thesis
    proof (cases "is_sep_native windows (path ! ?pi)")
      case True
      then show thesis using r assms(1) st' by (intro separator) (auto simp: wildcard_at_separator_def)
    next
      case False
      then show thesis
        using r g(1,2,3) assms(1,3) st' by (intro wildcard [of ?g]) (auto simp: wildcard_at_separator_def)
    qed
  qed
qed

section \<open>The main loop ends\<close>

text \<open>
  A state is dead when it is past the path and its wildcard is too: from there the pattern position only
  moves on. Otherwise the wildcard, when set, is a star at or before the pattern position, at it just
  after going back; and the globstar is one that the star arm accepts again.
\<close>

abbreviation (input) wildcard_set :: "glob_state \<Rightarrow> bool" where
  "wildcard_set st \<equiv> 0 < wc_path_index (gs_wildcard st)"

definition dead :: "bytes \<Rightarrow> glob_state \<Rightarrow> bool" where
  "dead path st \<longleftrightarrow> length path \<le> gs_path_index st \<and> length path < wc_path_index (gs_wildcard st)"

definition went_back :: "glob_state \<Rightarrow> bool" where
  "went_back st \<longleftrightarrow> wildcard_set st \<and> gs_glob_index st = wc_glob_index (gs_wildcard st)"

definition star_at :: "bytes \<Rightarrow> glob_state \<Rightarrow> wildcard \<Rightarrow> bool" where
  "star_at glob st w \<longleftrightarrow>
     (0 < wc_path_index w \<longrightarrow>
       wc_glob_index w \<le> gs_glob_index st \<and> wc_glob_index w < length glob \<and> glob ! wc_glob_index w = CHR ''*'')"

definition live :: "bytes \<Rightarrow> nat \<Rightarrow> bytes \<Rightarrow> glob_state \<Rightarrow> bool" where
  "live glob start path st \<longleftrightarrow>
     (let W = gs_wildcard st; G = gs_globstar st in
      (wc_path_index G = 0 \<longrightarrow> wc_glob_index G = 0)
      \<and> (wc_path_index W = 0 \<longrightarrow> W = G)
      \<and> wc_glob_index G \<le> wc_glob_index W
      \<and> star_at glob st W \<and> star_at glob st G
      \<and> (went_back st \<longrightarrow> gs_path_index st = wc_path_index W \<and> gs_path_index st \<le> length path)
      \<and> (0 < wc_path_index G \<longrightarrow>
           restarts glob start (wc_glob_index G)
           \<and> (wc_glob_index W = wc_glob_index G \<and> wc_path_index W \<le> length path \<longrightarrow> W = G)))"

definition glob_measure :: "bytes \<Rightarrow> bytes \<Rightarrow> (glob_state \<times> glob_state) set" where
  "glob_measure glob path =
     measures
       [\<lambda>st. if dead path st then 0 else 1,
        \<lambda>st. if dead path st then length glob - gs_glob_index st else 0,
        \<lambda>st. length glob - wc_glob_index (gs_globstar st),
        \<lambda>st. length path + 2 - wc_path_index (gs_globstar st),
        \<lambda>st. if gs_wildcard st \<noteq> gs_globstar st then 1 + length glob - wc_glob_index (gs_wildcard st)
             else if went_back st then 0 else Suc (length glob - gs_glob_index st),
        \<lambda>st. if gs_wildcard st \<noteq> gs_globstar st then length path + 2 - wc_path_index (gs_wildcard st)
             else length path + 3,
        \<lambda>st. if went_back st then 0 else Suc (length glob - gs_glob_index st)]"

lemma wf_glob_measure: "wf (glob_measure glob path)"
  by (simp add: glob_measure_def)

lemma liveD:
  assumes "live glob start path st"
  shows "wc_path_index (gs_globstar st) = 0 \<Longrightarrow> wc_glob_index (gs_globstar st) = 0"
    "wc_path_index (gs_wildcard st) = 0 \<Longrightarrow> gs_wildcard st = gs_globstar st"
    "wc_glob_index (gs_globstar st) \<le> wc_glob_index (gs_wildcard st)"
    "star_at glob st (gs_wildcard st)" "star_at glob st (gs_globstar st)"
    "went_back st \<Longrightarrow> gs_path_index st = wc_path_index (gs_wildcard st)"
    "went_back st \<Longrightarrow> gs_path_index st \<le> length path"
    "0 < wc_path_index (gs_globstar st) \<Longrightarrow> restarts glob start (wc_glob_index (gs_globstar st))"
    "0 < wc_path_index (gs_globstar st) \<Longrightarrow> wc_glob_index (gs_wildcard st) = wc_glob_index (gs_globstar st) \<Longrightarrow>
      wc_path_index (gs_wildcard st) \<le> length path \<Longrightarrow> gs_wildcard st = gs_globstar st"
  using assms unfolding live_def Let_def by blast+

lemma liveI:
  assumes "wc_path_index (gs_globstar st) = 0 \<Longrightarrow> wc_glob_index (gs_globstar st) = 0"
    and "wc_path_index (gs_wildcard st) = 0 \<Longrightarrow> gs_wildcard st = gs_globstar st"
    and "wc_glob_index (gs_globstar st) \<le> wc_glob_index (gs_wildcard st)"
    and "star_at glob st (gs_wildcard st)" and "star_at glob st (gs_globstar st)"
    and "went_back st \<Longrightarrow> gs_path_index st = wc_path_index (gs_wildcard st) \<and> gs_path_index st \<le> length path"
    and "0 < wc_path_index (gs_globstar st) \<Longrightarrow> restarts glob start (wc_glob_index (gs_globstar st))
      \<and> (wc_glob_index (gs_wildcard st) = wc_glob_index (gs_globstar st) \<and> wc_path_index (gs_wildcard st) \<le> length path
        \<longrightarrow> gs_wildcard st = gs_globstar st)"
  shows "live glob start path st"
  using assms unfolding live_def Let_def by blast

lemma dead_measure:
  "\<not> dead path st \<Longrightarrow> dead path st' \<Longrightarrow> (st', st) \<in> glob_measure glob path"
  "dead path st \<Longrightarrow> dead path st' \<Longrightarrow> gs_glob_index st < gs_glob_index st' \<Longrightarrow> gs_glob_index st < length glob \<Longrightarrow>
    (st', st) \<in> glob_measure glob path"
  by (simp_all add: glob_measure_def diff_less_mono2)

lemma globstar_measure:
  assumes "\<not> dead path st" and "\<not> dead path st'"
  shows
    "wc_glob_index (gs_globstar st) < wc_glob_index (gs_globstar st') \<Longrightarrow> wc_glob_index (gs_globstar st) < length glob \<Longrightarrow>
      (st', st) \<in> glob_measure glob path"
    "wc_glob_index (gs_globstar st) = wc_glob_index (gs_globstar st') \<Longrightarrow>
      wc_path_index (gs_globstar st) < wc_path_index (gs_globstar st') \<Longrightarrow>
      wc_path_index (gs_globstar st) < length path + 2 \<Longrightarrow> (st', st) \<in> glob_measure glob path"
  using assms by (simp_all add: glob_measure_def diff_less_mono2)

text \<open>The measure for steps that keep the globstar.\<close>

lemma wildcard_measure:
  assumes "\<not> dead path st" and "\<not> dead path st'" and "gs_globstar st' = gs_globstar st"
  shows
    "gs_wildcard st' = gs_wildcard st \<Longrightarrow> \<not> went_back st \<Longrightarrow> \<not> went_back st' \<Longrightarrow>
      gs_glob_index st < gs_glob_index st' \<Longrightarrow> gs_glob_index st < length glob \<Longrightarrow> (st', st) \<in> glob_measure glob path"
    "gs_wildcard st' = gs_wildcard st \<Longrightarrow> \<not> went_back st \<Longrightarrow> went_back st' \<Longrightarrow> (st', st) \<in> glob_measure glob path"
    "gs_wildcard st \<noteq> gs_globstar st \<Longrightarrow> gs_wildcard st' = gs_globstar st \<Longrightarrow>
      wc_glob_index (gs_wildcard st) < gs_glob_index st' \<Longrightarrow> wc_glob_index (gs_wildcard st) < length glob \<Longrightarrow>
      (st', st) \<in> glob_measure glob path"
    "gs_wildcard st \<noteq> gs_globstar st \<Longrightarrow> gs_wildcard st' \<noteq> gs_globstar st \<Longrightarrow>
      wc_glob_index (gs_wildcard st) < length glob \<Longrightarrow>
      wc_glob_index (gs_wildcard st) < wc_glob_index (gs_wildcard st') \<Longrightarrow> (st', st) \<in> glob_measure glob path"
    "gs_wildcard st \<noteq> gs_globstar st \<Longrightarrow> gs_wildcard st' \<noteq> gs_globstar st \<Longrightarrow>
      wc_glob_index (gs_wildcard st) = wc_glob_index (gs_wildcard st') \<Longrightarrow>
      wc_path_index (gs_wildcard st) < wc_path_index (gs_wildcard st') \<Longrightarrow> wc_path_index (gs_wildcard st) \<le> length path \<Longrightarrow>
      (st', st) \<in> glob_measure glob path"
    "gs_wildcard st = gs_globstar st \<Longrightarrow> gs_wildcard st' \<noteq> gs_globstar st \<Longrightarrow> \<not> went_back st \<Longrightarrow>
      gs_glob_index st \<le> wc_glob_index (gs_wildcard st') \<Longrightarrow> gs_glob_index st < length glob \<Longrightarrow>
      (st', st) \<in> glob_measure glob path"
    "gs_wildcard st = gs_globstar st \<Longrightarrow> gs_wildcard st' = gs_globstar st \<Longrightarrow> \<not> went_back st \<Longrightarrow> \<not> went_back st' \<Longrightarrow>
      gs_glob_index st < gs_glob_index st' \<Longrightarrow> gs_glob_index st < length glob \<Longrightarrow> (st', st) \<in> glob_measure glob path"
  using assms by (simp add: glob_measure_def diff_less_mono2 less_Suc_eq_le; linarith?)+

lemma advances_live:
  assumes a: "advances path st st'" and "dead path st \<or> live glob start path st" and gi: "gs_glob_index st < length glob"
    and "glob ! gs_glob_index st \<noteq> CHR ''*''"
  shows "(dead path st' \<or> live glob start path st') \<and> (st', st) \<in> glob_measure glob path"
proof (cases "dead path st")
  case True
  then show ?thesis using a gi dead_measure(2) [of path st st' glob] by (auto simp: dead_def advances_def)
next
  case False
  then have l: "live glob start path st" using assms(2) by simp
  note d = liveD [OF l]
  have w: "wc_glob_index w < gs_glob_index st" if "star_at glob st w" "0 < wc_path_index w" for w
    using that assms(4) by (metis star_at_def le_neq_implies_less)
  have s': "star_at glob st' w" if "star_at glob st w" for w
    using that a by (auto simp: star_at_def advances_def)
  have n: "\<not> went_back st" "\<not> went_back st'"
    using w [OF d(4)] w [OF d(5)] a by (auto simp: went_back_def advances_def)
  have c: "gs_globstar st' = gs_globstar st" "gs_wildcard st' = gs_wildcard st \<or> gs_wildcard st' = gs_globstar st"
    "gs_glob_index st < gs_glob_index st'"
    using a by (auto simp: advances_def)
  have "live glob start path st'"
    using c(1,2) d(1,2,3,8,9) s' [OF d(4)] s' [OF d(5)] n(2) by (intro liveI) auto
  moreover have "(st', st) \<in> glob_measure glob path"
  proof (cases "dead path st'")
    case True
    then show ?thesis using False by (rule dead_measure(1) [rotated])
  next
    case nd: False
    note m = wildcard_measure [OF False nd c(1)]
    show ?thesis
    proof (cases "gs_wildcard st' = gs_wildcard st")
      case True
      then show ?thesis using m(1) n c(3) gi by simp
    next
      case ne: False
      then have "gs_wildcard st' = gs_globstar st" "gs_wildcard st \<noteq> gs_globstar st" using c(2) by auto
      moreover from this(2) have "wildcard_set st" using d(2) by blast
      ultimately show ?thesis using m(3) w [OF d(4)] c(3) gi by simp
    qed
  qed
  ultimately show ?thesis by simp
qed

lemma backtrack_live:
  assumes l: "live glob start path st" and "wildcard_set st" and "wc_path_index (gs_wildcard st) \<le> length path"
    and "\<not> (gs_glob_index st < length glob \<and> glob ! gs_glob_index st = CHR ''*'')"
  shows "live glob start path (backtrack st) \<and> (backtrack st, st) \<in> glob_measure glob path"
proof
  note d = liveD [OF l]
  have b: "gs_wildcard (backtrack st) = gs_wildcard st" "gs_globstar (backtrack st) = gs_globstar st"
    "gs_glob_index (backtrack st) = wc_glob_index (gs_wildcard st)"
    "gs_path_index (backtrack st) = wc_path_index (gs_wildcard st)"
    by (simp_all add: backtrack_def)
  show "live glob start path (backtrack st)"
    using d(1,2,3,4,5,8,9) assms(2,3) by (intro liveI) (auto simp: b star_at_def)
  have "\<not> dead path st" "\<not> dead path (backtrack st)" using assms(3) by (auto simp: dead_def b)
  moreover have "\<not> went_back st" "went_back (backtrack st)"
    using assms(2,4) d(4) by (auto simp: went_back_def b star_at_def)
  ultimately show "(backtrack st, st) \<in> glob_measure glob path"
    by (intro wildcard_measure(2)) (simp_all add: b)
qed

lemma star_live:
  assumes dl: "dead path st \<or> live glob start path st" and gi: "gs_glob_index st < length glob"
    and star: "glob ! gs_glob_index st = CHR ''*''"
    and st'_def: "st' = star_arm windows glob start path st"
  shows "(dead path st' \<or> live glob start path st') \<and> (st', st) \<in> glob_measure glob path"
proof (cases "gs_path_index st < length path")
  case False
  then have "dead path st'"
    using star_arm_advances(1) [OF star] star_arm_outside [of path st] by (simp add: dead_def st'_def)
  then show ?thesis
    using star_arm_advances(2) [OF star, of windows start path] gi dead_measure [of path st st' glob] by (auto simp: st'_def)
next
  case True
  then have nd: "\<not> dead path st" "\<not> dead path st'" and l: "live glob start path st"
    using star_arm_advances(1) [OF star] dl by (auto simp: dead_def st'_def)
  note d = liveD [OF l]
  have adv: "gs_glob_index st < gs_glob_index st'" using star_arm_advances(2) [OF star] by (simp add: st'_def)
  have G: "wc_glob_index (gs_globstar st) \<le> gs_glob_index st"
    using d(1,5) by (cases "wc_path_index (gs_globstar st) = 0") (auto simp: star_at_def)
  have W: "wildcard_set st \<Longrightarrow> wc_glob_index (gs_wildcard st) \<le> gs_glob_index st" using d(4) by (simp add: star_at_def)
  have Gpi: "gs_path_index st = wc_path_index (gs_globstar st) \<and> gs_wildcard st = gs_globstar st"
    if "0 < wc_path_index (gs_globstar st)" "gs_glob_index st = wc_glob_index (gs_globstar st)"
  proof -
    have "wildcard_set st" using d(2) that(1) by (metis neq0_conv)
    moreover from this have "went_back st" using W d(3) that(2) by (simp add: went_back_def)
    ultimately show ?thesis using d(6,7,9) that by (metis went_back_def)
  qed
  have nb: "gs_wildcard st = gs_globstar st \<Longrightarrow> \<not> restarts glob start (gs_glob_index st) \<Longrightarrow> \<not> went_back st"
    using d(8) by (auto simp: went_back_def)
  have s': "star_at glob st' w" if "star_at glob st w" for w
    using that adv by (auto simp: star_at_def)
  from True star gi st'_def show ?thesis
  proof (cases rule: star_arm_inside)
    case (globstar g)
    have "g < length glob" "glob ! g = CHR ''*''" using globstar(3) by (auto simp: restarts_def two_stars_def)
    then have "live glob start path st'"
      using globstar by (intro liveI) (auto simp: star_at_def went_back_def)
    moreover have "(st', st) \<in> glob_measure glob path"
    proof (cases "wc_glob_index (gs_globstar st) < g")
      case True
      then show ?thesis using globstar(5) \<open>g < length glob\<close> by (intro globstar_measure(1) nd) simp_all
    next
      case False
      then have "wc_glob_index (gs_globstar st) = g" "gs_glob_index st = wc_glob_index (gs_globstar st)" using globstar(1) G by simp_all
      moreover from this have "wc_path_index (gs_globstar st) < wc_path_index (gs_globstar st')"
        using Gpi globstar(6) by (cases "wc_path_index (gs_globstar st) = 0") auto
      ultimately show ?thesis using globstar(5,7) by (intro globstar_measure(2) nd) simp_all
    qed
    ultimately show ?thesis by simp
  next
    case (wildcard g)
    have ne: "gs_wildcard st' \<noteq> gs_globstar st"
    proof
      assume "gs_wildcard st' = gs_globstar st"
      then have "0 < wc_path_index (gs_globstar st)" "gs_glob_index st = wc_glob_index (gs_globstar st)"
        using wildcard(1,6,7) G by auto
      then show False using Gpi d(8) wildcard(8) by simp
    qed
    have gG: "wc_glob_index (gs_globstar st) < g" if "0 < wc_path_index (gs_globstar st)"
    proof (rule ccontr)
      assume "\<not> ?thesis"
      then have "gs_glob_index st = wc_glob_index (gs_globstar st)" using wildcard(1) G by simp
      then show False using d(8) [OF that] wildcard(8) by simp
    qed
    have "live glob start path st'"
      using wildcard(2-7) d(1,8) s' [OF d(5)] gG G wildcard(1)
      by (intro liveI) (auto simp: star_at_def went_back_def)
    moreover have "(st', st) \<in> glob_measure glob path"
    proof (cases "gs_wildcard st = gs_globstar st")
      case True
      then show ?thesis using nb wildcard(1,6,8) gi ne by (intro wildcard_measure(6) nd wildcard(5)) simp_all
    next
      case False
      then have w: "wildcard_set st" using d(2) by blast
      then have Wg: "wc_glob_index (gs_wildcard st) \<le> g" "wc_glob_index (gs_wildcard st) < length glob"
        using W wildcard(1) d(4) by (auto simp: star_at_def)
      show ?thesis
      proof (cases "wc_glob_index (gs_wildcard st) = g")
        case True
        then have "went_back st" using w W wildcard(1) by (simp add: went_back_def)
        then show ?thesis using True False ne wildcard(6,7) d(6,7) by (intro wildcard_measure(5) nd wildcard(5)) simp_all
      next
        case less: False
        then show ?thesis using False ne wildcard(6) Wg by (intro wildcard_measure(4) nd wildcard(5)) simp_all
      qed
    qed
    ultimately show ?thesis by simp
  next
    case separator
    have nb': "\<not> went_back st'" using separator(2) G adv by (auto simp: went_back_def)
    then have "live glob start path st'"
      using separator(1,2) d(1,8) s' [OF d(5)] by (intro liveI) auto
    moreover have "(st', st) \<in> glob_measure glob path"
    proof (cases "gs_wildcard st = gs_globstar st")
      case True
      then show ?thesis using nb nb' separator adv gi by (intro wildcard_measure(7) nd separator(1)) simp_all
    next
      case False
      then have w: "wildcard_set st" using d(2) by blast
      then show ?thesis using W d(4) False separator adv
        by (intro wildcard_measure(3) nd separator(1)) (auto simp: star_at_def)
    qed
    ultimately show ?thesis by simp
  qed
qed

text \<open>One iteration.\<close>

lemma glob_arm_Fallthrough:
  assumes "glob_arm windows glob start path stack st = Fallthrough st'"
  shows "backtrack st' = backtrack st" "gs_wildcard st' = gs_wildcard st" "glob ! gs_glob_index st \<noteq> CHR ''*''"
proof -
  have "\<exists>i. st' = st\<lparr>gs_glob_index := i\<rparr>"
    using assms
    by (auto simp: glob_arm_def class_arm_def literal_arm_def brace_arm_def Let_def
        split: if_splits option.splits prod.splits intro: exI [of _ "gs_glob_index st"])
  then show "backtrack st' = backtrack st" "gs_wildcard st' = gs_wildcard st" by (auto simp: backtrack_def)
  show "glob ! gs_glob_index st \<noteq> CHR ''*''" using assms by (auto simp: glob_arm_def)
qed

lemma glob_arm_MatchBrace:
  assumes "glob_arm windows glob start path stack st = MatchBrace st'"
  shows "st' = st" "glob ! gs_glob_index st = CHR ''{''"
  using assms
  by (auto simp: glob_arm_def class_arm_def literal_arm_def brace_arm_def Let_def split: if_splits option.splits prod.splits)

lemma glob_next_Continue:
  assumes step: "glob_next windows glob start path stack st = Continue st'" and l: "dead path st \<or> live glob start path st"
    and stack: "stack_ok stack"
  shows "(dead path st' \<or> live glob start path st') \<and> (st', st) \<in> glob_measure glob path"
proof -
  let ?r = "if gs_glob_index st < length glob then glob_arm windows glob start path stack st else Fallthrough st"
  consider (continue) "?r = Continue st'"
    | (behind) st'' where "?r = Fallthrough st''" "wildcard_set st''" "wc_path_index (gs_wildcard st'') \<le> length path"
        "st' = backtrack st''"
    using step unfolding glob_next_def by (cases ?r) (auto split: if_splits)
  then show ?thesis
  proof cases
    case continue
    then have gi: "gs_glob_index st < length glob" and arm: "glob_arm windows glob start path stack st = Continue st'"
      by (auto split: if_splits)
    show ?thesis
    proof (cases "glob ! gs_glob_index st = CHR ''*''")
      case True
      then have "st' = star_arm windows glob start path st" using arm by (simp add: glob_arm_def)
      then show ?thesis by (rule star_live [OF l gi True])
    next
      case False
      show ?thesis by (rule advances_live [OF glob_arm_advances [OF arm gi False stack] l gi False])
    qed
  next
    case behind
    have s: "backtrack st'' = backtrack st" "gs_wildcard st'' = gs_wildcard st"
      "\<not> (gs_glob_index st < length glob \<and> glob ! gs_glob_index st = CHR ''*'')"
      using behind(1) glob_arm_Fallthrough [of windows glob start path stack st st''] by (auto split: if_splits)
    then have "live glob start path st" using l behind(3) by (auto simp: dead_def)
    then show ?thesis using backtrack_live [of glob start path st] behind s by auto
  qed
qed

lemma glob_next_MatchBrace:
  assumes "glob_next windows glob start path stack st = MatchBrace st'"
  shows "st' = st" "gs_glob_index st < length glob" "glob ! gs_glob_index st = CHR ''{''"
proof -
  have "gs_glob_index st < length glob \<and> glob_arm windows glob start path stack st = MatchBrace st'"
    using assms by (auto simp: glob_next_def split: step.splits if_splits)
  then show "st' = st" "gs_glob_index st < length glob" "glob ! gs_glob_index st = CHR ''{''"
    using glob_arm_MatchBrace by blast+
qed

text \<open>The brace routines end when the matcher ends on every branch.\<close>

lemma match_brace_branch_glob_index:
  "match_brace_branch impl oi b stack budget (st\<lparr>gs_glob_index := k\<rparr>) = match_brace_branch impl oi b stack budget st"
  by (simp add: match_brace_branch_def)

lemma match_brace_loop_answers:
  fixes impl :: "nat \<Rightarrow> matcher"
  assumes mono: "\<And>n m. n \<le> m \<Longrightarrow> extends (impl m) (impl n)"
    and branch: "\<And>b budget. oi < b \<Longrightarrow> \<exists>n r. match_brace_branch (impl n) oi b stack budget st = Some r"
  shows "oi < bi \<Longrightarrow> oi \<le> k \<Longrightarrow>
    \<exists>n r. match_brace_loop (impl n) glob stack oi depth inb bi budget (st\<lparr>gs_glob_index := k\<rparr>) = Some r"
proof (induction "length glob - k" arbitrary: depth inb bi budget k rule: less_induct)
  case less
  show ?case
  proof (cases "k < length glob")
    case True
    let ?c = "glob ! k"
    have loop': "\<exists>n r. match_brace_loop (impl n) glob stack oi d i b bu (st\<lparr>gs_glob_index := k'\<rparr>) = Some r"
      if "oi < b" "k < k'" for d i b bu k'
      using less(1) [of k' b d i bu] that less(3) True by simp
    note loop = match_brace_loop.simps [of "impl _" glob stack oi depth inb bi budget "st\<lparr>gs_glob_index := k\<rparr>"]
    consider (comma) "?c = CHR '','' \<and> depth = 1 \<and> \<not> inb" | (last) "?c = CHR ''}'' \<and> \<not> inb \<and> depth = 1"
      | (other) "\<not> (?c = CHR '','' \<and> depth = 1 \<and> \<not> inb)" "\<not> (?c = CHR ''}'' \<and> \<not> inb \<and> depth = 1)" by blast
    then show ?thesis
    proof cases
      case comma
      obtain n m b where n: "match_brace_branch (impl n) oi bi stack budget st = Some (m, b)"
        using branch [OF less(2)] by (metis surj_pair)
      obtain n' r where n': "match_brace_loop (impl n') glob stack oi depth inb (k + 1) b (st\<lparr>gs_glob_index := k + 1\<rparr>) = Some r"
        using loop' [of "k + 1" "k + 1" depth inb b] less(3) by (metis less_add_one le_less_trans)
      have "match_brace_branch (impl (max n n')) oi bi stack budget st = Some (m, b)"
        "match_brace_loop (impl (max n n')) glob stack oi depth inb (k + 1) b (st\<lparr>gs_glob_index := k + 1\<rparr>) = Some r"
        using match_brace_branch_extends [OF mono n] match_brace_loop_extends [OF mono n'] by simp_all
      then have "match_brace_loop (impl (max n n')) glob stack oi depth inb bi budget (st\<lparr>gs_glob_index := k\<rparr>)
          = (if m then Some (m, b) else Some r)"
        using comma True loop [of "max n n'"] by (cases m) (simp_all add: Let_def match_brace_branch_glob_index)
      then show ?thesis by (cases m) (simp_all only: if_True if_False, blast+)
    next
      case last
      have "match_brace_loop (impl n) glob stack oi depth inb bi budget (st\<lparr>gs_glob_index := k\<rparr>)
          = match_brace_branch (impl n) oi bi stack budget st" for n
        using last True loop [of n] by (simp add: Let_def match_brace_branch_glob_index)
      then show ?thesis using branch [OF less(2), of budget] by metis
    next
      case other
      let ?d = "if ?c = CHR ''{'' \<and> \<not> inb then depth + 1 else if ?c = CHR ''}'' \<and> \<not> inb then depth - 1 else depth"
      let ?i = "if ?c = CHR ''['' then True else if ?c = CHR '']'' then False else inb"
      let ?b = "if ?c = CHR ''{'' \<and> \<not> inb \<and> depth + 1 = 1 then k + 1 else bi"
      let ?k = "if ?c = CHR 0x5C then k + 2 else k + 1"
      have "match_brace_loop (impl n) glob stack oi depth inb bi budget (st\<lparr>gs_glob_index := k\<rparr>)
          = match_brace_loop (impl n) glob stack oi ?d ?i ?b budget (st\<lparr>gs_glob_index := ?k\<rparr>)" for n
        using other True by (subst loop) (auto simp: Let_def)
      then show ?thesis using loop' [of ?b ?k ?d ?i budget] less(2,3) by simp
    qed
  next
    case False
    then show ?thesis by (subst match_brace_loop.simps) (simp, blast)
  qed
qed

text \<open>A branch starts after its brace, so the saved positions stay valid in it.\<close>

lemma branch_live:
  assumes l: "live glob start path st" and "gs_glob_index st < bi"
  shows "live glob bi path (st\<lparr>gs_glob_index := bi, gs_brace_depth := d\<rparr>)"
proof -
  note d = liveD [OF l]
  have "restarts glob bi (wc_glob_index (gs_globstar st))" if "0 < wc_path_index (gs_globstar st)"
    using restarts_before [OF d(8) [OF that]] d(5) assms(2) that by (simp add: star_at_def)
  then show ?thesis
    using d(1,2,3,4,5,9) assms(2) by (intro liveI) (auto simp: star_at_def went_back_def)
qed

lemma match_brace_answers:
  fixes impl :: "nat \<Rightarrow> matcher"
  assumes mono: "\<And>n m. n \<le> m \<Longrightarrow> extends (impl m) (impl n)"
    and branch: "\<And>b budget. gs_glob_index st < b \<Longrightarrow>
      \<exists>n r. match_brace_branch (impl n) (gs_glob_index st) b stack budget st = Some r"
    and brace: "gs_glob_index st < length glob" "glob ! gs_glob_index st = CHR ''{''"
  shows "\<exists>n r. match_brace (impl n) glob stack budget st = Some r"
proof -
  have "\<exists>n r. match_brace_loop (impl n) glob stack (gs_glob_index st) 1 False (gs_glob_index st + 1) budget
      (st\<lparr>gs_glob_index := gs_glob_index st + 1\<rparr>) = Some r"
    by (rule match_brace_loop_answers [OF mono branch]) simp_all
  moreover have "match_brace (impl n) glob stack budget st
      = match_brace_loop (impl n) glob stack (gs_glob_index st) 1 False (gs_glob_index st + 1) budget
          (st\<lparr>gs_glob_index := gs_glob_index st + 1\<rparr>)" for n
    unfolding match_brace_def by (subst match_brace_loop.simps) (use brace in \<open>simp add: Let_def\<close>)
  ultimately show ?thesis by metis
qed

text \<open>Every run of the main loop ends, by induction on the free places of the brace stack, then on the measure.\<close>

lemma glob_match_impl_answers:
  "stack_ok stack \<Longrightarrow> dead path st \<or> live glob start path st \<Longrightarrow>
    \<exists>n r. glob_match_impl n windows glob path start stack budget st = Some r"
proof (induction "BRACE_STACK_SIZE - length stack" arbitrary: stack start budget st rule: less_induct)
  case (less stack start budget st)
  note nested = less.hyps and stack = less.prems(1)
  from less.prems(2) show ?case
  proof (induction st rule: wf_induct_rule [OF wf_glob_measure [of glob path]])
    case (1 st)
    show ?case
    proof (cases "gs_glob_index st < length glob \<or> gs_path_index st < length path")
      case False
      then have "glob_match_impl 1 windows glob path start stack budget st = Some (True, budget)" by simp
      then show ?thesis by blast
    next
      case True
      show ?thesis
      proof (cases "glob_next windows glob start path stack st")
        case (Continue st')
        from 1(1) glob_next_Continue [OF Continue 1(2) stack]
        obtain n r where "glob_match_impl n windows glob path start stack budget st' = Some r" by blast
        then have "glob_match_impl (Suc n) windows glob path start stack budget st = Some r" using True Continue by simp
        then show ?thesis by blast
      next
        case (MatchBrace st')
        note b = glob_next_MatchBrace [OF MatchBrace]
        have "\<exists>n r. match_brace_branch (glob_match_impl n windows glob path) (gs_glob_index st) bi stack bu st = Some r"
          if bi: "gs_glob_index st < bi" for bi bu
        proof -
          let ?stack = "stack @ [\<lparr>open_brace_idx = gs_glob_index st, branch_idx = bi\<rparr>]"
          let ?st = "st\<lparr>gs_glob_index := bi, gs_brace_depth := of_nat (length ?stack)\<rparr>"
          have "\<exists>n r. glob_match_impl n windows glob path bi ?stack (bu - 1) ?st = Some r" if "length stack < BRACE_STACK_SIZE"
          proof (rule nested)
            show "BRACE_STACK_SIZE - length ?stack < BRACE_STACK_SIZE - length stack" using that by simp
            show "stack_ok ?stack" using stack that bi by (auto simp: stack_ok_def)
            show "dead path ?st \<or> live glob bi path ?st" using 1(2) branch_live [OF _ bi] by (auto simp: dead_def)
          qed
          then show ?thesis unfolding match_brace_branch_def Let_def by (cases "length stack < BRACE_STACK_SIZE") auto
        qed
        from match_brace_answers [OF glob_match_impl_mono this b(2,3)]
        obtain n r where "match_brace (glob_match_impl n windows glob path) glob stack budget st = Some r" by blast
        then have "glob_match_impl (Suc n) windows glob path start stack budget st = Some r" using True MatchBrace b(1) by simp
        then show ?thesis by blast
      next
        case (Fallthrough st')
        then have "glob_match_impl 1 windows glob path start stack budget st = Some (False, budget)" using True by simp
        then show ?thesis by blast
      next
        case Invalid
        then have "glob_match_impl 1 windows glob path start stack budget st = Some (False, budget)" using True by simp
        then show ?thesis by blast
      qed
    qed
  qed
qed

lemma glob_match_some: "\<exists>n r. glob_match n windows glob path = Some r"
proof -
  let ?st = "state_default\<lparr>gs_glob_index := skip_while ((=) (CHR ''!'')) glob 0\<rparr>"
  have "live glob 0 path ?st"
    by (simp add: live_def state_default_def wildcard_default_def star_at_def went_back_def)
  then obtain n r where "glob_match_impl n windows glob path 0 [] BRACE_BRANCH_BUDGET ?st = Some r"
    using glob_match_impl_answers [of "[]" path ?st glob 0 windows BRACE_BRANCH_BUDGET] unfolding stack_ok_def by fastforce
  then have "\<exists>r. glob_match n windows glob path = Some r" by (cases r) (simp add: glob_match_def Let_def)
  then show ?thesis by blast
qed

lemma glob_match_mono: "glob_match n windows glob path = Some r \<Longrightarrow> n \<le> m \<Longrightarrow> glob_match m windows glob path = Some r"
  using glob_match_impl_mono [of n m windows glob path]
  by (auto simp: extends_def glob_match_def Let_def split: option.splits)

text \<open>
  C12. \<open>match\<close> returns on every pattern and every path, well formed or not: some number of iterations
  suffices, and with more of them the result is the same.
\<close>

theorem glob_match_total:
  "\<exists>fuel r. \<forall>k. glob_match (fuel + k) windows glob path = Some r"
  using glob_match_some glob_match_mono le_add1 by metis

end
