(* ===== verification/Glob_Spec.thy ===== *)
theory Glob_Spec
  imports Glob
begin

text \<open>
  What the matcher of \<open>src/src/glob/matcher.rs\<close> decides: for patterns of literal characters, \<open>?\<close>, \<open>*\<close>
  and leading exclamation marks, the matcher, which keeps one saved position only, agrees with the
  definition of matching that tries every extent of every \<open>*\<close>.
\<close>

section \<open>Specification\<close>

fun wild_match :: "bool \<Rightarrow> bytes \<Rightarrow> bytes \<Rightarrow> bool" where
  "wild_match windows [] path \<longleftrightarrow> path = []"
| "wild_match windows (c # glob) [] \<longleftrightarrow> c = CHR ''*'' \<and> wild_match windows glob []"
| "wild_match windows (c # glob) (d # path) \<longleftrightarrow>
     (if c = CHR ''*'' then
        wild_match windows glob (d # path) \<or> \<not> is_sep_native windows d \<and> wild_match windows (c # glob) path
      else
        (if c = CHR ''?'' then \<not> is_sep_native windows d
         else if c = CHR ''/'' then is_sep_native windows d
         else c = d) \<and> wild_match windows glob path)"

text \<open>Patterns without globstars, character classes, braces and escapes.\<close>

definition is_ascii :: "byte \<Rightarrow> bool" where
  "is_ascii c \<longleftrightarrow> (of_char c :: nat) \<le> 0x7F"

definition plain_glob :: "bytes \<Rightarrow> bool" where
  "plain_glob glob \<longleftrightarrow>
     (\<forall>c\<in>set glob. is_ascii c \<and> c \<notin> {CHR ''['', CHR ''{'', CHR 0x5C})
     \<and> (\<forall>i. i + 1 < length glob \<longrightarrow> \<not> (glob ! i = CHR ''*'' \<and> glob ! (i + 1) = CHR ''*''))"

lemma ascii_length [simp]: "is_ascii c \<Longrightarrow> wtf8_byte_sequence_length c = 1"
  by (simp add: is_ascii_def wtf8_byte_sequence_length_def)

lemma plain_globD:
  assumes "plain_glob glob" and "i < length glob"
  shows "is_ascii (glob ! i)" "glob ! i \<noteq> CHR ''[''" "glob ! i \<noteq> CHR ''{''" "glob ! i \<noteq> CHR 0x5C"
    "glob ! i = CHR ''*'' \<Longrightarrow> i + 1 < length glob \<Longrightarrow> glob ! (i + 1) \<noteq> CHR ''*''"
  using assms by (auto simp: plain_glob_def)

section \<open>Matching from two positions\<close>

definition match_at :: "bool \<Rightarrow> bytes \<Rightarrow> bytes \<Rightarrow> nat \<Rightarrow> nat \<Rightarrow> bool" where
  "match_at windows glob path i j \<longleftrightarrow> wild_match windows (drop i glob) (drop j path)"

lemma match_at_end: "match_at windows glob path (length glob) j \<longleftrightarrow> length path \<le> j"
  by (auto simp: match_at_def)

lemma match_at_path_end:
  "i < length glob \<Longrightarrow> glob ! i \<noteq> CHR ''*'' \<Longrightarrow> \<not> match_at windows glob path i (length path)"
  by (simp add: match_at_def Cons_nth_drop_Suc [symmetric])

lemma match_at_star:
  "i < length glob \<Longrightarrow> glob ! i = CHR ''*'' \<Longrightarrow> j \<le> length path \<Longrightarrow>
    match_at windows glob path i j \<longleftrightarrow>
      match_at windows glob path (i + 1) j
      \<or> j < length path \<and> \<not> is_sep_native windows (path ! j) \<and> match_at windows glob path i (j + 1)"
  by (cases "j < length path") (simp_all add: match_at_def Cons_nth_drop_Suc [symmetric])

lemma match_at_char:
  "i < length glob \<Longrightarrow> glob ! i \<noteq> CHR ''*'' \<Longrightarrow> j < length path \<Longrightarrow>
    match_at windows glob path i j \<longleftrightarrow>
      (if glob ! i = CHR ''?'' then \<not> is_sep_native windows (path ! j)
       else if glob ! i = CHR ''/'' then is_sep_native windows (path ! j)
       else glob ! i = path ! j)
      \<and> match_at windows glob path (i + 1) (j + 1)"
  by (simp add: match_at_def Cons_nth_drop_Suc [symmetric])

definition no_sep :: "bool \<Rightarrow> bytes \<Rightarrow> nat \<Rightarrow> nat \<Rightarrow> bool" where
  "no_sep windows path a b \<longleftrightarrow> (\<forall>q. a \<le> q \<and> q < b \<longrightarrow> \<not> is_sep_native windows (path ! q))"

lemma no_sep_empty [simp]: "b \<le> a \<Longrightarrow> no_sep windows path a b"
  by (auto simp: no_sep_def)

lemma no_sep_Suc: "a < b \<Longrightarrow> no_sep windows path a b \<longleftrightarrow> \<not> is_sep_native windows (path ! a) \<and> no_sep windows path (a + 1) b"
  unfolding no_sep_def by (metis Suc_eq_plus1 Suc_leD Suc_leI le_neq_implies_less order_refl)

lemma no_sep_trans: "no_sep windows path a b \<Longrightarrow> no_sep windows path b c \<Longrightarrow> no_sep windows path a c"
  unfolding no_sep_def by (metis not_le_imp_less)

lemma no_sepD: "no_sep windows path a b \<Longrightarrow> a \<le> q \<Longrightarrow> q < b \<Longrightarrow> \<not> is_sep_native windows (path ! q)"
  by (simp add: no_sep_def)

text \<open>A star matches some text without separators.\<close>

lemma match_at_star_iff:
  assumes "i < length glob" and "glob ! i = CHR ''*''" and "j \<le> length path"
  shows "match_at windows glob path i j \<longleftrightarrow>
    (\<exists>t. j \<le> t \<and> t \<le> length path \<and> no_sep windows path j t \<and> match_at windows glob path (i + 1) t)"
    (is "_ \<longleftrightarrow> (\<exists>t. ?P j t)")
  using assms(3)
proof (induction "length path - j" arbitrary: j)
  case 0
  then have "j = length path" by simp
  then show ?case using match_at_star [OF assms(1,2), of j path windows] by auto
next
  case (Suc k)
  then have j: "j < length path" by simp
  have IH: "match_at windows glob path i (j + 1) \<longleftrightarrow> (\<exists>t. ?P (j + 1) t)" using Suc j by simp
  have "(\<exists>t. ?P j t) \<longleftrightarrow> ?P j j \<or> (\<exists>t. j < t \<and> ?P j t)" using le_neq_implies_less [of j] by blast
  moreover have "j < t \<and> ?P j t \<longleftrightarrow> \<not> is_sep_native windows (path ! j) \<and> ?P (j + 1) t" for t
    using no_sep_Suc [of j t windows path] by auto
  ultimately show ?case
    using match_at_star [OF assms(1,2), of j path windows] IH j by simp
qed

text \<open>Characters other than stars and slashes match as many characters that are not separators.\<close>

lemma match_at_segment:
  assumes plain: "plain_glob glob" and "i \<le> i'" and "i' \<le> length glob" and "t \<le> length path"
    and "\<forall>k. i \<le> k \<and> k < i' \<longrightarrow> glob ! k \<notin> {CHR ''*'', CHR ''/''}"
    and "match_at windows glob path i t"
  shows "t + (i' - i) \<le> length path \<and> match_at windows glob path i' (t + (i' - i))
    \<and> no_sep windows path t (t + (i' - i))"
  using assms(2-6)
proof (induction "i' - i" arbitrary: i t)
  case 0
  then show ?case by simp
next
  case (Suc n)
  then have i: "i < length glob" "glob ! i \<noteq> CHR ''*''" "glob ! i \<noteq> CHR ''/''" by auto
  have t: "t < length path"
    using Suc.prems(3,5) match_at_path_end [OF i(1,2), of windows path] by (cases "t = length path") auto
  have m: "(if glob ! i = CHR ''?'' then \<not> is_sep_native windows (path ! t) else glob ! i = path ! t)"
    "match_at windows glob path (i + 1) (t + 1)"
    using match_at_char [OF i(1,2) t, of windows] Suc.prems(5) i(3) by auto
  have s: "\<not> is_sep_native windows (path ! t)"
    using m(1) i(3) plain_globD(4) [OF plain i(1)] by (auto simp: is_sep_native_def split: if_splits)
  have "n = i' - (i + 1)" "i + 1 \<le> i'" using Suc.hyps(2) by simp_all
  from Suc.hyps(1) [OF this Suc.prems(2) _ _ m(2)] t Suc.prems(4)
  have r: "t + 1 + (i' - (i + 1)) \<le> length path \<and> match_at windows glob path i' (t + 1 + (i' - (i + 1)))
    \<and> no_sep windows path (t + 1) (t + 1 + (i' - (i + 1)))" by simp
  have "t + 1 + (i' - (i + 1)) = t + (i' - i)" "t < t + (i' - i)" using \<open>i + 1 \<le> i'\<close> by simp_all
  then show ?case using r s no_sep_Suc [of t "t + (i' - i)" windows path] by simp
qed

section \<open>The saved position\<close>

text \<open>
  What the main loop decides from a state: the rest of the pattern matches the rest of the path here, or
  it does from the saved position.
\<close>

definition saved :: "bytes \<Rightarrow> glob_state \<Rightarrow> bool" where
  "saved path st \<longleftrightarrow> 0 < wc_path_index (gs_wildcard st) \<and> wc_path_index (gs_wildcard st) \<le> length path"

definition decides :: "bool \<Rightarrow> bytes \<Rightarrow> bytes \<Rightarrow> glob_state \<Rightarrow> bool" where
  "decides windows glob path st \<longleftrightarrow>
     match_at windows glob path (gs_glob_index st) (gs_path_index st)
     \<or> saved path st \<and> match_at windows glob path (wc_glob_index (gs_wildcard st)) (wc_path_index (gs_wildcard st))"

text \<open>
  The saved position is the state's own, just after going back, or it is a star that the pattern has since
  passed without another star or a slash, with the path one character further than where the star began.
\<close>

definition since_star :: "bool \<Rightarrow> bytes \<Rightarrow> bytes \<Rightarrow> nat \<Rightarrow> nat \<Rightarrow> nat \<Rightarrow> nat \<Rightarrow> bool" where
  "since_star windows glob path i' j' i j \<longleftrightarrow>
     i' < i \<and> j + 2 = j' + (i - i') \<and> \<not> is_sep_native windows (path ! (j' - 1))
     \<and> (\<forall>k. i' < k \<and> k < i \<longrightarrow> glob ! k \<notin> {CHR ''*'', CHR ''/''})"

definition plain_state :: "bool \<Rightarrow> bytes \<Rightarrow> bytes \<Rightarrow> glob_state \<Rightarrow> bool" where
  "plain_state windows glob path st \<longleftrightarrow>
     (let i = gs_glob_index st; j = gs_path_index st;
          i' = wc_glob_index (gs_wildcard st); j' = wc_path_index (gs_wildcard st)
      in i \<le> length glob \<and> j \<le> length path \<and> gs_brace_depth st = 0 \<and> wc_brace_depth (gs_wildcard st) = 0
       \<and> wc_path_index (gs_globstar st) = 0 \<and> wc_brace_depth (gs_globstar st) = 0
       \<and> (saved path st \<longrightarrow> i' < length glob \<and> glob ! i' = CHR ''*''
            \<and> (i = i' \<and> j = j' \<or> since_star windows glob path i' j' i j)))"

text \<open>
  A match from the saved position reaches the pattern's present position later in the path, with no
  separator in between.
\<close>

lemma saved_match_later:
  assumes plain: "plain_glob glob" and i': "i' < length glob" "glob ! i' = CHR ''*''"
    and i: "i \<le> length glob" and j': "0 < j'" "j' \<le> length path"
    and since: "since_star windows glob path i' j' i j" and match: "match_at windows glob path i' j'"
  obtains t where "j < t" "t \<le> length path" "no_sep windows path j t" "match_at windows glob path i t"
proof -
  obtain t where t: "j' \<le> t" "t \<le> length path" "no_sep windows path j' t" "match_at windows glob path (i' + 1) t"
    using match match_at_star_iff [OF i' j'(2)] by blast
  have s: "i' + 1 \<le> i" "j + 2 = j' + (i - i')" "\<not> is_sep_native windows (path ! (j' - 1))"
    "\<forall>k. i' + 1 \<le> k \<and> k < i \<longrightarrow> glob ! k \<notin> {CHR ''*'', CHR ''/''}"
    using since by (auto simp: since_star_def)
  let ?t = "t + (i - (i' + 1))"
  have r: "?t \<le> length path" "match_at windows glob path i ?t" "no_sep windows path t ?t"
    using match_at_segment [OF plain s(1) i t(2) s(4) t(4)] by simp_all
  have "no_sep windows path (j' - 1) j'" using s(3) j'(1) no_sep_Suc [of "j' - 1" j' windows path] by simp
  then have "no_sep windows path (j' - 1) ?t" using no_sep_trans t(3) r(3) by blast
  then have "no_sep windows path j ?t" using s(1,2) unfolding no_sep_def by auto
  moreover have "j < ?t" using s(1,2) t(1) by simp
  ultimately show thesis using that r(1,2) by blast
qed

section \<open>One iteration\<close>

lemma plain_stateD:
  assumes "plain_state windows glob path st"
  shows "gs_glob_index st \<le> length glob" "gs_path_index st \<le> length path" "gs_brace_depth st = 0"
    "wc_brace_depth (gs_wildcard st) = 0" "wc_path_index (gs_globstar st) = 0" "wc_brace_depth (gs_globstar st) = 0"
    "saved path st \<Longrightarrow> wc_glob_index (gs_wildcard st) < length glob"
    "saved path st \<Longrightarrow> glob ! wc_glob_index (gs_wildcard st) = CHR ''*''"
    "saved path st \<Longrightarrow> gs_glob_index st = wc_glob_index (gs_wildcard st) \<and> gs_path_index st = wc_path_index (gs_wildcard st)
      \<or> since_star windows glob path (wc_glob_index (gs_wildcard st)) (wc_path_index (gs_wildcard st))
          (gs_glob_index st) (gs_path_index st)"
  using assms unfolding plain_state_def Let_def by blast+

text \<open>At a star, the saved position that it replaces is not needed any more; at a slash, it cannot match.\<close>

lemma saved_match_star:
  assumes plain: "plain_glob glob" and st: "plain_state windows glob path st" and "saved path st"
    and i: "gs_glob_index st < length glob" "glob ! gs_glob_index st = CHR ''*''"
    and match: "match_at windows glob path (wc_glob_index (gs_wildcard st)) (wc_path_index (gs_wildcard st))"
  shows "match_at windows glob path (gs_glob_index st) (gs_path_index st)"
proof -
  note d = plain_stateD [OF st]
  have j': "0 < wc_path_index (gs_wildcard st)" "wc_path_index (gs_wildcard st) \<le> length path"
    using assms(3) by (simp_all add: saved_def)
  from d(9) [OF assms(3)] show ?thesis
  proof (elim disjE conjE)
    assume since: "since_star windows glob path (wc_glob_index (gs_wildcard st)) (wc_path_index (gs_wildcard st))
        (gs_glob_index st) (gs_path_index st)"
    from saved_match_later [OF plain d(7) [OF assms(3)] d(8) [OF assms(3)] d(1) j' since match]
    obtain t where t: "gs_path_index st < t" "t \<le> length path" "no_sep windows path (gs_path_index st) t"
      "match_at windows glob path (gs_glob_index st) t" by blast
    then obtain t' where "t \<le> t'" "t' \<le> length path" "no_sep windows path t t'"
      "match_at windows glob path (gs_glob_index st + 1) t'"
      using match_at_star_iff [OF i t(2)] by blast
    moreover from this(3) t(3) have "no_sep windows path (gs_path_index st) t'" using no_sep_trans by blast
    moreover have "gs_path_index st \<le> t'" using t(1) \<open>t \<le> t'\<close> by simp
    ultimately show ?thesis
      using match_at_star_iff [OF i d(2)] by blast
  qed (use match in simp)
qed

lemma saved_match_separator:
  assumes plain: "plain_glob glob" and st: "plain_state windows glob path st" and "saved path st"
    and "glob ! gs_glob_index st \<noteq> CHR ''*''" and sep: "is_sep_native windows (path ! gs_path_index st)"
  shows "\<not> match_at windows glob path (wc_glob_index (gs_wildcard st)) (wc_path_index (gs_wildcard st))"
proof
  assume match: "match_at windows glob path (wc_glob_index (gs_wildcard st)) (wc_path_index (gs_wildcard st))"
  note d = plain_stateD [OF st]
  have j': "0 < wc_path_index (gs_wildcard st)" "wc_path_index (gs_wildcard st) \<le> length path"
    using assms(3) by (simp_all add: saved_def)
  have "since_star windows glob path (wc_glob_index (gs_wildcard st)) (wc_path_index (gs_wildcard st))
      (gs_glob_index st) (gs_path_index st)"
    using d(8,9) [OF assms(3)] assms(4) by auto
  from saved_match_later [OF plain d(7) [OF assms(3)] d(8) [OF assms(3)] d(1) j' this match]
  obtain t where "gs_path_index st < t" "no_sep windows path (gs_path_index st) t" by blast
  then show False using sep by (auto dest: no_sepD)
qed

text \<open>The star arm.\<close>

lemma plain_star:
  assumes plain: "plain_glob glob" and path: "\<forall>c\<in>set path. is_ascii c" and st: "plain_state windows glob path st"
    and i: "gs_glob_index st < length glob" "glob ! gs_glob_index st = CHR ''*''"
    and st'_def: "st' = star_arm windows glob 0 path st"
  shows "plain_state windows glob path st' \<and> decides windows glob path st' = decides windows glob path st"
proof -
  let ?i = "gs_glob_index st" and ?j = "gs_path_index st"
  note d = plain_stateD [OF st]
  have one: "\<not> (?i + 1 < length glob \<and> glob ! (?i + 1) = CHR ''*'')" using plain_globD(5) [OF plain i(1,2)] by blast
  have len: "wtf8_byte_sequence_length (path ! ?j) = 1" if "?j < length path" using path that by simp
  have old: "decides windows glob path st = match_at windows glob path ?i ?j"
    using saved_match_star [OF plain st _ i] by (auto simp: decides_def)
  show ?thesis
  proof (cases "?j < length path \<and> is_sep_native windows (path ! ?j)")
    case True
    then have s: "gs_glob_index st' = ?i + 1" "gs_path_index st' = ?j" "gs_brace_depth st' = gs_brace_depth st"
        "gs_globstar st' = gs_globstar st" "gs_wildcard st' = gs_globstar st"
      using one by (auto simp: st'_def star_arm_def wildcard_at_separator_def Let_def)
    then have "\<not> saved path st'" using d(5) by (simp add: saved_def)
    then show ?thesis
      using True s d(1-6) i match_at_star [OF i d(2), of windows] old
      by (auto simp: plain_state_def decides_def)
  next
    case False
    then have s: "gs_glob_index st' = ?i + 1" "gs_path_index st' = ?j" "gs_brace_depth st' = gs_brace_depth st"
        "gs_globstar st' = gs_globstar st"
        "gs_wildcard st' = \<lparr>wc_glob_index = ?i, wc_path_index = ?j + 1, wc_brace_depth = gs_brace_depth st\<rparr>"
      using one len by (auto simp: st'_def star_arm_def wildcard_at_separator_def Let_def)
    then have "saved path st' \<longleftrightarrow> ?j < length path" by (auto simp: saved_def)
    moreover have "since_star windows glob path ?i (?j + 1) (?i + 1) ?j" if "?j < length path"
      using False that by (auto simp: since_star_def)
    ultimately show ?thesis
      using False s d(1-6) i match_at_star [OF i d(2), of windows] old
      by (auto simp: plain_state_def decides_def)
  qed
qed

text \<open>The other characters: \<open>?\<close> and literals.\<close>

definition char_matches :: "bool \<Rightarrow> byte \<Rightarrow> byte \<Rightarrow> bool" where
  "char_matches windows c d \<longleftrightarrow>
     (if c = CHR ''?'' then \<not> is_sep_native windows d else if c = CHR ''/'' then is_sep_native windows d else c = d)"

lemma plain_char_arm:
  assumes plain: "plain_glob glob" and path: "\<forall>c\<in>set path. is_ascii c" and st: "plain_state windows glob path st"
    and i: "gs_glob_index st < length glob" "glob ! gs_glob_index st \<noteq> CHR ''*''"
  shows "glob_arm windows glob 0 path [] st =
    (if gs_path_index st < length path \<and> char_matches windows (glob ! gs_glob_index st) (path ! gs_path_index st)
     then Continue (st\<lparr>gs_glob_index := gs_glob_index st + 1, gs_path_index := gs_path_index st + 1,
       gs_wildcard := if glob ! gs_glob_index st = CHR ''/'' then gs_globstar st else gs_wildcard st\<rparr>)
     else Fallthrough st)"
proof -
  let ?i = "gs_glob_index st" and ?j = "gs_path_index st"
  note g = plain_globD(1-4) [OF plain i(1)]
  have len: "?j < length path \<Longrightarrow> wtf8_byte_sequence_length (path ! ?j) = 1" using path by simp
  have "unescape (glob ! ?i) glob ?i = Some (glob ! ?i, ?i)" using g(4) by (simp add: unescape_def)
  then have "literal_arm windows glob path st =
      (if ?j < length path \<and> (if glob ! ?i = CHR ''/'' then is_sep_native windows (path ! ?j) else glob ! ?i = path ! ?j)
       then Continue (st\<lparr>gs_glob_index := ?i + 1, gs_path_index := ?j + 1,
         gs_wildcard := if glob ! ?i = CHR ''/'' then gs_globstar st else gs_wildcard st\<rparr>)
       else Fallthrough st)"
    using g(1) by (cases st) (auto simp: literal_arm_def Let_def)
  then show ?thesis
    using g i(2) len plain_stateD(3) [OF st] by (cases st) (auto simp: glob_arm_def Let_def char_matches_def)
qed

lemma plain_char:
  assumes plain: "plain_glob glob" and st: "plain_state windows glob path st"
    and i: "gs_glob_index st < length glob" "glob ! gs_glob_index st \<noteq> CHR ''*''" and j: "gs_path_index st < length path"
    and m: "char_matches windows (glob ! gs_glob_index st) (path ! gs_path_index st)"
    and st'_def: "st' = st\<lparr>gs_glob_index := gs_glob_index st + 1, gs_path_index := gs_path_index st + 1,
       gs_wildcard := if glob ! gs_glob_index st = CHR ''/'' then gs_globstar st else gs_wildcard st\<rparr>"
  shows "plain_state windows glob path st' \<and> decides windows glob path st' = decides windows glob path st"
proof -
  let ?i = "gs_glob_index st" and ?j = "gs_path_index st"
  note d = plain_stateD [OF st]
  have here: "match_at windows glob path ?i ?j = match_at windows glob path (?i + 1) (?j + 1)"
    using match_at_char [OF i j, of windows] m by (simp add: char_matches_def)
  show ?thesis
  proof (cases "glob ! ?i = CHR ''/''")
    case True
    then have "\<not> saved path st'" using d(5) by (simp add: st'_def saved_def)
    moreover have "is_sep_native windows (path ! ?j)" using m True by (simp add: char_matches_def)
    ultimately show ?thesis
      using True d(1-6) i j here saved_match_separator [OF plain st _ i(2)]
      by (auto simp: plain_state_def decides_def st'_def)
  next
    case False
    have s: "saved path st' = saved path st" using False by (simp add: st'_def saved_def)
    have "since_star windows glob path (wc_glob_index (gs_wildcard st)) (wc_path_index (gs_wildcard st)) (?i + 1) (?j + 1)"
      if "saved path st"
      using d(8,9) [OF that] i(2) False by (auto simp: since_star_def less_Suc_eq)
    then show ?thesis
      using False s d(1-8) i j here by (auto simp: plain_state_def decides_def st'_def)
  qed
qed

text \<open>Going back to the saved position, when the pattern fails here.\<close>

lemma plain_backtrack:
  assumes "plain_state windows glob path st" and "saved path st"
    and "\<not> match_at windows glob path (gs_glob_index st) (gs_path_index st)"
  shows "plain_state windows glob path (backtrack st)
    \<and> decides windows glob path (backtrack st) = decides windows glob path st"
  using plain_stateD [OF assms(1)] assms(2,3)
  by (auto simp: plain_state_def decides_def backtrack_def saved_def)

lemma plain_next:
  assumes plain: "plain_glob glob" and path: "\<forall>c\<in>set path. is_ascii c" and st: "plain_state windows glob path st"
    and more: "gs_glob_index st < length glob \<or> gs_path_index st < length path"
  shows "(\<exists>st'. glob_next windows glob 0 path [] st = Continue st' \<and> plain_state windows glob path st'
      \<and> decides windows glob path st' = decides windows glob path st)
    \<or> glob_next windows glob 0 path [] st = Invalid \<and> \<not> decides windows glob path st"
proof -
  let ?i = "gs_glob_index st" and ?j = "gs_path_index st"
  let ?r = "if ?i < length glob then glob_arm windows glob 0 path [] st else Fallthrough st"
  note d = plain_stateD [OF st]
  consider (star) "?i < length glob" "glob ! ?i = CHR ''*''"
    | (char) "?i < length glob" "glob ! ?i \<noteq> CHR ''*''" "?j < length path" "char_matches windows (glob ! ?i) (path ! ?j)"
    | (fail) "?r = Fallthrough st" "\<not> match_at windows glob path ?i ?j"
  proof (cases "?i < length glob")
    case True
    show thesis
    proof (cases "glob ! ?i = CHR ''*'' \<or> ?j < length path \<and> char_matches windows (glob ! ?i) (path ! ?j)")
      case False
      then have "?r = Fallthrough st" using plain_char_arm [OF plain path st True] True by auto
      moreover have "\<not> match_at windows glob path ?i ?j"
        using False True d(2) match_at_path_end [OF True, of windows path] match_at_char [OF True, of ?j path windows]
        by (cases "?j = length path") (auto simp: char_matches_def)
      ultimately show thesis by (rule fail)
    qed (use True star char in blast)
  next
    case False
    then show thesis using more d(1) match_at_end [of windows glob path ?j] by (intro fail) auto
  qed
  then show ?thesis
  proof cases
    case star
    then show ?thesis using plain_star [OF plain path st star refl] by (simp add: glob_next_def glob_arm_def)
  next
    case char
    then show ?thesis
      using plain_char [OF plain st char refl] plain_char_arm [OF plain path st char(1,2)] by (simp add: glob_next_def)
  next
    case fail
    then show ?thesis
      using plain_backtrack [OF st _ fail(2)] by (auto simp: glob_next_def saved_def decides_def)
  qed
qed

lemma plain_impl:
  assumes plain: "plain_glob glob" and path: "\<forall>c\<in>set path. is_ascii c"
  shows "plain_state windows glob path st \<Longrightarrow> glob_match_impl n windows glob path 0 [] budget st = Some (b, budget') \<Longrightarrow>
    b = decides windows glob path st"
proof (induction n arbitrary: st)
  case (Suc n)
  show ?case
  proof (cases "gs_glob_index st < length glob \<or> gs_path_index st < length path")
    case True
    then show ?thesis
      using plain_next [OF plain path Suc.prems(1) True] Suc by (auto simp del: One_nat_def)
  next
    case False
    then have "gs_glob_index st = length glob" "gs_path_index st = length path"
      using plain_stateD(1,2) [OF Suc.prems(1)] by simp_all
    then show ?thesis using Suc.prems(2) match_at_end [of windows glob path] by (simp add: decides_def)
  qed
qed simp

section \<open>Properties\<close>

text \<open>
  C11. On a path of ASCII characters, a pattern of ASCII characters without globstars, classes, braces and
  escapes, after any number of exclamation marks, is matched exactly as the specification says, and an
  odd number of exclamation marks negates the answer.
\<close>

theorem glob_match_wild:
  assumes "plain_glob (replicate k CHR ''!'' @ glob)" and "\<forall>c\<in>set path. is_ascii c" and "glob = [] \<or> hd glob \<noteq> CHR ''!''"
  shows "\<exists>fuel. \<forall>m. glob_match (fuel + m) windows (replicate k CHR ''!'' @ glob) path =
    Some (case (odd k, wild_match windows glob path) of
      (False, False) \<Rightarrow> NoMatch | (False, True) \<Rightarrow> Match | (True, False) \<Rightarrow> NegateMatch | (True, True) \<Rightarrow> NegateNoMatch)"
proof -
  let ?glob = "replicate k CHR ''!'' @ glob" and ?st = "state_default\<lparr>gs_glob_index := k\<rparr>"
  have "takeWhile ((=) CHR ''!'') glob = []" using assms(3) by (cases glob) auto
  then have k: "skip_while ((=) CHR ''!'') ?glob 0 = k" by (simp add: skip_while_def takeWhile_append)
  have "plain_state windows ?glob path ?st"
    by (simp add: plain_state_def state_default_def wildcard_default_def saved_def)
  note impl = plain_impl [OF assms(1,2) this]
  have dec: "decides windows ?glob path ?st = wild_match windows glob path"
    by (simp add: decides_def state_default_def wildcard_default_def saved_def match_at_def)
  obtain fuel r where r: "\<And>m. glob_match (fuel + m) windows ?glob path = Some r"
    using glob_match_some glob_match_mono le_add1 by metis
  obtain m budget where m: "glob_match_impl fuel windows ?glob path 0 [] BRACE_BRANCH_BUDGET ?st = Some (m, budget)"
    using r [of 0] k by (auto simp: glob_match_def Let_def split: option.splits)
  have "r = (case (odd k, wild_match windows glob path) of
      (False, False) \<Rightarrow> NoMatch | (False, True) \<Rightarrow> Match | (True, False) \<Rightarrow> NegateMatch | (True, True) \<Rightarrow> NegateNoMatch)"
    using r [of 0] m impl [OF m] dec k by (auto simp: glob_match_def Let_def)
  then show ?thesis using r by blast
qed

theorem glob_match_wild_witness:
  "\<exists>fuel. \<forall>m. glob_match (fuel + m) False ''!*/a*b?.rs'' ''src/abcb1.rs'' = Some NegateNoMatch"
proof -
  have p: "plain_glob (replicate 1 CHR ''!'' @ ''*/a*b?.rs'')"
    by (auto simp: plain_glob_def is_ascii_def nth_Cons split: nat.splits)
  have m: "wild_match False ''*/a*b?.rs'' ''src/abcb1.rs''" by code_simp
  from glob_match_wild [OF p, of "''src/abcb1.rs''" False] m show ?thesis by (simp add: is_ascii_def)
qed

end
