(* ===== verification/Path_Spec.thy ===== *)
theory Path_Spec
  imports Bun_Prelude "HOL-Library.Sublist"
begin

text \<open>
  What it means to normalise a path, independent of any of the program's implementations: a path is
  split into segments at its separators, empty segments and \<open>.\<close> are dropped, \<open>..\<close> removes the segment
  before it, and the segments left are joined with one separator. The segments kept so far form a
  stack, the last one on top; \<open>..\<close> stays on the stack only where the path may climb above its start.
\<close>

section \<open>Segments\<close>

abbreviation dot :: bytes where
  "dot \<equiv> ''.''"

abbreviation dotdot :: bytes where
  "dotdot \<equiv> ''..''"

fun split_on :: "(byte \<Rightarrow> bool) \<Rightarrow> bytes \<Rightarrow> bytes list" where
  "split_on p [] = [[]]"
| "split_on p (c # cs) =
     (if p c then [] # split_on p cs else (c # hd (split_on p cs)) # tl (split_on p cs))"

definition resolve_step :: "bool \<Rightarrow> bytes list \<Rightarrow> bytes \<Rightarrow> bytes list" where
  "resolve_step climb st s =
     (if s = [] \<or> s = dot then st
      else if s = dotdot then
        (if st = [] \<or> hd st = dotdot then (if climb then dotdot # st else st) else tl st)
      else s # st)"

definition resolve_segs :: "bool \<Rightarrow> (byte \<Rightarrow> bool) \<Rightarrow> bytes list \<Rightarrow> bytes \<Rightarrow> bytes list" where
  "resolve_segs climb p st path = foldl (resolve_step climb) st (split_on p path)"

text \<open>The text of a stack of segments.\<close>

fun render :: "byte \<Rightarrow> bytes list \<Rightarrow> bytes" where
  "render sep [] = []"
| "render sep [s] = s"
| "render sep (s # t # ts) = render sep (t # ts) @ sep # s"

text \<open>
  A segment that names something, and the stacks that normalisation builds: named segments on top of
  \<open>..\<close> segments, which only a path that may climb has.
\<close>

definition named :: "(byte \<Rightarrow> bool) \<Rightarrow> bytes \<Rightarrow> bool" where
  "named p s \<longleftrightarrow> s \<noteq> [] \<and> s \<noteq> dot \<and> s \<noteq> dotdot \<and> (\<forall>c\<in>set s. \<not> p c)"

definition resolved :: "bool \<Rightarrow> (byte \<Rightarrow> bool) \<Rightarrow> bytes list \<Rightarrow> bool" where
  "resolved climb p st \<longleftrightarrow>
     (\<exists>names n. st = names @ replicate n dotdot \<and> (\<forall>s\<in>set names. named p s) \<and> (\<not> climb \<longrightarrow> n = 0))"

section \<open>Splitting\<close>

lemma split_on_nonempty [simp]: "split_on p s \<noteq> []"
  by (cases s) auto

lemma split_on_hd: "s = [] \<or> p (hd s) \<Longrightarrow> split_on p s = [] # tl (split_on p s)"
  by (cases s) auto

lemma split_on_segment:
  assumes "\<forall>c\<in>set s. \<not> p c" and "rest = [] \<or> p (hd rest)"
  shows "split_on p (s @ rest) = s # tl (split_on p rest)"
  using assms(1) split_on_hd [where s = rest and p = p] assms(2) by (induction s) auto

lemma resolve_step_Nil [simp]: "resolve_step climb st [] = st"
  by (simp add: resolve_step_def)

lemma resolve_segs_Nil [simp]: "resolve_segs climb p st [] = st"
  by (simp add: resolve_segs_def)

lemma resolve_segs_sep: "p c \<Longrightarrow> resolve_segs climb p st (c # cs) = resolve_segs climb p st cs"
  by (simp add: resolve_segs_def)

lemma resolve_segs_segment:
  assumes "\<forall>c\<in>set s. \<not> p c" and "rest = [] \<or> p (hd rest)"
  shows "resolve_segs climb p st (s @ rest) = resolve_segs climb p (resolve_step climb st s) rest"
proof -
  have "split_on p rest = [] # tl (split_on p rest)"
    using split_on_hd assms(2) by blast
  then show ?thesis
    unfolding resolve_segs_def split_on_segment [OF assms]
    by (metis foldl_Cons resolve_step_Nil)
qed

lemma resolve_segs_cases:
  "resolve_segs climb p st path =
     (let s = takeWhile (Not \<circ> p) path
      in resolve_segs climb p (resolve_step climb st s) (dropWhile (Not \<circ> p) path))"
proof -
  have "dropWhile (Not \<circ> p) path = [] \<or> p (hd (dropWhile (Not \<circ> p) path))"
    using hd_dropWhile [of "Not \<circ> p" path] by auto
  moreover have "\<forall>c\<in>set (takeWhile (Not \<circ> p) path). \<not> p c"
    by (auto dest: set_takeWhileD)
  ultimately show ?thesis
    unfolding Let_def by (metis resolve_segs_segment takeWhile_dropWhile_id)
qed

section \<open>The stacks of normalisation\<close>

lemma resolvedI:
  "(\<And>s. s \<in> set names \<Longrightarrow> named p s) \<Longrightarrow> climb \<or> n = 0 \<Longrightarrow> resolved climb p (names @ replicate n dotdot)"
  unfolding resolved_def by blast

lemma resolved_Nil [simp]: "resolved climb p []"
  unfolding resolved_def by (intro exI [of _ "[]"] exI [of _ 0]) simp

lemma resolved_names: "(\<And>s. s \<in> set names \<Longrightarrow> named p s) \<Longrightarrow> resolved climb p names"
  using resolvedI [of names p climb 0] by simp

lemma resolved_cases:
  assumes "resolved climb p st"
  obtains (Nil) "st = []"
  | (name) s ts where "st = s # ts" "named p s" "resolved climb p ts"
  | (up) n where "st = dotdot # replicate n dotdot" "climb"
proof -
  obtain names n where st: "st = names @ replicate n dotdot" "\<forall>s\<in>set names. named p s" "\<not> climb \<longrightarrow> n = 0"
    using assms unfolding resolved_def by blast
  show thesis
  proof (cases names)
    case Nil
    then show ?thesis
      using st that(1,3) by (cases n) auto
  next
    case (Cons s ns)
    moreover from this have "resolved climb p (ns @ replicate n dotdot)"
      using st by (intro resolvedI) auto
    ultimately show ?thesis
      using st that(2) by auto
  qed
qed

lemma named_simps [simp]: "\<not> named p []" "\<not> named p dot" "\<not> named p dotdot"
  by (simp_all add: named_def)

lemma resolved_Cons: "named p s \<Longrightarrow> resolved climb p ts \<Longrightarrow> resolved climb p (s # ts)"
  unfolding resolved_def by (metis append_Cons set_ConsD)

lemma resolved_climbs: "climb \<Longrightarrow> resolved climb p (replicate n dotdot)"
  using resolvedI [of "[]" p climb n] by simp

lemma resolved_step:
  assumes "resolved climb p st" and "\<forall>c\<in>set s. \<not> p c"
  shows "resolved climb p (resolve_step climb st s)"
  using assms(1)
proof (cases rule: resolved_cases)
  case Nil
  then show ?thesis
    using resolved_climbs [of climb p 1] resolved_names [of "[s]" p climb] assms(2)
    by (auto simp: resolve_step_def named_def)
next
  case (name t ts)
  then show ?thesis
    using assms resolved_Cons [of p s climb st] by (auto simp: resolve_step_def named_def)
next
  case (up n)
  then show ?thesis
    using assms resolved_Cons [of p s climb st] resolved_climbs [of climb p "Suc (Suc n)"]
    by (auto simp: resolve_step_def named_def)
qed

lemma split_on_no_sep: "\<forall>s\<in>set (split_on p path). \<forall>c\<in>set s. \<not> p c"
proof (induction path)
  case (Cons x xs)
  then show ?case
    by (cases "split_on p xs") simp_all
qed simp

lemma resolved_foldl:
  "resolved climb p st \<Longrightarrow> \<forall>s\<in>set ss. \<forall>c\<in>set s. \<not> p c \<Longrightarrow>
    resolved climb p (foldl (resolve_step climb) st ss)"
  by (induction ss arbitrary: st) (simp_all add: resolved_step)

lemma resolved_segs: "resolved climb p st \<Longrightarrow> resolved climb p (resolve_segs climb p st path)"
  unfolding resolve_segs_def by (rule resolved_foldl [OF _ split_on_no_sep])

section \<open>Rendering\<close>

lemma render_Cons: "render sep (s # ts) = (if ts = [] then s else render sep ts @ sep # s)"
  by (cases ts) auto

lemma render_eq_Nil: "(\<And>s. s \<in> set st \<Longrightarrow> s \<noteq> []) \<Longrightarrow> render sep st = [] \<longleftrightarrow> st = []"
  by (cases st) (auto simp: render_Cons)

lemma resolved_not_Nil: "resolved climb p st \<Longrightarrow> s \<in> set st \<Longrightarrow> s \<noteq> []"
  unfolding resolved_def by (auto simp: named_def)

lemma render_resolved_Nil: "resolved climb p st \<Longrightarrow> render sep st = [] \<longleftrightarrow> st = []"
  using render_eq_Nil resolved_not_Nil by blast

lemma set_render: "c \<in> set (render sep st) \<Longrightarrow> c = sep \<or> (\<exists>s\<in>set st. c \<in> set s)"
  by (induction sep st rule: render.induct) auto

lemma resolve_segs_append_sep:
  "p sep \<Longrightarrow> resolve_segs climb p st (xs @ sep # ys) =
    resolve_segs climb p (resolve_segs climb p st xs) ys"
proof (induction xs arbitrary: st rule: measure_induct_rule [of length])
  case (less xs)
  define s where "s = takeWhile (Not \<circ> p) xs"
  define r where "r = dropWhile (Not \<circ> p) xs"
  have xs: "xs = s @ r" and s: "\<forall>c\<in>set s. \<not> p c"
    unfolding s_def r_def by (auto dest: set_takeWhileD)
  show ?case
  proof (cases r)
    case Nil
    then show ?thesis
      using less.prems s xs resolve_segs_segment [of s p "sep # ys"] resolve_segs_segment [of s p "[]"]
      by (simp add: resolve_segs_sep)
  next
    case (Cons c r')
    then have c: "p c"
      using hd_dropWhile [of "Not \<circ> p" xs] unfolding r_def by auto
    have "length r' < length xs"
      using xs Cons by simp
    then show ?thesis
      using less.IH [of r'] less.prems s xs Cons c
        resolve_segs_segment [of s p "c # r' @ sep # ys"] resolve_segs_segment [of s p "c # r'"]
      by (simp add: resolve_segs_sep)
  qed
qed

lemma resolve_step_named: "named p s \<Longrightarrow> resolve_step climb st s = s # st"
  by (simp add: resolve_step_def named_def)

lemma resolve_segs_name: "named p s \<Longrightarrow> resolve_segs climb p st s = s # st"
  using resolve_segs_segment [of s p "[]" climb st] resolve_step_named [of p s climb st]
  by (simp add: named_def)

lemma resolve_segs_dotdot: "\<not> p CHR ''.'' \<Longrightarrow> resolve_segs climb p st dotdot = resolve_step climb st dotdot"
  using resolve_segs_segment [of dotdot p "[]" climb st] by simp

text \<open>Normalising the text of a normalised stack gives the stack back.\<close>

lemma resolve_segs_render:
  assumes "resolved climb p st" and "p sep" and "\<not> p CHR ''.''"
  shows "resolve_segs climb p [] (render sep st) = st"
  using assms(1)
proof (induction st)
  case (Cons s ts)
  from Cons.prems show ?case
  proof (cases rule: resolved_cases)
    case (name s' ts')
    then show ?thesis
      using Cons.IH assms(2)
      by (auto simp: render_Cons resolve_segs_name resolve_segs_append_sep)
  next
    case (up n)
    then have "resolve_segs climb p [] (render sep ts) = ts"
      using Cons.IH resolved_climbs [of climb p n] by auto
    then show ?thesis
      using up assms(2,3)
      by (cases n) (auto simp: render_Cons resolve_segs_dotdot resolve_segs_append_sep resolve_step_def)
  qed auto
qed simp

end
