(* ===== verification/Path_Normalize.thy ===== *)
theory Path_Normalize
  imports Path_Spec "HOL-Library.Monad_Syntax"
begin

text \<open>
  Path normalisation and joining (\<open>paths/resolve_path.rs\<close>), on the byte instance of the code's path
  characters. An output buffer is a list of fixed length; an index or a range outside it is a panic,
  which is \<open>None\<close>. A returned slice of a buffer is the buffer with the slice's bounds.

  The code is modelled as it is compiled for Linux: \<open>SEP\<close> is \<open>/\<close> and \<open>cfg!(windows)\<close> is false; the
  platform the caller asks for is a value and keeps all its cases. The debug-build assertions are left
  out.
\<close>

section \<open>Buffers\<close>

definition buf_set :: "bytes \<Rightarrow> nat \<Rightarrow> byte \<Rightarrow> bytes option" where
  "buf_set buf i c = (if i < length buf then Some (buf[i := c]) else None)"

definition buf_copy :: "bytes \<Rightarrow> nat \<Rightarrow> bytes \<Rightarrow> bytes option" where
  "buf_copy buf i s = (if i + length s \<le> length buf then Some (copy_at buf i s) else None)"

definition slice_from :: "bytes \<Rightarrow> nat \<Rightarrow> bytes option" where
  "slice_from s a = (if a \<le> length s then Some (drop a s) else None)"

definition slice_range :: "bytes \<Rightarrow> nat \<Rightarrow> nat \<Rightarrow> bytes option" where
  "slice_range s a b = (if a \<le> b \<and> b \<le> length s then Some (subslice s a b) else None)"

definition index_of_any :: "bytes \<Rightarrow> bytes \<Rightarrow> nat option" where
  "index_of_any s chars =
     (let i = skip_while (\<lambda>c. c \<notin> set chars) s 0 in if i < length s then Some i else None)"

text \<open>\<open>rposition\<close>: the last index whose element satisfies \<open>p\<close>.\<close>

fun rposition_below :: "(byte \<Rightarrow> bool) \<Rightarrow> bytes \<Rightarrow> nat \<Rightarrow> nat option" where
  "rposition_below p s 0 = None"
| "rposition_below p s (Suc i) = (if p (s ! i) then Some i else rposition_below p s i)"

definition rposition :: "(byte \<Rightarrow> bool) \<Rightarrow> bytes \<Rightarrow> nat option" where
  "rposition p s = rposition_below p s (length s)"

lemma rposition_below_less: "rposition_below p s n = Some i \<Longrightarrow> i < n"
  by (induction p s n rule: rposition_below.induct) (auto split: if_splits)

section \<open>Platforms\<close>

definition SEP_POSIX :: byte where
  "SEP_POSIX = CHR ''/''"

definition SEP_WINDOWS :: byte where
  "SEP_WINDOWS = CHR 0x5C"

datatype platform = Loose | Windows | Posix | Nt

definition is_sep_posix :: "byte \<Rightarrow> bool" where
  "is_sep_posix c \<longleftrightarrow> c = CHR ''/''"

definition is_sep_any :: "byte \<Rightarrow> bool" where
  "is_sep_any c \<longleftrightarrow> c = CHR ''/'' \<or> c = CHR 0x5C"

definition is_absolute_posix :: "bytes \<Rightarrow> bool" where
  "is_absolute_posix p \<longleftrightarrow> p \<noteq> [] \<and> p ! 0 = CHR ''/''"

definition is_absolute_windows :: "bytes \<Rightarrow> bool" where
  "is_absolute_windows p \<longleftrightarrow>
     p \<noteq> [] \<and>
     (p ! 0 = CHR ''/'' \<or> p ! 0 = CHR 0x5C
      \<or> 3 \<le> length p \<and> p ! 1 = CHR '':'' \<and> (p ! 2 = CHR ''/'' \<or> p ! 2 = CHR 0x5C))"

fun Platform_is_absolute :: "platform \<Rightarrow> bytes \<Rightarrow> bool" where
  "Platform_is_absolute Posix path = (path \<noteq> [] \<and> path ! 0 = CHR ''/'')"
| "Platform_is_absolute _ path = is_absolute_windows path"

fun Platform_separator :: "platform \<Rightarrow> byte" where
  "Platform_separator Loose = SEP_POSIX"
| "Platform_separator Posix = SEP_POSIX"
| "Platform_separator Nt = SEP_WINDOWS"
| "Platform_separator Windows = SEP_WINDOWS"

fun Platform_is_separator :: "platform \<Rightarrow> byte \<Rightarrow> bool" where
  "Platform_is_separator Loose c = is_sep_any c"
| "Platform_is_separator Nt c = is_sep_any c"
| "Platform_is_separator Windows c = is_sep_any c"
| "Platform_is_separator Posix c = is_sep_posix c"

fun Platform_trailing_separator :: "platform \<Rightarrow> bytes" where
  "Platform_trailing_separator Nt = [CHR ''.'', CHR 0x5C]"
| "Platform_trailing_separator Windows = [CHR ''.'', CHR 0x5C]"
| "Platform_trailing_separator Posix = ''./''"
| "Platform_trailing_separator Loose = ''./''"

definition leading_separator_windows :: "bytes \<Rightarrow> nat option" where
  "leading_separator_windows path =
     (if length path < 1 then None
      else if path ! 0 = CHR ''/'' then Some 0
      else if path ! 0 = CHR 0x5C then Some 0
      else if length path < 3 then None
      else if CHR ''A'' \<le> path ! 0 \<and> path ! 0 \<le> CHR ''Z'' \<and> path ! 1 = CHR '':'' then
        (if path ! 2 = CHR ''/'' then Some 2
         else if path ! 2 = CHR 0x5C then Some 2
         else Some 1)
      else None)"

definition leading_separator_posix :: "bytes \<Rightarrow> nat option" where
  "leading_separator_posix path = (if path \<noteq> [] \<and> path ! 0 = CHR ''/'' then Some 0 else None)"

fun leading_separator_index :: "platform \<Rightarrow> bytes \<Rightarrow> nat option" where
  "leading_separator_index Nt path = leading_separator_windows path"
| "leading_separator_index Windows path = leading_separator_windows path"
| "leading_separator_index Posix path = leading_separator_posix path"
| "leading_separator_index Loose path =
     (case leading_separator_windows path of None \<Rightarrow> leading_separator_posix path | Some i \<Rightarrow> Some i)"

text \<open>The last separator of a path; on Linux the loose platform looks for \<open>/\<close> only.\<close>

definition last_index_of_separator_windows :: "bytes \<Rightarrow> nat option" where
  "last_index_of_separator_windows s = rposition is_sep_any s"

definition last_index_of_separator_posix :: "bytes \<Rightarrow> nat option" where
  "last_index_of_separator_posix s = rposition (\<lambda>c. c = SEP_POSIX) s"

definition last_index_of_sep :: "bytes \<Rightarrow> nat option" where
  "last_index_of_sep s = rposition (\<lambda>c. c = CHR ''/'') s"

definition last_index_of_separator_loose :: "bytes \<Rightarrow> nat option" where
  "last_index_of_separator_loose s = last_index_of_sep s"

section \<open>Volume names\<close>

definition is_drive_letter :: "byte \<Rightarrow> bool" where
  "is_drive_letter c \<longleftrightarrow> (CHR ''a'' \<le> c \<and> c \<le> CHR ''z'') \<or> (CHR ''A'' \<le> c \<and> c \<le> CHR ''Z'')"

definition to_ascii_upper :: "byte \<Rightarrow> byte" where
  "to_ascii_upper c =
     (if CHR ''a'' \<le> c \<and> c \<le> CHR ''z'' then char_of (of_char c - 32 :: nat) else c)"

definition windows_volume_name_len :: "bytes \<Rightarrow> nat \<times> nat" where
  "windows_volume_name_len path =
     (if length path < 2 then (0, 0)
      else if path ! 1 = CHR '':'' \<and> is_drive_letter (path ! 0) then (2, 0)
      else if 5 \<le> length path \<and> is_sep_any (path ! 0) \<and> is_sep_any (path ! 1)
        \<and> \<not> is_sep_any (path ! 2) \<and> path ! 2 \<noteq> CHR ''.'' then
        (case index_of_any (drop 3 path) [CHR ''/'', CHR 0x5C] of
           None \<Rightarrow> (length path, 0)
         | Some idx \<Rightarrow>
             (if idx + 4 < length path \<and> \<not> is_sep_any (path ! (idx + 4)) then
                (case index_of_any (drop (idx + 4) path) [CHR ''/'', CHR 0x5C] of
                   Some idx2 \<Rightarrow> (idx + idx2 + 4, idx + 3)
                 | None \<Rightarrow> (length path, idx + 3))
              else (length path, 0)))
      else (0, 0))"

definition windows_filesystem_root :: "bytes \<Rightarrow> bytes" where
  "windows_filesystem_root path =
     (if path = [] then []
      else if length path < 2 then (if is_sep_any (path ! 0) then take 1 path else [])
      else if path ! 1 = CHR '':'' \<and> is_drive_letter (path ! 0) then
        (if 2 < length path \<and> is_sep_any (path ! 2) then take 3 path else take 2 path)
      else if 5 \<le> length path \<and> is_sep_any (path ! 0) \<and> is_sep_any (path ! 1) \<and> \<not> is_sep_any (path ! 2) then
        (if path ! 2 = CHR ''.'' \<and> is_sep_any (path ! 3) then take 4 path
         else case index_of_any (drop 3 path) [CHR ''/'', CHR 0x5C] of
             None \<Rightarrow> path
           | Some idx \<Rightarrow>
               (case index_of_any (drop (4 + idx) path) [CHR ''/'', CHR 0x5C] of
                  None \<Rightarrow> path
                | Some idx_second \<Rightarrow> take (idx + idx_second + 4 + 1) path))
      else if is_sep_any (path ! 0) then take 1 path
      else [])"

section \<open>The generic normaliser\<close>

definition is_dotdot_with_type :: "bytes \<Rightarrow> bool" where
  "is_dotdot_with_type s \<longleftrightarrow> 2 \<le> length s \<and> s ! 0 = CHR ''.'' \<and> s ! 1 = CHR ''.''"

text \<open>
  The volume name of a Windows path, written to the buffer: \<open>Inl\<close> is the early return for a path that
  is only a volume name, \<open>Inr\<close> carries \<open>buf\<close>, \<open>buf_i\<close>, \<open>dotdot\<close> and \<open>path_begin\<close>.
\<close>

definition tz_unc_volume ::
  "bool \<Rightarrow> bool \<Rightarrow> bytes \<Rightarrow> byte \<Rightarrow> nat \<Rightarrow> nat \<Rightarrow> bytes \<Rightarrow> nat
    \<Rightarrow> (bytes \<times> nat + bytes \<times> nat \<times> nat \<times> nat) option" where
  "tz_unc_volume zero nt path0 separator vol_len third buf buf_i =
     do {
       (buf, buf_i) \<leftarrow>
         (if nt then do {
            buf \<leftarrow> buf_copy buf buf_i ''UNC'';
            buf \<leftarrow> buf_set buf (buf_i + 3) separator;
            Some (buf, buf_i + 2)
          } else do {
            buf \<leftarrow> buf_set buf buf_i separator;
            buf \<leftarrow> buf_set buf (buf_i + 1) separator;
            Some (buf, buf_i)
          });
       buf \<leftarrow>
         (if 0 < third then do {
            buf \<leftarrow> buf_copy buf (buf_i + 2) (subslice path0 2 (third + 1));
            buf \<leftarrow> buf_set buf (buf_i + third) separator;
            buf_copy buf (buf_i + third + 1) (subslice path0 (third + 1) vol_len)
          } else buf_copy buf (buf_i + 2) (subslice path0 2 vol_len));
       buf \<leftarrow> buf_set buf (buf_i + vol_len) separator;
       let buf_i = buf_i + vol_len + 1;
       let path_begin = vol_len + 1;
       if length path0 \<le> path_begin then do {
         buf \<leftarrow> (if zero then buf_set buf buf_i (CHR 0x00) else Some buf);
         _ \<leftarrow> (if buf_i \<le> length buf then Some () else None);
         Some (Inl (buf, buf_i))
       } else Some (Inr (buf, buf_i, 0, path_begin))
     }"

definition tz_volume ::
  "bool \<Rightarrow> bool \<Rightarrow> (byte \<Rightarrow> bool) \<Rightarrow> bytes \<Rightarrow> byte \<Rightarrow> nat \<Rightarrow> nat \<Rightarrow> bytes
    \<Rightarrow> (bytes \<times> nat + bytes \<times> nat \<times> nat \<times> nat) option" where
  "tz_volume zero nt is_separator path0 separator vol_len third buf =
     (if 0 < vol_len then do {
        (buf, buf_i) \<leftarrow>
          (if nt then do {
             buf \<leftarrow> buf_copy buf 0 [CHR 0x5C, CHR ''?'', CHR ''?'', CHR 0x5C];
             Some (buf, 4)
           } else Some (buf, 0));
        if path0 ! 1 \<noteq> CHR '':'' then tz_unc_volume zero nt path0 separator vol_len third buf buf_i
        else do {
          buf \<leftarrow> buf_set buf buf_i (to_ascii_upper (path0 ! 0));
          buf \<leftarrow> buf_set buf (buf_i + 1) (CHR '':'');
          Some (Inr (buf, buf_i + 2, buf_i + 2, 2))
        }
      } else if path0 \<noteq> [] \<and> is_separator (path0 ! 0) then do {
        buf \<leftarrow> buf_set buf 0 separator;
        Some (Inr (buf, 1, 1, 1))
      } else Some (Inr (buf, 0, 0, 0)))"

text \<open>\<open>buf_i -= 1; while buf_i > dotdot && !is_separator(buf[buf_i]) \<open>{\<close> buf_i -= 1; \<open>}\<close>\<close>, from the second step on.\<close>

function pop_back :: "(byte \<Rightarrow> bool) \<Rightarrow> nat \<Rightarrow> bytes \<Rightarrow> nat \<Rightarrow> nat" where
  "pop_back p lo buf i = (if lo < i \<and> \<not> p (buf ! i) then pop_back p lo buf (i - 1) else i)"
  by pat_completeness auto
termination
  by (relation "measure (\<lambda>(p, lo, buf, i). i)") auto

declare pop_back.simps [simp del]

text \<open>The main loop, from position \<open>r\<close> of the path.\<close>

function tz_loop ::
  "bool \<Rightarrow> (byte \<Rightarrow> bool) \<Rightarrow> byte \<Rightarrow> nat \<Rightarrow> bytes \<Rightarrow> nat \<Rightarrow> bytes \<Rightarrow> nat \<Rightarrow> nat \<Rightarrow> (bytes \<times> nat) option" where
  "tz_loop above_root is_separator separator buf_start path r buf buf_i dotdot_i =
     (if r < length path then
        if is_separator (path ! r) then
          tz_loop above_root is_separator separator buf_start path (r + 1) buf buf_i dotdot_i
        else if path ! r = CHR ''.'' \<and> (r + 1 = length path \<or> is_separator (path ! (r + 1))) then
          tz_loop above_root is_separator separator buf_start path (r + 1) buf buf_i dotdot_i
        else if is_dotdot_with_type (drop r path) \<and> (r + 2 = length path \<or> is_separator (path ! (r + 2))) then
          if dotdot_i < buf_i then
            tz_loop above_root is_separator separator buf_start path (r + 2) buf
              (pop_back is_separator dotdot_i buf (buf_i - 1)) dotdot_i
          else if above_root then
            let up = (if buf_start < buf_i then separator # dotdot else dotdot)
            in buf_copy buf buf_i up \<bind>
                 (\<lambda>buf. tz_loop above_root is_separator separator buf_start path (r + 2) buf
                          (buf_i + length up) (buf_i + length up))
          else tz_loop above_root is_separator separator buf_start path (r + 2) buf buf_i dotdot_i
        else
          let r' = skip_while (Not \<circ> is_separator) path r;
              sep = (if buf_i \<noteq> buf_start \<and> 0 < buf_i \<and> \<not> is_separator (buf ! (buf_i - 1)) then [separator] else [])
          in buf_copy buf buf_i sep \<bind>
               (\<lambda>buf. buf_copy buf (buf_i + length sep) (subslice path r r') \<bind>
                 (\<lambda>buf. tz_loop above_root is_separator separator buf_start path r' buf
                          (buf_i + length sep + (r' - r)) dotdot_i))
      else Some (buf, buf_i))"
  by pat_completeness auto
termination
  by (relation "measure (\<lambda>(a, p, s, bs, path, r, buf, i, d). length path - r)")
    (auto simp: skip_while_gt intro!: diff_less_mono2)

declare tz_loop.simps [simp del]

definition normalize_string_generic_tz ::
  "bool \<Rightarrow> bool \<Rightarrow> bool \<Rightarrow> bool \<Rightarrow> bytes \<Rightarrow> bytes \<Rightarrow> byte \<Rightarrow> (byte \<Rightarrow> bool) \<Rightarrow> (bytes \<times> nat) option" where
  "normalize_string_generic_tz above_root preserve zero nt path0 buf separator is_separator =
     (let is_windows = (separator = SEP_WINDOWS);
          (vol_len, third) = (if is_windows then windows_volume_name_len path0 else (0, 0))
      in (if is_windows then tz_volume zero nt is_separator path0 separator vol_len third buf
          else Some (Inr (buf, 0, 0, 0))) \<bind>
        (\<lambda>v. case v of
           Inl ret \<Rightarrow> Some ret
         | Inr (buf, buf_i, dotdot_i, path_begin) \<Rightarrow> do {
             let path = (if is_windows then drop path_begin path0 else path0);
             let buf_start = (if is_windows then buf_i else 0);
             (r, buf, buf_i, dotdot_i) \<leftarrow>
               (if is_windows \<and> (above_root \<or> 0 < vol_len) \<and> path \<noteq> [] \<and> is_separator (path ! 0) then do {
                  buf \<leftarrow> buf_set buf buf_i separator;
                  Some (1, buf, buf_i + 1, buf_i + 1)
                } else Some (0, buf, buf_i, dotdot_i));
             (buf, buf_i) \<leftarrow> tz_loop above_root is_separator separator buf_start path r buf buf_i dotdot_i;
             (buf, buf_i) \<leftarrow>
               (if preserve \<and> 0 < buf_i then
                  if path0 = [] then None
                  else if path0 ! (length path0 - 1) = separator \<and> buf ! (buf_i - 1) \<noteq> separator then do {
                    buf \<leftarrow> buf_set buf buf_i separator;
                    Some (buf, buf_i + 1)
                  } else Some (buf, buf_i)
                else Some (buf, buf_i));
             (buf, buf_i) \<leftarrow>
               (if is_windows \<and> buf_i = 2 \<and> buf ! 1 = CHR '':'' then do {
                  buf \<leftarrow> buf_set buf buf_i
                    (if path \<noteq> [] \<and> path ! 0 = CHR 0x5C then CHR 0x5C else CHR ''.'');
                  Some (buf, buf_i + 1)
                } else Some (buf, buf_i));
             buf \<leftarrow> (if zero then buf_set buf buf_i (CHR 0x00) else Some buf);
             Some (buf, buf_i)
           }))"

definition normalize_string_generic_t ::
  "bool \<Rightarrow> bool \<Rightarrow> bytes \<Rightarrow> bytes \<Rightarrow> byte \<Rightarrow> (byte \<Rightarrow> bool) \<Rightarrow> (bytes \<times> nat) option" where
  "normalize_string_generic_t above_root preserve path0 buf separator is_separator =
     normalize_string_generic_tz above_root preserve False False path0 buf separator is_separator"

section \<open>The loop builds the normalised segments\<close>

lemma length_buf_copy: "buf_copy buf i s = Some b \<Longrightarrow> length b = length buf"
  by (auto simp: buf_copy_def length_copy_at split: if_splits)

lemma buf_copy_append:
  assumes "take i buf = out" and "i + length s \<le> length buf"
  shows "\<exists>b. buf_copy buf i s = Some b \<and> length b = length buf \<and> take (i + length s) b = out @ s"
  using assms by (simp add: buf_copy_def length_copy_at take_copy_at)

lemma buf_set_append:
  assumes "take i buf = out" and "i < length buf"
  shows "\<exists>b. buf_set buf i c = Some b \<and> length b = length buf \<and> take (i + 1) b = out @ [c]"
  using assms by (simp add: buf_set_def take_Suc_conv_app_nth)

lemma pop_back_to:
  assumes "lo \<le> t" and "t \<le> i" and "\<forall>j. t < j \<and> j \<le> i \<longrightarrow> \<not> p (buf ! j)" and "t = lo \<or> p (buf ! t)"
  shows "pop_back p lo buf i = t"
  using assms
proof (induction "i - t" arbitrary: i)
  case 0
  then show ?case by (subst pop_back.simps) auto
next
  case (Suc k)
  then have "pop_back p lo buf (i - 1) = t"
    by (intro Suc.hyps(1)) auto
  moreover have "lo < i \<and> \<not> p (buf ! i)"
    using Suc.hyps(2) Suc.prems by auto
  ultimately show ?case by (subst pop_back.simps) simp
qed

text \<open>
  The buffer holds a prefix that normalisation does not touch and then the text of the stack; \<open>dotdot\<close>
  is the end of the \<open>..\<close> segments at its bottom.
\<close>

definition tz_rep :: "byte \<Rightarrow> bytes \<Rightarrow> bytes list \<Rightarrow> bytes \<Rightarrow> nat \<Rightarrow> nat \<Rightarrow> bool" where
  "tz_rep sep pre st buf buf_i dotdot_i \<longleftrightarrow>
     buf_i \<le> length buf \<and> take buf_i buf = pre @ render sep st
     \<and> dotdot_i = length (pre @ render sep (dropWhile (\<lambda>s. s \<noteq> dotdot) st))"

lemma tz_repD:
  "tz_rep sep pre st buf buf_i dotdot_i \<Longrightarrow> buf_i = length pre + length (render sep st)"
  unfolding tz_rep_def by (metis length_append length_take min.absorb2)

lemma length_render_dropWhile: "length (render sep (dropWhile P st)) \<le> length (render sep st)"
  by (induction st) (auto simp: render_Cons)

lemma render_top_less: "s \<noteq> [] \<Longrightarrow> length (render sep ts) < length (render sep (s # ts))"
  by (simp add: render_Cons)

lemma tz_pop:
  assumes rep: "tz_rep sep pre (s # ts) buf buf_i dotdot_i" and s: "named p s" and "p sep"
  shows "dotdot_i < buf_i" "tz_rep sep pre ts buf (pop_back p dotdot_i buf (buf_i - 1)) dotdot_i"
proof -
  let ?t = "length (pre @ render sep ts)"
  have dd: "dotdot_i = length (pre @ render sep (dropWhile (\<lambda>s. s \<noteq> dotdot) ts))"
    using rep s by (simp add: tz_rep_def named_def)
  have len: "buf_i = length (pre @ render sep (s # ts))"
    using tz_repD [OF rep] by simp
  have lo: "dotdot_i \<le> ?t"
    unfolding dd using length_render_dropWhile by simp
  have lt: "?t < buf_i"
    unfolding len using render_top_less s by (simp add: named_def)
  show "dotdot_i < buf_i"
    using lo lt by simp
  have nth: "buf ! j = (pre @ render sep (s # ts)) ! j" if "j < buf_i" for j
    using rep that unfolding tz_rep_def by (metis nth_take)
  have "pop_back p dotdot_i buf (buf_i - 1) = ?t"
  proof (rule pop_back_to [OF lo])
    show "?t \<le> buf_i - 1"
      using lt by simp
    show "?t = dotdot_i \<or> p (buf ! ?t)"
      using nth [OF lt] \<open>p sep\<close> dd by (cases "ts = []") (simp_all add: render_Cons nth_append)
    show "\<forall>j. ?t < j \<and> j \<le> buf_i - 1 \<longrightarrow> \<not> p (buf ! j)"
    proof (intro allI impI)
      fix j
      assume j: "?t < j \<and> j \<le> buf_i - 1"
      then have "buf ! j = (pre @ render sep (s # ts)) ! j"
        using lt by (intro nth) linarith
      also have "\<dots> \<in> set s"
        using j len lt by (cases "ts = []") (auto simp: render_Cons nth_append nth_Cons')
      finally show "\<not> p (buf ! j)"
        using s by (simp add: named_def)
    qed
  qed
  moreover have "take ?t buf = pre @ render sep ts"
  proof -
    have "take ?t buf = take ?t (take buf_i buf)"
      using lt by simp
    also have "\<dots> = pre @ render sep ts"
      using rep by (simp add: tz_rep_def render_Cons)
    finally show ?thesis .
  qed
  ultimately show "tz_rep sep pre ts buf (pop_back p dotdot_i buf (buf_i - 1)) dotdot_i"
    using lt dd tz_rep_def rep by auto
qed

text \<open>The segment at a position of the path, and what is left after it.\<close>

lemma segment_at:
  assumes "r < length path" and "\<not> p (path ! r)" and "r' = skip_while (Not \<circ> p) path r"
  shows "drop r path = subslice path r r' @ drop r' path" "r < r'" "r' \<le> length path"
    "subslice path r r' \<noteq> []" "\<forall>c\<in>set (subslice path r r'). \<not> p c"
    "drop r' path = [] \<or> p (hd (drop r' path))" "length (subslice path r r') = r' - r"
proof -
  have s: "subslice path r r' = takeWhile (Not \<circ> p) (drop r path)"
    unfolding subslice_def assms(3) skip_while_def by (simp add: takeWhile_eq_take [symmetric])
  have d: "drop r' path = dropWhile (Not \<circ> p) (drop r path)"
    unfolding assms(3) skip_while_def by (simp add: dropWhile_eq_drop add.commute)
  show "r < r'"
    using assms by (simp add: skip_while_gt)
  show r': "r' \<le> length path"
    using assms by (simp add: skip_while_le)
  show "drop r path = subslice path r r' @ drop r' path"
    unfolding s d by simp
  show "\<forall>c\<in>set (subslice path r r'). \<not> p c"
    unfolding s by (auto dest: set_takeWhileD)
  show "drop r' path = [] \<or> p (hd (drop r' path))"
    unfolding d using hd_dropWhile [of "Not \<circ> p" "drop r path"] by auto
  show "length (subslice path r r') = r' - r"
    using r' by (rule length_subslice)
  then show "subslice path r r' \<noteq> []"
    using \<open>r < r'\<close> by auto
qed

lemma drop_rest: "r = length path \<or> p (path ! r) \<Longrightarrow> r \<le> length path \<Longrightarrow> drop r path = [] \<or> p (hd (drop r path))"
  by (cases "r = length path") (auto simp: hd_drop_conv_nth)

lemma resolve_segs_drop:
  assumes "drop r path = s @ drop r' path" and "\<forall>c\<in>set s. \<not> p c"
    and "r' = length path \<or> p (path ! r')" and "r' \<le> length path"
  shows "resolve_segs climb p st (drop r path) = resolve_segs climb p (resolve_step climb st s) (drop r' path)"
  unfolding assms(1) using assms(2,3,4) drop_rest [where r = r' and path = path and p = p]
  by (intro resolve_segs_segment) auto

lemma drop_dot:
  assumes "r < length path" and "path ! r = CHR ''.''"
  shows "drop r path = dot @ drop (r + 1) path"
  using Cons_nth_drop_Suc [OF assms(1)] assms(2) by simp

lemma drop_dotdot:
  assumes "is_dotdot_with_type (drop r path)"
  shows "r + 2 \<le> length path" "drop r path = dotdot @ drop (r + 2) path"
proof -
  show len: "r + 2 \<le> length path"
    using assms unfolding is_dotdot_with_type_def length_drop by linarith
  show "drop r path = dotdot @ drop (r + 2) path"
    using assms len Cons_nth_drop_Suc [of r path] Cons_nth_drop_Suc [of "Suc r" path]
    by (simp add: is_dotdot_with_type_def)
qed

text \<open>Appending a segment, with the separator before it where the stack is not empty.\<close>

lemma render_push: "render sep (s # st) = render sep st @ (if st = [] then [] else [sep]) @ s"
  by (simp add: render_Cons)

lemma tz_push:
  assumes "tz_rep sep pre st buf buf_i dotdot_i" and "named p s" and "g = (if st = [] then [] else [sep])"
    and "buf_i + length g + length s \<le> length buf"
  shows "\<exists>b b'. buf_copy buf buf_i g = Some b \<and> buf_copy b (buf_i + length g) s = Some b'
    \<and> length b' = length buf \<and> tz_rep sep pre (s # st) b' (buf_i + length g + length s) dotdot_i"
proof -
  have t: "take buf_i buf = pre @ render sep st"
    using assms(1) by (simp add: tz_rep_def)
  obtain b where b: "buf_copy buf buf_i g = Some b" "length b = length buf"
    "take (buf_i + length g) b = (pre @ render sep st) @ g"
    using buf_copy_append [OF t, of g] assms(4) by auto
  moreover obtain b' where "buf_copy b (buf_i + length g) s = Some b'" "length b' = length b"
    "take (buf_i + length g + length s) b' = ((pre @ render sep st) @ g) @ s"
    using buf_copy_append [OF b(3), of s] assms(4) b(2) by auto
  ultimately show ?thesis
    using assms by (auto simp: tz_rep_def render_push named_def)
qed

lemma dropWhile_climbs: "dropWhile (\<lambda>s. s \<noteq> dotdot) (replicate n dotdot) = replicate n dotdot"
  by (cases n) auto

lemma tz_climb:
  assumes "tz_rep sep pre (replicate n dotdot) buf buf_i dotdot_i" and "up = (if n = 0 then dotdot else sep # dotdot)"
    and "buf_i + length up \<le> length buf"
  shows "\<exists>b. buf_copy buf buf_i up = Some b \<and> length b = length buf
    \<and> tz_rep sep pre (dotdot # replicate n dotdot) b (buf_i + length up) (buf_i + length up)"
proof -
  have t: "take buf_i buf = pre @ render sep (replicate n dotdot)" "buf_i = length pre + length (render sep (replicate n dotdot))"
    using assms(1) tz_repD [OF assms(1)] by (auto simp: tz_rep_def)
  obtain b where "buf_copy buf buf_i up = Some b" "length b = length buf"
    "take (buf_i + length up) b = (pre @ render sep (replicate n dotdot)) @ up"
    using buf_copy_append [OF t(1) assms(3)] by auto
  then show ?thesis
    using assms(2,3) t(2) dropWhile_climbs [of "Suc n"] by (cases n) (auto simp: tz_rep_def render_Cons)
qed

lemma resolved_segment: "resolved climb p st \<Longrightarrow> \<not> p CHR ''.'' \<Longrightarrow> s \<in> set st \<Longrightarrow> s \<noteq> [] \<and> (\<forall>c\<in>set s. \<not> p c)"
proof -
  assume st: "resolved climb p st" and dot: "\<not> p CHR ''.''" and s: "s \<in> set st"
  from st obtain names n where "st = names @ replicate n dotdot" and names: "\<forall>s\<in>set names. named p s"
    unfolding resolved_def by blast
  with s have "s \<in> set names \<or> s = dotdot"
    by (metis Un_iff in_set_replicate set_append)
  then show ?thesis
  proof
    assume "s \<in> set names"
    then show ?thesis
      using names by (simp add: named_def)
  next
    assume "s = dotdot"
    then show ?thesis
      using dot by simp
  qed
qed

lemma last_render: "st \<noteq> [] \<Longrightarrow> hd st \<noteq> [] \<Longrightarrow> last (render sep st) = last (hd st)"
  by (cases st) (auto simp: render_Cons)

definition tz_base :: "bool \<Rightarrow> (byte \<Rightarrow> bool) \<Rightarrow> bytes \<Rightarrow> nat \<Rightarrow> bool" where
  "tz_base climb p pre buf_start \<longleftrightarrow>
     buf_start \<le> length pre \<and> (buf_start = length pre \<or> pre \<noteq> [] \<and> p (last pre) \<and> \<not> climb)"

lemma tz_separator_needed:
  assumes rep: "tz_rep sep pre st buf buf_i dotdot_i" and st: "resolved climb p st" and dot: "\<not> p CHR ''.''"
    and base: "tz_base climb p pre buf_start"
  shows "buf_i \<noteq> buf_start \<and> 0 < buf_i \<and> \<not> p (buf ! (buf_i - 1)) \<longleftrightarrow> st \<noteq> []"
proof -
  have len: "buf_i = length (pre @ render sep st)" and t: "take buf_i buf = pre @ render sep st"
    and le: "buf_i \<le> length buf"
    using tz_repD [OF rep] rep by (auto simp: tz_rep_def)
  have last: "buf ! (buf_i - 1) = last (pre @ render sep st)" if "0 < buf_i"
  proof -
    have "last (take buf_i buf) = take buf_i buf ! (length (take buf_i buf) - 1)"
      using that le by (intro last_conv_nth) auto
    also have "take buf_i buf ! (length (take buf_i buf) - 1) = buf ! (buf_i - 1)"
      using that le by simp
    finally show ?thesis
      unfolding t by simp
  qed
  show ?thesis
  proof (cases "st = []")
    case True
    then show ?thesis
      using last len base by (auto simp: tz_base_def)
  next
    case False
    have ne: "render sep st \<noteq> []"
      using False render_resolved_Nil [OF st] by blast
    have top: "hd st \<noteq> []" "\<forall>c\<in>set (hd st). \<not> p c"
      using resolved_segment [OF st dot, of "hd st"] False by auto
    have "last (pre @ render sep st) = last (hd st)"
      using ne top False by (simp add: last_render)
    then have "\<not> p (last (pre @ render sep st))"
      using top last_in_set by metis
    then show ?thesis
      using ne False len base last by (auto simp: tz_base_def)
  qed
qed

definition tz_room :: "(byte \<Rightarrow> bool) \<Rightarrow> bytes \<Rightarrow> bytes list \<Rightarrow> nat \<Rightarrow> bytes \<Rightarrow> nat \<Rightarrow> bool" where
  "tz_room p path st r buf buf_i \<longleftrightarrow>
     buf_i + (length path - r) \<le> length buf
     \<and> (r < length path \<and> \<not> p (path ! r) \<and> st \<noteq> [] \<longrightarrow> buf_i + 1 + (length path - r) \<le> length buf)"


text \<open>The loop's branches.\<close>

definition at_dot :: "(byte \<Rightarrow> bool) \<Rightarrow> bytes \<Rightarrow> nat \<Rightarrow> bool" where
  "at_dot p path r \<longleftrightarrow> path ! r = CHR ''.'' \<and> (r + 1 = length path \<or> p (path ! (r + 1)))"

definition at_dotdot :: "(byte \<Rightarrow> bool) \<Rightarrow> bytes \<Rightarrow> nat \<Rightarrow> bool" where
  "at_dotdot p path r \<longleftrightarrow>
     is_dotdot_with_type (drop r path) \<and> (r + 2 = length path \<or> p (path ! (r + 2)))"

lemmas tz_loop_unfold = tz_loop.simps [folded at_dot_def at_dotdot_def]

lemma tz_loop_end: "r = length path \<Longrightarrow> tz_loop climb p sep bs path r buf i d = Some (buf, i)"
  by (subst tz_loop_unfold) simp

lemma tz_loop_sep:
  "r < length path \<Longrightarrow> p (path ! r) \<Longrightarrow>
    tz_loop climb p sep bs path r buf i d = tz_loop climb p sep bs path (r + 1) buf i d"
  by (subst tz_loop_unfold) simp

lemma tz_loop_dot:
  "r < length path \<Longrightarrow> \<not> p (path ! r) \<Longrightarrow> at_dot p path r \<Longrightarrow>
    tz_loop climb p sep bs path r buf i d = tz_loop climb p sep bs path (r + 1) buf i d"
  by (subst tz_loop_unfold) simp

lemma tz_loop_dotdot:
  assumes "r < length path" "\<not> p (path ! r)" "\<not> at_dot p path r" "at_dotdot p path r"
  shows "d < i \<Longrightarrow> tz_loop climb p sep bs path r buf i d =
      tz_loop climb p sep bs path (r + 2) buf (pop_back p d buf (i - 1)) d"
    and "\<not> d < i \<Longrightarrow> \<not> climb \<Longrightarrow> tz_loop climb p sep bs path r buf i d =
      tz_loop climb p sep bs path (r + 2) buf i d"
    and "\<not> d < i \<Longrightarrow> climb \<Longrightarrow> up = (if bs < i then sep # dotdot else dotdot) \<Longrightarrow>
      buf_copy buf i up = Some b \<Longrightarrow> tz_loop climb p sep bs path r buf i d =
      tz_loop climb p sep bs path (r + 2) b (i + length up) (i + length up)"
  using assms by (subst tz_loop_unfold, simp)+

lemma tz_loop_name:
  assumes "r < length path" "\<not> p (path ! r)" "\<not> at_dot p path r" "\<not> at_dotdot p path r"
    and "r' = skip_while (Not \<circ> p) path r"
    and "g = (if i \<noteq> bs \<and> 0 < i \<and> \<not> p (buf ! (i - 1)) then [sep] else [])"
    and "buf_copy buf i g = Some b" and "buf_copy b (i + length g) (subslice path r r') = Some b'"
  shows "tz_loop climb p sep bs path r buf i d =
    tz_loop climb p sep bs path r' b' (i + length g + (r' - r)) d"
  using assms(1-4) assms(7,8) unfolding assms(5,6)
  by (subst tz_loop_unfold) (simp only: Let_def if_True if_False bind.bind_lunit)

lemma resolve_at_dot:
  assumes "r < length path" and "at_dot p path r" and "\<not> p CHR ''.''"
  shows "resolve_segs climb p st (drop r path) = resolve_segs climb p st (drop (r + 1) path)"
proof -
  have "drop r path = dot @ drop (r + 1) path"
    using assms by (intro drop_dot) (auto simp: at_dot_def)
  then have "resolve_segs climb p st (drop r path) = resolve_segs climb p (resolve_step climb st dot) (drop (r + 1) path)"
    using assms by (intro resolve_segs_drop) (auto simp: at_dot_def)
  then show ?thesis
    by (simp add: resolve_step_def)
qed

lemma resolve_at_dotdot:
  assumes "at_dotdot p path r" and "\<not> p CHR ''.''"
  shows "resolve_segs climb p st (drop r path) =
      resolve_segs climb p (resolve_step climb st dotdot) (drop (r + 2) path)"
    and "r + 2 \<le> length path" and "r + 2 < length path \<Longrightarrow> p (path ! (r + 2))"
proof -
  have dd: "is_dotdot_with_type (drop r path)" and at: "r + 2 = length path \<or> p (path ! (r + 2))"
    using assms(1) by (auto simp: at_dotdot_def)
  show le: "r + 2 \<le> length path"
    using dd by (rule drop_dotdot)
  show "resolve_segs climb p st (drop r path) =
      resolve_segs climb p (resolve_step climb st dotdot) (drop (r + 2) path)"
    using drop_dotdot(2) [OF dd] assms(2) at le by (intro resolve_segs_drop) auto
  show "r + 2 < length path \<Longrightarrow> p (path ! (r + 2))"
    using at by auto
qed

lemma segment_named:
  assumes "r < length path" and "\<not> p (path ! r)" and "\<not> at_dot p path r" and "\<not> at_dotdot p path r"
    and r': "r' = skip_while (Not \<circ> p) path r"
  shows "named p (subslice path r r')"
    "resolve_segs climb p st (drop r path) = resolve_segs climb p (subslice path r r' # st) (drop r' path)"
proof -
  let ?s = "subslice path r r'"
  note seg = segment_at [OF assms(1,2) r']
  have rest: "r' = length path \<or> p (path ! r')"
    using seg(3,6) by (cases "r' = length path") (auto simp: hd_drop_conv_nth)
  have nth: "?s ! j = path ! (r + j)" if "j < r' - r" for j
    using that seg(3) by (simp add: subslice_def)
  have "?s \<noteq> dot"
  proof
    assume s: "?s = dot"
    then have "r' = r + 1" "path ! r = CHR ''.''"
      using seg(2,7) nth [of 0] by auto
    then show False
      using assms(3) rest by (simp add: at_dot_def)
  qed
  moreover have "?s \<noteq> dotdot"
  proof
    assume s: "?s = dotdot"
    then have "r' = r + 2"
      using seg(2,7) by simp
    moreover have "is_dotdot_with_type (drop r path)"
      unfolding seg(1) s is_dotdot_with_type_def by simp
    ultimately show False
      using assms(4) rest by (simp add: at_dotdot_def)
  qed
  ultimately show s: "named p ?s"
    using seg(4,5) by (simp add: named_def)
  show "resolve_segs climb p st (drop r path) = resolve_segs climb p (?s # st) (drop r' path)"
    using resolve_segs_drop [OF seg(1,5) rest seg(3)] resolve_step_named [OF s] by simp
qed

definition tz_result ::
  "bool \<Rightarrow> (byte \<Rightarrow> bool) \<Rightarrow> byte \<Rightarrow> bytes \<Rightarrow> bytes list \<Rightarrow> bytes \<Rightarrow> nat \<Rightarrow> (bytes \<times> nat) option \<Rightarrow> bool" where
  "tz_result climb p sep pre st path len res \<longleftrightarrow>
     (\<exists>b i d. res = Some (b, i) \<and> tz_rep sep pre (resolve_segs climb p st path) b i d \<and> length b = len)"

lemma tz_push_step:
  assumes "p sep" "\<not> p CHR ''.''" "tz_base climb p pre bs" and st: "resolved climb p st"
    and rep: "tz_rep sep pre st buf i d" and room: "tz_room p path st r buf i"
    and at: "r < length path" "\<not> p (path ! r)" "\<not> at_dot p path r" "\<not> at_dotdot p path r"
    and r': "r' = skip_while (Not \<circ> p) path r" and s: "s = subslice path r r'"
  shows "\<exists>b i'. tz_loop climb p sep bs path r buf i d = tz_loop climb p sep bs path r' b i' d
    \<and> tz_rep sep pre (s # st) b i' d \<and> length b = length buf \<and> tz_room p path (s # st) r' b i'"
proof -
  let ?g = "if st = [] then [] else [sep]"
  note seg = segment_at [OF at(1,2) r', folded s]
  have g: "?g = (if i \<noteq> bs \<and> 0 < i \<and> \<not> p (buf ! (i - 1)) then [sep] else [])"
    using tz_separator_needed [OF rep st assms(2,3)] by auto
  have fits: "i + length ?g + length s \<le> length buf"
    using room at(1,2) seg(2,3,7) by (auto simp: tz_room_def)
  obtain b b' where b: "buf_copy buf i ?g = Some b" "buf_copy b (i + length ?g) s = Some b'"
    "length b' = length buf" "tz_rep sep pre (s # st) b' (i + length ?g + length s) d"
    using tz_push [OF rep segment_named(1) [OF at r', folded s] refl fits] by blast
  have "tz_loop climb p sep bs path r buf i d = tz_loop climb p sep bs path r' b' (i + length ?g + (r' - r)) d"
    using tz_loop_name [OF at r' g b(1) b(2) [unfolded s]] .
  moreover have "r' = length path \<or> p (path ! r')"
    using seg(3,6) by (cases "r' = length path") (auto simp: hd_drop_conv_nth)
  then have "tz_room p path (s # st) r' b' (i + length ?g + (r' - r))"
    using room at(1,2) seg(2,3) b(3) by (auto simp: tz_room_def)
  ultimately show ?thesis
    using b(3,4) seg(7) by metis
qed

lemma resolved_no_climb: "resolved climb p (replicate n dotdot) \<Longrightarrow> \<not> climb \<Longrightarrow> n = 0"
  unfolding resolved_def by (cases n) (auto simp: Cons_eq_append_conv)

lemma tz_dotdot_step:
  assumes "p sep" "\<not> p CHR ''.''" "tz_base climb p pre bs" and st: "resolved climb p st"
    and rep: "tz_rep sep pre st buf i d" and room: "tz_room p path st r buf i"
    and at: "r < length path" "\<not> p (path ! r)" "\<not> at_dot p path r" "at_dotdot p path r"
  shows "\<exists>b i' d'. tz_loop climb p sep bs path r buf i d = tz_loop climb p sep bs path (r + 2) b i' d'
    \<and> tz_rep sep pre (resolve_step climb st dotdot) b i' d' \<and> length b = length buf
    \<and> tz_room p path (resolve_step climb st dotdot) (r + 2) b i'"
proof -
  note le = resolve_at_dotdot(2,3) [OF at(4) assms(2)]
  have room': "tz_room p path st' (r + 2) b i'" if "i' \<le> i" "length b = length buf" for st' b i'
    using room that le by (auto simp: tz_room_def)
  have climbs: ?thesis if n: "st = replicate n dotdot" for n
  proof -
    have not_less: "\<not> d < i"
      using rep tz_repD [OF rep] n dropWhile_climbs by (simp add: tz_rep_def)
    show ?thesis
    proof (cases climb)
      case False
      then have "st = []"
        using st n resolved_no_climb by auto
      then have "resolve_step climb st dotdot = st"
        using False by (simp add: resolve_step_def)
      then show ?thesis
        using tz_loop_dotdot(2) [OF at not_less False] rep room' [OF order_refl refl]
        by (intro exI [of _ buf] exI [of _ i] exI [of _ d]) (simp only: simp_thms)
    next
      case True
      let ?up = "if n = 0 then dotdot else sep # dotdot"
      have bs: "bs < i \<longleftrightarrow> n \<noteq> 0"
        using assms(3) True n tz_repD [OF rep] render_resolved_Nil [OF st, of sep] by (auto simp: tz_base_def)
      have fits: "i + length ?up \<le> length buf"
        using room at(1,2) le n by (auto simp: tz_room_def)
      obtain b where b: "buf_copy buf i ?up = Some b" "length b = length buf"
        "tz_rep sep pre (dotdot # st) b (i + length ?up) (i + length ?up)"
        using tz_climb [OF rep [unfolded n] refl fits] n by auto
      have "tz_loop climb p sep bs path r buf i d = tz_loop climb p sep bs path (r + 2) b (i + length ?up) (i + length ?up)"
        using bs b(1) by (intro tz_loop_dotdot(3) [OF at not_less True]) auto
      moreover have "tz_room p path (dotdot # st) (r + 2) b (i + length ?up)"
        using room at(1,2) le n b(2) by (auto simp: tz_room_def)
      moreover have "resolve_step climb st dotdot = dotdot # st"
        using True n by (cases n) (auto simp: resolve_step_def)
      ultimately show ?thesis
        using b(2,3) by metis
    qed
  qed
  from st show ?thesis
  proof (cases rule: resolved_cases)
    case Nil
    then show ?thesis using climbs [of 0] by simp
  next
    case (up n)
    then have "st = replicate (Suc n) dotdot" by simp
    then show ?thesis by (rule climbs)
  next
    case (name s ts)
    note pop = tz_pop [OF rep [unfolded name(1)] name(2) assms(1)]
    have "pop_back p d buf (i - 1) \<le> i"
      using tz_repD [OF pop(2)] tz_repD [OF rep] name(1) by (simp add: render_Cons)
    moreover have "resolve_step climb st dotdot = ts"
      using name(1,2) by (auto simp: resolve_step_def)
    ultimately show ?thesis
      using tz_loop_dotdot(1) [OF at pop(1)] pop(2) room' by blast
  qed
qed

lemma tz_loop_spec:
  assumes "p sep" and "\<not> p CHR ''.''" and "tz_base climb p pre bs"
    and "resolved climb p st" and "tz_rep sep pre st buf i d" and "r \<le> length path"
    and "tz_room p path st r buf i"
  shows "tz_result climb p sep pre st (drop r path) (length buf) (tz_loop climb p sep bs path r buf i d)"
  using assms(4-7)
proof (induction "length path - r" arbitrary: r st buf i d rule: less_induct)
  case less
  note st = less.prems(1) and rep = less.prems(2) and room = less.prems(4)
  show ?case
  proof (cases "r = length path")
    case True
    then show ?thesis
      using rep tz_loop_end by (auto simp: tz_result_def)
  next
    case False
    then have r: "r < length path"
      using less.prems(3) by simp
    consider (separator) "p (path ! r)" | (dot) "\<not> p (path ! r)" "at_dot p path r"
      | (dotdot) "\<not> p (path ! r)" "\<not> at_dot p path r" "at_dotdot p path r"
      | (name) "\<not> p (path ! r)" "\<not> at_dot p path r" "\<not> at_dotdot p path r"
      by blast
    then show ?thesis
    proof cases
      case separator
      have "resolve_segs climb p st (drop r path) = resolve_segs climb p st (drop (Suc r) path)"
        unfolding Cons_nth_drop_Suc [OF r, symmetric] using separator by (rule resolve_segs_sep)
      moreover have "tz_room p path st (r + 1) buf i"
        using room r by (auto simp: tz_room_def)
      ultimately show ?thesis
        using less.hyps [of "r + 1" st buf i d] st rep r tz_loop_sep [where p = p and path = path and r = r, OF r separator]
        by (auto simp: tz_result_def)
    next
      case dot
      have "tz_room p path st (r + 1) buf i"
        using room r dot by (auto simp: tz_room_def)
      then show ?thesis
        using less.hyps [of "r + 1" st buf i d] st rep r tz_loop_dot [OF r dot]
          resolve_at_dot [OF r dot(2) assms(2)] by (auto simp: tz_result_def)
    next
      case dotdot
      note step = resolve_at_dotdot [OF dotdot(3) assms(2)]
      obtain b i' d' where b: "tz_loop climb p sep bs path r buf i d = tz_loop climb p sep bs path (r + 2) b i' d'"
        "tz_rep sep pre (resolve_step climb st dotdot) b i' d'" "length b = length buf"
        "tz_room p path (resolve_step climb st dotdot) (r + 2) b i'"
        using tz_dotdot_step [OF assms(1-3) st rep room r dotdot] by blast
      have "resolved climb p (resolve_step climb st dotdot)"
        using resolved_step [OF st] assms(2) by simp
      then show ?thesis
        unfolding b(1) tz_result_def step(1) b(3) [symmetric]
        using less.hyps [unfolded tz_result_def, OF _ _ b(2) step(2) b(4)] r by simp
    next
      case name
      define r' where "r' = skip_while (Not \<circ> p) path r"
      let ?s = "subslice path r r'"
      obtain b i' where b: "tz_loop climb p sep bs path r buf i d = tz_loop climb p sep bs path r' b i' d"
        "tz_rep sep pre (?s # st) b i' d" "length b = length buf" "tz_room p path (?s # st) r' b i'"
        using tz_push_step [OF assms(1-3) st rep room r name r'_def refl] by blast
      note seg = segment_at(2,3) [OF r name(1) r'_def] segment_named [OF r name r'_def]
      then show ?thesis
        unfolding b(1) tz_result_def seg(4) b(3) [symmetric]
        using less.hyps [unfolded tz_result_def, OF _ resolved_Cons [OF seg(3) st] b(2) seg(2) b(4)] r by simp
    qed
  qed
qed

text \<open>The whole normaliser for a separator other than the backslash.\<close>

definition normalized :: "bool \<Rightarrow> bool \<Rightarrow> (byte \<Rightarrow> bool) \<Rightarrow> byte \<Rightarrow> bytes \<Rightarrow> bytes" where
  "normalized climb preserve p sep path =
     (let out = render sep (resolve_segs climb p [] path)
      in if preserve \<and> out \<noteq> [] \<and> last path = sep then out @ [sep] else out)"

lemma last_resolved_not_sep:
  assumes "resolved climb p st" and "p sep" and "\<not> p CHR ''.''" and "st \<noteq> []"
  shows "render sep st \<noteq> [] \<and> \<not> p (last (render sep st))"
proof -
  have "hd st \<noteq> []" "\<forall>c\<in>set (hd st). \<not> p c"
    using resolved_segment [OF assms(1,3), of "hd st"] assms(4) by auto
  moreover have "last (render sep st) = last (hd st)"
    using calculation assms(4) by (intro last_render)
  moreover have "render sep st \<noteq> []"
    using assms render_resolved_Nil by blast
  ultimately show ?thesis
    by simp
qed

lemma length_resolve_segs:
  assumes "p sep" and "\<not> p CHR ''.''"
  shows "length (render sep (resolve_segs climb p [] path)) \<le> length path"
proof -
  have "tz_result climb p sep [] [] path (length path) (tz_loop climb p sep 0 path 0 path 0 0)"
    using tz_loop_spec [OF assms, of climb "[]" 0 "[]" path 0 0 0 path]
    by (simp add: tz_base_def tz_rep_def tz_room_def)
  then obtain b i d where "tz_rep sep [] (resolve_segs climb p [] path) b i d" "length b = length path"
    by (auto simp: tz_result_def)
  then show ?thesis
    using tz_repD [of sep "[]"] by (metis add_0 list.size(3) tz_rep_def)
qed

lemma normalize_string_generic_spec:
  assumes "p sep" and "\<not> p CHR ''.''" and "sep \<noteq> SEP_WINDOWS" and "length path < length buf"
  shows "\<exists>b n. normalize_string_generic_t climb preserve path buf sep p = Some (b, n)
    \<and> n \<le> length b \<and> length b = length buf \<and> take n b = normalized climb preserve p sep path"
proof -
  let ?st = "resolve_segs climb p [] path"
  have "tz_result climb p sep [] [] path (length buf) (tz_loop climb p sep 0 path 0 buf 0 0)"
    using tz_loop_spec [OF assms(1,2), of climb "[]" 0 "[]" buf 0 0 0 path] assms(4)
    by (simp add: tz_base_def tz_rep_def tz_room_def)
  then obtain b i d where loop: "tz_loop climb p sep 0 path 0 buf 0 0 = Some (b, i)" "length b = length buf"
    "tz_rep sep [] ?st b i d"
    by (auto simp: tz_result_def)
  have i: "i = length (render sep ?st)" "take i b = render sep ?st" "i < length b"
    using tz_repD [OF loop(3)] loop(2,3) length_resolve_segs [OF assms(1,2), of climb path] assms(4)
    by (auto simp: tz_rep_def)
  have last: "path \<noteq> []" "last path = path ! (length path - 1)" "b ! (i - 1) \<noteq> sep" if "0 < i"
  proof -
    have st: "?st \<noteq> []"
      using that i(1) by auto
    then show path: "path \<noteq> []"
      by auto
    show "last path = path ! (length path - 1)"
      using path by (rule last_conv_nth)
    have "last (render sep ?st) = b ! (i - 1)"
      using i that by (metis diff_less last_conv_nth less_numeral_extra(1) length_greater_0_conv nth_take)
    then show "b ! (i - 1) \<noteq> sep"
      using last_resolved_not_sep [OF resolved_segs [OF resolved_Nil] assms(1,2) st] assms(1) by auto
  qed
  show ?thesis
  proof (cases "preserve \<and> 0 < i \<and> last path = sep")
    case True
    then obtain b' where "buf_set b i sep = Some b'" "length b' = length b" "take (i + 1) b' = render sep ?st @ [sep]"
      using buf_set_append [OF i(2,3)] by blast
    then show ?thesis
      using True last loop i assms(3)
      by (simp add: normalize_string_generic_t_def normalize_string_generic_tz_def normalized_def Let_def)
  next
    case False
    then show ?thesis
      using last loop i assms(3)
      by (auto simp: normalize_string_generic_t_def normalize_string_generic_tz_def normalized_def Let_def)
  qed
qed

end
