(* ===== verification/Path_Join.thy ===== *)
theory Path_Join
  imports Path_Normalize
begin

text \<open>
  The entry points above the generic normaliser (\<open>paths/resolve_path.rs\<close>): normalising in the style of
  Node, joining parts, and resolving parts against a working directory. A function that returns a slice
  of its buffer is modelled as the buffer afterwards with the bytes of the slice.
\<close>

section \<open>Platform-specific normalisers\<close>

definition normalize_string_loose_buf :: "bool \<Rightarrow> bool \<Rightarrow> bytes \<Rightarrow> bytes \<Rightarrow> (bytes \<times> nat) option" where
  "normalize_string_loose_buf above_root preserve str buf =
     normalize_string_generic_t above_root preserve str buf SEP_POSIX is_sep_any"

definition normalize_string_windows :: "bool \<Rightarrow> bool \<Rightarrow> bytes \<Rightarrow> bytes \<Rightarrow> (bytes \<times> nat) option" where
  "normalize_string_windows above_root preserve str buf =
     normalize_string_generic_t above_root preserve str buf SEP_WINDOWS is_sep_any"

fun normalize_string_buf :: "bool \<Rightarrow> platform \<Rightarrow> bool \<Rightarrow> bytes \<Rightarrow> bytes \<Rightarrow> (bytes \<times> nat) option" where
  "normalize_string_buf above_root Nt preserve str buf = None"
| "normalize_string_buf above_root Windows preserve str buf = normalize_string_windows above_root preserve str buf"
| "normalize_string_buf above_root Posix preserve str buf = normalize_string_loose_buf above_root preserve str buf"
| "normalize_string_buf above_root Loose preserve str buf = normalize_string_loose_buf above_root preserve str buf"

definition last_index_of_separator :: "platform \<Rightarrow> bytes \<Rightarrow> nat option" where
  "last_index_of_separator P str =
     (case P of Loose \<Rightarrow> last_index_of_separator_loose str
      | Nt \<Rightarrow> last_index_of_separator_windows str
      | Windows \<Rightarrow> last_index_of_separator_windows str
      | Posix \<Rightarrow> last_index_of_separator_posix str)"

definition normalize_buf :: "platform \<Rightarrow> bytes \<Rightarrow> bytes \<Rightarrow> (bytes \<times> nat) option" where
  "normalize_buf P str buf =
     (if str = [] then do {
        buf \<leftarrow> buf_set buf 0 (CHR ''.'');
        Some (buf, 1)
      } else
        let is_absolute = Platform_is_absolute P str;
            trailing_separator = (last_index_of_separator P str = Some (length str - 1))
        in if is_absolute \<and> trailing_separator then normalize_string_buf True P True str buf
           else if is_absolute \<and> \<not> trailing_separator then normalize_string_buf True P False str buf
           else if \<not> is_absolute \<and> \<not> trailing_separator then normalize_string_buf False P False str buf
           else normalize_string_buf False P True str buf)"

definition normalize_string_node :: "platform \<Rightarrow> bytes \<Rightarrow> bytes \<Rightarrow> (bytes \<times> bytes) option" where
  "normalize_string_node P str buf =
     (if str = [] then do {
        buf \<leftarrow> buf_set buf 0 (CHR ''.'');
        Some (buf, take 1 buf)
      } else do {
        let is_absolute = Platform_is_absolute P str;
        let trailing_separator = Platform_is_separator P (str ! (length str - 1));
        let buf_off = (if P = Windows then 0 else 1);
        let separator = Platform_separator P;
        out \<leftarrow> slice_from buf buf_off;
        (out, out_len) \<leftarrow>
          normalize_string_generic_t (\<not> is_absolute) False str out separator (Platform_is_separator P);
        let buf = take buf_off buf @ out;
        if out_len = 0 then
          if is_absolute then do {
            buf \<leftarrow> buf_set buf 0 separator;
            Some (buf, take 1 buf)
          } else if trailing_separator then do {
            buf \<leftarrow> buf_copy buf 0 (Platform_trailing_separator P);
            Some (buf, take 2 buf)
          } else do {
            buf \<leftarrow> buf_set buf 0 (CHR ''.'');
            Some (buf, take 1 buf)
          }
        else do {
          (buf, out_len) \<leftarrow>
            (if trailing_separator \<and> \<not> Platform_is_separator P (buf ! (buf_off + out_len - 1)) then do {
               buf \<leftarrow> buf_set buf (buf_off + out_len) separator;
               Some (buf, out_len + 1)
             } else Some (buf, out_len));
          if is_absolute then
            if P = Windows then Some (buf, subslice buf buf_off (buf_off + out_len))
            else do {
              buf \<leftarrow> buf_set buf 0 separator;
              Some (buf, take (out_len + 1) buf)
            }
          else Some (buf, subslice buf buf_off (buf_off + out_len))
        }
      })"

section \<open>Joining parts\<close>

definition join_count :: "bytes list \<Rightarrow> nat" where
  "join_count parts = sum_list (map (\<lambda>p. if p = [] then 0 else length p + 1) parts)"

fun join_loop :: "byte \<Rightarrow> bytes list \<Rightarrow> bytes \<Rightarrow> nat \<Rightarrow> (bytes \<times> nat) option" where
  "join_loop sep [] temp_buf written = Some (temp_buf, written)"
| "join_loop sep (part # parts) temp_buf written =
     (if part = [] then join_loop sep parts temp_buf written
      else do {
        (temp_buf, written) \<leftarrow>
          (if 0 < written then do {
             temp_buf \<leftarrow> buf_set temp_buf written sep;
             Some (temp_buf, written + 1)
           } else Some (temp_buf, written));
        temp_buf \<leftarrow> buf_copy temp_buf written part;
        join_loop sep parts temp_buf (written + length part)
      })"

definition join_string_buf :: "platform \<Rightarrow> bytes \<Rightarrow> bytes list \<Rightarrow> (bytes \<times> bytes) option" where
  "join_string_buf P buf parts =
     do {
       let count = join_count parts;
       let temp_buf = replicate (if 4096 < count * 2 then count * 2 else 4096) (CHR 0x00);
       (temp_buf, written) \<leftarrow> join_loop (Platform_separator P) parts temp_buf 0;
       if written = 0 then do {
         buf \<leftarrow> buf_set buf 0 (CHR ''.'');
         Some (buf, take 1 buf)
       } else normalize_string_node P (take written temp_buf) buf
     }"

section \<open>What normalising and joining answer\<close>

definition node_normalized :: "platform \<Rightarrow> bytes \<Rightarrow> bytes" where
  "node_normalized P path =
     (if path = [] then dot
      else
        let p = Platform_is_separator P;
            sep = Platform_separator P;
            root = Platform_is_absolute P path;
            out = render sep (resolve_segs (\<not> root) p [] path)
        in if out = [] then (if root then [sep] else if p (last path) then Platform_trailing_separator P else dot)
           else (if root then [sep] else []) @ out @ (if p (last path) then [sep] else []))"

definition unix :: "platform \<Rightarrow> bool" where
  "unix P \<longleftrightarrow> P = Posix \<or> P = Loose"

lemma unix_simps:
  assumes "unix P"
  shows "Platform_separator P = CHR ''/''" "Platform_is_separator P (CHR ''/'')" "\<not> Platform_is_separator P (CHR ''.'')"
    "P \<noteq> Windows" "P \<noteq> Nt" "Platform_trailing_separator P = ''./''"
  using assms by (auto simp: unix_def SEP_POSIX_def is_sep_posix_def is_sep_any_def)

lemma slash_not_backslash [simp]: "CHR ''/'' \<noteq> SEP_WINDOWS"
  by (simp add: SEP_WINDOWS_def)

lemma buf_set_Cons: "buf_set (x # b) (Suc n) c = map_option (Cons x) (buf_set b n c)"
  by (simp add: buf_set_def)

lemma buf_set_0: "buf_set (x # b) 0 c = Some (c # b)"
  by (simp add: buf_set_def)

lemma subslice_Cons: "subslice (x # b) (Suc 0) (Suc n) = take n b"
  by (simp add: subslice_def)

lemma normalize_string_node_spec:
  assumes "unix P" and "length path + 1 < length buf"
  shows "\<exists>b. normalize_string_node P path buf = Some (b, node_normalized P path)"
proof (cases "path = []")
  case True
  with assms(2) show ?thesis
    by (cases buf) (auto simp: normalize_string_node_def node_normalized_def buf_set_def)
next
  case False
  note P = unix_simps [OF assms(1)]
  let ?p = "Platform_is_separator P" and ?sep = "CHR ''/''" and ?root = "Platform_is_absolute P path"
  let ?st = "resolve_segs (\<not> ?root) ?p [] path"
  obtain x out where buf: "buf = x # out"
    using assms(2) by (cases buf) auto
  obtain b n where n: "normalize_string_generic_t (\<not> ?root) False path out ?sep ?p = Some (b, n)"
    "n \<le> length b" "length b = length out" "take n b = render ?sep ?st"
    using normalize_string_generic_spec [OF P(2,3) slash_not_backslash, of path out "\<not> ?root" False] assms(2) buf
    by (auto simp: normalized_def Let_def)
  have last: "last path = path ! (length path - 1)"
    using False by (rule last_conv_nth)
  show ?thesis
  proof (cases n)
    case 0
    then show ?thesis
      using False n buf P last assms(2)
      by (auto simp: normalize_string_node_def node_normalized_def slice_from_def buf_set_def buf_copy_def copy_at_def)
  next
    case (Suc m)
    have ne: "render ?sep ?st \<noteq> []"
      using n(2,4) Suc by (metis length_greater_0_conv length_take min.absorb2 zero_less_Suc)
    then have "?st \<noteq> []"
      by auto
    then have "\<not> ?p (last (render ?sep ?st))"
      using last_resolved_not_sep [OF resolved_segs [OF resolved_Nil] P(2,3)] by blast
    moreover have "last (render ?sep ?st) = b ! m"
      unfolding n(4) [symmetric] using Suc n(2) by (simp add: take_Suc_conv_app_nth)
    ultimately have bm: "\<not> ?p (b ! m)"
      by simp
    have "n < length b"
      using n length_resolve_segs [OF P(2,3), of "\<not> ?root" path] assms(2) buf
      by (metis Suc_eq_plus1 length_Cons length_take min.absorb2 not_less_eq order_le_less_trans)
    then obtain b' where b': "buf_set b n ?sep = Some b'" "take (n + 1) b' = render ?sep ?st @ [?sep]"
      using buf_set_append [OF n(4)] by blast
    show ?thesis
    proof (cases "?p (last path)")
      case True
      then show ?thesis
        using False n buf P last bm b' Suc ne
        by (simp add: normalize_string_node_def node_normalized_def slice_from_def buf_set_Cons subslice_Cons
            buf_set_0 Let_def)
    next
      case no_sep: False
      then show ?thesis
        using False n buf P last bm Suc ne
        by (simp add: normalize_string_node_def node_normalized_def slice_from_def subslice_Cons buf_set_0 Let_def)
    qed
  qed
qed

definition join_text :: "byte \<Rightarrow> bytes \<Rightarrow> bytes list \<Rightarrow> bytes" where
  "join_text sep = foldl (\<lambda>t part. if part = [] then t else if t = [] then part else t @ sep # part)"

lemma join_text_simps [simp]:
  "join_text sep t [] = t"
  "join_text sep t (part # parts) =
     join_text sep (if part = [] then t else if t = [] then part else t @ sep # part) parts"
  by (simp_all add: join_text_def)

lemma join_count_simps [simp]:
  "join_count [] = 0"
  "join_count (part # parts) = (if part = [] then 0 else length part + 1) + join_count parts"
  by (simp_all add: join_count_def)

lemma length_join_text:
  "length (join_text sep t parts) + of_bool (t = [] \<and> join_text sep t parts \<noteq> []) \<le> length t + join_count parts"
proof (induction parts arbitrary: t)
  case (Cons part parts)
  then show ?case
    using Cons.IH [of "if part = [] then t else if t = [] then part else t @ sep # part"]
    by (cases "part = []"; cases "t = []") auto
qed simp

lemma buf_copy_single: "buf_copy buf i [c] = buf_set buf i c"
  by (simp add: buf_copy_def buf_set_def copy_at_def upd_conv_take_nth_drop)

lemma buf_copy_Nil: "i \<le> length buf \<Longrightarrow> buf_copy buf i [] = Some buf"
  by (simp add: buf_copy_def copy_at_def)

lemma join_loop_step:
  assumes "part \<noteq> []" and "g = (if 0 < i then [sep] else [])"
    and "buf_copy buf i g = Some b1" and "buf_copy b1 (i + length g) part = Some b2"
  shows "join_loop sep (part # parts) buf i = join_loop sep parts b2 (i + length g + length part)"
  using assms by (cases "0 < i") (simp_all add: buf_copy_single buf_copy_Nil)

lemma join_loop_spec:
  assumes "take i buf = t" and "i = length t" and "i + join_count parts \<le> length buf"
  shows "\<exists>b n. join_loop sep parts buf i = Some (b, n) \<and> length b = length buf
    \<and> take n b = join_text sep t parts \<and> n = length (join_text sep t parts)"
  using assms
proof (induction parts arbitrary: buf i t)
  case Nil
  then show ?case by simp
next
  case (Cons part parts)
  show ?case
  proof (cases "part = []")
    case True
    then show ?thesis
      using Cons.IH [of i buf t] Cons.prems by simp
  next
    case False
    let ?g = "if 0 < i then [sep] else []"
    have room: "i + length ?g + length part \<le> length buf"
      "i + length ?g + length part + join_count parts \<le> length buf"
      using Cons.prems False by (cases "0 < i"; simp)+
    obtain b1 where b1: "buf_copy buf i ?g = Some b1" "length b1 = length buf" "take (i + length ?g) b1 = t @ ?g"
      using buf_copy_append [OF Cons.prems(1), of ?g] room(1) by auto
    obtain b2 where b2: "buf_copy b1 (i + length ?g) part = Some b2" "length b2 = length b1"
      "take (i + length ?g + length part) b2 = (t @ ?g) @ part"
      using buf_copy_append [OF b1(3), of part] room(1) b1(2) by auto
    obtain b n where rest: "join_loop sep parts b2 (i + length ?g + length part) = Some (b, n)" "length b = length b2"
      "take n b = join_text sep ((t @ ?g) @ part) parts" "n = length (join_text sep ((t @ ?g) @ part) parts)"
      using Cons.IH [OF b2(3)] Cons.prems(2) room(2) b1(2) b2(2) by auto
    have "(t @ ?g) @ part = (if t = [] then part else t @ sep # part)"
      using Cons.prems(2) by simp
    then show ?thesis
      using join_loop_step [OF False refl b1(1) b2(1), of parts] rest b1(2) b2(2) False by simp
  qed
qed

lemma join_string_buf_spec:
  assumes "unix P" and "join_count parts < length buf"
  shows "\<exists>b. join_string_buf P buf parts = Some (b, node_normalized P (join_text (CHR ''/'') [] parts))"
proof -
  note P = unix_simps [OF assms(1)]
  let ?t = "join_text (CHR ''/'') [] parts"
  let ?temp = "replicate (if 4096 < join_count parts * 2 then join_count parts * 2 else 4096) (CHR 0x00)"
  obtain b n where loop: "join_loop (CHR ''/'') parts ?temp 0 = Some (b, n)" "take n b = ?t" "n = length ?t"
  proof -
    have "0 + join_count parts \<le> length ?temp"
      by simp
    from join_loop_spec [OF _ _ this, of "[]" "CHR ''/''"] show ?thesis
      using that by auto
  qed
  show ?thesis
  proof (cases "?t = []")
    case True
    then show ?thesis
      using loop P assms(2) by (cases buf) (auto simp: join_string_buf_def buf_set_def node_normalized_def)
  next
    case False
    then have "length ?t + 1 < length buf"
      using length_join_text [of "CHR ''/''" "[]" parts] assms(2) by simp
    then show ?thesis
      using normalize_string_node_spec [OF assms(1), of ?t buf] loop P False
      by (simp add: join_string_buf_def)
  qed
qed

lemma Platform_is_separator_Posix [simp]: "Platform_is_separator Posix = is_sep_posix"
  by (rule ext) simp

lemma hd_render:
  assumes "resolved climb p st" and "\<not> p CHR ''.''" and "st \<noteq> []"
  shows "\<not> p (hd (render sep st))"
proof -
  have "\<forall>s\<in>set st. s \<noteq> [] \<and> (\<forall>c\<in>set s. \<not> p c)"
    using resolved_segment [OF assms(1,2)] by blast
  then show ?thesis
    using assms(3)
  proof (induction st)
    case (Cons s st)
    then show ?case
      using render_eq_Nil [of st sep] by (cases "st = []") (auto simp: render_Cons hd_append)
  qed simp
qed

lemma node_normalized_fixed:
  assumes st: "resolved (\<not> root) is_sep_posix st" and ne: "st \<noteq> []"
    and t: "t = (if root then [CHR ''/''] else []) @ render (CHR ''/'') st @ (if trail then [CHR ''/''] else [])"
  shows "node_normalized Posix t = t"
proof -
  let ?p = "is_sep_posix" and ?sep = "CHR ''/''"
  let ?out = "render ?sep st"
  have p: "?p ?sep" "\<not> ?p (CHR ''.'')"
    by (simp_all add: is_sep_posix_def)
  have out: "?out \<noteq> []" "\<not> ?p (last ?out)" "\<not> ?p (hd ?out)"
    using last_resolved_not_sep [OF st p ne] hd_render [OF st p(2) ne] by auto
  have "resolve_segs (\<not> root) ?p [] (?out @ (if trail then [?sep] else [])) = st"
    using resolve_segs_render [OF st p] resolve_segs_append_sep [of ?p ?sep "\<not> root" "[]" ?out "[]"] p by simp
  then have "resolve_segs (\<not> root) ?p [] t = st"
    using t p(1) by (cases root) (simp_all add: resolve_segs_sep)
  moreover have "Platform_is_absolute Posix t = root"
    using t out(1,3) by (cases root) (auto simp: is_sep_posix_def hd_conv_nth nth_append)
  moreover have "?p (last t) = trail" "t \<noteq> []"
    using t out p(1) by (cases trail; auto)+
  ultimately have "node_normalized Posix t =
      (if root then [?sep] else []) @ ?out @ (if trail then [?sep] else [])"
    using out(1) by (simp add: node_normalized_def SEP_POSIX_def Let_def)
  then show ?thesis
    using t by simp
qed

lemma node_normalized_idem: "node_normalized Posix (node_normalized Posix path) = node_normalized Posix path"
proof -
  let ?root = "Platform_is_absolute Posix path"
  let ?st = "resolve_segs (\<not> ?root) is_sep_posix [] path"
  have root: "node_normalized Posix ''/'' = ''/''" "node_normalized Posix dot = dot" "node_normalized Posix ''./'' = ''./''"
    by code_simp+
  show ?thesis
  proof (cases "path = [] \<or> ?st = []")
    case True
    have "node_normalized Posix path \<in> {''/'', dot, ''./''}"
    proof (cases "path = []")
      case path: False
      then have "render (CHR ''/'') ?st = []"
        using True by simp
      then show ?thesis
        using path unfolding node_normalized_def Let_def by (simp add: SEP_POSIX_def)
    qed (simp add: node_normalized_def)
    then show ?thesis
      using root by auto
  next
    case False
    have st: "resolved (\<not> ?root) is_sep_posix ?st"
      by (rule resolved_segs) simp
    have ne: "path \<noteq> []" "?st \<noteq> []"
      using False by auto
    have "render (CHR ''/'') ?st \<noteq> []"
      using ne(2) render_resolved_Nil [OF st] by blast
    then have "node_normalized Posix path = (if ?root then [CHR ''/''] else []) @ render (CHR ''/'') ?st
        @ (if is_sep_posix (last path) then [CHR ''/''] else [])"
      using ne(1) unfolding node_normalized_def Let_def Platform_is_separator_Posix by (simp add: SEP_POSIX_def)
    with st ne(2) show ?thesis
      by (rule node_normalized_fixed)
  qed
qed

section \<open>Properties\<close>

text \<open>
  C29. Joining answers the normalised text of the non-empty parts with a separator between them, whatever
  the parts, and normalising the answer again does not change it.
\<close>

theorem join_string_buf_normalizes:
  assumes "join_count parts < length buf"
  shows "\<exists>b r b'. join_string_buf Posix buf parts = Some (b, r)
    \<and> r = node_normalized Posix (join_text (CHR ''/'') [] parts)
    \<and> normalize_string_node Posix r (replicate (length r + 2) c) = Some (b', r)"
proof -
  obtain b r where r: "join_string_buf Posix buf parts = Some (b, r)"
    "r = node_normalized Posix (join_text (CHR ''/'') [] parts)"
    using join_string_buf_spec [of Posix parts buf] assms by (auto simp: unix_def)
  moreover obtain b' where "normalize_string_node Posix r (replicate (length r + 2) c) = Some (b', node_normalized Posix r)"
    using normalize_string_node_spec [of Posix r "replicate (length r + 2) c"] by (auto simp: unix_def)
  ultimately show ?thesis
    using node_normalized_idem by auto
qed

theorem join_string_buf_normalizes_witness:
  "\<exists>b r b'. join_string_buf Posix (replicate 20 (CHR ''x'')) [''a'', '''', ''../../b/.'', ''c/''] = Some (b, r)
    \<and> r = node_normalized Posix (join_text (CHR ''/'') [] [''a'', '''', ''../../b/.'', ''c/''])
    \<and> normalize_string_node Posix r (replicate (length r + 2) (CHR ''x'')) = Some (b', r)"
  by (rule join_string_buf_normalizes) simp

text \<open>
  C30. \<open>normalize_buf\<close> treats absolute and relative paths the wrong way round: \<open>..\<close> climbs above the
  start of an absolute path and is dropped at the start of a relative one, and the root is not kept.
\<close>

theorem normalize_buf_swaps_roots:
  assumes "path \<noteq> []" and "length path < length buf"
  shows "\<exists>b n. normalize_buf Posix path buf = Some (b, n)
    \<and> take n b = normalized (is_absolute_posix path) (last path = CHR ''/'') is_sep_any (CHR ''/'') path
    \<and> (take n b = [] \<or> hd (take n b) \<noteq> CHR ''/'')"
proof -
  let ?root = "is_absolute_posix path" and ?trail = "last path = CHR ''/''"
  obtain xs c where path: "path = xs @ [c]"
    using assms(1) by (metis rev_exhaust)
  have trail: "last_index_of_separator Posix path = Some (length path - 1) \<longleftrightarrow> ?trail"
    unfolding last_index_of_separator_def last_index_of_separator_posix_def SEP_POSIX_def path
    using rposition_below_less [of "\<lambda>c. c = CHR ''/''" "xs @ [c]" "length xs"]
    by (auto simp: rposition_def nth_append)
  have p: "is_sep_any (CHR ''/'')" "\<not> is_sep_any (CHR ''.'')"
    by (simp_all add: is_sep_any_def)
  have "normalize_buf Posix path buf = normalize_string_generic_t ?root ?trail path buf (CHR ''/'') is_sep_any"
    using assms(1) trail
    by (auto simp: normalize_buf_def normalize_string_loose_buf_def SEP_POSIX_def is_absolute_posix_def Let_def)
  moreover have "normalized ?root ?trail is_sep_any (CHR ''/'') path = []
      \<or> hd (normalized ?root ?trail is_sep_any (CHR ''/'') path) \<noteq> CHR ''/''"
    using hd_render [where p = is_sep_any and climb = ?root and sep = "CHR ''/''" and st = "resolve_segs ?root is_sep_any [] path"]
      resolved_segs [OF resolved_Nil] p
    by (cases "resolve_segs ?root is_sep_any [] path = []") (auto simp: normalized_def Let_def hd_append)
  ultimately show ?thesis
    using normalize_string_generic_spec [OF p slash_not_backslash assms(2), of ?root ?trail] by auto
qed

theorem normalize_buf_swaps_roots_witness:
  "\<exists>b n. normalize_buf Posix ''/../a'' (replicate 9 (CHR 0x00)) = Some (b, n)
    \<and> take n b = normalized True False is_sep_any (CHR ''/'') ''/../a'' \<and> take n b = ''../a''"
proof -
  have "normalized True False is_sep_any (CHR ''/'') ''/../a'' = ''../a''"
    by code_simp
  moreover have "is_absolute_posix ''/../a''" "last ''/../a'' \<noteq> CHR ''/''"
    by (simp_all add: is_absolute_posix_def)
  ultimately show ?thesis
    using normalize_buf_swaps_roots [of "''/../a''" "replicate 9 (CHR 0x00)"] by auto
qed

text \<open>
  On Windows \<open>..\<close> removes the share of a network path, so that a path resolved inside one share ends
  in another, and it doubles the separator of a drive's root where climbing is allowed.
\<close>

theorem windows_share_is_popped:
  "map_option (\<lambda>(b, n). take n b) (normalize_string_windows False True
     (''//srv/share/'' @ ''../../x'') (replicate 24 (CHR 0x00))) = Some ([CHR 0x5C, CHR 0x5C] @ ''srv'' @ [CHR 0x5C] @ ''x'')
   \<and> map_option (\<lambda>(b, n). take n b) (normalize_string_windows True False
     ''C:/..'' (replicate 24 (CHR 0x00))) = Some (''C:'' @ [CHR 0x5C, CHR 0x5C] @ ''..'')"
  by code_simp

end
