(* ===== verification/Path_Resolve.thy ===== *)
theory Path_Resolve
  imports Path_Join
begin

text \<open>
  Resolving parts against a working directory and the relative path between two directories
  (\<open>paths/resolve_path.rs\<close>): the equivalents of Node's \<open>path.resolve\<close> and \<open>path.relative\<close> that the
  resolver, the bundler and the package manager use.
\<close>

section \<open>Resolving against a working directory\<close>

definition MAX_PATH_BYTES :: nat where
  "MAX_PATH_BYTES = 4096"

text \<open>
  The scratch buffer of a join: one of the thread's pooled path buffers, whose stale contents are the
  parameter \<open>pool\<close>, or an allocation of its own.
\<close>

definition scratch_total :: "nat \<Rightarrow> bytes list \<Rightarrow> nat" where
  "scratch_total base parts = base + 2 + sum_list (map (\<lambda>p. length p + 1) parts)"

definition JoinScratch_init :: "bytes \<Rightarrow> nat \<Rightarrow> bytes list \<Rightarrow> bytes" where
  "JoinScratch_init pool base parts =
     (let total = scratch_total base parts
      in if total \<le> MAX_PATH_BYTES then pool else replicate total (CHR 0x00))"

text \<open>
  The last absolute part replaces the working directory and drops the parts before it. The count of the
  parts is kept in 16 bits.
\<close>

function absolute_scan :: "platform \<Rightarrow> bytes \<Rightarrow> bytes list \<Rightarrow> nat \<Rightarrow> bytes \<times> bytes list" where
  "absolute_scan P cwd parts part_i =
     (if part_i < length parts mod 65536 then
        if Platform_is_absolute P (parts ! part_i) then
          absolute_scan P (parts ! part_i) (drop (part_i + 1) parts) 0
        else absolute_scan P cwd parts (part_i + 1)
      else (cwd, parts))"
  by pat_completeness auto
termination
proof (relation "measures [\<lambda>(P, cwd, parts, i). length parts, \<lambda>(P, cwd, parts, i). length parts - i]", goal_cases)
  case (2 P cwd parts i)
  then have "i < length parts"
    using mod_less_eq_dividend [of "length parts" 65536] by linarith
  then show ?case by auto
next
  case (3 P cwd parts i)
  then have "i < length parts"
    using mod_less_eq_dividend [of "length parts" 65536] by linarith
  then show ?case by simp
qed simp

declare absolute_scan.simps [simp del]

fun append_parts :: "byte \<Rightarrow> bytes list \<Rightarrow> bytes \<Rightarrow> nat \<Rightarrow> (bytes \<times> nat) option" where
  "append_parts sep [] temp_buf out = Some (temp_buf, out)"
| "append_parts sep (part # parts) temp_buf out =
     (if part = [] then append_parts sep parts temp_buf out
      else do {
        (temp_buf, out) \<leftarrow>
          (if 0 < out \<and> temp_buf ! (out - 1) \<noteq> sep then do {
             temp_buf \<leftarrow> buf_set temp_buf out sep;
             Some (temp_buf, out + 1)
           } else Some (temp_buf, out));
        temp_buf \<leftarrow> buf_copy temp_buf out part;
        append_parts sep parts temp_buf (out + length part)
      })"

definition slashes_to_posix :: "bytes \<Rightarrow> bytes" where
  "slashes_to_posix s = map (\<lambda>c. if c = CHR 0x5C then CHR ''/'' else c) s"

text \<open>
  The root and the absolute part that a Windows resolution starts from: the volume of the last part that
  has one, else of the working directory; then the last absolute part without a volume or on that one.
\<close>

definition part_volume :: "bytes \<Rightarrow> bytes" where
  "part_volume part = take (fst (windows_volume_name_len part)) part"

fun windows_root :: "bytes list \<Rightarrow> bytes \<Rightarrow> bytes" where
  "windows_root [] cwd = part_volume cwd"
| "windows_root (part # before) cwd =
     (if 0 < fst (windows_volume_name_len part) then part_volume part else windows_root before cwd)"

fun windows_base :: "bytes \<Rightarrow> bytes list \<Rightarrow> (bytes \<times> nat) option" where
  "windows_base root [] = None"
| "windows_base root (part # before) =
     (if is_absolute_windows part \<and> (part_volume part = [] \<or> part_volume part = root)
      then Some (drop (length (part_volume part)) part, length before + 1)
      else windows_base root before)"

fun append_windows_parts :: "bytes \<Rightarrow> bytes list \<Rightarrow> bytes \<Rightarrow> nat \<Rightarrow> (bytes \<times> nat) option" where
  "append_windows_parts root [] temp_buf out = Some (temp_buf, out)"
| "append_windows_parts root (part # parts) temp_buf out =
     (if part = [] then append_windows_parts root parts temp_buf out
      else do {
        (temp_buf, out) \<leftarrow>
          (if 0 < out \<and> temp_buf ! (out - 1) \<noteq> CHR 0x5C then do {
             temp_buf \<leftarrow> buf_set temp_buf out (CHR 0x5C);
             Some (temp_buf, out + 1)
           } else Some (temp_buf, out));
        let volume = part_volume part;
        if volume \<noteq> [] \<and> volume \<noteq> root then append_windows_parts root parts temp_buf out
        else do {
          let part_without_vol = drop (length volume) part;
          temp_buf \<leftarrow> buf_copy temp_buf out part_without_vol;
          append_windows_parts root parts temp_buf (out + length part_without_vol)
        }
      })"

definition join_abs_string_buf_windows ::
  "bool \<Rightarrow> bytes \<Rightarrow> bytes \<Rightarrow> bytes \<Rightarrow> bytes list \<Rightarrow> (bytes \<times> bytes) option" where
  "join_abs_string_buf_windows sentinel pool cwd buf parts =
     (if parts = [] then (if sentinel then None else Some (buf, cwd))
      else do {
        let root = windows_root (rev parts) cwd;
        let (set_cwd, n_start) =
          (case windows_base root (rev parts) of
             Some base \<Rightarrow> base
           | None \<Rightarrow> (if part_volume cwd = root then (drop (length (part_volume cwd)) cwd, 0) else (''/'', 0)));
        let temp_buf = JoinScratch_init pool (length root + length set_cwd) (drop n_start parts);
        temp_buf \<leftarrow> buf_copy temp_buf 0 root;
        temp_buf \<leftarrow> buf_copy temp_buf (length root) set_cwd;
        let out = length root + length set_cwd;
        (temp_buf, out) \<leftarrow>
          (if set_cwd = [] then do {
             temp_buf \<leftarrow> buf_set temp_buf out (CHR 0x5C);
             Some (temp_buf, out + 1)
           } else Some (temp_buf, out));
        (temp_buf, out) \<leftarrow> append_windows_parts root (drop n_start parts) temp_buf out;
        (buf, result_len) \<leftarrow> normalize_string_buf False Windows True (take out temp_buf) buf;
        buf \<leftarrow> (if sentinel then buf_set buf result_len (CHR 0x00) else Some buf);
        Some (buf, take result_len buf)
      })"

definition join_abs_string_buf_impl ::
  "bool \<Rightarrow> platform \<Rightarrow> bytes \<Rightarrow> bytes \<Rightarrow> bytes \<Rightarrow> bytes list \<Rightarrow> (bytes \<times> bytes) option" where
  "join_abs_string_buf_impl sentinel P pool cwd buf parts =
     (if P = Windows then join_abs_string_buf_windows sentinel pool cwd buf parts
      else if P = Nt then do {
        tail \<leftarrow> slice_from buf 4;
        (tail, end_path) \<leftarrow> join_abs_string_buf_windows sentinel pool cwd tail parts;
        let end_len = length end_path;
        let buf = [CHR 0x5C, CHR 0x5C, CHR ''?'', CHR 0x5C] @ tail;
        buf \<leftarrow> (if sentinel then buf_set buf (end_len + 4) (CHR 0x00) else Some buf);
        result \<leftarrow> slice_range buf 0 (end_len + 4);
        Some (buf, result)
      }
      else if parts = [] then (if sentinel then None else Some (buf, cwd))
      else if length parts = 1 \<and> length (parts ! 0) = 1 \<and> parts ! 0 ! 0 = SEP_POSIX then do {
        buf \<leftarrow> buf_set buf 0 (CHR ''/'');
        buf \<leftarrow> (if sentinel then buf_set buf 1 (CHR 0x00) else Some buf);
        Some (buf, take 1 buf)
      }
      else do {
        let (cwd, parts) = absolute_scan P cwd parts 0;
        let temp_buf = JoinScratch_init pool (length cwd) parts;
        temp_buf \<leftarrow> buf_copy temp_buf 0 cwd;
        (temp_buf, out) \<leftarrow> append_parts (Platform_separator P) parts temp_buf (length cwd);
        let leading =
          (case leading_separator_index P (take out temp_buf) of
             Some i \<Rightarrow>
               (if P = Loose then slashes_to_posix (take (i + 1) temp_buf) else take (i + 1) temp_buf)
           | None \<Rightarrow> ''/'');
        let leading_len = length leading;
        buf \<leftarrow> buf_copy buf 0 leading;
        rest \<leftarrow> slice_range temp_buf leading_len out;
        tail \<leftarrow> slice_from buf leading_len;
        (tail, result_len) \<leftarrow> normalize_string_buf False P True rest tail;
        let buf = take leading_len buf @ tail;
        buf \<leftarrow> (if sentinel then buf_set buf (result_len + leading_len) (CHR 0x00) else Some buf);
        Some (buf, take (result_len + leading_len) buf)
      })"

definition join_abs_string_buf ::
  "platform \<Rightarrow> bytes \<Rightarrow> bytes \<Rightarrow> bytes \<Rightarrow> bytes list \<Rightarrow> (bytes \<times> bytes) option" where
  "join_abs_string_buf P pool cwd buf parts = join_abs_string_buf_impl False P pool cwd buf parts"

definition join_abs_string_buf_checked ::
  "platform \<Rightarrow> bytes \<Rightarrow> bytes \<Rightarrow> bytes \<Rightarrow> bytes list \<Rightarrow> (bytes \<times> bytes) option option" where
  "join_abs_string_buf_checked P pool cwd buf parts =
     (let total = scratch_total (length cwd) parts
      in if total < length buf then map_option Some (join_abs_string_buf P pool cwd buf parts)
         else do {
           (_, joined) \<leftarrow> join_abs_string_buf P pool cwd (replicate total (CHR 0x00)) parts;
           if length buf < length joined then Some None
           else let buf = copy_at buf 0 joined in Some (Some (buf, take (length joined) buf))
         })"

section \<open>What resolving answers\<close>

text \<open>The last absolute part, or the working directory, and the parts after it.\<close>

definition last_absolute :: "platform \<Rightarrow> bytes \<Rightarrow> bytes list \<Rightarrow> bytes \<times> bytes list" where
  "last_absolute P cwd parts =
     (last (cwd # filter (Platform_is_absolute P) parts),
      rev (takeWhile (\<lambda>part. \<not> Platform_is_absolute P part) (rev parts)))"

lemma absolute_scan_spec:
  assumes "length parts < 65536" and "\<forall>j<i. \<not> Platform_is_absolute P (parts ! j)" and "i \<le> length parts"
  shows "absolute_scan P cwd parts i = last_absolute P cwd parts"
  using assms
proof (induction P cwd parts i rule: absolute_scan.induct)
  case (1 P cwd parts i)
  have none: "\<forall>part\<in>set (take i parts). \<not> Platform_is_absolute P part"
    using "1.prems" by (auto simp: in_set_conv_nth)
  show ?case
  proof (cases "i < length parts")
    case False
    then have "\<forall>part\<in>set parts. \<not> Platform_is_absolute P part"
      using none by simp
    moreover from this have "filter (Platform_is_absolute P) parts = []"
      by (simp add: filter_empty_conv)
    ultimately show ?thesis
      using False "1.prems"(1)
      by (subst absolute_scan.simps) (simp add: last_absolute_def takeWhile_eq_all_conv [THEN iffD2])
  next
    case i: True
    note step = absolute_scan.simps [of P cwd parts i]
    show ?thesis
    proof (cases "Platform_is_absolute P (parts ! i)")
      case True
      have parts: "parts = take i parts @ parts ! i # drop (Suc i) parts"
        using i by (rule id_take_nth_drop)
      have "filter (Platform_is_absolute P) (take i parts) = []"
        using none by (simp add: filter_empty_conv)
      then have "filter (Platform_is_absolute P) parts = parts ! i # filter (Platform_is_absolute P) (drop (Suc i) parts)"
        using True by (subst parts) simp
      moreover have "takeWhile (\<lambda>part. \<not> Platform_is_absolute P part) (rev parts)
          = takeWhile (\<lambda>part. \<not> Platform_is_absolute P part) (rev (drop (Suc i) parts))"
        using True by (subst parts) (simp add: takeWhile_tail)
      ultimately have "last_absolute P cwd parts = last_absolute P (parts ! i) (drop (Suc i) parts)"
        by (simp add: last_absolute_def)
      then show ?thesis
        using step i True "1.IH"(1) "1.prems"(1) by simp
    next
      case False
      then have "\<forall>j<i + 1. \<not> Platform_is_absolute P (parts ! j)"
        using "1.prems"(2) less_Suc_eq by auto
      then show ?thesis
        using step i False "1.IH"(2) "1.prems"(1) by simp
    qed
  qed
qed

definition append_text :: "byte \<Rightarrow> bytes \<Rightarrow> bytes list \<Rightarrow> bytes" where
  "append_text sep =
     foldl (\<lambda>t part. if part = [] then t else if t \<noteq> [] \<and> last t \<noteq> sep then t @ sep # part else t @ part)"

lemma append_text_simps [simp]:
  "append_text sep t [] = t"
  "append_text sep t (part # parts) =
     append_text sep (if part = [] then t else if t \<noteq> [] \<and> last t \<noteq> sep then t @ sep # part else t @ part) parts"
  by (simp_all add: append_text_def)

lemma last_take: "0 < i \<Longrightarrow> i \<le> length xs \<Longrightarrow> last (take i xs) = xs ! (i - 1)"
  by (subst last_conv_nth) auto

lemma append_parts_step:
  assumes "part \<noteq> []" and "g = (if 0 < i \<and> buf ! (i - 1) \<noteq> sep then [sep] else [])"
    and "buf_copy buf i g = Some b1" and "buf_copy b1 (i + length g) part = Some b2"
  shows "append_parts sep (part # parts) buf i = append_parts sep parts b2 (i + length g + length part)"
proof (cases "0 < i \<and> buf ! (i - 1) \<noteq> sep")
  case True
  then show ?thesis
    using assms by (simp add: buf_copy_single)
next
  case False
  then have "g = []" "b1 = buf"
    using assms(2,3) by (auto simp: buf_copy_def copy_at_def split: if_splits)
  then show ?thesis
    using assms(1,4) False by auto
qed

lemma append_parts_spec:
  assumes "take i buf = t" and "i = length t" and "i + sum_list (map (\<lambda>p. length p + 1) parts) \<le> length buf"
  shows "\<exists>b n. append_parts sep parts buf i = Some (b, n) \<and> length b = length buf
    \<and> take n b = append_text sep t parts \<and> n = length (append_text sep t parts)"
  using assms
proof (induction parts arbitrary: buf i t)
  case Nil
  then show ?case by simp
next
  case (Cons part parts)
  show ?case
  proof (cases "part = []")
    case True
    then show ?thesis
      using Cons.IH [of i buf t] Cons.prems by simp
  next
    case False
    let ?g = "if 0 < i \<and> buf ! (i - 1) \<noteq> sep then [sep] else []"
    have room: "i + length ?g + length part \<le> length buf"
      "i + length ?g + length part + sum_list (map (\<lambda>p. length p + 1) parts) \<le> length buf"
      using Cons.prems by (cases "0 < i \<and> buf ! (i - 1) \<noteq> sep"; simp)+
    obtain b1 where b1: "buf_copy buf i ?g = Some b1" "length b1 = length buf" "take (i + length ?g) b1 = t @ ?g"
      using buf_copy_append [OF Cons.prems(1), of ?g] room(1) by auto
    obtain b2 where b2: "buf_copy b1 (i + length ?g) part = Some b2" "length b2 = length b1"
      "take (i + length ?g + length part) b2 = (t @ ?g) @ part"
      using buf_copy_append [OF b1(3), of part] room(1) b1(2) by auto
    obtain b n where rest: "append_parts sep parts b2 (i + length ?g + length part) = Some (b, n)" "length b = length b2"
      "take n b = append_text sep ((t @ ?g) @ part) parts" "n = length (append_text sep ((t @ ?g) @ part) parts)"
      using Cons.IH [OF b2(3)] Cons.prems(2) room(2) b1(2) b2(2) by auto
    have "(t @ ?g) @ part = (if t \<noteq> [] \<and> last t \<noteq> sep then t @ sep # part else t @ part)"
      using Cons.prems last_take [of i buf] by auto
    then show ?thesis
      using append_parts_step [OF False refl b1(1) b2(1), of parts] rest b1(2) b2(2) False by simp
  qed
qed

lemma resolve_segs_append_text:
  "p sep \<Longrightarrow> resolve_segs climb p st (append_text sep t parts) =
    foldl (resolve_segs climb p) (resolve_segs climb p st t) parts"
proof (induction parts arbitrary: t)
  case (Cons part parts)
  have "resolve_segs climb p st (if part = [] then t else if t \<noteq> [] \<and> last t \<noteq> sep then t @ sep # part else t @ part)
    = resolve_segs climb p (resolve_segs climb p st t) part"
  proof (cases "t = [] \<or> last t \<noteq> sep")
    case True
    then show ?thesis
      using Cons.prems by (auto simp: resolve_segs_append_sep)
  next
    case False
    then obtain t' where t: "t = t' @ [sep]"
      by (metis append_butlast_last_id)
    show ?thesis
      using Cons.prems resolve_segs_append_sep [of p sep climb st t' part] resolve_segs_append_sep [of p sep climb st t' "[]"]
      unfolding t by simp
  qed
  with Cons.IH [OF Cons.prems] show ?case by simp
qed simp

lemma length_append_text: "length (append_text sep t parts) \<le> length t + sum_list (map (\<lambda>p. length p + 1) parts)"
proof (induction parts arbitrary: t)
  case (Cons part parts)
  show ?case
    using Cons.IH [of "if part = [] then t else if t \<noteq> [] \<and> last t \<noteq> sep then t @ sep # part else t @ part"]
    by (auto split: if_splits)
qed simp

lemma append_text_prefix: "\<exists>s. append_text sep t parts = t @ s"
proof (induction parts arbitrary: t)
  case (Cons part parts)
  then obtain s where s: "append_text sep t' parts = t' @ s t'" for t'
    by metis
  then show ?case
    by auto
qed simp

definition resolve_path :: "bytes \<Rightarrow> bytes list \<Rightarrow> bytes" where
  "resolve_path cwd parts =
     (let (base, rest) = last_absolute Posix cwd parts;
          st = foldl (resolve_segs False is_sep_any) [] (base # rest)
      in CHR ''/'' # render (CHR ''/'') st
         @ (if st \<noteq> [] \<and> last (append_text (CHR ''/'') base rest) = CHR ''/'' then ''/'' else []))"

lemma is_sep_any_slash [simp]: "is_sep_any (CHR ''/'')" "\<not> is_sep_any (CHR ''.'')"
  by (simp_all add: is_sep_any_def)

lemma join_abs_text:
  assumes "text = CHR ''/'' # rel" and "length text < length buf"
    and "out = render (CHR ''/'') (resolve_segs False is_sep_any [] text)"
  shows "\<exists>b n tail. buf_copy buf 0 ''/'' = Some b \<and> slice_from b 1 = Some (drop 1 b)
    \<and> normalize_string_buf False Posix True rel (drop 1 b) = Some (tail, n) \<and> n \<le> length tail
    \<and> take (n + 1) (take 1 b @ tail) = CHR ''/'' # out @ (if out \<noteq> [] \<and> last text = CHR ''/'' then ''/'' else [])"
proof -
  obtain x ys where buf: "buf = x # ys"
    using assms(2) by (cases buf) auto
  obtain tail n where n: "normalize_string_buf False Posix True rel ys = Some (tail, n)" "n \<le> length tail"
    "take n tail = normalized False True is_sep_any (CHR ''/'') rel"
    using normalize_string_generic_spec [OF is_sep_any_slash slash_not_backslash, of rel ys False True] assms(1,2) buf
    by (auto simp: normalize_string_loose_buf_def SEP_POSIX_def)
  have out: "out = render (CHR ''/'') (resolve_segs False is_sep_any [] rel)"
    using assms(1,3) by (simp add: resolve_segs_sep)
  then have "rel = [] \<Longrightarrow> out = []"
    by simp
  then have "normalized False True is_sep_any (CHR ''/'') rel =
      out @ (if out \<noteq> [] \<and> last text = CHR ''/'' then ''/'' else [])"
    using assms(1) out by (auto simp: normalized_def Let_def)
  then show ?thesis
    using n buf by (auto simp: buf_copy_single buf_set_0 slice_from_def)
qed

lemma join_abs_string_buf_resolves:
  assumes "parts \<noteq> []" and "length parts < 65536" and "length pool = MAX_PATH_BYTES"
    and base: "last_absolute Posix cwd parts = (base, rest)" and "is_absolute_posix base"
    and "scratch_total (length base) rest \<le> length buf"
  shows "\<exists>b. join_abs_string_buf Posix pool cwd buf parts = Some (b, resolve_path cwd parts)"
proof -
  let ?text = "append_text (CHR ''/'') base rest"
  let ?st = "resolve_segs False is_sep_any [] ?text"
  have st: "foldl (resolve_segs False is_sep_any) [] (base # rest) = ?st"
    using resolve_segs_append_text [where p = is_sep_any and sep = "CHR ''/''", OF is_sep_any_slash(1)] by simp
  have spec: "resolve_path cwd parts = CHR ''/'' # render (CHR ''/'') ?st
      @ (if ?st \<noteq> [] \<and> last ?text = CHR ''/'' then ''/'' else [])"
    unfolding resolve_path_def base by (simp only: st Let_def prod.case)
  obtain rel where rel: "?text = CHR ''/'' # rel"
    using append_text_prefix [of "CHR ''/''" base rest] assms(5)
    by (cases base) (auto simp: is_absolute_posix_def)
  have len: "length ?text < length buf" "length ?text + 1 < scratch_total (length base) rest"
    using length_append_text [of "CHR ''/''" base rest] assms(6) by (auto simp: scratch_total_def)
  show ?thesis
  proof (cases "length parts = 1 \<and> length (parts ! 0) = 1 \<and> parts ! 0 ! 0 = SEP_POSIX")
    case True
    then have "parts = [''/'']"
      by (cases parts) (auto simp: SEP_POSIX_def length_Suc_conv)
    then have "base = ''/''" "rest = []"
      using base by (auto simp: last_absolute_def)
    then have "resolve_path cwd parts = ''/''"
      using spec by (simp add: resolve_segs_sep)
    then show ?thesis
      using True assms(1) len(1)
      by (cases buf) (simp_all add: join_abs_string_buf_def join_abs_string_buf_impl_def buf_set_def)
  next
    case False
    let ?temp = "JoinScratch_init pool (length base) rest"
    have temp: "scratch_total (length base) rest \<le> length ?temp"
      using assms(3) by (simp add: JoinScratch_init_def Let_def)
    obtain t1 where t1: "buf_copy ?temp 0 base = Some t1" "length t1 = length ?temp" "take (length base) t1 = base"
      using buf_copy_append [of 0 ?temp "[]" base] temp by (auto simp: scratch_total_def)
    obtain t2 out where t2: "append_parts (CHR ''/'') rest t1 (length base) = Some (t2, out)" "length t2 = length t1"
      "take out t2 = ?text" "out = length ?text"
      using append_parts_spec [OF t1(3) refl, of rest "CHR ''/''"] temp t1(2) by (auto simp: scratch_total_def)
    have leading: "leading_separator_index Posix (take out t2) = Some 0"
      unfolding t2(3) rel by (simp add: leading_separator_posix_def)
    have take1: "take 1 t2 = ''/''"
      using t2(3,4) rel by (metis One_nat_def length_Cons min.absorb1 not_less_eq_eq take0 take_Suc_Cons take_take zero_le)
    have rest: "slice_range t2 1 out = Some rel"
    proof -
      have "out \<le> length t2"
        using t2(2,4) t1(2) temp len(2) by linarith
      moreover have "subslice t2 1 out = drop 1 (take out t2)"
        by (simp add: subslice_def drop_take)
      ultimately show ?thesis
        using t2(3,4) rel by (simp add: slice_range_def)
    qed
    have ne: "(render (CHR ''/'') ?st \<noteq> []) = (?st \<noteq> [])"
      using render_resolved_Nil [OF resolved_segs [OF resolved_Nil], of "CHR ''/''" False is_sep_any ?text] by simp
    obtain b n tail where b: "buf_copy buf 0 ''/'' = Some b" "slice_from b 1 = Some (drop 1 b)"
      "normalize_string_buf False Posix True rel (drop 1 b) = Some (tail, n)"
      "take (n + 1) (take 1 b @ tail) = resolve_path cwd parts"
      using join_abs_text [OF rel len(1) refl, unfolded ne, folded spec] by blast
    have scan: "absolute_scan Posix cwd parts 0 = (base, rest)"
      using absolute_scan_spec [OF assms(2), of 0 Posix cwd] base by simp
    show ?thesis
      unfolding join_abs_string_buf_def join_abs_string_buf_impl_def scan if_not_P [OF False]
      using assms(1) t1(1) t2(1) leading take1 rest b by (simp add: SEP_POSIX_def Let_def)
  qed
qed

section \<open>Properties\<close>

text \<open>
  C28. Resolving parts against a working directory answers an absolute path without \<open>.\<close>, \<open>..\<close>, backslashes
  or empty segments: the segments of the last absolute part, or of the working directory, changed by those
  of the parts after it in turn. The code's comment calls it the equivalent of \<open>path.resolve\<close>. It is not in
  two respects: backslashes separate segments as slashes do, and a slash at the end of the joined text is
  kept, unless the answer is the root.
\<close>

theorem join_abs_canonical:
  assumes "parts \<noteq> []" and "length parts < 65536" and "length pool = MAX_PATH_BYTES"
    and "last_absolute Posix cwd parts = (base, rest)" and "is_absolute_posix base"
    and "scratch_total (length base) rest \<le> length buf"
  shows "\<exists>b st slash. join_abs_string_buf Posix pool cwd buf parts = Some (b, CHR ''/'' # render (CHR ''/'') st @ slash)
    \<and> st = foldl (resolve_segs False is_sep_any) [] (base # rest) \<and> resolved False is_sep_any st
    \<and> slash = (if st \<noteq> [] \<and> last (append_text (CHR ''/'') base rest) = CHR ''/'' then ''/'' else [])"
proof -
  have "resolved False is_sep_any (foldl (resolve_segs False is_sep_any) st parts)"
    if "resolved False is_sep_any st" for st parts
    using that by (induction parts arbitrary: st) (simp_all add: resolved_segs)
  from this [OF resolved_Nil, of "base # rest"] show ?thesis
    using join_abs_string_buf_resolves [OF assms]
    unfolding resolve_path_def assms(4) by (auto simp: Let_def simp del: foldl_Cons)
qed

theorem join_abs_canonical_witness:
  "\<exists>b st slash. join_abs_string_buf Posix (replicate 4096 (CHR ''x'')) ''/home'' (replicate 40 (CHR 0x00))
      [''/usr'', ''a/..'', ''b/./''] = Some (b, CHR ''/'' # render (CHR ''/'') st @ slash)
    \<and> st = foldl (resolve_segs False is_sep_any) [] (''/usr'' # [''a/..'', ''b/./'']) \<and> resolved False is_sep_any st
    \<and> slash = (if st \<noteq> [] \<and> last (append_text (CHR ''/'') ''/usr'' [''a/..'', ''b/./'']) = CHR ''/'' then ''/'' else [])"
proof (rule join_abs_canonical)
  show "last_absolute Posix ''/home'' [''/usr'', ''a/..'', ''b/./''] = (''/usr'', [''a/..'', ''b/./''])"
    by code_simp
qed (simp_all add: MAX_PATH_BYTES_def is_absolute_posix_def scratch_total_def)

end
