(* ===== verification/Path_Relative.thy ===== *)
theory Path_Relative
  imports Path_Resolve
begin

text \<open>
  The directory that paths have in common and the relative path from one to another
  (\<open>paths/resolve_path.rs\<close>), with the small path predicates of the same file. On Linux the relative path
  between two normalised directories is proved to lead from one to the other.
\<close>

section \<open>Parts of a path\<close>

function dirname_posix :: "bytes \<Rightarrow> bytes" where
  "dirname_posix str =
     (case last_index_of_separator_posix str of
        None \<Rightarrow> []
      | Some separator \<Rightarrow>
          if separator = 0 then ''/''
          else if str \<noteq> [] \<and> separator = length str - 1 then dirname_posix (take (length str - 1) str)
          else take separator str)"
  by pat_completeness auto
termination
  by (relation "measure length") auto

declare dirname_posix.simps [simp del]

text \<open>Scanning for the tokens of a UNC prefix: two runs of other bytes, each after a run of separators.\<close>

definition unc_token_end :: "byte \<Rightarrow> bytes \<Rightarrow> nat \<Rightarrow> nat option" where
  "unc_token_end this_sep path idx =
     (let start = skip_while (\<lambda>c. c = this_sep) path idx
      in if length path \<le> start then None else Some (skip_while (\<lambda>c. c \<noteq> this_sep) path start))"

definition unc_len :: "byte \<Rightarrow> bytes \<Rightarrow> nat" where
  "unc_len this_sep path =
     (if path ! 2 = this_sep then 0
      else case unc_token_end this_sep path 0 of
          None \<Rightarrow> 0
        | Some idx \<Rightarrow> (case unc_token_end this_sep path idx of None \<Rightarrow> 0 | Some idx \<Rightarrow> idx))"

definition disk_designator_len_windows :: "bytes \<Rightarrow> nat" where
  "disk_designator_len_windows path =
     (if 2 \<le> length path \<and> path ! 1 = CHR '':'' then 2
      else if path \<noteq> [] \<and> is_sep_any (path ! 0) \<and> (length path = 1 \<or> \<not> is_sep_any (path ! 1)) then 0
      else if length path < 5 then 0
      else if path ! 0 = CHR ''/'' \<and> path ! 1 = CHR ''/'' then unc_len (CHR ''/'') path
      else if path ! 0 = CHR 0x5C \<and> path ! 1 = CHR 0x5C then unc_len (CHR 0x5C) path
      else 0)"

definition disk_designator_windows :: "bytes \<Rightarrow> bytes" where
  "disk_designator_windows p = take (disk_designator_len_windows p) p"

fun dirname :: "platform \<Rightarrow> bytes \<Rightarrow> bytes option" where
  "dirname Loose str =
     (case last_index_of_separator_loose str of None \<Rightarrow> Some [] | Some separator \<Rightarrow> Some (take separator str))"
| "dirname Posix str = Some (dirname_posix str)"
| "dirname Windows str =
     (case last_index_of_separator_windows str of
        None \<Rightarrow> Some (disk_designator_windows str) | Some separator \<Rightarrow> Some (take separator str))"
| "dirname Nt str = None"

text \<open>\<open>basename\<close>: the scans from the end stop at index 0.\<close>

fun scan_back :: "(byte \<Rightarrow> bool) \<Rightarrow> bytes \<Rightarrow> nat \<Rightarrow> nat option" where
  "scan_back p path 0 = (if p (path ! 0) then None else Some 0)"
| "scan_back p path (Suc i) = (if p (path ! Suc i) then scan_back p path i else Some (Suc i))"

definition basename :: "bytes \<Rightarrow> bytes" where
  "basename path =
     (if path = [] then []
      else case scan_back is_sep_any path (length path - 1) of
          None \<Rightarrow> ''/''
        | Some end_index \<Rightarrow>
            (case scan_back (Not \<circ> is_sep_any) path end_index of
               None \<Rightarrow> take (end_index + 1) path
             | Some start_index \<Rightarrow> subslice path (start_index + 1) (end_index + 1)))"

datatype parent_equal = Parent | EqualPath | Unrelated

definition contains :: "bytes \<Rightarrow> bytes \<Rightarrow> bool" where
  "contains s needle \<longleftrightarrow>
     s \<noteq> [] \<and> needle \<noteq> [] \<and> length needle \<le> length s
     \<and> list_ex (\<lambda>i. take (length needle) (drop i s) = needle) [0..<length s]"

definition is_parent_or_equal :: "bytes \<Rightarrow> bytes \<Rightarrow> parent_equal" where
  "is_parent_or_equal parent child =
     (let parent = rev (dropWhile is_sep_any (rev parent))
      in if \<not> contains child parent then Unrelated
         else if length child = length parent then EqualPath
         else if length parent < length child \<and> is_sep_any (child ! length parent) then Parent
         else Unrelated)"

section \<open>The longest common path\<close>

definition eq_ignore_ascii_case :: "byte \<Rightarrow> byte \<Rightarrow> bool" where
  "eq_ignore_ascii_case a b \<longleftrightarrow> to_ascii_upper a = to_ascii_upper b"

definition byte_differs :: "platform \<Rightarrow> byte \<Rightarrow> byte \<Rightarrow> bool" where
  "byte_differs P a b = (if P = Windows then \<not> eq_ignore_ascii_case a b else a \<noteq> b)"

text \<open>\<open>nql_at_index_dyn\<close> and its case-insensitive sibling.\<close>

definition nql_at_index :: "platform \<Rightarrow> bytes list \<Rightarrow> nat \<Rightarrow> bool" where
  "nql_at_index P input index =
     list_ex (\<lambda>s. byte_differs P (input ! 0 ! index) (input ! s ! index)) [1..<length input]"

definition min_length :: "bytes list \<Rightarrow> nat" where
  "min_length input = foldl (\<lambda>m s. min (length s) m) (2 ^ 64 - 1) input"

function common_loop :: "platform \<Rightarrow> bytes list \<Rightarrow> nat \<Rightarrow> nat \<Rightarrow> nat \<Rightarrow> nat \<times> nat" where
  "common_loop P input min_len index last_sep =
     (if index < min_len \<and> \<not> nql_at_index P input index then
        common_loop P input min_len (index + 1)
          (if Platform_is_separator P (input ! 0 ! index) then index else last_sep)
      else (index, last_sep))"
  by pat_completeness auto
termination
  by (relation "measure (\<lambda>(P, input, m, i, l). m - i)") auto

declare common_loop.simps [simp del]

text \<open>More than eight paths: the strings are compared with the first one after another.\<close>

function mismatch_from :: "platform \<Rightarrow> bytes \<Rightarrow> bytes \<Rightarrow> nat \<Rightarrow> nat \<Rightarrow> nat" where
  "mismatch_from P a b min_len index =
     (if index < min_len \<and> \<not> byte_differs P (a ! index) (b ! index)
      then mismatch_from P a b min_len (index + 1) else index)"
  by pat_completeness auto
termination
  by (relation "measure (\<lambda>(P, a, b, m, i). m - i)") auto

declare mismatch_from.simps [simp del]

fun common_many :: "platform \<Rightarrow> bytes \<Rightarrow> nat \<Rightarrow> bytes list \<Rightarrow> nat \<Rightarrow> nat \<Rightarrow> (nat \<times> nat) option" where
  "common_many P first min_len [] index last_sep = Some (index, last_sep)"
| "common_many P first min_len (s # ss) index last_sep =
     (let index = mismatch_from P first s min_len index
      in if min_len = 0 then None
         else
           let index = (if index = min_len then index - 1 else index)
           in common_many P first min_len ss index
                (if Platform_is_separator P (first ! index) then index else last_sep))"

fun separator_at :: "platform \<Rightarrow> nat \<Rightarrow> bytes list \<Rightarrow> bytes option \<Rightarrow> bytes option" where
  "separator_at P index [] found = found"
| "separator_at P index (s # ss) found =
     (if index < length s then
        if Platform_is_separator P (s ! index) then separator_at P index ss (Some s) else None
      else separator_at P index ss found)"

definition longest_common_path_generic :: "platform \<Rightarrow> bytes list \<Rightarrow> bytes option" where
  "longest_common_path_generic P input =
     (let n = length input; min_len = min_length input
      in if n = 0 then Some []
         else if n = 1 then Some (input ! 0)
         else if P = Windows \<and> list_ex (\<lambda>s.
             map to_ascii_upper (windows_filesystem_root (input ! 0))
               \<noteq> map to_ascii_upper (windows_filesystem_root s)) (tl input) then Some []
         else do {
           (index, last_common_separator) \<leftarrow>
             (if n \<le> 8 then Some (common_loop P input min_len 0 0)
              else common_many P (input ! 0) min_len (tl input) 0 0);
           if index = 0 then Some [Platform_separator P]
           else case separator_at P index input None of
               Some s \<Rightarrow> slice_range s 0 (index + 1)
             | None \<Rightarrow> slice_range (input ! 0) 0 (last_common_separator + 1)
         })"

section \<open>The relative path\<close>

definition emit :: "bool \<Rightarrow> bytes \<Rightarrow> bytes \<Rightarrow> (bytes \<times> bytes) option" where
  "emit always_copy buf s =
     (if always_copy then do { buf \<leftarrow> buf_copy buf 0 s; Some (buf, s) } else Some (buf, s))"

function up_loop :: "byte \<Rightarrow> bytes \<Rightarrow> nat \<Rightarrow> bytes \<Rightarrow> nat \<Rightarrow> (bytes \<times> nat) option" where
  "up_loop sep from_path i buf out_len =
     (if i \<le> length from_path then
        if i = length from_path \<or> from_path ! i = sep \<and> i + 1 < length from_path then
          let up = (if out_len = 0 then dotdot else sep # dotdot)
          in buf_copy buf out_len up \<bind>
               (\<lambda>buf. up_loop sep from_path (i + 1) buf (out_len + length up))
        else up_loop sep from_path (i + 1) buf out_len
      else Some (buf, out_len))"
  by pat_completeness auto
termination
  by (relation "measure (\<lambda>(s, f, i, b, n). Suc (length f) - i)") auto

declare up_loop.simps [simp del]

definition strip_trailing :: "platform \<Rightarrow> bytes \<Rightarrow> bytes" where
  "strip_trailing P s =
     (if P = Windows \<and> 3 < length s \<and> s ! (length s - 1) = Platform_separator P
      then take (length s - 1) s else s)"

text \<open>The rest of the target behind the ups.\<close>

definition relative_tail ::
  "platform \<Rightarrow> nat \<Rightarrow> bytes \<Rightarrow> bytes \<Rightarrow> bytes \<Rightarrow> nat \<Rightarrow> (bytes \<times> nat) option" where
  "relative_tail P last_common_separator normalized_from normalized_to buf out_len =
     (if last_common_separator + 1 < length normalized_to then
        let tail0 = drop last_common_separator normalized_to;
            tail =
              (if normalized_from \<noteq> []
                 \<and> (last_common_separator = length normalized_from
                    \<or> last_common_separator = length normalized_from - 1)
                 \<and> Platform_is_separator P (tail0 ! 0) then tl tail0 else tail0);
            insert_leading_slash =
              (\<not> Platform_is_separator P (tail ! 0) \<and> 0 < out_len
               \<and> \<not> Platform_is_separator P (buf ! (out_len - 1)));
            lead = (if insert_leading_slash then [Platform_separator P] else [])
        in do {
          buf \<leftarrow> buf_copy buf out_len lead;
          buf \<leftarrow> buf_copy buf (out_len + length lead) tail;
          Some (buf, out_len + length lead + length tail)
        }
      else Some (buf, out_len))"

text \<open>The part after the special cases: the ups, the rest of the target, and a trailing separator less.\<close>

definition relative_general :: "platform \<Rightarrow> bytes \<Rightarrow> bytes \<Rightarrow> bytes \<Rightarrow> bytes \<Rightarrow> (bytes \<times> bytes) option" where
  "relative_general P common normalized_from normalized_to buf =
     do {
       let separator = Platform_separator P;
       let last_common_separator = (case rposition (\<lambda>c. c = separator) common of None \<Rightarrow> 0 | Some i \<Rightarrow> i);
       (buf, out_len) \<leftarrow>
         (if normalized_from \<noteq> [] then
            up_loop separator normalized_from
              (of_bool (Platform_is_separator P (normalized_from ! 0)) + 1 + last_common_separator) buf 0
          else Some (buf, 0));
       (buf, out_len) \<leftarrow> relative_tail P last_common_separator normalized_from normalized_to buf out_len;
       let out_len = (if 3 < out_len \<and> buf ! (out_len - 1) = separator then out_len - 1 else out_len);
       Some (buf, take out_len buf)
     }"

definition relative_to_common_path ::
  "bool \<Rightarrow> platform \<Rightarrow> bytes \<Rightarrow> bytes \<Rightarrow> bytes \<Rightarrow> bytes \<Rightarrow> (bytes \<times> bytes) option" where
  "relative_to_common_path always_copy P common0 from0 to0 buf =
     (let from_root = windows_filesystem_root from0;
          to_root = windows_filesystem_root to0
      in if P = Windows \<and> common0 = [] \<and> map to_ascii_upper from_root \<noteq> map to_ascii_upper to_root then
           emit always_copy buf
             (if length to_root < length to0 \<and> to0 ! (length to0 - 1) = CHR 0x5C
              then take (length to0 - 1) to0 else to0)
         else do {
           let normalized_from = (if P = Windows then drop (length from_root) from0 else from0);
           let normalized_to = (if P = Windows then drop (length to_root) to0 else to0);
           common_path \<leftarrow>
             (if P = Windows then slice_from common0 (length from_root)
              else if is_absolute_posix common0 then Some (drop 1 common0)
              else Some common0);
           let shortest = min (length normalized_from) (length normalized_to);
           if shortest = length common_path \<and> length normalized_from \<le> length normalized_to \<and> common_path = [] then
             emit always_copy buf (strip_trailing P normalized_to)
           else if shortest = length common_path \<and> length normalized_from \<le> length normalized_to
             \<and> normalized_to ! (length common_path - 1) = Platform_separator P then
             emit always_copy buf (strip_trailing P (drop (length common_path) normalized_to))
           else
             relative_general P (if P = Windows then common_path else common0) normalized_from normalized_to buf
         })"

definition relative_normalized_buf ::
  "bool \<Rightarrow> platform \<Rightarrow> bytes \<Rightarrow> bytes \<Rightarrow> bytes \<Rightarrow> (bytes \<times> bytes) option" where
  "relative_normalized_buf always_copy P buf from_path to_path =
     (if (if P = Windows then map to_ascii_upper from_path = map to_ascii_upper to_path
          else from_path = to_path) then Some (buf, [])
      else do {
        common_path \<leftarrow> longest_common_path_generic P [from_path, to_path];
        relative_to_common_path always_copy P common_path from_path to_path buf
      })"

text \<open>
  \<open>from\<close> and \<open>to\<close> are first made absolute and normalised, in the thread's path buffers; a relative one is
  resolved against the top-level directory of the file system object, which is a parameter.
\<close>

definition absolute_normalized ::
  "platform \<Rightarrow> bytes \<Rightarrow> bytes \<Rightarrow> bytes \<Rightarrow> bytes \<Rightarrow> bytes \<Rightarrow> (bytes \<times> bytes) option" where
  "absolute_normalized P pool top_level_dir target scratch path =
     (if Platform_is_absolute P path then do {
        rest \<leftarrow> slice_from target 1;
        (rest, path_len) \<leftarrow> normalize_string_buf True P True path rest;
        if P = Windows then Some (scratch, take path_len rest)
        else do {
          _ \<leftarrow> buf_set target 0 (Platform_separator P);
          Some (scratch, Platform_separator P # take path_len rest)
        }
      } else do {
        (scratch, norm_len) \<leftarrow> normalize_string_buf True P True path scratch;
        (_, joined) \<leftarrow> join_abs_string_buf P pool top_level_dir target [take norm_len scratch];
        Some (scratch, joined)
      })"

definition relative_platform_buf ::
  "bool \<Rightarrow> platform \<Rightarrow> bytes \<Rightarrow> bytes \<Rightarrow> bytes \<Rightarrow> bytes \<Rightarrow> bytes \<Rightarrow> bytes \<Rightarrow> bytes \<Rightarrow> (bytes \<times> bytes) option" where
  "relative_platform_buf always_copy P pool top_level_dir relative_from_buf relative_to_buf buf from_path to_path =
     do {
       (relative_to_buf, normalized_from) \<leftarrow>
         absolute_normalized P pool top_level_dir relative_from_buf relative_to_buf from_path;
       (buf, normalized_to) \<leftarrow> absolute_normalized P pool top_level_dir relative_to_buf buf to_path;
       relative_normalized_buf always_copy P buf normalized_from normalized_to
     }"

section \<open>The longest common path of two directories\<close>

definition seg_text :: "bytes list \<Rightarrow> bytes" where
  "seg_text segs = concat (map (Cons (CHR ''/'')) segs)"

text \<open>The absolute path with the given names, from the root down.\<close>

definition abs_path :: "bytes list \<Rightarrow> bytes" where
  "abs_path segs = (if segs = [] then ''/'' else seg_text segs)"

lemma seg_text_simps [simp]:
  "seg_text [] = []" "seg_text (s # segs) = CHR ''/'' # s @ seg_text segs"
  "seg_text (xs @ ys) = seg_text xs @ seg_text ys"
  by (simp_all add: seg_text_def)

lemma seg_text_eq_Nil [simp]: "seg_text segs = [] \<longleftrightarrow> segs = []"
  by (cases segs) auto

lemma common_loop_two:
  assumes "a = x @ u" and "b = x @ v" and "i \<le> length x"
  shows "common_loop Posix [a, b] (min (length a) (length b)) i l =
    (if i = length x then common_loop Posix [a, b] (min (length a) (length b)) i l
     else common_loop Posix [a, b] (min (length a) (length b)) (i + 1) (if x ! i = CHR ''/'' then i else l))"
proof (cases "i = length x")
  case False
  then have "i < length x"
    using assms(3) by simp
  then show ?thesis
    using assms False
    by (subst common_loop.simps) (simp add: nql_at_index_def byte_differs_def nth_append is_sep_posix_def)
qed simp

lemma common_loop_reach:
  assumes "a = x @ u" and "b = x @ v" and "j \<le> length x" and "i \<le> j"
  shows "\<exists>l'. common_loop Posix [a, b] (min (length a) (length b)) i l =
    common_loop Posix [a, b] (min (length a) (length b)) j l'"
  using assms(4)
proof (induction "j - i" arbitrary: i l)
  case (Suc k)
  then have "i < length x" "i + 1 \<le> j" "k = j - (i + 1)"
    using assms(3) by auto
  then show ?case
    using common_loop_two [OF assms(1,2), of i l] Suc.hyps(1) by (metis less_imp_le_nat nat_less_le)
qed auto

lemma common_loop_no_sep:
  assumes "a = x @ u" and "b = x @ v" and "i \<le> length x" and "\<forall>j. i \<le> j \<and> j < length x \<longrightarrow> x ! j \<noteq> CHR ''/''"
  shows "common_loop Posix [a, b] (min (length a) (length b)) i l =
    common_loop Posix [a, b] (min (length a) (length b)) (length x) l"
  using assms(3,4)
proof (induction "length x - i" arbitrary: i)
  case (Suc k)
  then have i: "i < length x" and k: "k = length x - (i + 1)"
    by auto
  have "common_loop Posix [a, b] (min (length a) (length b)) i l =
      common_loop Posix [a, b] (min (length a) (length b)) (i + 1) l"
    using common_loop_two [OF assms(1,2) Suc.prems(1), of l] i Suc.prems(2) by simp
  also have "\<dots> = common_loop Posix [a, b] (min (length a) (length b)) (length x) l"
    using Suc.hyps(1) [OF k] i Suc.prems(2) by simp
  finally show ?case .
qed simp

lemma common_loop_result:
  assumes a: "a = y @ CHR ''/'' # z @ u" and b: "b = y @ CHR ''/'' # z @ v" and z: "CHR ''/'' \<notin> set z"
    and stop: "u = [] \<or> v = [] \<or> hd u \<noteq> hd v"
  shows "common_loop Posix [a, b] (min (length a) (length b)) 0 0 = (length y + 1 + length z, length y)"
proof -
  let ?x = "y @ CHR ''/'' # z" and ?loop = "common_loop Posix [a, b] (min (length a) (length b))"
  have ab: "a = ?x @ u" "b = ?x @ v"
    using a b by auto
  obtain l where "?loop 0 0 = ?loop (length y) l"
    using common_loop_reach [OF ab, of "length y" 0 0] by auto
  also have "\<dots> = ?loop (length y + 1) (length y)"
    using common_loop_two [OF ab, of "length y" l] by simp
  also have "\<dots> = ?loop (length ?x) (length y)"
  proof (rule common_loop_no_sep [OF ab])
    show "\<forall>j. length y + 1 \<le> j \<and> j < length ?x \<longrightarrow> ?x ! j \<noteq> CHR ''/''"
      using z by (auto simp: nth_append nth_Cons' in_set_conv_nth)
  qed simp
  also have "\<dots> = (length ?x, length y)"
    using stop ab
    by (subst common_loop.simps) (cases u; cases v; auto simp: nql_at_index_def byte_differs_def nth_append)
  finally show ?thesis
    by simp
qed

text \<open>The text of two different names, each followed by nothing or by a separator, parts without one in common.\<close>

definition diverge :: "bytes \<Rightarrow> bytes \<Rightarrow> bool" where
  "diverge u v \<longleftrightarrow> (u = [] \<or> v = [] \<or> hd u \<noteq> hd v)
     \<and> (u \<noteq> [] \<and> hd u = CHR ''/'' \<longrightarrow> v \<noteq> []) \<and> (v \<noteq> [] \<and> hd v = CHR ''/'' \<longrightarrow> u \<noteq> [])"

lemma names_differ:
  assumes "a \<noteq> b" and "CHR ''/'' \<notin> set a" and "CHR ''/'' \<notin> set b"
    and U: "U = [] \<or> hd U = CHR ''/''" and V: "V = [] \<or> hd V = CHR ''/''"
  shows "\<exists>z u v. a @ U = z @ u \<and> b @ V = z @ v \<and> CHR ''/'' \<notin> set z \<and> diverge u v"
  using assms(1-3)
proof (induction a arbitrary: b)
  case Nil
  then obtain c b' where b: "b = c # b'" "CHR ''/'' \<noteq> c"
    by (cases b) auto
  have "diverge U (b @ V)"
    using U b by (auto simp: diverge_def)
  then show ?case
    by (intro exI [of _ "[]"] exI [of _ U] exI [of _ "b @ V"]) simp
next
  case (Cons c a)
  then have c: "CHR ''/'' \<noteq> c"
    by simp
  show ?case
  proof (cases "b \<noteq> [] \<and> hd b = c")
    case True
    then obtain b' where b: "b = c # b'"
      by (cases b) auto
    obtain z u v where "a @ U = z @ u" "b' @ V = z @ v" "CHR ''/'' \<notin> set z" "diverge u v"
      using Cons.IH [of b'] Cons.prems b by auto
    then show ?thesis
      using b c by (intro exI [of _ "c # z"] exI [of _ u] exI [of _ v]) simp
  next
    case False
    have "diverge ((c # a) @ U) (b @ V)"
    proof (cases b)
      case Nil
      then show ?thesis
        using V c by (auto simp: diverge_def)
    next
      case (Cons d b')
      then have "c \<noteq> d"
        using False by auto
      then show ?thesis
        using Cons by (simp add: diverge_def)
    qed
    then show ?thesis
      by (intro exI [of _ "[]"] exI [of _ "(c # a) @ U"] exI [of _ "b @ V"]) simp
  qed
qed

lemma separator_at_two:
  "separator_at Posix n [a, b] None =
     (if n < length a \<and> a ! n \<noteq> CHR ''/'' \<or> n < length b \<and> b ! n \<noteq> CHR ''/'' then None
      else if n < length b then Some b else if n < length a then Some a else None)"
  by (simp add: is_sep_posix_def)

lemma longest_common_two:
  assumes "common_loop Posix [a, b] (min (length a) (length b)) 0 0 = (index, last_sep)" and "0 < index"
    and "length a < 2 ^ 64" and "length b < 2 ^ 64"
  shows "longest_common_path_generic Posix [a, b] =
    (case separator_at Posix index [a, b] None of
       Some s \<Rightarrow> slice_range s 0 (index + 1) | None \<Rightarrow> slice_range a 0 (last_sep + 1))"
proof -
  have "min_length [a, b] = min (length a) (length b)"
    using assms(3,4) by (simp add: min_length_def)
  then show ?thesis
    using assms(1,2) by (simp add: longest_common_path_generic_def del: separator_at.simps split: option.split)
qed

lemma slice_range_prefix: "n = length x \<Longrightarrow> slice_range (x @ ys) 0 n = Some x"
  by (simp add: slice_range_def subslice_def)

definition dir_names :: "bytes list \<Rightarrow> bool" where
  "dir_names segs \<longleftrightarrow> (\<forall>s\<in>set segs. named is_sep_any s) \<and> length (abs_path segs) < 2 ^ 64"

lemma named_no_slash: "named is_sep_any s \<Longrightarrow> CHR ''/'' \<notin> set s \<and> s \<noteq> [] \<and> last s \<noteq> CHR ''/''"
  by (metis is_sep_any_slash(1) last_in_set named_def)

lemma hd_seg_text: "seg_text segs = [] \<or> hd (seg_text segs) = CHR ''/''"
  by (cases segs) auto

lemma longest_common_branches:
  assumes a: "a = C @ CHR ''/'' # x @ U" and b: "b = C @ CHR ''/'' # y @ V" and "x \<noteq> y"
    and "CHR ''/'' \<notin> set x" "CHR ''/'' \<notin> set y" "U = [] \<or> hd U = CHR ''/''" "V = [] \<or> hd V = CHR ''/''"
    and "length a < 2 ^ 64" "length b < 2 ^ 64"
  shows "longest_common_path_generic Posix [a, b] = Some (C @ ''/'')"
proof -
  obtain z u v where z: "x @ U = z @ u" "y @ V = z @ v" "CHR ''/'' \<notin> set z" "diverge u v"
    using names_differ [OF assms(3-7)] by blast
  let ?n = "length C + 1 + length z"
  have ab: "a = C @ CHR ''/'' # z @ u" "b = C @ CHR ''/'' # z @ v"
    using a b z(1,2) by simp_all
  have stop: "u = [] \<or> v = [] \<or> hd u \<noteq> hd v"
    using z(4) by (simp add: diverge_def)
  have nth: "?n < length a \<longleftrightarrow> u \<noteq> []" "?n < length b \<longleftrightarrow> v \<noteq> []"
    "u \<noteq> [] \<Longrightarrow> a ! ?n = hd u" "v \<noteq> [] \<Longrightarrow> b ! ?n = hd v"
    unfolding ab by (auto simp: nth_append hd_conv_nth)
  have "u \<noteq> [] \<and> hd u \<noteq> CHR ''/'' \<or> v \<noteq> [] \<and> hd v \<noteq> CHR ''/'' \<or> u = [] \<and> v = []"
    using z(4) unfolding diverge_def by metis
  then have "separator_at Posix ?n [a, b] None = None"
    unfolding separator_at_two using nth by auto
  then show ?thesis
    using longest_common_two [OF common_loop_result [OF ab z(3) stop]] assms(8,9) ab(1)
      slice_range_prefix [of _ "C @ ''/''" "z @ u"] by simp
qed

lemma longest_common_prefix_dir:
  assumes "C \<noteq> []" and s: "C = B @ CHR ''/'' # s" "CHR ''/'' \<notin> set s" and "length (C @ CHR ''/'' # t) < 2 ^ 64"
  shows "longest_common_path_generic Posix [C, C @ CHR ''/'' # t] = Some (C @ ''/'')"
    "longest_common_path_generic Posix [C @ CHR ''/'' # t, C] = Some (C @ ''/'')"
proof -
  have C: "C = B @ CHR ''/'' # s @ []" "C @ CHR ''/'' # t = B @ CHR ''/'' # s @ CHR ''/'' # t"
    using s by simp_all
  have len: "length B + 1 + length s = length C"
    using s by simp
  have at: "separator_at Posix (length C) [C, C @ CHR ''/'' # t] None = Some (C @ CHR ''/'' # t)"
    "separator_at Posix (length C) [C @ CHR ''/'' # t, C] None = Some (C @ CHR ''/'' # t)"
    unfolding separator_at_two by auto
  have slice: "slice_range (C @ CHR ''/'' # t) 0 (length C + 1) = Some (C @ ''/'')"
    using slice_range_prefix [of _ "C @ ''/''" t] by simp
  have "0 < length C"
    using assms(1) by simp
  show "longest_common_path_generic Posix [C, C @ CHR ''/'' # t] = Some (C @ ''/'')"
    using longest_common_two [OF common_loop_result [OF C(1,2) s(2), unfolded len] \<open>0 < length C\<close>]
      assms(4) at(1) slice by simp
  show "longest_common_path_generic Posix [C @ CHR ''/'' # t, C] = Some (C @ ''/'')"
    using longest_common_two [OF common_loop_result [OF C(2,1) s(2), unfolded len] \<open>0 < length C\<close>]
      assms(4) at(2) slice by simp
qed

lemma longest_common_root:
  assumes "t \<noteq> []" and "hd t \<noteq> CHR ''/''" and "length t + 1 < 2 ^ 64"
  shows "longest_common_path_generic Posix [''/'', CHR ''/'' # t] = Some ''/''"
    "longest_common_path_generic Posix [CHR ''/'' # t, ''/''] = Some ''/''"
proof -
  have C: "''/'' = [] @ CHR ''/'' # [] @ []" "CHR ''/'' # t = [] @ CHR ''/'' # [] @ t"
    by simp_all
  have t: "t ! 0 \<noteq> CHR ''/''"
    using assms by (simp add: hd_conv_nth)
  show "longest_common_path_generic Posix [''/'', CHR ''/'' # t] = Some ''/''"
    using longest_common_two [OF common_loop_result [OF C]] assms t
    by (auto simp: slice_range_def subslice_def is_sep_posix_def)
  show "longest_common_path_generic Posix [CHR ''/'' # t, ''/''] = Some ''/''"
    using longest_common_two [OF common_loop_result [OF C(2,1)]] assms t
    by (auto simp: slice_range_def subslice_def is_sep_posix_def)
qed

lemma dir_names_parts:
  "dir_names segs \<Longrightarrow> s \<in> set segs \<Longrightarrow> CHR ''/'' \<notin> set s \<and> s \<noteq> [] \<and> last s \<noteq> CHR ''/''"
  using named_no_slash by (simp add: dir_names_def)

text \<open>The paths as text below the directory they share.\<close>

lemma abs_path_split: "abs_path (cs @ segs) = seg_text cs @ (if cs = [] \<and> segs = [] then ''/'' else seg_text segs)"
  by (simp add: abs_path_def)

lemma longest_common_dirs:
  assumes "dir_names (cs @ f)" and "dir_names (cs @ t)" and "f \<noteq> t" and "f = [] \<or> t = [] \<or> hd f \<noteq> hd t"
  shows "longest_common_path_generic Posix [abs_path (cs @ f), abs_path (cs @ t)] = Some (seg_text cs @ ''/'')"
proof -
  note names = dir_names_parts [OF assms(1)] dir_names_parts [OF assms(2)]
  have len: "length (abs_path (cs @ f)) < 2 ^ 64" "length (abs_path (cs @ t)) < 2 ^ 64"
    using assms(1,2) by (simp_all add: dir_names_def)
  have root: "s \<noteq> [] \<and> hd (s @ rest) \<noteq> CHR ''/''" if "CHR ''/'' \<notin> set s \<and> s \<noteq> [] \<and> last s \<noteq> CHR ''/''" for s rest
    using that by (cases s) auto
  show ?thesis
  proof (cases f)
    case f: Nil
    then obtain b t' where t: "t = b # t'"
      using assms(3) by (cases t) auto
    show ?thesis
    proof (cases cs rule: rev_cases)
      case Nil
      then show ?thesis
        using f t len(2) root [of b "seg_text t'"] names(2) longest_common_root(1) [of "b @ seg_text t'"]
        by (simp add: abs_path_def)
    next
      case (snoc ds s)
      then show ?thesis
        using f t len(2) names longest_common_prefix_dir(1) [of "seg_text cs" "seg_text ds" s "b @ seg_text t'"]
        by (simp add: abs_path_def)
    qed
  next
    case f: (Cons a f')
    show ?thesis
    proof (cases t)
      case t: Nil
      show ?thesis
      proof (cases cs rule: rev_cases)
        case Nil
        then show ?thesis
          using f t len(1) root [of a "seg_text f'"] names(1) longest_common_root(2) [of "a @ seg_text f'"]
          by (simp add: abs_path_def)
      next
        case (snoc ds s)
        then show ?thesis
          using f t len(1) names longest_common_prefix_dir(2) [of "seg_text cs" "seg_text ds" s "a @ seg_text f'"]
          by (simp add: abs_path_def)
      qed
    next
      case t: (Cons b t')
      have "a \<noteq> b" "CHR ''/'' \<notin> set a" "CHR ''/'' \<notin> set b"
        using assms(4) f t names by auto
      then show ?thesis
        using len f t hd_seg_text longest_common_branches [of "abs_path (cs @ f)" "seg_text cs" a "seg_text f'"
            "abs_path (cs @ t)" b "seg_text t'"]
        by (simp add: abs_path_def)
    qed
  qed
qed

section \<open>The relative path between two directories\<close>

definition ups :: "nat \<Rightarrow> bytes" where
  "ups n = render (CHR ''/'') (replicate n dotdot)"

lemma ups_Suc: "ups (Suc n) = ups n @ (if n = 0 then dotdot else CHR ''/'' # dotdot)"
  by (cases n) (auto simp: ups_def render_Cons)

lemma ups_0 [simp]: "ups 0 = []"
  by (simp add: ups_def)

lemma length_ups: "length (ups n) = 3 * n - 1"
  by (induction n) (auto simp: ups_Suc)

lemma up_loop_skip:
  assumes "i \<le> j" and "\<forall>x. i \<le> x \<and> x < j \<longrightarrow> x < length from_path \<and> from_path ! x \<noteq> sep"
  shows "up_loop sep from_path i buf n = up_loop sep from_path j buf n"
  using assms
proof (induction "j - i" arbitrary: i)
  case (Suc k)
  then have i: "i < length from_path" "from_path ! i \<noteq> sep"
    by auto
  have "up_loop sep from_path i buf n = up_loop sep from_path (i + 1) buf n"
    using i by (subst up_loop.simps) simp
  also have "\<dots> = up_loop sep from_path j buf n"
    using Suc by simp
  finally show ?case .
qed simp

lemma up_loop_write:
  assumes "i = length from_path \<or> i + 1 < length from_path \<and> from_path ! i = CHR ''/''"
    and "take n buf = ups k" and "n = length (ups k)" and "length (ups (Suc k)) \<le> length buf"
  shows "\<exists>b. up_loop (CHR ''/'') from_path i buf n = up_loop (CHR ''/'') from_path (i + 1) b (length (ups (Suc k)))
    \<and> length b = length buf \<and> take (length (ups (Suc k))) b = ups (Suc k)"
proof -
  let ?up = "if n = 0 then dotdot else CHR ''/'' # dotdot"
  have n0: "n = 0 \<longleftrightarrow> k = 0"
    using assms(3) length_ups [of k] by auto
  have up: "ups (Suc k) = ups k @ ?up" "length (ups (Suc k)) = n + length ?up"
    using n0 assms(3) by (auto simp: ups_Suc)
  obtain b where b: "buf_copy buf n ?up = Some b" "length b = length buf" "take (n + length ?up) b = ups k @ ?up"
    using buf_copy_append [OF assms(2), of ?up] assms(4) up(2) by auto
  moreover have "up_loop (CHR ''/'') from_path i buf n = up_loop (CHR ''/'') from_path (i + 1) b (n + length ?up)"
    using assms(1) b(1) by (subst up_loop.simps) (auto simp: Let_def)
  ultimately show ?thesis
    using up by metis
qed

lemma up_loop_spec:
  assumes "from_path = A @ u @ seg_text rest" and "CHR ''/'' \<notin> set u" and "\<forall>s\<in>set rest. s \<noteq> [] \<and> CHR ''/'' \<notin> set s"
    and "take n buf = ups k" and "n = length (ups k)" and "length (ups (k + 1 + length rest)) \<le> length buf"
  shows "\<exists>b. up_loop (CHR ''/'') from_path (length A) buf n = Some (b, length (ups (k + 1 + length rest)))
    \<and> length b = length buf \<and> take (length (ups (k + 1 + length rest))) b = ups (k + 1 + length rest)"
  using assms
proof (induction rest arbitrary: A u n buf k)
  case Nil
  let ?j = "length (A @ u)"
  have skip: "up_loop (CHR ''/'') from_path (length A) buf n = up_loop (CHR ''/'') from_path ?j buf n"
    using Nil.prems(1,2) by (intro up_loop_skip) (auto simp: nth_append in_set_conv_nth)
  have j: "?j = length from_path"
    using Nil.prems(1) by simp
  obtain b where b: "up_loop (CHR ''/'') from_path ?j buf n = up_loop (CHR ''/'') from_path (?j + 1) b (length (ups (Suc k)))"
    "length b = length buf" "take (length (ups (Suc k))) b = ups (Suc k)"
    using up_loop_write [of ?j from_path n buf k] j Nil.prems(4-6) by auto
  have "up_loop (CHR ''/'') from_path (?j + 1) b (length (ups (Suc k))) = Some (b, length (ups (Suc k)))"
    using j by (subst up_loop.simps) simp
  then show ?case
    using skip b by simp
next
  case (Cons s rest)
  let ?j = "length (A @ u)"
  have skip: "up_loop (CHR ''/'') from_path (length A) buf n = up_loop (CHR ''/'') from_path ?j buf n"
    using Cons.prems(1,2) by (intro up_loop_skip) (auto simp: nth_append in_set_conv_nth)
  have j: "?j + 1 < length from_path" "from_path ! ?j = CHR ''/''"
    using Cons.prems(1,3) by (auto simp: nth_append)
  have room: "length (ups (Suc k)) \<le> length buf"
    using Cons.prems(6) by (simp add: length_ups)
  obtain b where b: "up_loop (CHR ''/'') from_path ?j buf n = up_loop (CHR ''/'') from_path (?j + 1) b (length (ups (Suc k)))"
    "length b = length buf" "take (length (ups (Suc k))) b = ups (Suc k)"
    using up_loop_write [of ?j from_path n buf k] j Cons.prems(4,5) room by auto
  have from': "from_path = (A @ u @ ''/'') @ s @ seg_text rest"
    using Cons.prems(1) by simp
  have "length (ups (Suc k + 1 + length rest)) \<le> length b"
    using Cons.prems(6) b(2) by simp
  from Cons.IH [OF from' _ _ b(3) refl this] show ?case
    using skip b(1,2) Cons.prems(3) by simp
qed

text \<open>Up from the names that only the first path has, then down the names that only the second has.\<close>

definition relative_names :: "bytes list \<Rightarrow> bytes list \<Rightarrow> bytes" where
  "relative_names f t = (if f = [] then tl (seg_text t) else ups (length f) @ seg_text t)"

lemma last_seg_text: "segs \<noteq> [] \<Longrightarrow> last segs \<noteq> [] \<Longrightarrow> last (seg_text segs) = last (last segs)"
  by (induction segs rule: rev_induct) auto

lemma last_ups: "last (ups (Suc n)) = CHR ''.''"
  by (simp add: ups_Suc)

lemma last_relative_names:
  assumes "\<forall>s\<in>set t. CHR ''/'' \<notin> set s \<and> s \<noteq> [] \<and> last s \<noteq> CHR ''/''" and "relative_names f t \<noteq> []"
  shows "last (relative_names f t) \<noteq> CHR ''/''"
proof (cases "t = []")
  case True
  then show ?thesis
    using assms(2) last_ups [of "length f - 1"] by (cases f) (auto simp: relative_names_def)
next
  case False
  have "last t \<in> set t"
    using False by simp
  then have "last (seg_text t) \<noteq> CHR ''/''"
    using assms(1) False last_seg_text by metis
  then show ?thesis
    using assms(2) False by (auto simp: relative_names_def last_tl)
qed

lemma up_loop_dirs:
  assumes "from_path = abs_path (cs @ f)" and "\<forall>s\<in>set f. CHR ''/'' \<notin> set s \<and> s \<noteq> [] \<and> last s \<noteq> CHR ''/''"
    and "length (ups (length f)) \<le> length buf"
  shows "\<exists>b. up_loop (CHR ''/'') from_path (length (seg_text cs) + 2) buf 0 = Some (b, length (ups (length f)))
    \<and> length b = length buf \<and> take (length (ups (length f))) b = ups (length f)"
proof (cases f)
  case Nil
  then have "length from_path < length (seg_text cs) + 2"
    using assms(1) by (auto simp: abs_path_def)
  then show ?thesis
    using Nil by (subst up_loop.simps) simp
next
  case (Cons s f')
  then obtain c a where s: "s = c # a"
    using assms(2) by (cases s) auto
  have "from_path = (seg_text cs @ [CHR ''/'', c]) @ a @ seg_text f'"
    using assms(1) Cons s by (simp add: abs_path_def)
  from up_loop_spec [OF this, of 0 buf 0] show ?thesis
    using assms(2,3) Cons s by simp
qed

lemma rposition_snoc: "p c \<Longrightarrow> rposition p (xs @ [c]) = Some (length xs)"
  by (simp add: rposition_def nth_append)

lemma take_last_ne:
  assumes "take n b = r" and "n = length r" and "last r \<noteq> c" and "0 < n" and "n \<le> length b"
  shows "b ! (n - 1) \<noteq> c"
  using assms last_take [of n b] by auto

lemma abs_path_hd: "abs_path segs \<noteq> []" "abs_path segs ! 0 = CHR ''/''"
  by (cases segs; simp add: abs_path_def)+

lemma relative_general_dirs:
  assumes f: "f_path = abs_path (cs @ f)" and t: "t_path = abs_path (cs @ t)"
    and names: "\<forall>s\<in>set (cs @ f @ t). CHR ''/'' \<notin> set s \<and> s \<noteq> [] \<and> last s \<noteq> CHR ''/''"
    and "length (relative_names f t) \<le> length buf"
  shows "\<exists>b. relative_general Posix (seg_text cs @ ''/'') f_path t_path buf = Some (b, relative_names f t)"
proof -
  let ?C = "seg_text cs" and ?r = "relative_names f t" and ?u = "ups (length f)"
  have ups_le: "length ?u \<le> length ?r"
    by (cases f) (auto simp: relative_names_def)
  have "length ?u \<le> length buf"
    using ups_le assms(4) by linarith
  then obtain b where b: "up_loop (CHR ''/'') f_path (length ?C + 2) buf 0 = Some (b, length ?u)"
    "length b = length buf" "take (length ?u) b = ?u"
    using up_loop_dirs [OF f, of buf] names by auto
  have from_path: "f_path \<noteq> []" "f_path ! 0 = CHR ''/''"
    using f abs_path_hd by simp_all
  have tail: "length ?C + 1 < length t_path \<longleftrightarrow> t \<noteq> []" "t \<noteq> [] \<Longrightarrow> drop (length ?C) t_path = seg_text t"
    using t names by (cases t; auto simp: abs_path_def)+
  have strip: "length ?C = length f_path \<or> length ?C = length f_path - 1 \<longleftrightarrow> f = []"
    using f names by (cases f) (auto simp: abs_path_def)
  let ?tail = "if f = [] then tl (seg_text t) else seg_text t"
  have r: "?r = ?u @ ?tail"
    by (simp add: relative_names_def)
  obtain b' where b': "buf_copy b (length ?u) ?tail = Some b'" "length b' = length buf" "take (length ?r) b' = ?r"
    using buf_copy_append [OF b(3), of ?tail] assms(4) b(2) r by (auto simp: length_append)
  have no_slash: "tl (seg_text t) ! 0 \<noteq> CHR ''/''" if "t \<noteq> []"
  proof -
    obtain s ss where ss: "t = s # ss" "s \<noteq> []" "CHR ''/'' \<notin> set s"
      using \<open>t \<noteq> []\<close> names by (cases t) auto
    then have "s ! 0 \<in> set s"
      by simp
    then have "s ! 0 \<noteq> CHR ''/''"
      using ss(3) by metis
    then show ?thesis
      using ss by (simp add: nth_append)
  qed
  have tail_result: "\<exists>b''. relative_tail Posix (length ?C) f_path t_path b (length ?u) = Some (b'', length ?r)
    \<and> length b'' = length buf \<and> take (length ?r) b'' = ?r"
  proof (cases "t = []")
    case True
    then show ?thesis
      using tail(1) b(2,3) r by (simp add: relative_tail_def)
  next
    case False
    have lead: "buf_copy b (length ?u) [] = Some b"
      using ups_le assms(4) b(2) by (intro buf_copy_Nil) simp
    have at: "seg_text t ! 0 = CHR ''/''"
      using False by (cases t) auto
    show ?thesis
    proof (cases "f = []")
      case True
      then show ?thesis
        using False tail strip from_path(1) at lead b' r no_slash
        by (simp add: relative_tail_def is_sep_posix_def Let_def)
    next
      case f_ne: False
      then show ?thesis
        using False tail strip from_path(1) at lead b' r
        by (simp add: relative_tail_def is_sep_posix_def Let_def)
    qed
  qed
  then obtain b'' where b'': "relative_tail Posix (length ?C) f_path t_path b (length ?u) = Some (b'', length ?r)"
    "length b'' = length buf" "take (length ?r) b'' = ?r"
    by blast
  have keep: "\<not> (3 < length ?r \<and> b'' ! (length ?r - 1) = CHR ''/'')"
    using take_last_ne [OF b''(3) refl last_relative_names] names assms(4) b''(2) by fastforce
  have "rposition (\<lambda>c. c = CHR ''/'') (?C @ ''/'') = Some (length ?C)"
    by (rule rposition_snoc) simp
  then show ?thesis
    unfolding relative_general_def
    using from_path b(1) b''(1,3) keep by (auto simp: SEP_POSIX_def is_sep_posix_def)
qed

lemma relative_to_common_dirs:
  assumes f: "f_path = abs_path (cs @ f)" and t: "t_path = abs_path (cs @ t)"
    and names: "\<forall>s\<in>set (cs @ f @ t). CHR ''/'' \<notin> set s \<and> s \<noteq> [] \<and> last s \<noteq> CHR ''/''"
    and room: "length (relative_names f t) \<le> length buf"
  shows "\<exists>b. relative_to_common_path ac Posix (seg_text cs @ ''/'') f_path t_path buf = Some (b, relative_names f t)"
proof -
  let ?C = "seg_text cs"
  have common: "is_absolute_posix (?C @ ''/'')" "length (drop 1 (?C @ ''/'')) = length ?C"
    "drop 1 (?C @ ''/'') = [] \<longleftrightarrow> cs = []"
    by (cases cs; simp add: is_absolute_posix_def)+
  have f_len: "0 < length f_path" "length f_path = length ?C \<Longrightarrow> f = [] \<and> cs \<noteq> []"
    using f names by (cases f; auto simp: abs_path_def split: if_splits)+
  have t_len: "0 < length t_path"
    using t abs_path_hd by simp
  have not_root: "\<not> (min (length f_path) (length t_path) = length ?C \<and> cs = [])"
    using f_len(1) t_len by (auto simp: min_def split: if_splits)
  have not_base: "\<not> (min (length f_path) (length t_path) = length ?C \<and> length f_path \<le> length t_path
      \<and> t_path ! (length ?C - 1) = CHR ''/'')"
  proof
    assume *: "min (length f_path) (length t_path) = length ?C \<and> length f_path \<le> length t_path
      \<and> t_path ! (length ?C - 1) = CHR ''/''"
    then have "cs \<noteq> []"
      using f_len(2) by auto
    then have "?C \<noteq> []" "last ?C = last (last cs)" "last cs \<in> set cs"
      using last_seg_text [of cs] names by auto
    moreover have "last ?C = ?C ! (length ?C - 1)"
      using \<open>?C \<noteq> []\<close> by (rule last_conv_nth)
    moreover have "t_path ! (length ?C - 1) = ?C ! (length ?C - 1)"
      using t \<open>cs \<noteq> []\<close> \<open>?C \<noteq> []\<close> by (simp add: abs_path_def nth_append)
    ultimately show False
      using * names by (metis Un_iff set_append)
  qed
  show ?thesis
  proof -
    define cp where "cp = drop 1 (?C @ ''/'')"
    have cp: "length cp = length ?C" "cp = [] \<longleftrightarrow> cs = []"
      using common(2,3) by (simp_all only: cp_def)
    have "relative_to_common_path ac Posix (?C @ ''/'') f_path t_path buf =
        relative_general Posix (?C @ ''/'') f_path t_path buf"
      unfolding relative_to_common_path_def cp_def [symmetric]
      using common(1) cp not_root not_base by (auto simp: Let_def SEP_POSIX_def)
    then show ?thesis
      using relative_general_dirs [OF assms] by simp
  qed
qed

text \<open>Absolute paths and stacks of names.\<close>

lemma abs_path_render: "abs_path segs = CHR ''/'' # render (CHR ''/'') (rev segs)"
proof (induction segs rule: rev_induct)
  case (snoc s segs)
  then show ?case
    by (cases "segs = []") (auto simp: abs_path_def render_Cons)
qed (simp add: abs_path_def)

lemma resolve_abs_path:
  assumes "\<forall>s\<in>set segs. named is_sep_any s"
  shows "resolve_segs climb is_sep_any [] (abs_path segs) = rev segs"
proof -
  have "resolved climb is_sep_any (rev segs)"
    using assms by (intro resolved_names) auto
  then show ?thesis
    unfolding abs_path_render using resolve_segs_render [of climb is_sep_any "rev segs" "CHR ''/''"]
    by (simp add: resolve_segs_sep)
qed

lemma abs_path_inject: "dir_names xs \<Longrightarrow> dir_names ys \<Longrightarrow> abs_path xs = abs_path ys \<longleftrightarrow> xs = ys"
  using resolve_abs_path [of xs False] resolve_abs_path [of ys False] unfolding dir_names_def
  by (metis rev_rev_ident)

lemma relative_normalized_dirs:
  assumes "dir_names (cs @ f)" and "dir_names (cs @ t)" and "f = [] \<or> t = [] \<or> hd f \<noteq> hd t"
    and "length (relative_names f t) \<le> length buf"
  shows "\<exists>b. relative_normalized_buf ac Posix buf (abs_path (cs @ f)) (abs_path (cs @ t)) = Some (b, relative_names f t)"
proof (cases "f = t")
  case True
  then have "f = []" "t = []"
    using assms(3) by auto
  then show ?thesis
    by (simp add: relative_normalized_buf_def relative_names_def)
next
  case False
  then have "abs_path (cs @ f) \<noteq> abs_path (cs @ t)"
    using abs_path_inject [OF assms(1,2)] by simp
  moreover have "\<forall>s\<in>set (cs @ f @ t). CHR ''/'' \<notin> set s \<and> s \<noteq> [] \<and> last s \<noteq> CHR ''/''"
    using dir_names_parts [OF assms(1)] dir_names_parts [OF assms(2)] by auto
  ultimately show ?thesis
    using longest_common_dirs [OF assms(1,2) False assms(3)]
      relative_to_common_dirs [OF refl refl _ assms(4), of cs ac]
    by (simp add: relative_normalized_buf_def)
qed

lemma resolve_segs_names:
  assumes "\<forall>s\<in>set segs. s \<noteq> [] \<and> (\<forall>c\<in>set s. \<not> p c)" and "p sep"
  shows "resolve_segs climb p st (render sep (rev segs)) = foldl (resolve_step climb) st segs"
  using assms(1)
proof (induction segs rule: rev_induct)
  case (snoc s segs)
  have one: "resolve_segs climb p st' s = resolve_step climb st' s" for st'
    using resolve_segs_segment [of s p "[]" climb st'] snoc.prems by simp
  show ?case
    using snoc one assms(2) by (cases "segs = []") (auto simp: render_Cons resolve_segs_append_sep)
qed simp

lemma render_append: "ts \<noteq> [] \<Longrightarrow> render sep (rev t @ ts) = render sep ts @ concat (map (Cons sep) t)"
  by (induction t rule: rev_induct) (auto simp: render_Cons)

lemma relative_names_render: "relative_names f t = render (CHR ''/'') (rev (replicate (length f) dotdot @ t))"
proof (cases "f = []")
  case True
  then show ?thesis
    using abs_path_render [of t] by (cases "t = []") (auto simp: relative_names_def abs_path_def)
next
  case False
  then show ?thesis
    using render_append [of "replicate (length f) dotdot" "CHR ''/''" t]
    by (simp add: relative_names_def ups_def seg_text_def)
qed

lemma pop_names:
  "\<forall>s\<in>set f. named p s \<Longrightarrow> foldl (resolve_step climb) (rev f @ st) (replicate (length f) dotdot) = st"
proof (induction f arbitrary: st rule: rev_induct)
  case (snoc s f)
  have "resolve_step climb (s # rev f @ st) dotdot = rev f @ st"
    using snoc.prems by (simp add: resolve_step_def named_def)
  then show ?case
    using snoc by simp
qed simp

lemma push_names: "\<forall>s\<in>set t. named p s \<Longrightarrow> foldl (resolve_step climb) st t = rev t @ st"
proof (induction t arbitrary: st)
  case (Cons s t)
  then show ?case
    using resolve_step_named [of p s climb st] by simp
qed simp

lemma relative_names_resolve:
  assumes "\<forall>s\<in>set (cs @ f @ t). named p s" and sep: "p (CHR ''/'')" "\<not> p (CHR ''.'')"
  shows "resolve_segs False p (rev (cs @ f)) (relative_names f t) = rev (cs @ t)"
proof -
  have "\<forall>s\<in>set (replicate (length f) dotdot @ t). s \<noteq> [] \<and> (\<forall>c\<in>set s. \<not> p c)"
  proof
    fix s
    assume "s \<in> set (replicate (length f) dotdot @ t)"
    then have "s = dotdot \<or> named p s"
      using assms by (metis UnE UnI2 in_set_replicate set_append)
    then show "s \<noteq> [] \<and> (\<forall>c\<in>set s. \<not> p c)"
    proof
      assume "named p s"
      then show ?thesis by (simp add: named_def)
    qed (simp add: sep)
  qed
  then have "resolve_segs False p (rev (cs @ f)) (relative_names f t) =
      foldl (resolve_step False) (rev (cs @ f)) (replicate (length f) dotdot @ t)"
    unfolding relative_names_render using sep(1) by (rule resolve_segs_names)
  also have "\<dots> = rev t @ rev cs"
    using pop_names [of f p False "rev cs"] push_names [of t p False "rev cs"] assms(1) by simp
  finally show ?thesis
    by simp
qed

lemma relative_names_not_absolute:
  assumes "\<forall>s\<in>set t. CHR ''/'' \<notin> set s \<and> s \<noteq> []"
  shows "\<not> is_absolute_posix (relative_names f t)"
proof (cases f)
  case Nil
  show ?thesis
  proof (cases t)
    case (Cons s ss)
    then obtain c s' where "s = c # s'" "c \<noteq> CHR ''/''"
      using assms by (cases s) auto
    then show ?thesis
      using Nil Cons by (simp add: relative_names_def is_absolute_posix_def)
  qed (simp add: Nil relative_names_def is_absolute_posix_def)
next
  case (Cons s ss)
  have "ups (Suc n) \<noteq> [] \<and> ups (Suc n) ! 0 = CHR ''.''" for n
    by (induction n) (auto simp: ups_Suc nth_append)
  then show ?thesis
    using Cons by (simp add: relative_names_def is_absolute_posix_def nth_append)
qed

lemma dir_names_named: "dir_names segs \<Longrightarrow> s \<in> set segs \<Longrightarrow> named is_sep_any s"
  by (simp add: dir_names_def)

lemma resolve_relative_names:
  assumes "dir_names (cs @ f)" and "dir_names (cs @ t)"
  shows "last_absolute Posix (abs_path (cs @ f)) [relative_names f t] = (abs_path (cs @ f), [relative_names f t])"
    "resolve_path (abs_path (cs @ f)) [relative_names f t] = abs_path (cs @ t)"
proof -
  let ?r = "relative_names f t" and ?base = "abs_path (cs @ f)"
  have names: "\<forall>s\<in>set (cs @ f @ t). named is_sep_any s"
    using assms by (auto simp: dir_names_def)
  then have chars: "\<forall>s\<in>set (cs @ f @ t). CHR ''/'' \<notin> set s \<and> s \<noteq> [] \<and> last s \<noteq> CHR ''/''"
    using named_no_slash by blast
  have "\<not> is_absolute_posix ?r"
    using chars by (intro relative_names_not_absolute) auto
  then show base: "last_absolute Posix ?base [?r] = (?base, [?r])"
    by (simp add: last_absolute_def is_absolute_posix_def)
  have "resolve_segs False is_sep_any [] ?base = rev (cs @ f)"
    using names by (intro resolve_abs_path) auto
  then have st: "foldl (resolve_segs False is_sep_any) [] (?base # [?r]) = rev (cs @ t)"
    using relative_names_resolve [OF names is_sep_any_slash] by simp
  have "last (append_text (CHR ''/'') ?base [?r]) \<noteq> CHR ''/''" if "cs @ t \<noteq> []"
  proof (cases "?r = []")
    case False
    then show ?thesis
      using last_relative_names [of t f] chars by simp
  next
    case True
    then have "f = []" "t = []"
      using chars length_ups [of "length f"] by (cases f; cases t; auto simp: relative_names_def)+
    then have "last (seg_text cs) = last (last cs)" "last cs \<in> set cs" "cs \<noteq> []"
      using \<open>cs @ t \<noteq> []\<close> chars last_seg_text [of cs] by auto
    then show ?thesis
      using True chars \<open>f = []\<close> by (simp add: abs_path_def)
  qed
  then show "resolve_path ?base [?r] = abs_path (cs @ t)"
    unfolding resolve_path_def base abs_path_render [of "cs @ t"] by (auto simp: Let_def st simp del: append_text_simps foldl_Cons)
qed

section \<open>Properties\<close>

lemma longest_common_prefix_split:
  obtains cs f t where "fs = cs @ f" "ts = cs @ t" "longest_common_prefix fs ts = cs" "f = [] \<or> t = [] \<or> hd f \<noteq> hd t"
proof -
  have "\<exists>cs f t. fs = cs @ f \<and> ts = cs @ t \<and> longest_common_prefix fs ts = cs \<and> (f = [] \<or> t = [] \<or> hd f \<noteq> hd t)"
  proof (induction fs ts rule: longest_common_prefix.induct)
    case (1 x xs y ys)
    show ?case
    proof (cases "x = y")
      case True
      then obtain cs f t where "xs = cs @ f" "ys = cs @ t" "longest_common_prefix xs ys = cs" "f = [] \<or> t = [] \<or> hd f \<noteq> hd t"
        using "1.IH" by auto
      then show ?thesis
        using True by (intro exI [of _ "x # cs"] exI [of _ f] exI [of _ t]) simp
    next
      case False
      then show ?thesis
        by (intro exI [of _ "[]"] exI [of _ "x # xs"] exI [of _ "y # ys"]) simp
    qed
  qed auto
  then show thesis
    using that by blast
qed

text \<open>
  The relative path from one directory to another goes up once for every name below the directory
  that they share and then down to the target, and it fits every buffer that holds that text.
\<close>

theorem relative_between_directories:
  assumes "dir_names fs" and "dir_names ts" and "k = length (longest_common_prefix fs ts)"
    and "r = render (CHR ''/'') (rev (replicate (length fs - k) dotdot @ drop k ts))" and "length r \<le> length buf"
  shows "map_option snd (relative_normalized_buf always_copy Posix buf (abs_path fs) (abs_path ts)) = Some r"
proof -
  obtain cs f t where split: "fs = cs @ f" "ts = cs @ t" "longest_common_prefix fs ts = cs" "f = [] \<or> t = [] \<or> hd f \<noteq> hd t"
    by (rule longest_common_prefix_split)
  then have "r = relative_names f t"
    using assms(3,4) by (simp add: relative_names_render)
  then show ?thesis
    using relative_normalized_dirs [of cs f t buf always_copy] assms(1,2,5) split by auto
qed

theorem relative_between_directories_witness:
  "map_option snd (relative_normalized_buf True Posix (replicate 7 (CHR 0x00))
     (abs_path [''a'', ''b'']) (abs_path [''a'', ''c'', ''d''])) = Some ''../c/d''"
proof -
  have "dir_names [''a'', ''b'']" "dir_names [''a'', ''c'', ''d'']"
    by (simp_all add: dir_names_def named_def abs_path_def is_sep_any_def)
  from relative_between_directories [OF this refl refl, of "replicate 7 (CHR 0x00)" True] show ?thesis
    by simp
qed

text \<open>
  C27. Resolving the relative path from one directory to another against the first leads to the second,
  for directories without a backslash in their names (\<open>dir_names\<close>) and buffers with room for the answers.
  The restriction is needed: \<open>join_abs\<close> takes a backslash in the relative path for a separator.
\<close>

theorem relative_then_join_abs:
  assumes "dir_names fs" and "dir_names ts" and "length pool = MAX_PATH_BYTES"
    and "3 * length fs + length (abs_path ts) \<le> length buf"
    and "length (abs_path fs) + length buf + 3 \<le> length out"
  shows "\<exists>b r b'. relative_normalized_buf always_copy Posix buf (abs_path fs) (abs_path ts) = Some (b, r)
    \<and> join_abs_string_buf Posix pool (abs_path fs) out [r] = Some (b', abs_path ts)"
proof -
  obtain cs f t where split: "fs = cs @ f" "ts = cs @ t" "f = [] \<or> t = [] \<or> hd f \<noteq> hd t"
    by (rule longest_common_prefix_split)
  let ?r = "relative_names f t"
  have len: "length ?r \<le> length buf"
    using assms(4) split(1,2) length_ups [of "length f"] by (auto simp: relative_names_def abs_path_def split: if_splits)
  obtain b where "relative_normalized_buf always_copy Posix buf (abs_path fs) (abs_path ts) = Some (b, ?r)"
    using relative_normalized_dirs [of cs f t buf always_copy] assms(1,2) split len by auto
  moreover have "\<exists>b'. join_abs_string_buf Posix pool (abs_path fs) out [?r] = Some (b', abs_path ts)"
    using join_abs_string_buf_resolves [of "[?r]" pool "abs_path fs" "abs_path fs" "[?r]" out]
      resolve_relative_names [of cs f t] assms split(1,2) len abs_path_hd
    by (simp add: is_absolute_posix_def scratch_total_def)
  ultimately show ?thesis
    by blast
qed

theorem relative_then_join_abs_witness:
  "\<exists>b r b'. relative_normalized_buf True Posix (replicate 12 (CHR 0x00)) (abs_path [''a'', ''b'']) (abs_path [''a'', ''c'']) = Some (b, r)
    \<and> join_abs_string_buf Posix (replicate 4096 (CHR ''x'')) (abs_path [''a'', ''b'']) (replicate 20 (CHR 0x00)) [r]
      = Some (b', abs_path [''a'', ''c''])"
proof (rule relative_then_join_abs)
  show "dir_names [''a'', ''b'']" "dir_names [''a'', ''c'']"
    by (simp_all add: dir_names_def named_def abs_path_def is_sep_any_def)
qed (simp_all add: MAX_PATH_BYTES_def abs_path_def)

text \<open>
  C31. A path counts as being inside a directory when the directory's path occurs anywhere in it: behind a
  prefix of the same length, every absolute path is the parent of itself. The root is parent of nothing.
\<close>

theorem is_parent_or_equal_anywhere:
  assumes "is_absolute_posix parent" and "\<not> is_sep_any (last parent)" and "length q = length parent"
  shows "is_parent_or_equal parent (q @ parent) = Parent \<and> is_parent_or_equal ''/'' (q @ parent) = Unrelated"
proof -
  have parent: "parent \<noteq> []" "parent ! 0 = CHR ''/''"
    using assms(1) by (auto simp: is_absolute_posix_def)
  then have "rev (dropWhile is_sep_any (rev parent)) = parent"
    using assms(2) by (cases parent rule: rev_cases) auto
  moreover have "contains (q @ parent) parent"
    unfolding contains_def list_ex_iff using parent(1) by (auto intro!: bexI [of _ "length q"])
  ultimately show ?thesis
    using parent assms(3) by (auto simp: is_parent_or_equal_def nth_append contains_def Let_def)
qed

theorem is_parent_or_equal_anywhere_witness:
  "is_parent_or_equal ''/pkg'' ''/bin/pkg'' = Parent \<and> is_parent_or_equal ''/'' ''/bin/pkg'' = Unrelated"
  using is_parent_or_equal_anywhere [of "''/pkg''" "''/bin''"] by (simp add: is_absolute_posix_def is_sep_any_def)

lemma min_length_same:
  assumes "\<forall>s\<in>set input. length s = n" and "input \<noteq> []" and "n < 2 ^ 64"
  shows "min_length input = n"
proof -
  have "foldl (\<lambda>m s. min (length s) m) m input = (if input = [] then m else n)"
    if "\<forall>s\<in>set input. length s = n" "n \<le> m" for m and input :: "bytes list"
    using that by (induction input arbitrary: m) auto
  then show ?thesis
    using assms by (simp add: min_length_def)
qed

text \<open>
  With more than eight paths, only the bytes from the end of the first comparison on are compared:
  the last path is answered as what all of them have in common although none of the others is below it,
  where eight paths give the root.
\<close>

theorem longest_common_path_of_nine:
  "longest_common_path_generic Posix (''/a/b/c/'' # replicate 6 ''/a/b/c/'' @ [''/x/y/z/'']) = Some ''/''
   \<and> longest_common_path_generic Posix (''/a/b/c/'' # replicate 7 ''/a/b/c/'' @ [''/x/y/z/'']) = Some ''/x/y/z/''"
proof -
  have "min_length (''/a/b/c/'' # replicate k ''/a/b/c/'' @ [''/x/y/z/'']) = 7" for k
    by (rule min_length_same) auto
  moreover have "common_loop Posix (''/a/b/c/'' # replicate 6 ''/a/b/c/'' @ [''/x/y/z/'']) 7 0 0 = (1, 0)"
    by code_simp
  moreover have "separator_at Posix 1 (''/a/b/c/'' # replicate 6 ''/a/b/c/'' @ [''/x/y/z/'']) None = None"
    by code_simp
  moreover have "common_many Posix ''/a/b/c/'' 7 (replicate 7 ''/a/b/c/'' @ [''/x/y/z/'']) 0 0 = Some (6, 6)"
    by code_simp
  moreover have "separator_at Posix 6 (''/a/b/c/'' # replicate 7 ''/a/b/c/'' @ [''/x/y/z/'']) None = Some ''/x/y/z/''"
    by code_simp
  ultimately show ?thesis
    by (simp add: longest_common_path_generic_def Let_def slice_range_def subslice_def
        del: separator_at.simps)
qed

end
