(* ===== verification/Node_Path.thy ===== *)
theory Node_Path
  imports Path_Relative
begin

text \<open>
  The POSIX half of Node's \<open>path\<close> module (\<open>runtime/node/path.rs\<close>), on its byte instance: the functions
  that JavaScript programs call as \<open>path.posix\<close>, translated in the source from Node's own code. Buffers
  and panics are as in \<open>Path_Normalize\<close>; an index that Node keeps at -1 is \<open>None\<close>, as in the code. The
  current directory is a parameter.
\<close>

section \<open>Normalising\<close>

definition is_sep_t :: "platform \<Rightarrow> byte \<Rightarrow> bool" where
  "is_sep_t P = (if P = Posix then is_sep_posix else is_sep_any)"

record normalize_state =
  ns_buf :: bytes
  ns_size :: nat
  ns_last_len :: nat
  ns_slash :: "nat option"
  ns_dots :: "nat option"

definition ns_next :: "nat \<Rightarrow> normalize_state \<Rightarrow> normalize_state" where
  "ns_next i st = st\<lparr>ns_slash := Some i, ns_dots := Some 0\<rparr>"

text \<open>A \<open>..\<close> segment behind something that it removes.\<close>

definition ns_remove :: "byte \<Rightarrow> normalize_state \<Rightarrow> normalize_state" where
  "ns_remove separator st =
     (case rposition (\<lambda>c. c = separator) (take (ns_size st) (ns_buf st)) of
        None \<Rightarrow> st\<lparr>ns_size := 0, ns_last_len := 0\<rparr>
      | Some idx \<Rightarrow>
          st\<lparr>ns_size := idx,
             ns_last_len :=
               (case rposition (\<lambda>c. c = separator) (take idx (ns_buf st)) of
                  None \<Rightarrow> idx | Some sep \<Rightarrow> idx - 1 - sep)\<rparr>)"

definition ns_climb :: "byte \<Rightarrow> normalize_state \<Rightarrow> normalize_state option" where
  "ns_climb separator st =
     (let up = (if 0 < ns_size st then separator # dotdot else dotdot)
      in do {
        buf \<leftarrow> buf_copy (ns_buf st) (ns_size st) up;
        Some (st\<lparr>ns_buf := buf, ns_size := ns_size st + length up, ns_last_len := 2\<rparr>)
      })"

definition ns_append :: "byte \<Rightarrow> bytes \<Rightarrow> nat \<Rightarrow> normalize_state \<Rightarrow> normalize_state option" where
  "ns_append separator path i st =
     (let lead = (if 0 < ns_size st then [separator] else []);
          s = subslice path (case ns_slash st of None \<Rightarrow> 0 | Some ls \<Rightarrow> ls + 1) i
      in do {
        buf \<leftarrow> buf_copy (ns_buf st) (ns_size st) lead;
        buf \<leftarrow> buf_copy buf (ns_size st + length lead) s;
        Some (st\<lparr>ns_buf := buf, ns_size := ns_size st + length lead + length s,
                 ns_last_len := i - (case ns_slash st of None \<Rightarrow> 2 | Some ls \<Rightarrow> ls + 1)\<rparr>)
      })"

text \<open>What happens at a separator, or at the end, at index \<open>i\<close>.\<close>

definition ns_segment ::
  "bool \<Rightarrow> byte \<Rightarrow> bytes \<Rightarrow> nat \<Rightarrow> normalize_state \<Rightarrow> normalize_state option" where
  "ns_segment allow_above_root separator path i st =
     (if ns_slash st = (if i = 0 then None else Some (i - 1)) \<or> ns_dots st = Some 1 then Some (ns_next i st)
      else if ns_dots st = Some 2 then
        let size = ns_size st; buf = ns_buf st;
            removable =
              (size < 2 \<or> ns_last_len st \<noteq> 2 \<or> buf ! (size - 1) \<noteq> CHR ''.'' \<or> buf ! (size - 2) \<noteq> CHR ''.'')
        in if removable \<and> 2 < size then Some (ns_next i (ns_remove separator st))
           else if removable \<and> size \<noteq> 0 then Some (ns_next i (st\<lparr>ns_size := 0, ns_last_len := 0\<rparr>))
           else if allow_above_root then map_option (ns_next i) (ns_climb separator st)
           else Some (ns_next i st)
      else map_option (ns_next i) (ns_append separator path i st))"

function ns_loop ::
  "platform \<Rightarrow> bool \<Rightarrow> byte \<Rightarrow> bytes \<Rightarrow> nat \<Rightarrow> normalize_state \<Rightarrow> normalize_state option" where
  "ns_loop P allow_above_root separator path i st =
     (if i < length path then
        if is_sep_t P (path ! i) then
          ns_segment allow_above_root separator path i st \<bind>
            (\<lambda>st. ns_loop P allow_above_root separator path (i + 1) st)
        else if path ! i = CHR ''.'' \<and> ns_dots st \<noteq> None then
          ns_loop P allow_above_root separator path (i + 1) (st\<lparr>ns_dots := map_option Suc (ns_dots st)\<rparr>)
        else ns_loop P allow_above_root separator path (i + 1) (st\<lparr>ns_dots := None\<rparr>)
      else if path \<noteq> [] \<and> is_sep_t P (path ! (length path - 1)) then Some st
      else ns_segment allow_above_root separator path i st)"
  by pat_completeness auto
termination
  by (relation "measure (\<lambda>(P, a, s, path, i, st). length path - i)") auto

declare ns_loop.simps [simp del]

definition node_normalize_string ::
  "platform \<Rightarrow> bytes \<Rightarrow> bool \<Rightarrow> byte \<Rightarrow> bytes \<Rightarrow> (bytes \<times> nat) option" where
  "node_normalize_string P path allow_above_root separator buf =
     do {
       st \<leftarrow> ns_loop P allow_above_root separator path 0
         \<lparr>ns_buf = buf, ns_size = 0, ns_last_len = 0, ns_slash = None, ns_dots = Some 0\<rparr>;
       buf \<leftarrow> buf_set (ns_buf st) (ns_size st) (CHR 0x00);
       Some (buf, ns_size st)
     }"

definition normalize_posix :: "bytes \<Rightarrow> bytes \<Rightarrow> bytes option" where
  "normalize_posix path buf =
     (if path = [] then Some ''.''
      else do {
        let is_absolute = (path ! 0 = CHR ''/'');
        let trailing_separator = (path ! (length path - 1) = CHR ''/'');
        (buf, buf_size) \<leftarrow> node_normalize_string Posix path (\<not> is_absolute) (CHR ''/'') buf;
        if buf_size = 0 then
          Some (if is_absolute then ''/'' else if trailing_separator then ''./'' else ''.'')
        else do {
          (buf, buf_size) \<leftarrow>
            (if trailing_separator then do {
               buf \<leftarrow> buf_set buf buf_size (CHR ''/'');
               buf \<leftarrow> buf_set buf (buf_size + 1) (CHR 0x00);
               Some (buf, buf_size + 1)
             } else Some (buf, buf_size));
          (buf, buf_size) \<leftarrow>
            (if is_absolute then do {
               buf \<leftarrow> buf_copy buf 1 (take buf_size buf);
               buf \<leftarrow> buf_set buf 0 (CHR ''/'');
               buf \<leftarrow> buf_set buf (buf_size + 1) (CHR 0x00);
               Some (buf, buf_size + 1)
             } else Some (buf, buf_size));
          Some (take buf_size buf)
        }
      })"

text \<open>
  The JavaScript entry point takes its buffer from a pool, which answers the given number of bytes with
  whatever content (\<open>PathScratch\<close>).
\<close>

definition pool_ok :: "(nat \<Rightarrow> bytes) \<Rightarrow> bool" where
  "pool_ok pool \<longleftrightarrow> (\<forall>n. length (pool n) = n)"

definition normalize_js :: "(nat \<Rightarrow> bytes) \<Rightarrow> bytes \<Rightarrow> bytes option" where
  "normalize_js pool path =
     (let buf_len = max (length path) MAX_PATH_BYTES
      in normalize_posix path (pool (buf_len + 1)))"

definition node_is_absolute_posix :: "bytes \<Rightarrow> bool" where
  "node_is_absolute_posix path \<longleftrightarrow> path \<noteq> [] \<and> path ! 0 = CHR ''/''"

section \<open>The loop builds the normalised segments\<close>

definition dots_after :: "nat option \<Rightarrow> bytes \<Rightarrow> nat option" where
  "dots_after = foldl (\<lambda>d c. if c = CHR ''.'' then map_option Suc d else None)"

lemma dots_after_simps [simp]:
  "dots_after d [] = d"
  "dots_after d (c # u) = dots_after (if c = CHR ''.'' then map_option Suc d else None) u"
  by (simp_all add: dots_after_def)

lemma dots_after_None [simp]: "dots_after None u = None"
  by (induction u) auto

lemma dots_after_Some: "dots_after (Some k) u = Some n \<longleftrightarrow> k \<le> n \<and> u = replicate (n - k) (CHR ''.'')"
proof (induction u arbitrary: k)
  case Nil
  then show ?case by auto
next
  case (Cons c u)
  show ?case
  proof (cases "c = CHR ''.''")
    case True
    then show ?thesis
      using Cons.IH [of "Suc k"] by (cases "n - k") auto
  next
    case False
    then show ?thesis
      by (cases "n - k") auto
  qed
qed

lemma dots_after_cases:
  "dots_after (Some 0) u = Some 1 \<longleftrightarrow> u = dot" "dots_after (Some 0) u = Some 2 \<longleftrightarrow> u = dotdot"
  by (simp_all add: dots_after_Some numeral_2_eq_2)

lemma ns_loop_scan:
  assumes "drop a path = u @ rest" and "CHR ''/'' \<notin> set u" and "ns_dots st = d"
  shows "ns_loop Posix allow sep path a st = ns_loop Posix allow sep path (a + length u) (st\<lparr>ns_dots := dots_after d u\<rparr>)"
  using assms
proof (induction u arbitrary: a st d)
  case Nil
  then have "st\<lparr>ns_dots := d\<rparr> = st"
    by (cases st) simp
  then show ?case by simp
next
  case (Cons c u)
  then have a: "a < length path" "path ! a = c" "drop (Suc a) path = u @ rest"
    using arg_cong [of "drop a path" _ tl]
    by (simp_all add: nth_via_drop tl_drop [symmetric] drop_Suc) (metis drop_eq_Nil list.distinct(1) not_le)
  have c: "c \<noteq> CHR ''/''"
    using Cons.prems(2) by auto
  let ?st = "st\<lparr>ns_dots := if c = CHR ''.'' then map_option Suc d else None\<rparr>"
  have "ns_loop Posix allow sep path a st = ns_loop Posix allow sep path (Suc a) ?st"
    using a(1,2) c Cons.prems(3) by (subst ns_loop.simps) (auto simp: is_sep_t_def is_sep_posix_def)
  also have "\<dots> = ns_loop Posix allow sep path (Suc a + length u) (?st\<lparr>ns_dots := dots_after (ns_dots ?st) u\<rparr>)"
    using Cons.IH [OF a(3) _ refl, of ?st] Cons.prems(2) by simp
  finally show ?case
    by simp
qed

text \<open>The recorded length of the last segment is right, or it is that of the first segment less two.\<close>

definition short_of_two :: "bytes \<Rightarrow> bool" where
  "short_of_two s \<longleftrightarrow> length s = 4 \<and> drop 2 s = dotdot"

definition last_len_ok :: "bytes list \<Rightarrow> nat \<Rightarrow> bool" where
  "last_len_ok stack n \<longleftrightarrow>
     (stack \<noteq> [] \<longrightarrow> n = length (hd stack) \<or> hd stack \<noteq> dotdot \<and> \<not> short_of_two (hd stack) \<and> n = length (hd stack) - 2)"

definition ns_built :: "bool \<Rightarrow> bytes list \<Rightarrow> normalize_state \<Rightarrow> bool" where
  "ns_built allow stack st \<longleftrightarrow>
     resolved allow is_sep_posix stack \<and> ns_size st = length (render (CHR ''/'') stack)
     \<and> take (ns_size st) (ns_buf st) = render (CHR ''/'') stack
     \<and> ns_size st \<le> length (ns_buf st) \<and> last_len_ok stack (ns_last_len st)"

definition ns_inv :: "bool \<Rightarrow> bytes list \<Rightarrow> nat \<Rightarrow> normalize_state \<Rightarrow> bool" where
  "ns_inv allow stack a st \<longleftrightarrow>
     ns_built allow stack st \<and> ns_size st \<le> a - 1
     \<and> ns_slash st = (if a = 0 then None else Some (a - 1)) \<and> ns_dots st = Some 0"

lemma render_drop:
  assumes "stack \<noteq> []" and "k \<le> length (hd stack)"
  shows "drop (length (render sep stack) - k) (render sep stack) = drop (length (hd stack) - k) (hd stack)"
proof -
  have "render sep stack = (if tl stack = [] then [] else render sep (tl stack) @ [sep]) @ hd stack"
    using assms(1) by (cases stack) (simp_all add: render_Cons)
  then show ?thesis
    using assms(2) by simp
qed

lemma last_two: "2 \<le> n \<Longrightarrow> n \<le> length b \<Longrightarrow> drop (n - 2) (take n b) = [b ! (n - 2), b ! (n - 1)]"
proof -
  assume n: "2 \<le> n" "n \<le> length b"
  then obtain m where "n = Suc (Suc m)"
    by (metis Suc_le_D numeral_2_eq_2 Suc_le_mono)
  then show ?thesis
    using n by (simp add: take_Suc_conv_app_nth)
qed

lemma top_is_dotdot:
  assumes st: "resolved allow is_sep_posix stack" and size: "n = length (render (CHR ''/'') stack)"
    and buf: "take n buf = render (CHR ''/'') stack" and "n \<le> length buf" and last: "last_len_ok stack len"
  shows "n < 2 \<or> len \<noteq> 2 \<or> buf ! (n - 1) \<noteq> CHR ''.'' \<or> buf ! (n - 2) \<noteq> CHR ''.''
    \<longleftrightarrow> stack = [] \<or> hd stack \<noteq> dotdot"
proof (cases "stack = []")
  case True
  then show ?thesis
    using size by simp
next
  case False
  let ?s = "hd stack"
  have le: "length ?s \<le> n"
    using size False by (cases stack) (auto simp: render_Cons)
  have ends: "drop (n - 2) (take n buf) = drop (length ?s - 2) ?s" if "2 \<le> length ?s"
    using render_drop [OF False that, of "CHR ''/''"] by (simp only: buf flip: size)
  show ?thesis
  proof (cases "?s = dotdot")
    case True
    then have "2 \<le> n" "len = 2"
      using le last False by (simp_all add: last_len_ok_def)
    moreover from this have "buf ! (n - 1) = CHR ''.''" "buf ! (n - 2) = CHR ''.''"
      using ends True last_two [of n buf] assms(4) by simp_all
    ultimately show ?thesis
      using True False by simp
  next
    case no_dots: False
    have "\<not> (2 \<le> n \<and> len = 2 \<and> buf ! (n - 1) = CHR ''.'' \<and> buf ! (n - 2) = CHR ''.'')"
    proof
      assume *: "2 \<le> n \<and> len = 2 \<and> buf ! (n - 1) = CHR ''.'' \<and> buf ! (n - 2) = CHR ''.''"
      then have len: "length ?s = 2 \<or> length ?s = 4 \<and> \<not> short_of_two ?s"
        using last \<open>stack \<noteq> []\<close> by (auto simp: last_len_ok_def)
      then have "drop (length ?s - 2) ?s = dotdot"
        using * ends last_two [of n buf] assms(4) by fastforce
      then show False
        using len no_dots by (auto simp: short_of_two_def)
    qed
    then show ?thesis
      using False no_dots by linarith
  qed
qed

section \<open>One segment\<close>

lemma rposition_below_append: "n \<le> length xs \<Longrightarrow> rposition_below p (xs @ ys) n = rposition_below p xs n"
  by (induction n) (auto simp: nth_append)

lemma rposition_none: "\<forall>c\<in>set s. \<not> p c \<Longrightarrow> rposition p s = None"
proof (induction s rule: rev_induct)
  case (snoc c s)
  then show ?case
    using rposition_below_append [of "length s" s p "[c]"] by (simp add: rposition_def nth_append)
qed (simp add: rposition_def)

lemma rposition_last: "p sep \<Longrightarrow> \<forall>c\<in>set s. \<not> p c \<Longrightarrow> rposition p (xs @ sep # s) = Some (length xs)"
proof (induction s rule: rev_induct)
  case Nil
  then show ?case
    by (simp add: rposition_def nth_append)
next
  case (snoc c s)
  then show ?case
    using rposition_below_append [of "length (xs @ sep # s)" "xs @ sep # s" p "[c]"]
    by (simp add: rposition_def nth_append)
qed

lemma no_slash_segment: "resolved climb is_sep_posix st \<Longrightarrow> s \<in> set st \<Longrightarrow> s \<noteq> [] \<and> CHR ''/'' \<notin> set s"
  using resolved_segment [of climb is_sep_posix st s] by (auto simp: is_sep_posix_def)

lemma rposition_render:
  assumes "resolved climb is_sep_posix (s # ts)"
  shows "rposition (\<lambda>c. c = CHR ''/'') (render (CHR ''/'') (s # ts)) =
    (if ts = [] then None else Some (length (render (CHR ''/'') ts)))"
proof -
  have "\<forall>c\<in>set s. c \<noteq> CHR ''/''"
    using no_slash_segment [OF assms, of s] by auto
  then show ?thesis
    using rposition_none [of s "\<lambda>c. c = CHR ''/''"] rposition_last [of "\<lambda>c. c = CHR ''/''" "CHR ''/''" s]
    by (simp add: render_Cons)
qed

lemma ns_remove_top:
  assumes st: "resolved climb is_sep_posix (s # ts)" and ts: "resolved climb is_sep_posix ts"
    and size: "ns_size st = length (render (CHR ''/'') (s # ts))"
    and buf: "take (ns_size st) (ns_buf st) = render (CHR ''/'') (s # ts)"
  obtains len where "last_len_ok ts len"
    "ns_remove (CHR ''/'') st = st\<lparr>ns_size := length (render (CHR ''/'') ts), ns_last_len := len\<rparr>"
proof (cases ts)
  case Nil
  then show thesis
    using rposition_render [OF st] that [of 0] unfolding ns_remove_def buf by (simp add: last_len_ok_def)
next
  case (Cons t us)
  let ?idx = "length (render (CHR ''/'') ts)"
  have "take ?idx (render (CHR ''/'') (s # ts)) = render (CHR ''/'') ts"
    using Cons by (simp add: render_Cons)
  then have "take ?idx (take (ns_size st) (ns_buf st)) = render (CHR ''/'') ts"
    by (simp only: buf)
  moreover have "?idx \<le> ns_size st"
    using Cons by (simp add: size render_Cons)
  ultimately have idx: "take ?idx (ns_buf st) = render (CHR ''/'') ts"
    by (simp add: min_absorb1)
  show thesis
  proof (rule that)
    show "last_len_ok ts (length t)"
      using Cons by (simp add: last_len_ok_def)
    show "ns_remove (CHR ''/'') st = st\<lparr>ns_size := ?idx, ns_last_len := length t\<rparr>"
      using rposition_render [OF st] rposition_render [of climb t us] ts idx Cons
      unfolding ns_remove_def buf by (simp add: render_Cons)
  qed
qed

lemma ns_removable:
  assumes "ns_built allow stack st"
  shows "(ns_size st < 2 \<or> ns_last_len st \<noteq> 2 \<or> ns_buf st ! (ns_size st - 1) \<noteq> CHR ''.''
      \<or> ns_buf st ! (ns_size st - 2) \<noteq> CHR ''.'') \<longleftrightarrow> stack = [] \<or> hd stack \<noteq> dotdot"
  using assms unfolding ns_built_def by (elim conjE) (rule top_is_dotdot)

lemma ns_remove_built:
  assumes "ns_built allow (s # ts) st" and "resolved allow is_sep_posix ts"
  shows "ns_built allow ts (ns_remove (CHR ''/'') st) \<and> ns_size (ns_remove (CHR ''/'') st) \<le> ns_size st
    \<and> length (ns_buf (ns_remove (CHR ''/'') st)) = length (ns_buf st)"
proof -
  note b = assms(1) [unfolded ns_built_def]
  obtain len where len: "last_len_ok ts len"
    "ns_remove (CHR ''/'') st = st\<lparr>ns_size := length (render (CHR ''/'') ts), ns_last_len := len\<rparr>"
    using ns_remove_top [of allow s ts st] b assms(2) by blast
  have le: "length (render (CHR ''/'') ts) \<le> ns_size st"
    using b by (simp add: render_Cons)
  have buf: "take (ns_size st) (ns_buf st) = render (CHR ''/'') (s # ts)"
    using b by blast
  have "take (length (render (CHR ''/'') ts)) (render (CHR ''/'') (s # ts)) = render (CHR ''/'') ts"
    by (simp add: render_Cons)
  then have "take (length (render (CHR ''/'') ts)) (take (ns_size st) (ns_buf st)) = render (CHR ''/'') ts"
    by (simp only: buf)
  with le have "take (length (render (CHR ''/'') ts)) (ns_buf st) = render (CHR ''/'') ts"
    by (simp add: min_absorb1)
  with le show ?thesis
    using b assms(2) len by (simp add: ns_built_def)
qed

lemma ns_empty_built:
  assumes "ns_built allow stack st"
  shows "ns_built allow [] (st\<lparr>ns_size := 0, ns_last_len := 0\<rparr>)"
  using assms by (simp add: ns_built_def last_len_ok_def)

lemma ns_climb_built:
  assumes "ns_built allow stack st" and "resolved allow is_sep_posix (dotdot # stack)"
    and "n = length (if stack = [] then dotdot else CHR ''/'' # dotdot)" and "ns_size st + n \<le> length (ns_buf st)"
  shows "\<exists>st'. ns_climb (CHR ''/'') st = Some st' \<and> ns_built allow (dotdot # stack) st'
    \<and> ns_size st' = ns_size st + n \<and> length (ns_buf st') = length (ns_buf st)"
proof -
  note b = assms(1) [unfolded ns_built_def]
  have ne: "0 < ns_size st \<longleftrightarrow> stack \<noteq> []"
    using b render_resolved_Nil [of allow is_sep_posix stack "CHR ''/''"] by auto
  let ?up = "if 0 < ns_size st then CHR ''/'' # dotdot else dotdot"
  have n: "n = length ?up"
    using assms(3) ne by simp
  obtain b1 where b1: "buf_copy (ns_buf st) (ns_size st) ?up = Some b1" "length b1 = length (ns_buf st)"
    "take (ns_size st + length ?up) b1 = render (CHR ''/'') stack @ ?up"
    using buf_copy_append [of "ns_size st" "ns_buf st" "render (CHR ''/'') stack" ?up] b assms(4) n by auto
  show ?thesis
    using b1 b assms(2,4) n ne
    by (cases "stack = []") (auto simp: ns_climb_def ns_built_def last_len_ok_def render_Cons)
qed

lemma ns_append_built:
  assumes built: "ns_built allow stack st" and s: "named is_sep_posix s" "ns_slash st = None \<Longrightarrow> \<not> short_of_two s"
    and sub: "subslice path (case ns_slash st of None \<Rightarrow> 0 | Some ls \<Rightarrow> ls + 1) i = s"
    and len: "length s = i - (case ns_slash st of None \<Rightarrow> 0 | Some ls \<Rightarrow> ls + 1)"
    and n: "n = length (if stack = [] then s else CHR ''/'' # s)" and room: "ns_size st + n \<le> length (ns_buf st)"
  shows "\<exists>st'. ns_append (CHR ''/'') path i st = Some st' \<and> ns_built allow (s # stack) st'
    \<and> ns_size st' = ns_size st + n \<and> length (ns_buf st') = length (ns_buf st)"
proof -
  note b = built [unfolded ns_built_def]
  have ne: "0 < ns_size st \<longleftrightarrow> stack \<noteq> []"
    using b render_resolved_Nil [of allow is_sep_posix stack "CHR ''/''"] by auto
  let ?lead = "if 0 < ns_size st then [CHR ''/''] else []"
  have n': "n = length ?lead + length s"
    using n ne by simp
  obtain b1 where b1: "buf_copy (ns_buf st) (ns_size st) ?lead = Some b1" "length b1 = length (ns_buf st)"
    "take (ns_size st + length ?lead) b1 = render (CHR ''/'') stack @ ?lead"
    using buf_copy_append [of "ns_size st" "ns_buf st" "render (CHR ''/'') stack" ?lead] b room n' by auto
  obtain b2 where b2: "buf_copy b1 (ns_size st + length ?lead) s = Some b2" "length b2 = length b1"
    "take (ns_size st + length ?lead + length s) b2 = (render (CHR ''/'') stack @ ?lead) @ s"
    using buf_copy_append [OF b1(3), of s] b1(2) room n' by auto
  let ?len = "i - (case ns_slash st of None \<Rightarrow> 2 | Some ls \<Rightarrow> ls + 1)"
  let ?st' = "st\<lparr>ns_buf := b2, ns_size := ns_size st + length ?lead + length s, ns_last_len := ?len\<rparr>"
  have "last_len_ok (s # stack) ?len"
    using s len by (auto simp: last_len_ok_def split: option.splits)
  then have "ns_built allow (s # stack) ?st'"
    using b b1(2) b2 s(1) resolved_Cons [of is_sep_posix s allow stack] room n' ne
    by (cases "stack = []") (simp_all add: ns_built_def render_Cons)
  moreover have "ns_append (CHR ''/'') path i st = Some ?st'"
    using b1(1) b2(1) by (simp add: ns_append_def sub Let_def)
  ultimately show ?thesis
    using b1(2) b2(2) n' by simp
qed

lemma ns_built_next [simp]:
  "ns_built allow stack (ns_next i st) = ns_built allow stack st"
  "ns_built allow stack (st\<lparr>ns_dots := d\<rparr>) = ns_built allow stack st"
  by (simp_all add: ns_built_def ns_next_def)

lemma ns_next_sel [simp]:
  "ns_size (ns_next i st) = ns_size st" "ns_buf (ns_next i st) = ns_buf st"
  "ns_slash (ns_next i st) = Some i" "ns_dots (ns_next i st) = Some 0"
  by (simp_all add: ns_next_def)

lemma ns_segment_dotdot:
  assumes built: "ns_built allow stack st" and dots: "ns_dots st = Some 2"
    and slash: "ns_slash st \<noteq> (if i = 0 then None else Some (i - 1))"
    and n: "stack \<noteq> [] \<Longrightarrow> ns_size st + 3 \<le> i" and i: "2 \<le> i" "i \<le> length (ns_buf st)"
  shows "\<exists>st'. ns_segment allow (CHR ''/'') path i st = Some st' \<and> ns_built allow (resolve_step allow stack dotdot) st'
    \<and> ns_size st' \<le> i \<and> ns_slash st' = Some i \<and> ns_dots st' = Some 0 \<and> length (ns_buf st') = length (ns_buf st)"
proof -
  note b = built [unfolded ns_built_def]
  have res: "resolved allow is_sep_posix stack"
    using b by blast
  let ?removable = "ns_size st < 2 \<or> ns_last_len st \<noteq> 2 \<or> ns_buf st ! (ns_size st - 1) \<noteq> CHR ''.''
    \<or> ns_buf st ! (ns_size st - 2) \<noteq> CHR ''.''"
  have two: "((2::nat) = 1) = False"
    by simp
  have eq: "ns_segment allow (CHR ''/'') path i st =
      (if ?removable \<and> 2 < ns_size st then Some (ns_next i (ns_remove (CHR ''/'') st))
       else if ?removable \<and> ns_size st \<noteq> 0 then Some (ns_next i (st\<lparr>ns_size := 0, ns_last_len := 0\<rparr>))
       else if allow then map_option (ns_next i) (ns_climb (CHR ''/'') st)
       else Some (ns_next i st))"
    using slash two by (simp only: ns_segment_def Let_def dots option.inject simp_thms if_False if_True)
  note eq = eq [unfolded ns_removable [OF built]]
  have size_le: "ns_size st \<le> i"
    using n b i by (cases "stack = []") auto
  from res show ?thesis
  proof (cases rule: resolved_cases)
    case Nil
    then have "ns_size st = 0"
      using b by simp
    then show ?thesis
      using eq Nil ns_climb_built [OF built, of 2] resolved_climbs [of allow is_sep_posix 1] i built
      by (cases allow) (auto simp: resolve_step_def)
  next
    case (name s ts)
    then have ne: "s \<noteq> []" "render (CHR ''/'') ts \<noteq> [] \<longleftrightarrow> ts \<noteq> []"
      using render_resolved_Nil [of allow is_sep_posix ts "CHR ''/''"] by auto
    have size: "ns_size st \<noteq> 0" "ns_size st \<le> 2 \<Longrightarrow> ts = []"
    proof -
      have "ns_size st = (if ts = [] then 0 else length (render (CHR ''/'') ts) + 1) + length s"
        using b name(1) by (simp add: render_Cons)
      then show "ns_size st \<noteq> 0" "ns_size st \<le> 2 \<Longrightarrow> ts = []"
        using ne by (cases s; cases "render (CHR ''/'') ts"; simp split: if_splits)+
    qed
    have "resolve_step allow stack dotdot = ts" "hd stack \<noteq> dotdot"
      using name by (auto simp: resolve_step_def)
    then show ?thesis
      using eq size name ns_remove_built [of allow s ts st] ns_empty_built [OF built] built size_le
      by (cases "2 < ns_size st") auto
  next
    case (up k)
    have "resolved allow is_sep_posix (dotdot # stack)"
      using resolved_climbs [of allow is_sep_posix "Suc (Suc k)"] up by simp
    then show ?thesis
      using eq up ns_climb_built [OF built, of 3] n i
      by (auto simp: resolve_step_def)
  qed
qed

lemma ns_segment_step:
  assumes inv: "ns_inv allow stack a st0" and seg: "drop a path = s @ rest" "CHR ''/'' \<notin> set s"
    and i: "i = a + length s" and room: "length path \<le> length (ns_buf st0)"
    and first: "a = 0 \<Longrightarrow> \<not> short_of_two s"
  shows "\<exists>st. ns_segment allow (CHR ''/'') path i (st0\<lparr>ns_dots := dots_after (Some 0) s\<rparr>) = Some st
    \<and> ns_inv allow (resolve_step allow stack s) (Suc i) st \<and> length (ns_buf st) = length (ns_buf st0)"
proof -
  let ?st = "st0\<lparr>ns_dots := dots_after (Some 0) s\<rparr>"
  note v = inv [unfolded ns_inv_def]
  have built: "ns_built allow stack ?st" and size: "ns_size st0 \<le> a - 1" "a - 1 \<le> i"
    and slash: "ns_slash st0 = (if a = 0 then None else Some (a - 1))"
    using v i by simp_all
  have ne: "stack \<noteq> [] \<Longrightarrow> 0 < a"
    using size built render_resolved_Nil [of allow is_sep_posix stack "CHR ''/''"]
    by (cases a) (auto simp: ns_built_def)
  have le: "a \<le> length path" "i \<le> length path" if "s \<noteq> []"
    using arg_cong [OF seg(1), of length] that i by (cases s; simp)+
  have slash_ne: "ns_slash st0 \<noteq> (if i = 0 then None else Some (i - 1))" if "s \<noteq> []"
    using slash i that by (cases s) auto
  show ?thesis
  proof (cases "s = [] \<or> s = dot")
    case True
    then have "ns_segment allow (CHR ''/'') path i ?st = Some (ns_next i ?st)"
      using slash i by (auto simp: ns_segment_def)
    moreover have "resolve_step allow stack s = stack"
      using True by (simp add: resolve_step_def)
    ultimately show ?thesis
      using built size by (simp add: ns_inv_def)
  next
    case no_dot: False
    show ?thesis
    proof (cases "s = dotdot")
      case True
      have "\<exists>st'. ns_segment allow (CHR ''/'') path i ?st = Some st'
        \<and> ns_built allow (resolve_step allow stack dotdot) st' \<and> ns_size st' \<le> i \<and> ns_slash st' = Some i
        \<and> ns_dots st' = Some 0 \<and> length (ns_buf st') = length (ns_buf ?st)"
        using True ne size i le slash_ne room
        by (intro ns_segment_dotdot [OF built]) (auto simp: dots_after_cases)
      then show ?thesis
        using True by (auto simp: ns_inv_def)
    next
      case False
      have named: "named is_sep_posix s"
        using False no_dot seg(2) by (auto simp: named_def is_sep_posix_def)
      let ?n = "length (if stack = [] then s else CHR ''/'' # s)"
      have n: "ns_size st0 + ?n \<le> i"
        using size ne i by (cases "stack = []") auto
      have start: "(case ns_slash st0 of None \<Rightarrow> 0 | Some ls \<Rightarrow> ls + 1) = a"
        using slash by (cases a) auto
      have "subslice path a i = s"
        using seg(1) i by (simp add: subslice_def)
      then have "\<exists>st'. ns_append (CHR ''/'') path i ?st = Some st' \<and> ns_built allow (s # stack) st'
        \<and> ns_size st' = ns_size ?st + ?n \<and> length (ns_buf st') = length (ns_buf ?st)"
        using named first slash start n le no_dot room i
        by (intro ns_append_built [OF built]) (auto split: if_splits)
      moreover have "ns_segment allow (CHR ''/'') path i ?st = map_option (ns_next i) (ns_append (CHR ''/'') path i ?st)"
        using slash_ne no_dot False dots_after_cases [of s] by (simp add: ns_segment_def)
      ultimately show ?thesis
        using n named resolve_step_named [OF named] by (auto simp: ns_inv_def)
    qed
  qed
qed

section \<open>The whole loop\<close>

lemma ns_loop_spec:
  assumes "ns_inv allow stack a st" and "a \<le> length path" and "length path \<le> length (ns_buf st)"
    and "a = 0 \<Longrightarrow> \<not> short_of_two (takeWhile (\<lambda>c. \<not> is_sep_posix c) path)"
    and "a = 0 \<or> path ! (a - 1) = CHR ''/''"
  shows "\<exists>st'. ns_loop Posix allow (CHR ''/'') path a st = Some st'
    \<and> ns_built allow (resolve_segs allow is_sep_posix stack (drop a path)) st' \<and> length (ns_buf st') = length (ns_buf st)
    \<and> ns_size st' \<le> length path - of_bool (path \<noteq> [] \<and> last path = CHR ''/'')"
  using assms
proof (induction "length path - a" arbitrary: a stack st rule: less_induct)
  case less
  let ?p = is_sep_posix
  define s where "s = takeWhile (\<lambda>c. \<not> ?p c) (drop a path)"
  define rest where "rest = dropWhile (\<lambda>c. \<not> ?p c) (drop a path)"
  have seg: "drop a path = s @ rest" "CHR ''/'' \<notin> set s" "\<forall>c\<in>set s. \<not> ?p c" "rest = [] \<or> ?p (hd rest)"
    using hd_dropWhile [of "\<lambda>c. \<not> ?p c" "drop a path"]
    by (auto simp: s_def rest_def is_sep_posix_def dest: set_takeWhileD)
  have first: "a = 0 \<Longrightarrow> \<not> short_of_two s"
    using less.prems(4) by (simp add: s_def)
  have dots: "ns_dots st = Some 0"
    using less.prems(1) by (simp add: ns_inv_def)
  let ?i = "a + length s" and ?st = "st\<lparr>ns_dots := dots_after (Some 0) s\<rparr>"
  have scan: "ns_loop Posix allow (CHR ''/'') path a st = ns_loop Posix allow (CHR ''/'') path ?i ?st"
    by (rule ns_loop_scan [OF seg(1,2) dots])
  obtain st1 where st1: "ns_segment allow (CHR ''/'') path ?i ?st = Some st1"
    "ns_inv allow (resolve_step allow stack s) (Suc ?i) st1" "length (ns_buf st1) = length (ns_buf st)"
    using ns_segment_step [OF less.prems(1) seg(1,2) refl less.prems(3) first] by blast
  have res: "resolve_segs allow ?p stack (drop a path) = resolve_segs allow ?p (resolve_step allow stack s) rest"
    unfolding seg(1) using resolve_segs_segment [OF seg(3,4)] .
  show ?case
  proof (cases rest)
    case Nil
    then have i: "?i = length path"
      using arg_cong [OF seg(1), of length] less.prems(2) by simp
    show ?thesis
    proof (cases "path \<noteq> [] \<and> last path = CHR ''/''")
      case True
      then have s: "s = []"
      proof (cases "s = []")
        case False
        then have "last path = last s"
          using seg(1) Nil by (metis append_Nil2 append_take_drop_id last_appendR)
        then show ?thesis
          using False True seg(2) by (metis last_in_set)
      qed simp
      then have "ns_loop Posix allow (CHR ''/'') path a st = Some st"
        using True last_conv_nth [of path] i by (subst ns_loop.simps) (auto simp: is_sep_t_def is_sep_posix_def)
      moreover have "ns_size st \<le> length path - 1"
        using less.prems(1) i s by (simp add: ns_inv_def)
      ultimately show ?thesis
        using less.prems(1) res Nil s True by (simp add: ns_inv_def)
    next
      case False
      then have "ns_loop Posix allow (CHR ''/'') path ?i ?st = Some st1"
        using i st1(1) by (subst ns_loop.simps) (auto simp: is_sep_t_def is_sep_posix_def last_conv_nth)
      then show ?thesis
        using st1(2,3) res Nil False scan i by (auto simp: ns_inv_def)
    qed
  next
    case (Cons c rest')
    then have i: "?i < length path" "path ! ?i = CHR ''/''" "drop (Suc ?i) path = rest'"
      using arg_cong [OF seg(1), of length] arg_cong [OF seg(1), of "drop (Suc (length s))"]
        arg_cong [OF seg(1), of "\<lambda>xs. xs ! length s"] less.prems(2) seg(4)
      by (simp_all add: is_sep_posix_def add.commute)
    have "ns_loop Posix allow (CHR ''/'') path ?i ?st = ns_loop Posix allow (CHR ''/'') path (Suc ?i) st1"
      using i(1,2) st1(1) by (subst ns_loop.simps) (simp add: is_sep_t_def is_sep_posix_def)
    moreover have "\<exists>st'. ns_loop Posix allow (CHR ''/'') path (Suc ?i) st1 = Some st'
      \<and> ns_built allow (resolve_segs allow ?p (resolve_step allow stack s) (drop (Suc ?i) path)) st'
      \<and> length (ns_buf st') = length (ns_buf st1)
      \<and> ns_size st' \<le> length path - of_bool (path \<noteq> [] \<and> last path = CHR ''/'')"
      using i(1,2) st1(2,3) less.prems(3) by (intro less.hyps) auto
    moreover have "resolve_segs allow ?p stack (drop a path) =
        resolve_segs allow ?p (resolve_step allow stack s) (drop (Suc ?i) path)"
      using res Cons i(3) seg(4) by (simp add: resolve_segs_sep)
    ultimately show ?thesis
      using scan st1(3) by simp
  qed
qed

definition first_segment :: "bytes \<Rightarrow> bytes" where
  "first_segment path = takeWhile (\<lambda>c. \<not> is_sep_posix c) path"

lemma node_normalize_string_spec:
  assumes "length path < length buf" and "\<not> short_of_two (first_segment path)"
  obtains b n where "node_normalize_string Posix path allow (CHR ''/'') buf = Some (b, n)" "length b = length buf"
    "take n b = render (CHR ''/'') (resolve_segs allow is_sep_posix [] path)"
    "n \<le> length path - of_bool (path \<noteq> [] \<and> last path = CHR ''/'')"
proof -
  let ?st = "\<lparr>ns_buf = buf, ns_size = 0, ns_last_len = 0, ns_slash = None, ns_dots = Some 0\<rparr>"
  have "ns_inv allow [] 0 ?st"
    by (simp add: ns_inv_def ns_built_def last_len_ok_def)
  from ns_loop_spec [OF this, of path] assms obtain st where st:
    "ns_loop Posix allow (CHR ''/'') path 0 ?st = Some st" "ns_built allow (resolve_segs allow is_sep_posix [] path) st"
    "length (ns_buf st) = length buf" "ns_size st \<le> length path - of_bool (path \<noteq> [] \<and> last path = CHR ''/'')"
    by (auto simp: first_segment_def)
  have "ns_size st < length (ns_buf st)"
    using st(3,4) assms(1) by simp
  show thesis
  proof (rule that)
    show "node_normalize_string Posix path allow (CHR ''/'') buf =
        Some ((ns_buf st)[ns_size st := CHR 0x00], ns_size st)"
      using st(1) \<open>ns_size st < length (ns_buf st)\<close> by (simp add: node_normalize_string_def buf_set_def)
    show "take (ns_size st) ((ns_buf st)[ns_size st := CHR 0x00]) =
        render (CHR ''/'') (resolve_segs allow is_sep_posix [] path)"
      using st(2) by (auto simp only: ns_built_def take_update_cancel order_refl)
  qed (use st in simp_all)
qed

lemma prepend_root:
  assumes "m + 1 < length b"
  obtains b1 b2 b3 where "buf_copy b 1 (take m b) = Some b1" "buf_set b1 0 c = Some b2" "buf_set b2 (m + 1) z = Some b3"
    "take (m + 1) b3 = c # take m b" "length b3 = length b"
proof -
  obtain x t where b: "b = x # t"
    using assms by (cases b) auto
  let ?b1 = "x # take m b @ drop (Suc m) b" and ?b2 = "c # take m b @ drop (Suc m) b"
  show thesis
    by (rule that [of ?b1 ?b2 "?b2[m + 1 := z]"]) (use assms b in \<open>simp_all add: buf_copy_def copy_at_def buf_set_def\<close>)
qed

lemma length_resolve_trim:
  assumes "path \<noteq> []" and "render (CHR ''/'') (resolve_segs allow is_sep_posix [] path) \<noteq> []"
  shows "length (render (CHR ''/'') (resolve_segs allow is_sep_posix [] path)) + of_bool (path ! 0 = CHR ''/'')
    + of_bool (last path = CHR ''/'') \<le> length path"
proof -
  let ?p = is_sep_posix and ?sep = "CHR ''/''"
  have p: "?p ?sep" "\<not> ?p (CHR ''.'')"
    by (simp_all add: is_sep_posix_def)
  define q where "q = (if path ! 0 = ?sep then tl path else path)"
  have q: "resolve_segs allow ?p [] path = resolve_segs allow ?p [] q" "length q + of_bool (path ! 0 = ?sep) = length path"
    "q \<noteq> [] \<Longrightarrow> last q = last path"
  proof -
    obtain c t where path: "path = c # t"
      using assms(1) by (cases path) auto
    show "resolve_segs allow ?p [] path = resolve_segs allow ?p [] q"
      using p(1) by (cases "c = ?sep") (simp_all add: q_def path resolve_segs_sep)
    show "length q + of_bool (path ! 0 = ?sep) = length path" "q \<noteq> [] \<Longrightarrow> last q = last path"
      by (auto simp: q_def path)
  qed
  have ne: "q \<noteq> []"
    using assms(2) q(1) by auto
  show ?thesis
  proof (cases "last path = ?sep")
    case True
    then obtain q' where "q = q' @ [?sep]"
      using q(3) ne by (metis append_butlast_last_id)
    then have "resolve_segs allow ?p [] q = resolve_segs allow ?p [] q'" "length q = length q' + 1"
      using resolve_segs_append_sep [of ?p ?sep allow "[]" q' "[]"] p(1) by simp_all
    then show ?thesis
      using q(1,2) length_resolve_segs [OF p, of allow q'] True by simp
  next
    case False
    then show ?thesis
      using q(1,2) length_resolve_segs [OF p, of allow q] by simp
  qed
qed

lemma normalize_posix_spec:
  assumes room: "length path < length buf" and "\<not> short_of_two (first_segment path)"
  shows "normalize_posix path buf = Some (node_normalized Posix path)"
proof (cases "path = []")
  case False
  let ?root = "path ! 0 = CHR ''/''" and ?trail = "last path = CHR ''/''"
  let ?out = "render (CHR ''/'') (resolve_segs (\<not> ?root) is_sep_posix [] path)"
  obtain b n where n: "node_normalize_string Posix path (\<not> ?root) (CHR ''/'') buf = Some (b, n)" "length b = length buf"
    "take n b = ?out" "n \<le> length path - of_bool (path \<noteq> [] \<and> ?trail)"
    using assms by (rule node_normalize_string_spec)
  then have "n \<le> length b"
    using room by simp
  with n(3) have size: "n = length ?out"
    by (metis length_take min.absorb2)
  have root: "Platform_is_absolute Posix path = ?root" and trail: "path ! (length path - 1) = last path"
    using False by (simp_all add: is_sep_posix_def last_conv_nth)
  have zero: "n = 0 \<longleftrightarrow> ?out = []"
    using size by simp
  show ?thesis
  proof (cases "n = 0")
    case True
    then show ?thesis
      using n(1) zero False root trail
      by (simp add: normalize_posix_def node_normalized_def Let_def is_sep_posix_def SEP_POSIX_def)
  next
    case ne: False
    define m where "m = n + of_bool ?trail"
    have "?out \<noteq> []"
      using ne zero by simp
    then have m: "m + of_bool ?root < length b" "n < length b"
      using length_resolve_trim [of path "\<not> ?root"] False n(2,4) room size by (simp_all add: m_def)
    obtain b2 where b2: "(if ?trail then do {
               b \<leftarrow> buf_set b n (CHR ''/'');
               b \<leftarrow> buf_set b (n + 1) (CHR 0x00);
               Some (b, n + 1)
             } else Some (b, n)) = Some (b2, m)" "length b2 = length b"
      "take m b2 = ?out @ (if ?trail then ''/'' else [])"
      using n(3) m by (cases ?trail) (auto simp: m_def buf_set_def take_Suc_conv_app_nth)
    obtain b3 k where b3: "(if ?root then do {
               b \<leftarrow> buf_copy b2 1 (take m b2);
               b \<leftarrow> buf_set b 0 (CHR ''/'');
               b \<leftarrow> buf_set b (m + 1) (CHR 0x00);
               Some (b, m + 1)
             } else Some (b2, m)) = Some (b3, k)" "take k b3 = (if ?root then ''/'' else []) @ take m b2"
    proof (cases ?root)
      case True
      then have "m + 1 < length b2"
        using m b2(2) by simp
      then obtain c1 c2 b3 where "buf_copy b2 1 (take m b2) = Some c1" "buf_set c1 0 (CHR ''/'') = Some c2"
        "buf_set c2 (m + 1) (CHR 0x00) = Some b3" "take (m + 1) b3 = CHR ''/'' # take m b2" "length b3 = length b2"
        by (rule prepend_root)
      then show ?thesis
        using that [of b3 "m + 1"] True by simp
    qed (use that in simp)
    have "normalize_posix path buf = Some (take k b3)"
      unfolding normalize_posix_def Let_def trail using n(1) b2(1) b3(1) ne False by simp
    moreover have "take k b3 = node_normalized Posix path"
      using b3(2) b2(3) ne zero False root
      by (simp add: node_normalized_def Let_def is_sep_posix_def SEP_POSIX_def)
    ultimately show ?thesis
      by simp
  qed
qed (simp add: normalize_posix_def node_normalized_def)

section \<open>Properties\<close>


text \<open>
  C25. \<open>path.posix.normalize\<close> and the bundler's \<open>normalize_string_node\<close>, two independent implementations,
  answer the same for every path whose first segment is not of four bytes with \<open>..\<close> at its end, and the
  buffer that the JavaScript entry point takes is always enough.
\<close>

theorem normalize_posix_agrees:
  assumes "\<not> short_of_two (first_segment path)" and "pool_ok pool" and "length path + 1 < length buf"
  shows "\<exists>b r. normalize_js pool path = Some r \<and> normalize_string_node Posix path buf = Some (b, r)"
  using normalize_posix_spec [OF _ assms(1)] normalize_string_node_spec [of Posix path buf] assms(2,3)
  by (auto simp: normalize_js_def pool_ok_def unix_def Let_def)

theorem normalize_posix_agrees_witness:
  "\<exists>b r. normalize_js (\<lambda>n. replicate n (CHR ''x'')) ''a/../..//b/'' = Some r
    \<and> normalize_string_node Posix ''a/../..//b/'' (replicate 13 (CHR ''y'')) = Some (b, r)"
  by (rule normalize_posix_agrees) (simp_all add: short_of_two_def first_segment_def is_sep_posix_def pool_ok_def)

lemma take_8: "8 \<le> length b \<Longrightarrow> \<exists>b0 b1 b2 b3 b4 b5 b6 b7 t. b = b0 # b1 # b2 # b3 # b4 # b5 # b6 # b7 # t"
  by (simp only: eval_nat_numeral BitM.simps Suc_le_length_iff) blast

lemma ns_loop_short:
  assumes "x \<noteq> CHR ''/''" and "y \<noteq> CHR ''/''" and "8 \<le> length buf"
  obtains t where "node_normalize_string Posix (x # y # ''../..'') True (CHR ''/'') buf = Some (x # y # ''../..'' @ t, 7)"
proof -
  let ?path = "x # y # ''../..''" and ?first = "x # y # dotdot"
  let ?st = "\<lparr>ns_buf = buf, ns_size = 0, ns_last_len = 0, ns_slash = None, ns_dots = Some 0\<rparr>"
  obtain b0 b1 b2 b3 b4 b5 b6 b7 t where buf: "buf = b0 # b1 # b2 # b3 # b4 # b5 # b6 # b7 # t"
    using take_8 [OF assms(3)] by blast
  let ?st1 = "\<lparr>ns_buf = ?first @ drop 4 buf, ns_size = 4, ns_last_len = 2, ns_slash = Some 4, ns_dots = Some 0\<rparr>"
  let ?st2 = "\<lparr>ns_buf = ?path @ drop 7 buf, ns_size = 7, ns_last_len = 2, ns_slash = Some 7, ns_dots = Some 0\<rparr>"
  have dots: "dots_after (Some 0) ?first \<noteq> Some 1" "dots_after (Some 0) ?first \<noteq> Some 2"
    unfolding dots_after_cases by simp_all
  have "ns_loop Posix True (CHR ''/'') ?path 0 ?st =
      ns_loop Posix True (CHR ''/'') ?path 4 (?st\<lparr>ns_dots := dots_after (Some 0) ?first\<rparr>)"
    using ns_loop_scan [of 0 ?path ?first "''/..''" ?st] assms(1,2)
    by (simp add: eval_nat_numeral del: dots_after_simps)
  also have "\<dots> = ns_loop Posix True (CHR ''/'') ?path 5 ?st1"
  proof -
    have "ns_segment True (CHR ''/'') ?path 4 (?st\<lparr>ns_dots := dots_after (Some 0) ?first\<rparr>) = Some ?st1"
      using dots by (simp add: ns_segment_def ns_append_def ns_next_def subslice_def buf_copy_def copy_at_def buf
          del: dots_after_simps)
    then show ?thesis
      by (subst ns_loop.simps) (simp add: is_sep_t_def is_sep_posix_def del: dots_after_simps)
  qed
  also have "\<dots> = ns_loop Posix True (CHR ''/'') ?path 7 (?st1\<lparr>ns_dots := Some 2\<rparr>)"
    using ns_loop_scan [of 5 ?path dotdot "[]" ?st1] by (simp add: numeral_2_eq_2)
  also have "\<dots> = Some ?st2"
    by (subst ns_loop.simps)
      (simp add: is_sep_t_def is_sep_posix_def ns_segment_def ns_climb_def ns_next_def buf_copy_def copy_at_def buf)
  finally show thesis
    using that [of "CHR 0x00 # t"] by (simp add: node_normalize_string_def buf_set_def buf)
qed

text \<open>
  C26. A relative path whose first segment has four bytes and ends in \<open>..\<close> is not normalised: a \<open>..\<close> behind
  it stays, because the length of a first segment is recorded two short and it is then taken for \<open>..\<close>.
\<close>

theorem normalize_posix_keeps_dotdot:
  assumes "x \<noteq> CHR ''/''" and "y \<noteq> CHR ''/''" and "pool_ok pool" and "8 < length buf"
  shows "normalize_js pool (x # y # ''../..'') = Some (x # y # ''../..'')
    \<and> (\<exists>b. normalize_string_node Posix (x # y # ''../..'') buf = Some (b, dot))"
proof -
  let ?path = "x # y # ''../..''"
  define b where "b = pool (max (length ?path) MAX_PATH_BYTES + 1)"
  have "length b = max (length ?path) MAX_PATH_BYTES + 1"
    using assms(3) unfolding pool_ok_def b_def by blast
  then have "length ?path + 1 \<le> length b"
    by simp
  then have room: "8 \<le> length b"
    by simp
  obtain t where "node_normalize_string Posix ?path True (CHR ''/'') b = Some (x # y # ''../..'' @ t, 7)"
    by (rule ns_loop_short [OF assms(1,2) room])
  then have "normalize_posix ?path b = Some ?path"
    using assms(1) by (simp add: normalize_posix_def)
  then have "normalize_js pool ?path = Some ?path"
    unfolding normalize_js_def Let_def b_def .
  moreover have "node_normalized Posix ?path = dot"
    using assms(1,2) by (simp add: node_normalized_def resolve_segs_def resolve_step_def is_sep_posix_def)
  ultimately show ?thesis
    using normalize_string_node_spec [of Posix ?path buf] assms(4) by (simp add: unix_def)
qed

theorem normalize_posix_keeps_dotdot_witness:
  "normalize_js (\<lambda>n. replicate n (CHR 0x00)) ''v1../..'' = Some ''v1../..''
    \<and> (\<exists>b. normalize_string_node Posix ''v1../..'' (replicate 9 (CHR 0x00)) = Some (b, dot))"
  by (rule normalize_posix_keeps_dotdot) (simp_all add: pool_ok_def)

end
