(* ===== verification/Node_Path_Resolve.thy ===== *)
theory Node_Path_Resolve
  imports Node_Path
begin

text \<open>
  \<open>path.posix.join\<close>, \<open>resolve\<close> and \<open>relative\<close> (\<open>runtime/node/path.rs\<close>). The buffers that one function lends
  to another are passed along; the tld-level directory of the file system object, which stands for the
  current directory, is a parameter.
\<close>

section \<open>join\<close>

fun node_join_loop :: "bytes list \<Rightarrow> bytes \<Rightarrow> nat \<Rightarrow> (bytes \<times> nat) option" where
  "node_join_loop [] buf2 buf_size = Some (buf2, buf_size)"
| "node_join_loop (path # paths) buf2 buf_size =
     (if 0 < length path then do {
        (buf2, buf_size) \<leftarrow>
          (if buf_size \<noteq> 0 then do {
             buf2 \<leftarrow> buf_set buf2 buf_size (CHR ''/'');
             Some (buf2, buf_size + 1)
           } else Some (buf2, buf_size));
        buf2 \<leftarrow> buf_copy buf2 buf_size path;
        node_join_loop paths buf2 (buf_size + length path)
      } else node_join_loop paths buf2 buf_size)"

definition join_posix :: "bytes list \<Rightarrow> bytes \<Rightarrow> bytes \<Rightarrow> bytes option" where
  "join_posix paths buf buf2 =
     (if paths = [] then Some dot
      else do {
        (buf2, buf_size) \<leftarrow> node_join_loop paths buf2 0;
        if buf_size = 0 then Some dot else normalize_posix (take buf_size buf2) buf
      })"

definition join_js_len :: "bytes list \<Rightarrow> nat" where
  "join_js_len paths =
     max (foldl (\<lambda>n path. n + (if path \<noteq> [] then length path + 1 else length path)) 0 paths) MAX_PATH_BYTES"

definition join_js :: "(nat \<Rightarrow> bytes) \<Rightarrow> bytes list \<Rightarrow> bytes option" where
  "join_js pool paths =
     (let buf_len = join_js_len paths;
          slab = pool (buf_len * 2)
      in join_posix paths (take buf_len slab) (drop buf_len slab))"

section \<open>The current directory\<close>

fun trailing_slash_end :: "bytes \<Rightarrow> nat \<Rightarrow> nat" where
  "trailing_slash_end s 0 = 0"
| "trailing_slash_end s (Suc e) =
     (if 0 < e \<and> (s ! e = CHR ''/'' \<or> s ! e = CHR 0x5C) then trailing_slash_end s e else Suc e)"

definition without_trailing_slash :: "bytes \<Rightarrow> bytes" where
  "without_trailing_slash s = take (trailing_slash_end s (length s)) s"

definition PATH_MAX_WIDE :: nat where
  "PATH_MAX_WIDE = 32767"

definition MAX_PATH_SIZE_UPPER :: nat where
  "MAX_PATH_SIZE_UPPER = (if MAX_PATH_BYTES > PATH_MAX_WIDE then MAX_PATH_BYTES else PATH_MAX_WIDE)"

definition get_cwd :: "bytes \<Rightarrow> bytes \<Rightarrow> (bytes \<times> nat) option" where
  "get_cwd top_level_dir buf =
     (let cached_cwd = without_trailing_slash top_level_dir
      in do {
        buf \<leftarrow> buf_copy buf 0 cached_cwd;
        Some (buf, length cached_cwd)
      })"

definition posix_cwd :: "bytes \<Rightarrow> bytes \<Rightarrow> bytes option" where
  "posix_cwd top_level_dir buf = map_option (\<lambda>(buf, len). take len buf) (get_cwd top_level_dir buf)"

section \<open>resolve\<close>

text \<open>One round of the loop with a path that is not empty.\<close>

definition prepend_path :: "bytes \<Rightarrow> bytes \<Rightarrow> nat \<Rightarrow> (bytes \<times> nat) option" where
  "prepend_path path buf2 resolved_len =
     do {
       buf2 \<leftarrow> (if 0 < resolved_len then buf_copy buf2 (length path + 1) (take resolved_len buf2) else Some buf2);
       buf2 \<leftarrow> buf_copy buf2 0 path;
       buf2 \<leftarrow> buf_set buf2 (length path) (CHR ''/'');
       let buf_size = length path + 1 + resolved_len;
       buf2 \<leftarrow> buf_set buf2 buf_size (CHR 0x00);
       Some (buf2, buf_size)
     }"

text \<open>The loop, on the paths from the last to the first, and behind them the current directory.\<close>

fun resolve_loop :: "bytes \<Rightarrow> bytes list \<Rightarrow> bytes \<Rightarrow> nat \<Rightarrow> (bytes \<times> nat \<times> bool) option" where
  "resolve_loop top_level_dir [] buf2 len =
     do {
       path \<leftarrow> posix_cwd top_level_dir (replicate MAX_PATH_SIZE_UPPER (CHR 0x00));
       if path = [] then Some (buf2, len, False)
       else do {
         (buf2, len) \<leftarrow> prepend_path path buf2 len;
         Some (buf2, len, path ! 0 = CHR ''/'')
       }
     }"
| "resolve_loop top_level_dir (path # paths) buf2 len =
     (if path = [] then resolve_loop top_level_dir paths buf2 len
      else do {
        (buf2, len) \<leftarrow> prepend_path path buf2 len;
        if path ! 0 = CHR ''/'' then Some (buf2, len, True)
        else resolve_loop top_level_dir paths buf2 len
      })"

text \<open>The answer is the first \<open>n\<close> bytes of the buffer, \<open>Some n\<close>, or the literal \<open>.\<close>, \<open>None\<close>.\<close>

definition resolve_posix ::
  "bytes \<Rightarrow> bytes list \<Rightarrow> bytes \<Rightarrow> bytes \<Rightarrow> (bytes \<times> bytes \<times> nat option) option" where
  "resolve_posix top_level_dir paths buf buf2 =
     do {
       (buf2, len, resolved_absolute) \<leftarrow> resolve_loop top_level_dir (rev paths) buf2 0;
       if len = 0 then Some (buf, buf2, None)
       else do {
         (buf, len) \<leftarrow> node_normalize_string Posix (take len buf2) (\<not> resolved_absolute) (CHR ''/'') buf;
         if resolved_absolute then do {
           buf \<leftarrow> buf_copy buf 1 (take len buf);
           buf \<leftarrow> buf_set buf 0 (CHR ''/'');
           buf \<leftarrow> buf_set buf (len + 1) (CHR 0x00);
           Some (buf, buf2, Some (len + 1))
         } else Some (buf, buf2, if 0 < len then Some len else None)
       }
     }"

definition slice_text :: "bytes \<Rightarrow> nat option \<Rightarrow> bytes" where
  "slice_text buf r = (case r of None \<Rightarrow> dot | Some n \<Rightarrow> take n buf)"

definition resolve_js_len :: "bytes list \<Rightarrow> nat" where
  "resolve_js_len paths =
     max (foldl (\<lambda>n path. n + (if 0 < n \<and> path \<noteq> [] then length path + 1 else length path)) 0 paths
          + (MAX_PATH_BYTES + 1)) MAX_PATH_BYTES"

definition resolve_js :: "bytes \<Rightarrow> (nat \<Rightarrow> bytes) \<Rightarrow> bytes list \<Rightarrow> bytes option" where
  "resolve_js top_level_dir pool paths =
     (let n = resolve_js_len paths + 2;
          slab = pool (n * 2)
      in map_option (\<lambda>(buf, buf2, r). slice_text buf r)
           (resolve_posix top_level_dir paths (take n slab) (drop n slab)))"

section \<open>relative\<close>

text \<open>The scan for the longest common part: where it stopped, and the last separator it passed.\<close>

function relative_scan :: "bytes \<Rightarrow> bytes \<Rightarrow> nat \<Rightarrow> nat \<Rightarrow> nat option \<Rightarrow> nat \<times> nat option" where
  "relative_scan from_orig to_orig smallest i last_common_sep =
     (if i < smallest then
        if from_orig ! (1 + i) \<noteq> to_orig ! (1 + i) then (i, last_common_sep)
        else relative_scan from_orig to_orig smallest (i + 1)
               (if from_orig ! (1 + i) = CHR ''/'' then Some i else last_common_sep)
      else (i, last_common_sep))"
  by pat_completeness auto
termination
  by (relation "measure (\<lambda>(f, t, n, i, l). n - i)") auto

declare relative_scan.simps [simp del]

function relative_ups :: "bytes \<Rightarrow> nat \<Rightarrow> bytes \<Rightarrow> nat \<Rightarrow> (bytes \<times> nat) option" where
  "relative_ups from_orig i buf3 out_len =
     (if i \<le> length from_orig then
        if i = length from_orig \<or> from_orig ! i = CHR ''/'' then
          let up = (if 0 < out_len then CHR ''/'' # dotdot else dotdot)
          in buf_copy buf3 out_len up \<bind>
               (\<lambda>buf3. relative_ups from_orig (i + 1) buf3 (out_len + length up))
        else relative_ups from_orig (i + 1) buf3 out_len
      else Some (buf3, out_len))"
  by pat_completeness auto
termination
  by (relation "measure (\<lambda>(f, i, b, n). Suc (length f) - i)") auto

declare relative_ups.simps [simp del]

text \<open>What follows the resolution of both paths; \<open>to_orig\<close> is the start of \<open>buf\<close>.\<close>

definition relative_resolved :: "bytes \<Rightarrow> nat \<Rightarrow> bytes \<Rightarrow> bytes \<Rightarrow> bytes option" where
  "relative_resolved from_orig to_orig_len buf buf3 =
     (let to_orig = take to_orig_len buf;
          from_len = length from_orig - 1;
          to_len = to_orig_len - 1;
          smallest = min from_len to_len;
          (i, last_common_sep) = relative_scan from_orig to_orig smallest 0 None;
          matches_all = (i = smallest)
      in if matches_all \<and> smallest < to_len \<and> to_orig ! (1 + smallest) = CHR ''/'' then
           Some (subslice buf (1 + smallest + 1) to_orig_len)
         else if matches_all \<and> smallest < to_len \<and> smallest = 0 then
           Some (subslice buf (1 + smallest) to_orig_len)
         else do {
           let last_common_sep =
             (if matches_all \<and> \<not> smallest < to_len \<and> smallest < from_len then
                if from_orig ! (1 + smallest) = CHR ''/'' then Some smallest
                else if smallest = 0 then Some 0
                else last_common_sep
              else last_common_sep);
           (buf3, out_len) \<leftarrow>
             relative_ups from_orig (1 + (case last_common_sep of None \<Rightarrow> 0 | Some v \<Rightarrow> v + 1)) buf3 0;
           let to_start = (case last_common_sep of None \<Rightarrow> 0 | Some v \<Rightarrow> 1 + v);
           let slice_size = to_orig_len - to_start;
           buf \<leftarrow>
             (if 0 < slice_size then buf_copy buf out_len (subslice buf to_start (to_start + slice_size)) else Some buf);
           buf \<leftarrow> (if 0 < out_len then buf_copy buf 0 (take out_len buf3) else Some buf);
           buf \<leftarrow> buf_set buf (out_len + slice_size) (CHR 0x00);
           Some (take (out_len + slice_size) buf)
         })"

definition relative_posix ::
  "bytes \<Rightarrow> bytes \<Rightarrow> bytes \<Rightarrow> bytes \<Rightarrow> bytes \<Rightarrow> bytes \<Rightarrow> bytes option" where
  "relative_posix top_level_dir from_path to_path buf buf2 buf3 =
     (if from_path = to_path then Some []
      else do {
        (buf2, buf3, r) \<leftarrow> resolve_posix top_level_dir [from_path] buf2 buf3;
        let from_orig = slice_text buf2 r;
        (buf, buf3, r) \<leftarrow> resolve_posix top_level_dir [to_path] buf buf3;
        (buf, to_orig_len) \<leftarrow>
          (case r of None \<Rightarrow> do { buf \<leftarrow> buf_copy buf 0 dot; Some (buf, 1) } | Some n \<Rightarrow> Some (buf, n));
        if from_orig = take to_orig_len buf then Some []
        else relative_resolved from_orig to_orig_len buf buf3
      })"

definition relative_js_len :: "bytes \<Rightarrow> bytes \<Rightarrow> nat" where
  "relative_js_len from_path to_path =
     max ((length from_path + MAX_PATH_BYTES + 1) * 2 + length to_path + MAX_PATH_BYTES + 1) MAX_PATH_BYTES"

definition relative_js :: "bytes \<Rightarrow> (nat \<Rightarrow> bytes) \<Rightarrow> bytes \<Rightarrow> bytes \<Rightarrow> bytes option" where
  "relative_js top_level_dir pool from_path to_path =
     (let n = relative_js_len from_path to_path + 1;
          slab = pool (n * 3)
      in relative_posix top_level_dir from_path to_path (take n slab) (take n (drop n slab)) (drop n (drop n slab)))"

section \<open>What they answer\<close>

lemma node_join_loop_eq: "node_join_loop paths b n = join_loop (CHR ''/'') paths b n"
  by (induction paths arbitrary: b n) auto

lemma join_count_foldl:
  "foldl (\<lambda>n path. n + (if path \<noteq> [] then length path + 1 else length path)) n paths = n + join_count paths"
  by (induction paths arbitrary: n) simp_all

lemma join_posix_spec:
  assumes "\<not> short_of_two (first_segment (join_text (CHR ''/'') [] paths))"
    and "length buf = join_js_len paths" and "length buf2 = join_js_len paths"
  shows "join_posix paths buf buf2 = Some (node_normalized Posix (join_text (CHR ''/'') [] paths))"
proof (cases "paths = []")
  case False
  let ?t = "join_text (CHR ''/'') [] paths"
  have count: "join_count paths \<le> join_js_len paths"
    using join_count_foldl [of 0 paths] by (simp add: join_js_len_def)
  obtain b n where loop: "node_join_loop paths buf2 0 = Some (b, n)" "take n b = ?t" "n = length ?t"
    using join_loop_spec [of 0 buf2 "[]" paths "CHR ''/''"] count assms(3) by (auto simp: node_join_loop_eq)
  show ?thesis
  proof (cases "?t = []")
    case True
    then show ?thesis
      using loop False by (simp add: join_posix_def node_normalized_def)
  next
    case ne: False
    then have "length ?t < length buf"
      using length_join_text [of "CHR ''/''" "[]" paths] count assms(2) by simp
    then show ?thesis
      using loop False ne normalize_posix_spec [OF _ assms(1), of buf] by (simp add: join_posix_def)
  qed
qed (simp add: join_posix_def node_normalized_def)

text \<open>The directory that a path leads to from the directory with the names \<open>st\<close>, the last one on tld.\<close>

definition follow :: "bytes list \<Rightarrow> bytes \<Rightarrow> bytes list" where
  "follow st path = resolve_segs False is_sep_posix (if node_is_absolute_posix path then [] else st) path"

lemma is_sep_posix_slash [simp]: "is_sep_posix (CHR ''/'')" "\<not> is_sep_posix (CHR ''.'')"
  by (simp_all add: is_sep_posix_def)

lemma follow_Nil [simp]: "follow st [] = st"
  by (simp add: follow_def node_is_absolute_posix_def)

lemma resolved_follow: "resolved False is_sep_posix st \<Longrightarrow> resolved False is_sep_posix (follow st path)"
  unfolding follow_def by (rule resolved_segs) simp

lemma resolved_follows:
  "resolved False is_sep_posix st \<Longrightarrow> resolved False is_sep_posix (foldl follow st paths)"
  by (induction paths arbitrary: st) (simp_all add: resolved_follow)

lemma prepend_path_spec:
  assumes "take len buf2 = acc" and "length acc = len" and "length path + 1 + len < length buf2"
  shows "\<exists>b. prepend_path path buf2 len = Some (b, length path + 1 + len) \<and> length b = length buf2
    \<and> take (length path + 1 + len) b = path @ CHR ''/'' # acc"
proof -
  let ?n = "length path + 1"
  obtain b1 where b1: "(if 0 < len then buf_copy buf2 ?n (take len buf2) else Some buf2) = Some b1"
    "length b1 = length buf2" "take len (drop ?n b1) = acc"
    using assms by (cases "0 < len") (auto simp: buf_copy_def copy_at_def)
  obtain b2 where b2: "buf_copy b1 0 path = Some b2" "b2 = path @ drop (length path) b1"
    using b1(2) assms(3) by (simp add: buf_copy_def copy_at_def)
  have b3: "buf_set b2 (length path) (CHR ''/'') = Some (path @ CHR ''/'' # drop ?n b1)"
    using b2(2) b1(2) assms(3) by (cases "drop (length path) b1")
      (auto simp: buf_set_def list_update_append drop_Suc tl_drop [symmetric] dest: arg_cong [of _ _ tl])
  show ?thesis
    using b1 b2 b3 assms(2,3) by (simp add: prepend_path_def buf_set_def) arith
qed

section \<open>The loop of resolve\<close>

lemma follow_split:
  "resolve_segs False is_sep_posix st (path @ CHR ''/'' # acc) =
    resolve_segs False is_sep_posix (resolve_segs False is_sep_posix st path) acc"
  by (rule resolve_segs_append_sep) simp

lemma resolve_loop_spec:
  assumes "take len buf2 = acc" and "length acc = len"
    and "len + join_count paths + length cwd + 1 < length buf2"
    and "posix_cwd tld (replicate MAX_PATH_SIZE_UPPER (CHR 0x00)) = Some cwd" and "node_is_absolute_posix cwd"
  shows "\<exists>b n. resolve_loop tld paths buf2 len = Some (b, n, True) \<and> length b = length buf2
    \<and> n \<le> len + join_count paths + length cwd + 1 \<and> 0 < n \<and> node_is_absolute_posix (take n b)
    \<and> resolve_segs False is_sep_posix [] (take n b) =
        resolve_segs False is_sep_posix (foldl follow (follow [] cwd) (rev paths)) acc"
  using assms(1-3)
proof (induction paths arbitrary: buf2 len acc)
  case Nil
  have cwd: "cwd \<noteq> []" "cwd ! 0 = CHR ''/''"
    using assms(5) by (auto simp: node_is_absolute_posix_def)
  obtain b where b: "prepend_path cwd buf2 len = Some (b, length cwd + 1 + len)" "length b = length buf2"
    "take (length cwd + 1 + len) b = cwd @ CHR ''/'' # acc"
    using prepend_path_spec [of len buf2 acc cwd] Nil by auto
  have "node_is_absolute_posix (take (length cwd + 1 + len) b)"
    unfolding b(3) using cwd by (simp add: node_is_absolute_posix_def nth_append)
  then show ?case
    using b cwd assms(4) by (simp add: follow_split follow_def)
next
  case (Cons path paths)
  show ?case
  proof (cases "path = []")
    case True
    then show ?thesis
      using Cons.IH [of len buf2 acc] Cons.prems by simp
  next
    case False
    obtain b where b: "prepend_path path buf2 len = Some (b, length path + 1 + len)" "length b = length buf2"
      "take (length path + 1 + len) b = path @ CHR ''/'' # acc"
      using prepend_path_spec [of len buf2 acc path] Cons.prems False by auto
    show ?thesis
    proof (cases "path ! 0 = CHR ''/''")
      case True
      then have "node_is_absolute_posix (take (length path + 1 + len) b)" "node_is_absolute_posix path"
        unfolding b(3) using False by (simp_all add: node_is_absolute_posix_def nth_append)
      then show ?thesis
        using b False True by (simp add: follow_split follow_def)
    next
      case rel: False
      have "length path + 1 + len + join_count paths + length cwd + 1 < length b"
        using Cons.prems(3) b(2) False by simp
      from Cons.IH [OF b(3) _ this] show ?thesis
        using b(1,2) False rel Cons.prems(2)
        by (auto simp: node_is_absolute_posix_def follow_split follow_def add.assoc add.commute add.left_commute)
    qed
  qed
qed

text \<open>The current directory, for the tld-level directory \<open>tld\<close>.\<close>

definition cwd_ok :: "bytes \<Rightarrow> bool" where
  "cwd_ok tld \<longleftrightarrow> node_is_absolute_posix tld \<and> length (without_trailing_slash tld) \<le> MAX_PATH_BYTES"

lemma trailing_slash_end_le: "trailing_slash_end s n \<le> n \<and> (0 < n \<longrightarrow> 0 < trailing_slash_end s n)"
  by (induction n) auto

lemma cwd_ok:
  assumes "cwd_ok tld"
  shows "posix_cwd tld (replicate MAX_PATH_SIZE_UPPER (CHR 0x00)) = Some (without_trailing_slash tld)"
    "node_is_absolute_posix (without_trailing_slash tld)"
    "length (without_trailing_slash tld) \<le> MAX_PATH_BYTES"
proof -
  show len: "length (without_trailing_slash tld) \<le> MAX_PATH_BYTES"
    using assms by (simp add: cwd_ok_def)
  have upper: "MAX_PATH_SIZE_UPPER = 32767" "MAX_PATH_BYTES = 4096"
    by (simp_all add: MAX_PATH_SIZE_UPPER_def MAX_PATH_BYTES_def PATH_MAX_WIDE_def)
  show "posix_cwd tld (replicate MAX_PATH_SIZE_UPPER (CHR 0x00)) = Some (without_trailing_slash tld)"
    using len unfolding upper by (simp add: posix_cwd_def get_cwd_def buf_copy_def copy_at_def Let_def)
  show "node_is_absolute_posix (without_trailing_slash tld)"
    using assms trailing_slash_end_le [of tld "length tld"]
    by (auto simp: cwd_ok_def node_is_absolute_posix_def without_trailing_slash_def)
qed

lemma resolve_posix_spec:
  assumes cwd: "cwd_ok tld" and st: "st = foldl follow (follow [] (without_trailing_slash tld)) paths"
    and room: "join_count paths + length (without_trailing_slash tld) + 1 < length buf2" "length buf2 \<le> length buf"
  shows "\<exists>b b2 n. resolve_posix tld paths buf buf2 = Some (b, b2, Some n) \<and> length b = length buf
    \<and> length b2 = length buf2 \<and> take n b = CHR ''/'' # render (CHR ''/'') st \<and> n \<le> length b
    \<and> n \<le> join_count paths + length (without_trailing_slash tld) + 1"
proof -
  let ?p = is_sep_posix and ?cwd = "without_trailing_slash tld"
  have count: "join_count (rev paths) = join_count paths"
    by (simp add: join_count_def rev_map [symmetric] sum_list_rev)
  obtain b2 k where loop: "resolve_loop tld (rev paths) buf2 0 = Some (b2, k, True)" "length b2 = length buf2"
    "k \<le> join_count paths + length ?cwd + 1" "0 < k" "node_is_absolute_posix (take k b2)"
    "resolve_segs False ?p [] (take k b2) = st"
    using resolve_loop_spec [of 0 buf2 "[]" "rev paths" ?cwd tld] cwd_ok [OF cwd] room(1) by (auto simp: st count)
  let ?text = "take k b2"
  have tx: "?text \<noteq> []" "?text ! 0 = CHR ''/''" "length ?text = k"
    using loop(2,3,5) room(1) by (auto simp: node_is_absolute_posix_def)
  then have "first_segment ?text = []"
    by (cases ?text) (auto simp: first_segment_def)
  then have short: "\<not> short_of_two (first_segment ?text)"
    by (simp add: short_of_two_def)
  have "length ?text < length buf"
    using tx(3) loop(3) room by simp
  then obtain b n where n: "node_normalize_string Posix ?text False (CHR ''/'') buf = Some (b, n)" "length b = length buf"
    "take n b = render (CHR ''/'') st" "n \<le> k - of_bool (?text \<noteq> [] \<and> last ?text = CHR ''/'')"
    using short node_normalize_string_spec [of ?text buf False] loop(6) tx(3) by metis
  have n_le: "n \<le> length b"
    using n(2,4) loop(3) room by linarith
  have "n + 1 \<le> k"
  proof (cases "render (CHR ''/'') st = []")
    case True
    then have "n = 0"
      using n(3) n_le by (metis length_take list.size(3) min.absorb2)
    then show ?thesis
      using loop(4) by simp
  next
    case False
    have "length (render (CHR ''/'') st) = n"
      using n(3) n_le by (metis length_take min.absorb2)
    then show ?thesis
      using length_resolve_trim [OF tx(1), of False] False loop(6) tx(2,3) by simp
  qed
  then have nk: "n + 1 \<le> join_count paths + length ?cwd + 1" "n + 1 < length b"
    using loop(3) room n(2) by simp_all
  obtain c1 c2 b' where b': "buf_copy b 1 (take n b) = Some c1" "buf_set c1 0 (CHR ''/'') = Some c2"
    "buf_set c2 (n + 1) (CHR 0x00) = Some b'" "take (n + 1) b' = CHR ''/'' # take n b" "length b' = length b"
    using nk(2) by (rule prepend_root)
  have "resolve_posix tld paths buf buf2 = Some (b', b2, Some (n + 1))"
    using loop(1,4) n(1) b'(1-3) by (simp add: resolve_posix_def)
  then show ?thesis
    using b'(4,5) n(2,3) loop(2) nk by auto
qed

section \<open>The relative path between two absolute paths\<close>

lemma relative_scan_spec:
  assumes "from_orig = c # x @ u" and "to_orig = d # x @ v" and "u = [] \<or> v = [] \<or> hd u \<noteq> hd v"
    and "smallest = min (length (x @ u)) (length (x @ v))"
  shows "relative_scan from_orig to_orig smallest 0 None = (length x, rposition (\<lambda>c. c = CHR ''/'') x)"
proof -
  let ?p = "\<lambda>c. c = CHR ''/''"
  have "relative_scan from_orig to_orig smallest i (rposition_below ?p x i) = (length x, rposition ?p x)"
    if "i \<le> length x" for i
    using that
  proof (induction "length x - i" arbitrary: i)
    case 0
    then have i: "i = length x"
      by simp
    have "(1 + i < length from_orig \<and> 1 + i < length to_orig \<longrightarrow> from_orig ! (1 + i) \<noteq> to_orig ! (1 + i))"
      using assms(1-3) i by (cases u; cases v) auto
    then show ?case
      using assms(1,2,4) i by (subst relative_scan.simps) (auto simp: rposition_def)
  next
    case (Suc k)
    then have i: "i < length x" "i < smallest" "from_orig ! (1 + i) = x ! i" "to_orig ! (1 + i) = x ! i"
      using assms(1,2,4) by (auto simp: nth_append)
    have "relative_scan from_orig to_orig smallest i (rposition_below ?p x i) =
        relative_scan from_orig to_orig smallest (Suc i) (rposition_below ?p x (Suc i))"
      using i by (subst relative_scan.simps) simp
    then show ?case
      using Suc.hyps(1) [of "Suc i"] Suc.hyps(2) i(1) by simp
  qed
  from this [of 0] show ?thesis
    by simp
qed

lemma relative_ups_eq:
  assumes "from_orig \<noteq> []" and "last from_orig \<noteq> CHR ''/''"
  shows "relative_ups from_orig i b n = up_loop (CHR ''/'') from_orig i b n"
proof (induction "Suc (length from_orig) - i" arbitrary: i b n)
  case 0
  then show ?case
    by (subst relative_ups.simps, subst up_loop.simps) simp
next
  case (Suc k)
  have "from_orig ! i = CHR ''/'' \<and> i < length from_orig \<Longrightarrow> i + 1 < length from_orig"
    using assms by (metis Suc_eq_plus1 Suc_lessI diff_Suc_1 last_conv_nth)
  moreover have "relative_ups from_orig (i + 1) b' n' = up_loop (CHR ''/'') from_orig (i + 1) b' n'" for b' n'
    using Suc by simp
  ultimately show ?case
    by (subst relative_ups.simps, subst up_loop.simps) (auto simp: Let_def)
qed

lemma splice_text:
  assumes "length out + length s < length buf"
  shows "do {
      buf \<leftarrow> (if 0 < length s then buf_copy buf (length out) s else Some buf);
      buf \<leftarrow> (if 0 < length out then buf_copy buf 0 out else Some buf);
      buf \<leftarrow> buf_set buf (length out + length s) z;
      Some (take (length out + length s) buf)
    } = Some (out @ s)"
proof -
  obtain b1 where b1: "(if 0 < length s then buf_copy buf (length out) s else Some buf) = Some b1" "length b1 = length buf"
    "take (length s) (drop (length out) b1) = s"
    using assms by (cases "0 < length s") (auto simp: buf_copy_def copy_at_def)
  have "(if 0 < length out then buf_copy b1 0 out else Some b1) = Some (out @ drop (length out) b1)"
    using b1(2) assms by (simp add: buf_copy_def copy_at_def)
  then show ?thesis
    using b1 assms by (simp add: buf_set_def)
qed

lemma relative_resolved_splice:
  assumes "relative_scan from_orig (take to_len buf) (min (length from_orig - 1) (to_len - 1)) 0 None = (i, lcs)"
    and "\<not> (i = min (length from_orig - 1) (to_len - 1) \<and> min (length from_orig - 1) (to_len - 1) < to_len - 1
      \<and> (take to_len buf ! (1 + min (length from_orig - 1) (to_len - 1)) = CHR ''/''
         \<or> min (length from_orig - 1) (to_len - 1) = 0))"
    and "lcs' = (if i = min (length from_orig - 1) (to_len - 1) \<and> \<not> min (length from_orig - 1) (to_len - 1) < to_len - 1
        \<and> min (length from_orig - 1) (to_len - 1) < length from_orig - 1 then
          if from_orig ! (1 + min (length from_orig - 1) (to_len - 1)) = CHR ''/'' then Some (min (length from_orig - 1) (to_len - 1))
          else if min (length from_orig - 1) (to_len - 1) = 0 then Some 0 else lcs
        else lcs)"
    and "relative_ups from_orig (1 + (case lcs' of None \<Rightarrow> 0 | Some v \<Rightarrow> v + 1)) buf3 0 = Some (b3, length out)"
    and "take (length out) b3 = out" and "to_start = (case lcs' of None \<Rightarrow> 0 | Some v \<Rightarrow> 1 + v)"
    and "to_start \<le> to_len" and "length out + (to_len - to_start) < length buf" and "to_len \<le> length buf"
  shows "relative_resolved from_orig to_len buf buf3 = Some (out @ subslice buf to_start to_len)"
proof -
  have s: "to_start + (to_len - to_start) = to_len" "length (subslice buf to_start to_len) = to_len - to_start"
    using assms(7,9) by (simp_all add: subslice_def)
  have splice: "do {
      buf \<leftarrow> (if 0 < to_len - to_start then buf_copy buf (length out) (subslice buf to_start to_len) else Some buf);
      buf \<leftarrow> (if 0 < length out then buf_copy buf 0 out else Some buf);
      buf \<leftarrow> buf_set buf (length out + (to_len - to_start)) (CHR 0x00);
      Some (take (length out + (to_len - to_start)) buf)
    } = Some (out @ subslice buf to_start to_len)"
    using splice_text [of out "subslice buf to_start to_len" buf "CHR 0x00"] assms(8) unfolding s(2) by simp
  define m where "m = min (length from_orig - 1) (to_len - 1)"
  note a = assms(1-3) [folded m_def]
  have "relative_resolved from_orig to_len buf buf3 = do {
      (buf3, out_len) \<leftarrow> relative_ups from_orig (1 + (case lcs' of None \<Rightarrow> 0 | Some v \<Rightarrow> v + 1)) buf3 0;
      let to_start = (case lcs' of None \<Rightarrow> 0 | Some v \<Rightarrow> 1 + v);
      let slice_size = to_len - to_start;
      buf \<leftarrow>
        (if 0 < slice_size then buf_copy buf out_len (subslice buf to_start (to_start + slice_size)) else Some buf);
      buf \<leftarrow> (if 0 < out_len then buf_copy buf 0 (take out_len buf3) else Some buf);
      buf \<leftarrow> buf_set buf (out_len + slice_size) (CHR 0x00);
      Some (take (out_len + slice_size) buf)
    }"
    unfolding relative_resolved_def Let_def m_def [symmetric] a(1) prod.case a(3)
    using a(2) by (simp only: if_False simp_thms if_True HOL.de_Morgan_conj) auto
  also have "\<dots> = Some (out @ subslice buf to_start to_len)"
    using splice by (simp only: assms(4,5) assms(6) [symmetric] Let_def s(1) Option.bind.bind_lunit prod.case)
  finally show ?thesis .
qed

lemma subslice_take: "subslice b k n = drop k (take n b)"
  by (simp add: subslice_def drop_take)

definition plain :: "bytes list \<Rightarrow> bool" where
  "plain segs \<longleftrightarrow> (\<forall>s\<in>set segs. CHR ''/'' \<notin> set s \<and> s \<noteq> [])"

lemma plain_simps [simp]:
  "plain []" "plain (s # segs) \<longleftrightarrow> CHR ''/'' \<notin> set s \<and> s \<noteq> [] \<and> plain segs" "plain (xs @ ys) \<longleftrightarrow> plain xs \<and> plain ys"
  by (auto simp: plain_def)

lemma last_abs_path:
  assumes "plain segs" and "segs \<noteq> []"
  shows "last (abs_path segs) \<noteq> CHR ''/''"
proof -
  have "last segs \<noteq> []" "CHR ''/'' \<notin> set (last segs)"
    using assms by (auto simp: plain_def)
  then have "last (seg_text segs) \<noteq> CHR ''/''"
    using assms(2) last_seg_text last_in_set by metis
  then show ?thesis
    using assms(2) by (simp add: abs_path_def)
qed

lemma relative_ups_dirs:
  assumes "abs_path (cs @ s # f) = A @ u @ seg_text f" and "CHR ''/'' \<notin> set u" and "plain (cs @ s # f)"
    and "length (ups (Suc (length f))) \<le> length buf3"
  shows "\<exists>b. relative_ups (abs_path (cs @ s # f)) (length A) buf3 0 = Some (b, length (ups (Suc (length f))))
    \<and> take (length (ups (Suc (length f)))) b = ups (Suc (length f))"
proof -
  have "relative_ups (abs_path (cs @ s # f)) (length A) buf3 0 =
      up_loop (CHR ''/'') (abs_path (cs @ s # f)) (length A) buf3 0"
    using assms(3) abs_path_hd(1) last_abs_path by (intro relative_ups_eq) auto
  moreover have "\<forall>s\<in>set f. s \<noteq> [] \<and> CHR ''/'' \<notin> set s"
    using assms(3) by (auto simp: plain_def)
  ultimately show ?thesis
    using up_loop_spec [OF assms(1,2), of 0 buf3 0] assms(4) by auto
qed

lemma relative_resolved_down:
  assumes names: "plain (cs @ b # t)" and buf: "take to_len buf = abs_path (cs @ b # t)"
    and len: "to_len = length (abs_path (cs @ b # t))"
  shows "relative_resolved (abs_path cs) to_len buf buf3 = Some (relative_names [] (b # t))"
proof -
  obtain c b' where b: "b = c # b'" "c \<noteq> CHR ''/''"
    using names by (cases b) auto
  show ?thesis
  proof (cases "cs = []")
    case True
    have "relative_scan ''/'' (abs_path (b # t)) 0 0 None = (0, None)"
      using relative_scan_spec [of "''/''" "CHR ''/''" "[]" "[]" "abs_path (b # t)" "CHR ''/''" "b @ seg_text t" 0]
      by (simp add: abs_path_def rposition_def)
    then show ?thesis
      using True buf len b
      by (simp add: relative_resolved_def subslice_take abs_path_def relative_names_def Let_def)
  next
    case False
    define x where "x = tl (seg_text cs)"
    have x: "seg_text cs = CHR ''/'' # x" "abs_path cs = CHR ''/'' # x"
      "abs_path (cs @ b # t) = CHR ''/'' # x @ CHR ''/'' # b @ seg_text t"
      using False by (cases cs; simp add: x_def abs_path_def)+
    have "relative_scan (abs_path cs) (abs_path (cs @ b # t)) (length x) 0 None = (length x, rposition (\<lambda>c. c = CHR ''/'') x)"
      using relative_scan_spec [of "abs_path cs" "CHR ''/''" x "[]" _ "CHR ''/''" "CHR ''/'' # b @ seg_text t"] x by simp
    then show ?thesis
      using buf len x
      by (simp add: relative_resolved_def subslice_take relative_names_def Let_def min_def)
  qed
qed

lemma relative_resolved_up:
  assumes names: "plain (cs @ a # f)" and buf: "take to_len buf = abs_path cs" and len: "to_len = length (abs_path cs)"
    and room: "length (ups (Suc (length f))) < length buf" "length (ups (Suc (length f))) \<le> length buf3" "to_len \<le> length buf"
  shows "relative_resolved (abs_path (cs @ a # f)) to_len buf buf3 = Some (ups (Suc (length f)))"
proof -
  obtain c a' where a: "a = c # a'" "c \<noteq> CHR ''/''" "CHR ''/'' \<notin> set a'"
    using names by (cases a) auto
  show ?thesis
  proof (cases "cs = []")
    case True
    have path: "abs_path (cs @ a # f) = [CHR ''/'', c] @ a' @ seg_text f"
      using True a by (simp add: abs_path_def)
    obtain b3 where b3: "relative_ups (abs_path (cs @ a # f)) 2 buf3 0 = Some (b3, length (ups (Suc (length f))))"
      "take (length (ups (Suc (length f)))) b3 = ups (Suc (length f))"
      using relative_ups_dirs [OF path a(3) names room(2)] by (auto simp: numeral_2_eq_2)
    have "relative_scan (abs_path (cs @ a # f)) ''/'' 0 0 None = (0, None)"
      using relative_scan_spec [of "abs_path (cs @ a # f)" "CHR ''/''" "[]" "a @ seg_text f" "''/''" "CHR ''/''" "[]" 0] True
      by (simp add: abs_path_def rposition_def)
    then have "relative_resolved (abs_path (cs @ a # f)) to_len buf buf3 =
        Some (ups (Suc (length f)) @ subslice buf 1 to_len)"
      using True buf len room b3 path a(2)
      by (intro relative_resolved_splice [where i = 0 and lcs = None and lcs' = "Some 0"])
        (simp_all add: abs_path_def numeral_2_eq_2)
    then show ?thesis
      using True len by (simp add: abs_path_def subslice_def)
  next
    case False
    define x where "x = tl (seg_text cs)"
    have x: "seg_text cs = CHR ''/'' # x" "abs_path cs = CHR ''/'' # x"
      "abs_path (cs @ a # f) = CHR ''/'' # x @ CHR ''/'' # a @ seg_text f"
      using False by (cases cs; simp add: x_def abs_path_def)+
    have path: "abs_path (cs @ a # f) = (CHR ''/'' # x @ ''/'') @ a @ seg_text f"
      using x by simp
    obtain b3 where b3: "relative_ups (abs_path (cs @ a # f)) (length x + 2) buf3 0 = Some (b3, length (ups (Suc (length f))))"
      "take (length (ups (Suc (length f)))) b3 = ups (Suc (length f))"
      using relative_ups_dirs [OF path _ names room(2)] names by auto
    have "relative_scan (abs_path (cs @ a # f)) (abs_path cs) (length x) 0 None = (length x, rposition (\<lambda>c. c = CHR ''/'') x)"
      using relative_scan_spec [of _ "CHR ''/''" x "CHR ''/'' # a @ seg_text f" "abs_path cs" "CHR ''/''" "[]"] x by simp
    then have "relative_resolved (abs_path (cs @ a # f)) to_len buf buf3 =
        Some (ups (Suc (length f)) @ subslice buf (1 + length x) to_len)"
      using buf len room b3 x
      by (intro relative_resolved_splice [where i = "length x" and lcs = "rposition (\<lambda>c. c = CHR ''/'') x"
            and lcs' = "Some (length x)"])
        (simp_all add: min_def)
    then show ?thesis
      using x len by (simp add: subslice_def)
  qed
qed

lemma names_split:
  assumes "a \<noteq> b"
  obtains y u v where "a = y @ u" "b = y @ v" "u = [] \<or> v = [] \<or> hd u \<noteq> hd v" "u \<noteq> [] \<or> v \<noteq> []"
proof -
  have "\<exists>y u v. a = y @ u \<and> b = y @ v \<and> (u = [] \<or> v = [] \<or> hd u \<noteq> hd v) \<and> (u \<noteq> [] \<or> v \<noteq> [])"
    using assms
  proof (induction a arbitrary: b)
    case Nil
    then show ?case
      by (rule_tac exI [of _ "[]"], rule_tac exI [of _ "[]"], rule_tac exI [of _ b]) auto
  next
    case (Cons c a)
    show ?case
    proof (cases "\<exists>b'. b = c # b' \<and> a \<noteq> b'")
      case True
      then obtain b' where b: "b = c # b'" "a \<noteq> b'"
        by blast
      from Cons.IH [OF b(2)] obtain y u v where "a = y @ u" "b' = y @ v" "u = [] \<or> v = [] \<or> hd u \<noteq> hd v" "u \<noteq> [] \<or> v \<noteq> []"
        by blast
      then show ?thesis
        using b(1) by (rule_tac exI [of _ "c # y"], rule_tac exI [of _ u], rule_tac exI [of _ v]) simp
    next
      case False
      then show ?thesis
        using Cons.prems by (intro exI [of _ "[]"] exI [of _ "c # a"] exI [of _ b]) (cases b; auto)
    qed
  qed
  then show thesis
    using that by blast
qed

lemma relative_resolved_across:
  assumes names: "plain (cs @ a # f)" "plain (b # t)" "a \<noteq> b"
    and buf: "take to_len buf = abs_path (cs @ b # t)" and len: "to_len = length (abs_path (cs @ b # t))"
    and room: "length (relative_names (a # f) (b # t)) < length buf" "length (ups (Suc (length f))) \<le> length buf3"
      "to_len \<le> length buf"
  shows "relative_resolved (abs_path (cs @ a # f)) to_len buf buf3 = Some (relative_names (a # f) (b # t))"
proof -
  let ?p = "\<lambda>c. c = CHR ''/''"
  obtain y u v where split: "a = y @ u" "b = y @ v" "u = [] \<or> v = [] \<or> hd u \<noteq> hd v" "u \<noteq> [] \<or> v \<noteq> []"
    using names_split [OF names(3)] .
  define pre where "pre = (if cs = [] then [] else tl (seg_text cs) @ ''/'')"
  have pre: "seg_text cs @ ''/'' = CHR ''/'' # pre" "length pre = length (seg_text cs)"
    by (cases cs; simp add: pre_def)+
  have paths: "abs_path (cs @ a # f) = (CHR ''/'' # pre) @ a @ seg_text f"
    "abs_path (cs @ b # t) = (CHR ''/'' # pre) @ b @ seg_text t"
    unfolding pre(1) [symmetric] by (simp_all add: abs_path_def)
  let ?x = "pre @ y" and ?u = "u @ seg_text f" and ?v = "v @ seg_text t"
  have heads: "u \<noteq> [] \<Longrightarrow> hd u \<noteq> CHR ''/''" "v \<noteq> [] \<Longrightarrow> hd v \<noteq> CHR ''/''"
    using names(1,2) split(1,2) by (cases u; cases v; auto)+
  have diff: "?u = [] \<or> ?v = [] \<or> hd ?u \<noteq> hd ?v"
    using split(3,4) heads hd_seg_text [of f] hd_seg_text [of t] by (cases "u = []"; cases "v = []") (auto simp: hd_append)
  define m where "m = min (length (abs_path (cs @ a # f)) - 1) (to_len - 1)"
  have m: "m = min (length (?x @ ?u)) (length (?x @ ?v))" "0 < m"
    using len paths split(1,2) names(1,2) unfolding m_def by (auto simp: min_def)
  have scan: "relative_scan (abs_path (cs @ a # f)) (abs_path (cs @ b # t)) m 0 None = (length ?x, rposition ?p ?x)"
    using relative_scan_spec [of _ "CHR ''/''" ?x ?u _ "CHR ''/''" ?v m] paths split(1,2) diff m(1) by simp
  have lcs: "rposition ?p ?x = (if cs = [] then None else Some (length pre - 1))"
  proof -
    have y: "\<forall>c\<in>set y. c \<noteq> CHR ''/''"
      using names(2) split(2) by auto
    show ?thesis
      using rposition_none [of y ?p] rposition_last [of ?p "CHR ''/''" y "tl (seg_text cs)"] y
      by (simp add: pre_def)
  qed
  have start: "(case rposition ?p ?x of None \<Rightarrow> 0 | Some v \<Rightarrow> v + 1) = length pre"
    "(case rposition ?p ?x of None \<Rightarrow> 0 | Some v \<Rightarrow> 1 + v) = length pre"
  proof -
    have "cs = [] \<longleftrightarrow> length pre = 0"
      by (simp add: pre_def)
    then show "(case rposition ?p ?x of None \<Rightarrow> 0 | Some v \<Rightarrow> v + 1) = length pre"
      "(case rposition ?p ?x of None \<Rightarrow> 0 | Some v \<Rightarrow> 1 + v) = length pre"
      unfolding lcs by (cases "cs = []"; simp)+
  qed
  have at_u: "abs_path (cs @ a # f) ! (1 + length ?x) = hd u" if "u \<noteq> []"
    using paths(1) split(1) that by (cases u) (simp_all add: nth_append)
  have at_v: "abs_path (cs @ b # t) ! (1 + length ?x) = hd v" if "v \<noteq> []"
    using paths(2) split(2) that by (cases v) (simp_all add: nth_append)
  obtain b3 where b3: "relative_ups (abs_path (cs @ a # f)) (1 + length pre) buf3 0 = Some (b3, length (ups (Suc (length f))))"
    "take (length (ups (Suc (length f)))) b3 = ups (Suc (length f))"
    using relative_ups_dirs [OF paths(1) _ names(1) room(2)] names(1) by auto
  have tail: "subslice buf (length pre) to_len = seg_text (b # t)"
    unfolding subslice_take buf by (simp add: abs_path_def pre(2))
  have len_v: "to_len - 1 = length ?x + length ?v" and len_u: "length (abs_path (cs @ a # f)) - 1 = length ?x + length ?u"
    using len paths split(1,2) by simp_all
  have guard: "\<not> (length ?x = m \<and> m < to_len - 1 \<and> (abs_path (cs @ b # t) ! (1 + m) = CHR ''/'' \<or> m = 0))"
  proof
    assume *: "length ?x = m \<and> m < to_len - 1 \<and> (abs_path (cs @ b # t) ! (1 + m) = CHR ''/'' \<or> m = 0)"
    then have "?u = []"
      using m(1) len_v by (auto simp: min_def split: if_splits)
    then have "v \<noteq> []"
      using split(4) by simp
    then show False
      using at_v heads(2) conjunct1 [OF *] * m(2) by auto
  qed
  have keep: "\<not> (length ?x = m \<and> \<not> m < to_len - 1 \<and> m < length (abs_path (cs @ a # f)) - 1
      \<and> (abs_path (cs @ a # f) ! (1 + m) = CHR ''/'' \<or> m = 0))"
  proof
    assume *: "length ?x = m \<and> \<not> m < to_len - 1 \<and> m < length (abs_path (cs @ a # f)) - 1
      \<and> (abs_path (cs @ a # f) ! (1 + m) = CHR ''/'' \<or> m = 0)"
    then have "?v = []"
      using len_v by simp
    then have "u \<noteq> []"
      using split(4) by simp
    then show False
      using at_u heads(1) conjunct1 [OF *] * m(2) by auto
  qed
  have "relative_resolved (abs_path (cs @ a # f)) to_len buf buf3 =
      Some (ups (Suc (length f)) @ subslice buf (length pre) to_len)"
  proof (rule relative_resolved_splice, fold m_def)
    show "relative_scan (abs_path (cs @ a # f)) (take to_len buf) m 0 None = (length ?x, rposition ?p ?x)"
      using scan buf by simp
    show "\<not> (length ?x = m \<and> m < to_len - 1 \<and> (take to_len buf ! (1 + m) = CHR ''/'' \<or> m = 0))"
      using guard buf by simp
    show "rposition ?p ?x = (if length ?x = m \<and> \<not> m < to_len - 1 \<and> m < length (abs_path (cs @ a # f)) - 1 then
          if abs_path (cs @ a # f) ! (1 + m) = CHR ''/'' then Some m else if m = 0 then Some 0 else rposition ?p ?x
        else rposition ?p ?x)"
      using keep by (auto simp only: split: if_splits)
    show "relative_ups (abs_path (cs @ a # f)) (1 + (case rposition ?p ?x of None \<Rightarrow> 0 | Some v \<Rightarrow> v + 1)) buf3 0 =
        Some (b3, length (ups (Suc (length f))))"
      unfolding start(1) by (rule b3(1))
    show "length pre = (case rposition ?p ?x of None \<Rightarrow> 0 | Some v \<Rightarrow> 1 + v)"
      using start(2) by simp
    have "to_len = length pre + length (seg_text (b # t))"
      using len pre(2) by (simp add: abs_path_def)
    then show "length pre \<le> to_len" "length (ups (Suc (length f))) + (to_len - length pre) < length buf"
      using room(1) by (simp_all add: relative_names_def)
  qed (use b3 room in simp_all)
  then show ?thesis
    unfolding tail by (simp add: relative_names_def)
qed

lemma names_plain: "resolved False is_sep_posix st \<Longrightarrow> plain st \<and> (\<forall>s\<in>set st. named is_sep_posix s)"
  unfolding resolved_def plain_def by (auto simp: named_def is_sep_posix_def)

lemma follow_relative_names:
  assumes "resolved False is_sep_posix (rev (cs @ f))" and "resolved False is_sep_posix (rev (cs @ t))"
  shows "follow (rev (cs @ f)) (relative_names f t) = rev (cs @ t)"
proof -
  have names: "\<forall>s\<in>set (cs @ f @ t). named is_sep_posix s"
    using names_plain [OF assms(1)] names_plain [OF assms(2)] by auto
  then have "\<not> is_absolute_posix (relative_names f t)"
    by (intro relative_names_not_absolute) (auto simp: named_def is_sep_posix_def)
  then have "\<not> node_is_absolute_posix (relative_names f t)"
    by (simp add: node_is_absolute_posix_def is_absolute_posix_def)
  then show ?thesis
    using relative_names_resolve [OF names is_sep_posix_slash] by (simp add: follow_def)
qed

lemma relative_resolved_dirs:
  assumes names: "plain (cs @ f)" "plain t" and diff: "f = [] \<or> t = [] \<or> hd f \<noteq> hd t" "f \<noteq> t"
    and buf: "take to_len buf = abs_path (cs @ t)" "to_len = length (abs_path (cs @ t))" "to_len \<le> length buf"
    and room: "length (relative_names f t) < length buf" "length (ups (length f)) \<le> length buf3"
  shows "relative_resolved (abs_path (cs @ f)) to_len buf buf3 = Some (relative_names f t)"
proof (cases f)
  case Nil
  then obtain b t' where t: "t = b # t'"
    using diff(2) by (cases t) auto
  have "relative_resolved (abs_path cs) to_len buf buf3 = Some (relative_names [] (b # t'))"
    using names buf t Nil by (intro relative_resolved_down) auto
  then show ?thesis
    using Nil t by simp
next
  case f: (Cons a f')
  show ?thesis
  proof (cases t)
    case Nil
    have "relative_resolved (abs_path (cs @ a # f')) to_len buf buf3 = Some (ups (Suc (length f')))"
      using names buf room f Nil by (intro relative_resolved_up) (auto simp: relative_names_def)
    then show ?thesis
      using f Nil by (simp add: relative_names_def)
  next
    case (Cons b t')
    have "relative_resolved (abs_path (cs @ a # f')) to_len buf buf3 = Some (relative_names (a # f') (b # t'))"
      using names buf room f Cons diff by (intro relative_resolved_across) auto
    then show ?thesis
      using f Cons by simp
  qed
qed

lemma abs_path_eq:
  assumes "resolved False is_sep_posix st" and "resolved False is_sep_posix st'"
  shows "abs_path (rev st) = abs_path (rev st') \<longleftrightarrow> st = st'"
  using resolve_segs_render [OF assms(1), of "CHR ''/''"] resolve_segs_render [OF assms(2), of "CHR ''/''"]
  unfolding abs_path_render by (metis is_sep_posix_slash list.inject rev_rev_ident)

lemma seg_text_length: "plain segs \<Longrightarrow> 2 * length segs \<le> length (seg_text segs)"
proof (induction segs)
  case (Cons s segs)
  then show ?case
    by (cases s) auto
qed simp

text \<open>The directory of a path from the current directory.\<close>

definition placed :: "bytes \<Rightarrow> bytes \<Rightarrow> bytes list" where
  "placed tld path = follow (follow [] (without_trailing_slash tld)) path"

lemma resolved_placed: "resolved False is_sep_posix (placed tld path)"
  unfolding placed_def by (intro resolved_follow) simp

lemma resolve_one:
  assumes cwd: "cwd_ok tld" and room: "length path + MAX_PATH_BYTES + 2 < length buf2" "length buf2 \<le> length buf"
  obtains b b2 n where "resolve_posix tld [path] buf buf2 = Some (b, b2, Some n)" "length b = length buf"
    "length b2 = length buf2" "take n b = abs_path (rev (placed tld path))" "n = length (abs_path (rev (placed tld path)))"
    "n \<le> length b" "n \<le> length path + MAX_PATH_BYTES + 2"
proof -
  have count: "join_count [path] \<le> length path + 1"
    by simp
  have wts: "length (without_trailing_slash tld) \<le> MAX_PATH_BYTES"
    by (rule cwd_ok [OF cwd])
  obtain b b2 n where r: "resolve_posix tld [path] buf buf2 = Some (b, b2, Some n)" "length b = length buf"
    "length b2 = length buf2" "take n b = CHR ''/'' # render (CHR ''/'') (placed tld path)" "n \<le> length b"
    "n \<le> join_count [path] + length (without_trailing_slash tld) + 1"
    using resolve_posix_spec [OF cwd refl, of "[path]" buf2 buf] room count wts by (auto simp: placed_def)
  moreover have "take n b = abs_path (rev (placed tld path))"
    using r(4) by (simp add: abs_path_render)
  moreover from this have "n = length (abs_path (rev (placed tld path)))"
    using r(5) by (metis length_take min.absorb2)
  moreover have "n \<le> length path + MAX_PATH_BYTES + 2"
    using r(6) count wts by linarith
  ultimately show thesis
    using that by blast
qed

lemma relative_posix_spec:
  assumes cwd: "cwd_ok tld" and f: "placed tld from_path = rev (cs @ f)" and t: "placed tld to_path = rev (cs @ t)"
    and diff: "f = [] \<or> t = [] \<or> hd f \<noteq> hd t" and n: "n = relative_js_len from_path to_path + 1"
    and bufs: "length buf = n" "length buf2 = n" "length buf3 = n"
  shows "relative_posix tld from_path to_path buf buf2 buf3 = Some (relative_names f t)"
proof (cases "from_path = to_path")
  case True
  then have "f = t"
    using f t by simp
  then show ?thesis
    using True diff by (cases f) (auto simp: relative_posix_def relative_names_def)
next
  case ne: False
  have len: "2 * length from_path + length to_path + 3 * MAX_PATH_BYTES + 4 \<le> n"
    using n by (simp add: relative_js_len_def)
  have big: "4 < MAX_PATH_BYTES"
    by (simp add: MAX_PATH_BYTES_def)
  have res: "resolved False is_sep_posix (rev (cs @ f))" "resolved False is_sep_posix (rev (cs @ t))"
    using resolved_placed [of tld] f t by metis+
  have plain: "plain (cs @ f)" "plain (cs @ t)"
    using names_plain [OF res(1)] names_plain [OF res(2)] by (auto simp: plain_def)
  obtain b2 b3 i where from_r: "resolve_posix tld [from_path] buf2 buf3 = Some (b2, b3, Some i)" "length b2 = n" "length b3 = n"
    "take i b2 = abs_path (cs @ f)" "i = length (abs_path (cs @ f))" "i \<le> length from_path + MAX_PATH_BYTES + 2"
  proof -
    have "length from_path + MAX_PATH_BYTES + 2 < length buf3" "length buf3 \<le> length buf2"
      using len bufs by simp_all
    from resolve_one [OF cwd this] show ?thesis
      using that bufs unfolding f rev_rev_ident by metis
  qed
  obtain b b3' j where to_r: "resolve_posix tld [to_path] buf b3 = Some (b, b3', Some j)" "length b = n" "length b3' = n"
    "take j b = abs_path (cs @ t)" "j = length (abs_path (cs @ t))" "j \<le> length b" "j \<le> length to_path + MAX_PATH_BYTES + 2"
  proof -
    have "length to_path + MAX_PATH_BYTES + 2 < length b3" "length b3 \<le> length buf"
      using len bufs from_r(3) by simp_all
    from resolve_one [OF cwd this] show ?thesis
      using that bufs from_r(3) unfolding t rev_rev_ident by metis
  qed
  have eq: "relative_posix tld from_path to_path buf buf2 buf3 =
      (if abs_path (cs @ f) = abs_path (cs @ t) then Some [] else relative_resolved (abs_path (cs @ f)) j b b3')"
    using ne from_r(1,4) to_r(1,4) by (simp add: relative_posix_def slice_text_def)
  have same: "abs_path (cs @ f) = abs_path (cs @ t) \<longleftrightarrow> f = t"
    using abs_path_eq [OF res] by simp
  show ?thesis
  proof (cases "f = t")
    case True
    then show ?thesis
      using eq diff by (cases f) (auto simp: relative_names_def)
  next
    case False
    have "2 * length f \<le> length (seg_text f)"
      using plain(1) by (intro seg_text_length) simp
    then have "2 * length f \<le> i" "length (seg_text t) \<le> j"
      using from_r(5) to_r(5) by (auto simp: abs_path_def split: if_splits)
    then have ups: "length (ups (length f)) + length (seg_text t) < n"
      using length_ups [of "length f"] from_r(6) to_r(7) len big by linarith
    then have "length (relative_names f t) < n"
      by (auto simp: relative_names_def)
    then have "relative_resolved (abs_path (cs @ f)) j b b3' = Some (relative_names f t)"
      using plain diff False to_r ups by (intro relative_resolved_dirs) auto
    then show ?thesis
      using eq same False by simp
  qed
qed

lemma resolve_count:
  "n + join_count paths \<le>
    foldl (\<lambda>n path. n + (if 0 < n \<and> path \<noteq> [] then length path + 1 else length path)) n paths + of_bool (n = 0)"
proof (induction paths arbitrary: n)
  case (Cons path paths)
  then show ?case
    using Cons.IH [of "n + (if 0 < n \<and> path \<noteq> [] then length path + 1 else length path)"]
    by (cases "path = []"; cases "n = 0") auto
qed simp

lemma resolve_js_place:
  assumes "cwd_ok tld" and "pool_ok pool"
  shows "resolve_js tld pool paths =
    Some (CHR ''/'' # render (CHR ''/'') (foldl follow (follow [] (without_trailing_slash tld)) paths))"
proof -
  define n where "n = resolve_js_len paths + 2"
  have slab: "length (pool (n * 2)) = n * 2"
    using assms(2) unfolding pool_ok_def by blast
  have "join_count paths \<le> foldl (\<lambda>n path. n + (if 0 < n \<and> path \<noteq> [] then length path + 1 else length path)) 0 paths + 1"
    using resolve_count [of 0 paths] by simp
  then have "join_count paths + length (without_trailing_slash tld) + 1 < n"
    using cwd_ok(3) [OF assms(1)] by (simp add: n_def resolve_js_len_def)
  then show ?thesis
    using resolve_posix_spec [OF assms(1) refl, of paths "drop n (pool (n * 2))" "take n (pool (n * 2))"] slab
    unfolding resolve_js_def Let_def n_def [symmetric] by (auto simp: slice_text_def)
qed

text \<open>
  \<open>path.posix.join\<close> answers the same as the bundler's \<open>join_string_buf\<close> unless the text that is joined
  starts with a segment of four bytes that ends in \<open>..\<close>; the buffers that its entry point takes are enough.
\<close>

lemma join_posix_agrees:
  assumes "\<not> short_of_two (first_segment (join_text (CHR ''/'') [] paths))" and "pool_ok pool"
    and "join_count paths < length buf"
  shows "\<exists>b r. join_js pool paths = Some r \<and> join_string_buf Posix buf paths = Some (b, r)"
proof -
  have "length (pool (join_js_len paths * 2)) = join_js_len paths * 2"
    using assms(2) unfolding pool_ok_def by blast
  then have "join_js pool paths = Some (node_normalized Posix (join_text (CHR ''/'') [] paths))"
    using assms(1) unfolding join_js_def Let_def by (intro join_posix_spec) simp_all
  then show ?thesis
    using join_string_buf_spec [of Posix paths buf] assms(3) by (simp add: unix_def)
qed

section \<open>Properties\<close>

text \<open>
  C24. \<open>path.posix.resolve\<close> follows its paths from the current directory, as \<open>get_cwd\<close> gives it, an absolute one from the root on,
  and answers the place it arrives at as an absolute path, and never outgrows the buffers that its entry
  point takes.
\<close>

theorem resolve_js_follows:
  assumes "cwd_ok tld" and "pool_ok pool"
  shows "resolve_js tld pool paths =
    Some (CHR ''/'' # render (CHR ''/'') (foldl follow (follow [] (without_trailing_slash tld)) paths))"
  using assms by (rule resolve_js_place)

theorem resolve_js_follows_witness:
  "resolve_js ''/home/u/'' (\<lambda>n. replicate n (CHR ''x'')) [''a'', ''/etc//b'', ''../c''] = Some ''/etc/c''"
proof -
  have "cwd_ok ''/home/u/''"
    by (simp add: cwd_ok_def node_is_absolute_posix_def without_trailing_slash_def MAX_PATH_BYTES_def)
  moreover have "pool_ok (\<lambda>n. replicate n (CHR ''x''))"
    by (simp add: pool_ok_def)
  moreover have "CHR ''/'' # render (CHR ''/'') (foldl follow (follow [] (without_trailing_slash ''/home/u/''))
      [''a'', ''/etc//b'', ''../c'']) = ''/etc/c''"
    by code_simp
  ultimately show ?thesis
    using resolve_js_follows [of "''/home/u/''" "\<lambda>n. replicate n (CHR ''x'')" "[''a'', ''/etc//b'', ''../c'']"]
    by metis
qed

text \<open>
  C23. Resolving against \<open>from\<close> what \<open>path.posix.relative\<close> answers leads where \<open>to\<close> leads, whatever the two
  paths and the current directory are.
\<close>

theorem relative_js_resolves:
  assumes "cwd_ok tld" and "pool_ok pool"
  shows "\<exists>r q. relative_js tld pool from_path to_path = Some r
    \<and> resolve_js tld pool [from_path, r] = Some q \<and> resolve_js tld pool [to_path] = Some q"
proof -
  let ?f = "placed tld from_path" and ?t = "placed tld to_path"
  obtain cs f t where split: "rev ?f = cs @ f" "rev ?t = cs @ t" "f = [] \<or> t = [] \<or> hd f \<noteq> hd t"
    by (rule longest_common_prefix_split)
  then have places: "?f = rev (cs @ f)" "?t = rev (cs @ t)"
    by (metis rev_rev_ident)+
  define n where "n = relative_js_len from_path to_path + 1"
  have slab: "length (pool (n * 3)) = n * 3"
    using assms(2) unfolding pool_ok_def by blast
  have "relative_js tld pool from_path to_path = Some (relative_names f t)"
    unfolding relative_js_def Let_def n_def [symmetric]
    using slab by (intro relative_posix_spec [OF assms(1) places split(3) n_def]) simp_all
  moreover have "follow ?f (relative_names f t) = ?t"
    using follow_relative_names [of cs f t] resolved_placed [of tld] places by metis
  ultimately show ?thesis
    using resolve_js_place [OF assms] by (simp add: placed_def)
qed

theorem relative_js_resolves_witness:
  "\<exists>r q. relative_js ''/home/u'' (\<lambda>n. replicate n (CHR ''x'')) ''ab/c'' ''../abd'' = Some r
    \<and> resolve_js ''/home/u'' (\<lambda>n. replicate n (CHR ''x'')) [''ab/c'', r] = Some q
    \<and> resolve_js ''/home/u'' (\<lambda>n. replicate n (CHR ''x'')) [''../abd''] = Some q"
  by (rule relative_js_resolves)
    (simp_all add: cwd_ok_def node_is_absolute_posix_def without_trailing_slash_def MAX_PATH_BYTES_def pool_ok_def)

text \<open>A directory whose name ends in a backslash is taken for another one.\<close>

lemma trailing_slash_end_append: "n \<le> length s \<Longrightarrow> trailing_slash_end (s @ u) n = trailing_slash_end s n"
  by (induction n) (auto simp: nth_append)

lemma cwd_loses_backslash:
  assumes "d \<noteq> []"
  shows "without_trailing_slash (d @ [CHR 0x5C]) = without_trailing_slash d"
  using assms trailing_slash_end_append [of "length d" d "[CHR 0x5C]"] trailing_slash_end_le [of d "length d"]
  by (simp add: without_trailing_slash_def nth_append)

text \<open>
  The bundler's \<open>join_abs\<close> is documented as the equivalent of \<open>path.resolve\<close>. It keeps a trailing slash and
  takes a backslash, which POSIX allows in names, for a separator, and \<open>path.resolve\<close> does neither.
\<close>

lemma join_abs_concrete:
  assumes "length part < 20" and "\<not> is_absolute_posix part"
  shows "\<exists>b. join_abs_string_buf Posix (replicate 4096 (CHR 0x00)) ''/home'' (replicate 40 (CHR 0x00)) [part]
    = Some (b, resolve_path ''/home'' [part])"
  by (rule join_abs_string_buf_resolves [where base = "''/home''" and rest = "[part]"])
    (use assms in \<open>simp_all add: MAX_PATH_BYTES_def last_absolute_def is_absolute_posix_def scratch_total_def\<close>)

lemma resolve_js_concrete:
  "resolve_js ''/home'' (\<lambda>n. replicate n (CHR 0x00)) [part] = Some (CHR ''/'' # render (CHR ''/'') (follow [''home''] part))"
proof -
  have "cwd_ok ''/home''"
    by (simp add: cwd_ok_def node_is_absolute_posix_def without_trailing_slash_def MAX_PATH_BYTES_def)
  moreover have "pool_ok (\<lambda>n. replicate n (CHR 0x00))"
    by (simp add: pool_ok_def)
  moreover have "follow [] (without_trailing_slash ''/home'') = [''home'']"
    by code_simp
  ultimately show ?thesis
    using resolve_js_place [of "''/home''" "\<lambda>n. replicate n (CHR 0x00)" "[part]"] by simp
qed

lemma join_abs_unlike_resolve:
  "(\<exists>b. join_abs_string_buf Posix (replicate 4096 (CHR 0x00)) ''/home'' (replicate 40 (CHR 0x00)) [''a/'']
      = Some (b, ''/home/a/'')) \<and> resolve_js ''/home'' (\<lambda>n. replicate n (CHR 0x00)) [''a/''] = Some ''/home/a''"
  "(\<exists>b. join_abs_string_buf Posix (replicate 4096 (CHR 0x00)) ''/home'' (replicate 40 (CHR 0x00)) [''..'' @ [CHR 0x5C] @ ''a'']
      = Some (b, ''/a''))
    \<and> resolve_js ''/home'' (\<lambda>n. replicate n (CHR 0x00)) [''..'' @ [CHR 0x5C] @ ''a''] = Some (''/home/..'' @ [CHR 0x5C] @ ''a'')"
proof -
  have "resolve_path ''/home'' [''a/''] = ''/home/a/''" "resolve_path ''/home'' [''..'' @ [CHR 0x5C] @ ''a''] = ''/a''"
    "render (CHR ''/'') (follow [''home''] ''a/'') = ''home/a''"
    "render (CHR ''/'') (follow [''home''] (''..'' @ [CHR 0x5C] @ ''a'')) = ''home/..'' @ [CHR 0x5C] @ ''a''"
    by code_simp+
  then show
    "(\<exists>b. join_abs_string_buf Posix (replicate 4096 (CHR 0x00)) ''/home'' (replicate 40 (CHR 0x00)) [''a/'']
        = Some (b, ''/home/a/'')) \<and> resolve_js ''/home'' (\<lambda>n. replicate n (CHR 0x00)) [''a/''] = Some ''/home/a''"
    "(\<exists>b. join_abs_string_buf Posix (replicate 4096 (CHR 0x00)) ''/home'' (replicate 40 (CHR 0x00)) [''..'' @ [CHR 0x5C] @ ''a'']
        = Some (b, ''/a''))
      \<and> resolve_js ''/home'' (\<lambda>n. replicate n (CHR 0x00)) [''..'' @ [CHR 0x5C] @ ''a''] = Some (''/home/..'' @ [CHR 0x5C] @ ''a'')"
    using join_abs_concrete [of "''a/''"] join_abs_concrete [of "''..'' @ [CHR 0x5C] @ ''a''"]
    by (simp_all add: resolve_js_concrete is_absolute_posix_def)
qed

end
