(* ===== verification/Spec2Isabelle.thy ===== *)
theory Spec2Isabelle
  imports Bun_Prelude Bun_Strings Wyhash11 Semver_String Semver_Version Semver_Range Semver_Query
    Linear_Fifo Channel Bit_Set Dynamic_Bit_Set Static_Hash_Map Base64 Vlq Futex_Mutex Rw_Lock Glob Glob_Spec
    Path_Spec Path_Normalize Path_Join Path_Resolve Path_Relative Node_Path Node_Path_Resolve
begin

text \<open>
  A verification development for the Rust sources of Bun, under \<open>src/src/\<close>.

  Bun is a JavaScript runtime, package manager, bundler and test runner. Most of its Rust code drives
  JavaScriptCore, the operating system or a parser generator's worth of syntax trees. The development
  models the self-contained algorithmic crates below those layers, whose code decides answers by itself:
  the semantic versioning of the package manager with the string storage of its lockfile, the hash that
  this storage is keyed by, the containers and locks that threads share, the text codecs of source maps
  and data URLs, the path arithmetic of the bundler and of Node's \<open>path\<close> module, and the glob matcher.

  \<^bold>\<open>Conventions.\<close> A \<open>u8\<close> is a character and a \<open>&[u8]\<close> a string; \<open>u32\<close>, \<open>u64\<close> and \<open>i32\<close> are words of
  that width, so that arithmetic wraps and shifts drop bits as in the code; a \<open>usize\<close> that only indexes
  memory is a natural number. A function that may panic (an index out of range, an overflow that is
  checked, an \<open>unwrap\<close>) returns an option with \<open>None\<close> for the panic; \<open>Result\<close> is a sum with the error on
  the left. Mutable state is a record that operations return updated. Atomic operations of threads are
  steps of a step relation over the memory and the threads' places.

  \<^bold>\<open>Bun_Prelude.\<close> Machine types, \<open>Ordering\<close>, byte classes, slices, index loops, little-endian numbers,
  counting of threads, and the locale \<open>safe_steps\<close>: an invariant that the start has and every step keeps
  holds in every reachable state. The locks interpret it.

  \<^bold>\<open>Bun_Strings\<close> (\<open>bun_core/fmt.rs\<close>, \<open>bun_core/string/immutable.rs\<close>, \<open>bun_alloc/lib.rs\<close>). The integer
  parsers, trimming and splitting that the semver code calls.

  \<^bold>\<open>Wyhash11\<close> (\<open>wyhash/lib.rs\<close>). The stateless hash on the whole input and the streaming one with its
  32-byte buffer. The locale \<open>streaming_hash\<close> is the contract of a streaming hash; its interpretation
  gives \<open>wyhash11_streaming\<close>: any chunking of the input hashes to the one-shot value.

  \<^bold>\<open>Semver_String\<close> (\<open>semver/lib.rs\<close>). \<open>String\<close>, an 8-byte handle that holds up to 8 bytes inline or an
  offset and a length into a buffer, with zero bytes as the padding of the inline form; \<open>Buf\<close> and \<open>Builder\<close>, which fill such a buffer with a hash table of
  what it holds. The locale \<open>string_store\<close> is the contract that handles read back what was stored, now
  and after later additions; both builders interpret it.

  \<^bold>\<open>Semver_Version\<close> (\<open>semver/Version.rs\<close>). Versions and tags, their parser with its loops over bytes,
  printing, comparison. The order is proved to be that of semver 2.0 keys, and printing and parsing to
  be inverse.

  \<^bold>\<open>Semver_Range, Semver_Query\<close> (\<open>semver/SemverRange.rs\<close>, \<open>semver/SemverQuery.rs\<close>). Comparators,
  ranges, and requirements as linked chains with tail pointers, their parser, satisfaction and printing.
  The chains are proved to implement a list of alternatives that are lists of ranges, the parser to
  terminate without a panic, and \<open>^\<close>, \<open>~\<close>, exact and wildcard requirements to admit the versions that
  they should.

  \<^bold>\<open>Linear_Fifo\<close> (\<open>collections/linear_fifo.rs\<close>). The ring buffer over its three kinds of storage. Its
  abstraction is the list of its items; the locale \<open>fifo_queue\<close> is the queue contract that \<open>Channel\<close>
  relies on.

  \<^bold>\<open>Bit_Set, Dynamic_Bit_Set\<close> (\<open>collections/bit_set.rs\<close>). Sets of indices in one word, in an array of
  words and on the heap, several of them in one buffer, and the iterator over the words. The abstraction
  is the set of members; the locale \<open>bit_set\<close> is what the three kinds of set promise alike, and each of
  them interprets it. The allocator is a parameter, so that every answer of it is covered: resizing keeps
  the words, the padding and the length header consistent also when the allocator refuses.

  \<^bold>\<open>Static_Hash_Map\<close> (\<open>collections/StaticHashMap.rs\<close>). The Robin Hood table behind \<open>StaticHashMap\<close> and
  \<open>HashMap\<close>, with hash and equality of keys as a parameter. Its invariant (entries in the order of their
  hashes, none before its slot, no gap between its slot and it) is kept by insertion, deletion with its
  shift back, and growth; on keys with different hashes the table is a map. The default key, which empty
  entries carry, is found in an empty map.

  \<^bold>\<open>Channel\<close> (\<open>threading/channel.rs\<close>, \<open>threading/Condition.rs\<close>). A bounded channel over the ring buffer.
  An operation is modelled from one wait to the next, as the mutex makes these parts atomic, and threads
  interleave them with any wake-ups that condition variables allow.

  \<^bold>\<open>Futex_Mutex\<close> (\<open>threading/Mutex.rs\<close>), \<^bold>\<open>Rw_Lock\<close> (\<open>threading/RwLock.rs\<close>). The mutex over a futex word
  and the readers-writer lock over a word, a mutex and a semaphore, one atomic access per step. Mutual
  exclusion is proved for every interleaving, for the mutex also that no sleeper is forgotten; for the
  readers-writer lock it fails for \<open>try_lock\<close>, which a run shows.

  \<^bold>\<open>Base64, Vlq\<close> (\<open>base64/lib.rs\<close>). The base64 encoder and decoders over destinations of given size, with
  their size computations, and the variable-length integers of source maps, which share the alphabet.

  \<^bold>\<open>Path_Spec, Path_Normalize, Path_Join, Path_Resolve, Path_Relative\<close> (\<open>paths/resolve_path.rs\<close>, with parts of
  \<open>paths/lib.rs\<close>, \<open>paths/Path.rs\<close>). \<open>Path_Spec\<close> says what normalising means: segments resolved on a stack.
  \<open>Path_Normalize\<close> has the platforms, the Windows volumes and the in-place normaliser that all entry points
  share, which is proved to compute that stack; \<open>Path_Join\<close> has the normalisers and joins above it,
  \<open>Path_Resolve\<close> the resolution of parts against a directory, and \<open>Path_Relative\<close> dirname, basename, the
  parent test, the longest common path and relative paths. They are modelled as compiled for Linux, on
  bytes; a buffer is the list of its bytes, with whatever content it had, and its size decides about
  panics. The working directory and the pooled scratch buffer are parameters. Joining is idempotent, and
  resolving a relative path undoes taking it for names without backslashes; that \<open>join_abs\<close> is not quite
  \<open>path.resolve\<close>, that \<open>normalize_buf\<close> confuses absolute with relative paths,
  that the parent test looks anywhere in the child, that a longest common path of nine skips bytes and
  that \<open>..\<close> removes a network share are proved as the code has them.

  \<^bold>\<open>Node_Path, Node_Path_Resolve\<close> (\<open>runtime/node/path.rs\<close>). \<open>normalize\<close>, \<open>join\<close>, \<open>resolve\<close> and \<open>relative\<close> of
  \<open>path.posix\<close>, with the buffers that their JavaScript entry points take from the pool, which are proved
  to suffice. The normaliser, written independently of the one above, is proved equal to it except where
  it records the length of the first segment two short; \<open>resolve\<close> follows its paths from the current
  directory, and undoes \<open>relative\<close>. The pool and the top-level directory are parameters.

  \<^bold>\<open>Glob, Glob_Spec\<close> (\<open>glob/matcher.rs\<close>). The matcher with all its syntax: one iteration of its main loop
  as a function on its state, the brace routines as functions of the matcher that they call for a branch.
  It is proved to return on every input, and on patterns of literals, \<open>?\<close> and \<open>*\<close> to agree with the
  matching relation that tries all extents of each star.

  \<^bold>\<open>Bounds and fuel.\<close> Semver offsets and lengths are 32 bits wide in the code: the parsers' theorems ask
  for inputs below 4 GiB. The readers-writer lock counts in 31 bits, so its theorem is about fewer than
  \<open>2 ^ 31\<close> threads. Only two models take fuel: \<open>glob_match\<close>, whose theorem says that some fuel suffices
  for each input and that more changes nothing, and \<open>Query_parse\<close>'s loops, which take the length of the
  input that they shorten in each round. Other loops are functions with termination proofs.

  \<^bold>\<open>Not modelled.\<close> Everything that is mostly effects on the operating system, the JavaScript engine or
  third-party libraries (\<open>sys\<close>, \<open>io\<close>, \<open>event_loop\<close>, \<open>runtime\<close> but for the file above, \<open>jsc\<close>, \<open>http\<close>, \<open>uws\<close>, the \<open>_sys\<close>
  crates), whose behaviour is not under \<open>src/\<close>; the parser, printer, bundler, resolver, CSS and SQL
  crates, which are too large for a faithful model here; in the modelled files, the Windows and macOS
  locks (calls of the system), the SIMD paths of base64 (calls of a C++ library), the 16-bit instances and
  thread-local wrappers of the path functions, \<open>basename\<close>, \<open>dirname\<close>, \<open>extname\<close>, \<open>parse\<close> and \<open>format\<close> of Node's
  \<open>path\<close> and all of its \<open>path.win32\<close>, coloured printing and debug assertions.
\<close>

end
